(* ===== verification/Prelude.thy ===== *)
theory Prelude
  imports Main "HOL-Library.Word"
begin

unbundle bit_operations_syntax

text \<open>
  Shared vocabulary of the development: the Go types the models use, names for the bytes
  the JSON grammar mentions, the reference search \<open>find_from\<close> every scanner is
  compared with, and the generic lemmas on lists and bits the components share.

  A Go \<^verbatim>\<open>[]byte\<close> is a list of 8-bit words. An offset into it is a \<open>nat\<close>: every offset
  the modelled code computes is non-negative, and slices are shorter than $2^{63}$, so Go's
  \<^verbatim>\<open>int\<close> does not wrap on them. Integers whose width matters (SWAR words, tape words,
  magnitudes, runes) are kept as words.
\<close>

type_synonym byte = "8 word"
type_synonym bytes = "8 word list"
type_synonym u32 = "32 word"
type_synonym u64 = "64 word"

named_theorems byte_defs "byte classes and byte constants, unfolded for evaluation"
named_theorems scan_step "one-step equations of the scanners"

section \<open>Bytes of the grammar\<close>

abbreviation ch_quote :: byte where "ch_quote \<equiv> 0x22"
abbreviation ch_bslash :: byte where "ch_bslash \<equiv> 0x5C"
abbreviation ch_slash :: byte where "ch_slash \<equiv> 0x2F"
abbreviation ch_lbrace :: byte where "ch_lbrace \<equiv> 0x7B"
abbreviation ch_rbrace :: byte where "ch_rbrace \<equiv> 0x7D"
abbreviation ch_lbrack :: byte where "ch_lbrack \<equiv> 0x5B"
abbreviation ch_rbrack :: byte where "ch_rbrack \<equiv> 0x5D"
abbreviation ch_comma :: byte where "ch_comma \<equiv> 0x2C"
abbreviation ch_colon :: byte where "ch_colon \<equiv> 0x3A"
abbreviation ch_minus :: byte where "ch_minus \<equiv> 0x2D"
abbreviation ch_plus :: byte where "ch_plus \<equiv> 0x2B"
abbreviation ch_dot :: byte where "ch_dot \<equiv> 0x2E"
abbreviation ch_0 :: byte where "ch_0 \<equiv> 0x30"
abbreviation ch_9 :: byte where "ch_9 \<equiv> 0x39"
abbreviation ch_E :: byte where "ch_E \<equiv> 0x45"
abbreviation ch_e :: byte where "ch_e \<equiv> 0x65"
abbreviation ch_t :: byte where "ch_t \<equiv> 0x74"
abbreviation ch_f :: byte where "ch_f \<equiv> 0x66"
abbreviation ch_n :: byte where "ch_n \<equiv> 0x6E"
abbreviation ch_u :: byte where "ch_u \<equiv> 0x75"
abbreviation ch_b :: byte where "ch_b \<equiv> 0x62"
abbreviation ch_r :: byte where "ch_r \<equiv> 0x72"
abbreviation ch_space :: byte where "ch_space \<equiv> 0x20"
abbreviation ch_tab :: byte where "ch_tab \<equiv> 0x09"
abbreviation ch_lf :: byte where "ch_lf \<equiv> 0x0A"
abbreviation ch_cr :: byte where "ch_cr \<equiv> 0x0D"

text \<open>The bytes of an ASCII literal, Go's \<^verbatim>\<open>[]byte("...")\<close>.\<close>

definition lit :: "string \<Rightarrow> bytes" where
  "lit s = map of_char s"

section \<open>Slices\<close>

text \<open>\<open>cut xs i j\<close> is Go's \<^verbatim>\<open>xs[i:j]\<close>; its uses guarantee \<open>i \<le> j \<le> len\<close>.\<close>

definition cut :: "'a list \<Rightarrow> nat \<Rightarrow> nat \<Rightarrow> 'a list" where
  "cut xs i j = take (j - i) (drop i xs)"

lemma length_cut [simp]: "j \<le> length xs \<Longrightarrow> length (cut xs i j) = j - i"
  by (simp add: cut_def)

lemma cut_empty [simp]: "j \<le> i \<Longrightarrow> cut xs i j = []"
  by (simp add: cut_def)

lemma nth_cut: "j \<le> length xs \<Longrightarrow> k < j - i \<Longrightarrow> cut xs i j ! k = xs ! (i + k)"
  by (simp add: cut_def)

lemma cut_Cons: "i < j \<Longrightarrow> j \<le> length xs \<Longrightarrow> cut xs i j = xs ! i # cut xs (Suc i) j"
  by (simp add: cut_def Cons_nth_drop_Suc [symmetric] take_Cons' Suc_diff_Suc)

lemma cut_append: "i \<le> j \<Longrightarrow> j \<le> k \<Longrightarrow> k \<le> length xs \<Longrightarrow> cut xs i j @ cut xs j k = cut xs i k"
proof -
  assume a: "i \<le> j" "j \<le> k" "k \<le> length xs"
  have "take (k - i) (drop i xs) = take ((j - i) + (k - j)) (drop i xs)"
    using a by simp
  also have "\<dots> = take (j - i) (drop i xs) @ take (k - j) (drop (j - i) (drop i xs))"
    by (rule take_add)
  finally show ?thesis using a by (simp add: cut_def)
qed

lemma set_cut: "j \<le> length xs \<Longrightarrow> set (cut xs i j) = (\<lambda>k. xs ! k) ` {i..<j}"
proof -
  assume j: "j \<le> length xs"
  have "x \<in> set (cut xs i j) \<longleftrightarrow> x \<in> (\<lambda>k. xs ! k) ` {i..<j}" for x
  proof
    assume "x \<in> set (cut xs i j)"
    then obtain k where k: "k < length (cut xs i j)" "cut xs i j ! k = x"
      by (auto simp: in_set_conv_nth)
    then have "i + k \<in> {i..<j}" "xs ! (i + k) = x" using j by (auto simp: nth_cut)
    then show "x \<in> (\<lambda>k. xs ! k) ` {i..<j}" by blast
  next
    assume "x \<in> (\<lambda>k. xs ! k) ` {i..<j}"
    then obtain m where m: "i \<le> m" "m < j" "x = xs ! m" by auto
    then have "cut xs i j ! (m - i) = x" "m - i < length (cut xs i j)"
      using j by (auto simp: nth_cut)
    then show "x \<in> set (cut xs i j)" using nth_mem by blast
  qed
  then show ?thesis by blast
qed

section \<open>Reference search\<close>

text \<open>
  \<open>find_from P xs i\<close> is the first index at or past \<open>i\<close> whose element satisfies \<open>P\<close>, or
  \<open>length xs\<close> when there is none: what every forward scan of the code computes.
\<close>

function find_from :: "('a \<Rightarrow> bool) \<Rightarrow> 'a list \<Rightarrow> nat \<Rightarrow> nat" where
  "find_from P xs i =
     (if i < length xs then (if P (xs ! i) then i else find_from P xs (Suc i)) else length xs)"
  by pat_completeness auto
termination by (relation "measure (\<lambda>(P, xs, i). length xs - i)") auto

declare find_from.simps [simp del]

lemma find_from_end [simp]: "length xs \<le> i \<Longrightarrow> find_from P xs i = length xs"
  by (simp add: find_from.simps)

lemma find_from_hit [simp]: "i < length xs \<Longrightarrow> P (xs ! i) \<Longrightarrow> find_from P xs i = i"
  by (simp add: find_from.simps)

lemma find_from_miss: "i < length xs \<Longrightarrow> \<not> P (xs ! i) \<Longrightarrow> find_from P xs i = find_from P xs (Suc i)"
  by (simp add: find_from.simps)

lemma find_from_le [simp]: "find_from P xs i \<le> length xs"
proof (induction P xs i rule: find_from.induct)
  case (1 P xs i)
  then show ?case by (cases "i < length xs"; cases "P (xs ! i)") (auto simp: find_from_miss)
qed

lemma find_from_ge: "i \<le> length xs \<Longrightarrow> i \<le> find_from P xs i"
proof (induction P xs i rule: find_from.induct)
  case (1 P xs i)
  then show ?case
    by (cases "i < length xs"; cases "P (xs ! i)") (force simp: find_from_miss)+
qed

lemma find_from_found: "find_from P xs i < length xs \<Longrightarrow> P (xs ! find_from P xs i)"
proof (induction P xs i rule: find_from.induct)
  case (1 P xs i)
  then show ?case
    by (cases "i < length xs"; cases "P (xs ! i)") (auto simp: find_from_miss)
qed

lemma find_from_before: "i \<le> k \<Longrightarrow> k < find_from P xs i \<Longrightarrow> \<not> P (xs ! k)"
proof (induction P xs i rule: find_from.induct)
  case (1 P xs i)
  show ?case
  proof (cases "i < length xs \<and> \<not> P (xs ! i)")
    case True
    show ?thesis
    proof (cases "k = i")
      case False
      with 1 True show ?thesis by (auto simp: find_from_miss)
    qed (use True in simp)
  next
    case False
    with 1 show ?thesis
      by (cases "i < length xs") (auto dest: less_le_trans [OF _ find_from_le])
  qed
qed

lemma find_from_eqI:
  assumes "i \<le> m" "m \<le> length xs" "m < length xs \<Longrightarrow> P (xs ! m)"
    and "\<And>k. i \<le> k \<Longrightarrow> k < m \<Longrightarrow> \<not> P (xs ! k)"
  shows "find_from P xs i = m"
proof (rule ccontr)
  assume "find_from P xs i \<noteq> m"
  then consider "find_from P xs i < m" | "m < find_from P xs i" by linarith
  then show False
  proof cases
    case 1
    have "P (xs ! find_from P xs i)" using 1 assms(2) by (intro find_from_found [of P xs i]) simp
    moreover have "\<not> P (xs ! find_from P xs i)"
      using 1 assms(1,2) by (intro assms(4) find_from_ge) simp_all
    ultimately show False by simp
  next
    case 2
    have "m < length xs" using 2 find_from_le [of P xs i] by linarith
    then have "P (xs ! m)" by (rule assms(3))
    moreover have "\<not> P (xs ! m)" using 2 assms(1) by (rule find_from_before [rotated])
    ultimately show False by simp
  qed
qed

lemma find_from_skip:
  "i \<le> m \<Longrightarrow> m \<le> length xs \<Longrightarrow> (\<And>k. i \<le> k \<Longrightarrow> k < m \<Longrightarrow> \<not> P (xs ! k)) \<Longrightarrow>
   find_from P xs i = find_from P xs m"
proof (rule find_from_eqI)
  assume a: "i \<le> m" "m \<le> length xs" and n: "\<And>k. i \<le> k \<Longrightarrow> k < m \<Longrightarrow> \<not> P (xs ! k)"
  show "i \<le> find_from P xs m" using a find_from_ge [of m xs P] by linarith
  show "find_from P xs m < length xs \<Longrightarrow> P (xs ! find_from P xs m)" by (rule find_from_found)
  show "\<not> P (xs ! k)" if "i \<le> k" "k < find_from P xs m" for k
    using that n find_from_before [of m k P xs] by (cases "k < m") auto
qed simp

lemma find_from_idem: "find_from P xs (find_from P xs i) = find_from P xs i"
proof (cases "find_from P xs i < length xs")
  case False
  then have "find_from P xs i = length xs" using find_from_le [of P xs i] by linarith
  then show ?thesis by simp
qed (simp add: find_from_found)

lemma first_index:
  assumes "\<exists>x \<in> set xs. P x"
  obtains j where "j < length xs" "P (xs ! j)" "\<And>i. i < j \<Longrightarrow> \<not> P (xs ! i)"
proof -
  let ?j = "find_from P xs 0"
  obtain k where k: "k < length xs" "P (xs ! k)" using assms by (metis in_set_conv_nth)
  then have "?j \<le> k" using find_from_before [of 0 k P xs] by force
  then have "?j < length xs" using k by simp
  then show thesis using that find_from_found [of P xs 0] find_from_before [of 0 _ P xs] by blast
qed

section \<open>Facts decided over all bytes\<close>

text \<open>A property of one byte is decided by evaluating it on the 256 bytes.\<close>

definition all_bytes :: "(byte \<Rightarrow> bool) \<Rightarrow> bool" where
  "all_bytes P = list_all (\<lambda>n. P (word_of_nat n)) [0..<256]"

lemma all_bytesD: "all_bytes P \<Longrightarrow> P b"
proof -
  assume "all_bytes P"
  moreover have "unat b < 256" using unsigned_less [of b] by simp
  ultimately have "P (word_of_nat (unat b))" unfolding all_bytes_def list_all_iff by (metis atLeastLessThan_iff set_upt zero_le)
  then show ?thesis by simp
qed

lemma xor_byte_zero: "(v XOR c = 0) = (v = c)" for v c :: byte
  by (metis xor_self_eq xor.right_neutral xor.assoc xor.commute)

lemma replicate_8: "replicate 8 c = [c, c, c, c, c, c, c, c]"
  by (simp add: numeral_eq_Suc)

section \<open>Bytes of an integer\<close>

text \<open>
  The little-endian value of a byte list as an unbounded integer, and its bits: byte \<open>k\<close>
  holds the bits \<open>8 k\<close> to \<open>8 k + 7\<close>.
\<close>

fun le_int :: "bytes \<Rightarrow> int" where
  "le_int [] = 0"
| "le_int (b # bs) = uint b + 256 * le_int bs"

lemma byte_index_step:
  "8 \<le> n \<Longrightarrow> n div 8 = Suc ((n - 8) div 8)" "8 \<le> n \<Longrightarrow> (n - 8) mod 8 = n mod (8 :: nat)"
  by (simp_all add: le_div_geq le_mod_geq)

lemma uint_byte_bound [simp]: "uint (b :: byte) < 256" "0 \<le> uint (b :: byte)"
  using uint_lt2p [of b] by simp_all

lemma bit_byte_split:
  assumes "0 \<le> c" "c < 256"
  shows "bit (c + 256 * (t :: int)) n \<longleftrightarrow> (if n < 8 then bit c n else bit t (n - 8))"
proof -
  have "take_bit 8 c = c" using assms by (simp add: take_bit_int_eq_self)
  then have "c + 256 * t = concat_bit 8 c t"
    by (simp add: concat_bit_eq push_bit_eq_mult mult.commute)
  then show ?thesis by (simp add: bit_concat_bit_iff)
qed

lemma bit_le_int_Cons:
  "bit (le_int (b # bs)) n \<longleftrightarrow> (if n < 8 then bit b n else bit (le_int bs) (n - 8))"
  by (simp add: bit_byte_split bit_uint_iff)

lemma le_int_nonneg [simp]: "0 \<le> le_int bs"
  by (induction bs) auto

lemma le_int_bound: "le_int bs < 256 ^ length bs"
proof (induction bs)
  case (Cons b bs)
  have "uint b + 256 * le_int bs \<le> 255 + 256 * (256 ^ length bs - 1)"
    using Cons.IH uint_byte_bound(1) [of b] by (intro add_mono mult_left_mono) linarith+
  then show ?case by simp
qed simp

end
