(* ===== verification/GoStd.thy ===== *)
theory GoStd
  imports Prelude
begin

text \<open>
  The functions of the Go standard library the modelled code calls, defined as the library
  documents and implements them: \<^verbatim>\<open>encoding/binary\<close>'s little-endian load, \<^verbatim>\<open>math/bits\<close>, and
  \<^verbatim>\<open>unicode/utf8\<close>. A panic (an index out of range) is \<open>None\<close> of an \<open>option\<close>.
\<close>

section \<open>encoding/binary\<close>

text \<open>\<^verbatim>\<open>binary.LittleEndian.Uint64\<close> of eight bytes, and the load at an offset.\<close>

fun le64 :: "bytes \<Rightarrow> u64" where
  "le64 [] = 0"
| "le64 (b # bs) = ucast b OR push_bit 8 (le64 bs)"

definition load64 :: "bytes \<Rightarrow> nat \<Rightarrow> u64" where
  "load64 src i = le64 (take 8 (drop i src))"

lemma bit_le64:
  "bit (le64 bs) n \<longleftrightarrow> n < 64 \<and> n div 8 < length bs \<and> bit (bs ! (n div 8)) (n mod 8)"
proof (induction bs arbitrary: n)
  case (Cons b bs)
  show ?case
  proof (cases "n < 8")
    case True
    then show ?thesis by (simp add: bit_simps)
  next
    case False
    then have d: "n div 8 = Suc ((n - 8) div 8)" "(n - 8) mod 8 = n mod 8"
      by (simp_all add: byte_index_step)
    have "\<not> bit b n" if "n \<ge> 8" using that bit_imp_le_length [of b n] by auto
    with False Cons.IH [of "n - 8"] show ?thesis
      by (auto simp: bit_simps d)
  qed
qed simp

lemma le64_xor: "length xs = length ys \<Longrightarrow> le64 xs XOR le64 ys = le64 (map2 (XOR) xs ys)"
  by (rule bit_eqI) (auto simp: bit_simps bit_le64)

lemma le64_or: "length xs = length ys \<Longrightarrow> le64 xs OR le64 ys = le64 (map2 (OR) xs ys)"
  by (rule bit_eqI) (auto simp: bit_simps bit_le64)

lemma le64_and: "length xs = length ys \<Longrightarrow> le64 xs AND le64 ys = le64 (map2 (AND) xs ys)"
  by (rule bit_eqI) (auto simp: bit_simps bit_le64)

lemma uint_le64: "length bs \<le> 8 \<Longrightarrow> uint (le64 bs) = le_int bs"
proof (rule bit_eqI)
  fix n
  assume l: "length bs \<le> 8"
  have "bit (le_int bs) n \<longleftrightarrow> n div 8 < length bs \<and> bit (bs ! (n div 8)) (n mod 8)"
  proof (induction bs arbitrary: n)
    case (Cons b bs)
    show ?case
    proof (cases "n < 8")
      case False
      then show ?thesis
        using Cons.IH [of "n - 8"]
        by (simp add: bit_le_int_Cons byte_index_step del: le_int.simps)
    qed (simp add: bit_le_int_Cons del: le_int.simps)
  qed simp
  with l show "bit (uint (le64 bs)) n \<longleftrightarrow> bit (le_int bs) n"
    by (auto simp: bit_uint_iff bit_le64)
qed

lemma bit_le_int: "length bs \<le> 8 \<Longrightarrow> bit (le_int bs) n \<longleftrightarrow> bit (le64 bs) n"
  by (simp add: uint_le64 [symmetric] bit_uint_iff bit_le64)

section \<open>math/bits\<close>

definition TrailingZeros64 :: "u64 \<Rightarrow> nat" where
  "TrailingZeros64 w = length (takeWhile (\<lambda>i. \<not> bit w i) [0..<64])"

lemma TrailingZeros64_eqI:
  assumes "k < 64" "bit w k" "\<And>j. j < k \<Longrightarrow> \<not> bit w j"
  shows "TrailingZeros64 w = k"
proof -
  have "[0..<64] = [0..<k] @ k # [Suc k..<64]"
    using assms(1) upt_add_eq_append [of 0 k "64 - k"] by (simp add: upt_conv_Cons)
  then have "takeWhile (\<lambda>i. \<not> bit w i) [0..<64] = [0..<k]"
    using assms(2,3) by (simp add: takeWhile_append)
  then show ?thesis by (simp add: TrailingZeros64_def)
qed

lemma TrailingZeros64_less: "w \<noteq> 0 \<Longrightarrow> TrailingZeros64 w < 64"
proof -
  assume "w \<noteq> 0"
  then obtain n where n: "bit w n" by (metis bit_eq_iff bit_0_eq bot_apply bot_bool_def)
  then have "n < 64" using bit_imp_le_length [of w n] by simp
  obtain k where k: "bit w k" "\<And>j. j < k \<Longrightarrow> \<not> bit w j"
    using n exists_least_iff [of "bit w"] by blast
  moreover have "k < 64" using bit_imp_le_length [of w k] k(1) by simp
  ultimately show ?thesis by (simp add: TrailingZeros64_eqI)
qed

section \<open>unicode/utf8\<close>

definition RuneError :: u32 where "RuneError = 0xFFFD"
definition UTFMax :: nat where "UTFMax = 4"

text \<open>
  \<open>utf8_first\<close> is the library's \<^verbatim>\<open>first\<close> and \<^verbatim>\<open>acceptRanges\<close> tables: the length of the sequence
  a lead byte starts (0 for a byte that starts none) and the range of its second byte.
\<close>

definition utf8_first :: "byte \<Rightarrow> nat \<times> byte \<times> byte" where
  "utf8_first c =
     (if c < 0x80 then (1, 0x80, 0xBF)
      else if c < 0xC2 then (0, 0, 0)
      else if c < 0xE0 then (2, 0x80, 0xBF)
      else if c = 0xE0 then (3, 0xA0, 0xBF)
      else if c = 0xED then (3, 0x80, 0x9F)
      else if c < 0xF0 then (3, 0x80, 0xBF)
      else if c = 0xF0 then (4, 0x90, 0xBF)
      else if c < 0xF4 then (4, 0x80, 0xBF)
      else if c = 0xF4 then (4, 0x80, 0x8F)
      else (0, 0, 0))"

abbreviation cont_byte :: "byte \<Rightarrow> bool" where "cont_byte c \<equiv> 0x80 \<le> c \<and> c \<le> 0xBF"

text \<open>The length of the well-formed sequence at the head of \<open>p\<close>, 0 when there is none.\<close>

definition utf8_size :: "bytes \<Rightarrow> nat" where
  "utf8_size p =
     (case p of [] \<Rightarrow> 0
      | p0 # rest \<Rightarrow>
        (case utf8_first p0 of (n, lo, hi) \<Rightarrow>
           if n \<le> 1 then n
           else if length p < n then 0
           else if p ! 1 < lo \<or> hi < p ! 1 then 0
           else if n = 2 then 2
           else if \<not> cont_byte (p ! 2) then 0
           else if n = 3 then 3
           else if \<not> cont_byte (p ! 3) then 0
           else 4))"

lemma utf8_size_le: "utf8_size p \<le> length p"
  by (auto simp: utf8_size_def Suc_le_eq split: list.splits prod.splits if_splits)

function utf8_Valid :: "bytes \<Rightarrow> bool" where
  "utf8_Valid p =
     (if p = [] then True
      else if utf8_size p = 0 then False
      else utf8_Valid (drop (utf8_size p) p))"
  by pat_completeness auto
termination by (relation "measure length") auto

declare utf8_Valid.simps [simp del]

lemma utf8_Valid_Nil [simp]: "utf8_Valid []"
  by (simp add: utf8_Valid.simps)

definition DecodeRune :: "bytes \<Rightarrow> u32 \<times> nat" where
  "DecodeRune p =
     (if p = [] then (RuneError, 0)
      else case utf8_size p of
        0 \<Rightarrow> (RuneError, 1)
      | Suc 0 \<Rightarrow> (ucast (p ! 0), 1)
      | Suc (Suc 0) \<Rightarrow> (push_bit 6 (ucast (p ! 0 AND 0x1F)) OR ucast (p ! 1 AND 0x3F), 2)
      | Suc (Suc (Suc 0)) \<Rightarrow>
          (push_bit 12 (ucast (p ! 0 AND 0x0F)) OR push_bit 6 (ucast (p ! 1 AND 0x3F))
           OR ucast (p ! 2 AND 0x3F), 3)
      | _ \<Rightarrow>
          (push_bit 18 (ucast (p ! 0 AND 0x07)) OR push_bit 12 (ucast (p ! 1 AND 0x3F))
           OR push_bit 6 (ucast (p ! 2 AND 0x3F)) OR ucast (p ! 3 AND 0x3F), 4))"

text \<open>The bytes \<^verbatim>\<open>utf8.EncodeRune\<close> writes for a rune and \<^verbatim>\<open>utf8.AppendRune\<close> appends.\<close>

definition EncodeRune :: "u32 \<Rightarrow> bytes" where
  "EncodeRune r =
     (if r \<le> 0x7F then [ucast r]
      else if r \<le> 0x7FF then [0xC0 OR ucast (drop_bit 6 r), 0x80 OR (ucast r AND 0x3F)]
      else let r = (if r > 0x10FFFF \<or> (0xD800 \<le> r \<and> r \<le> 0xDFFF) then RuneError else r) in
        if r \<le> 0xFFFF then
          [0xE0 OR ucast (drop_bit 12 r), 0x80 OR (ucast (drop_bit 6 r) AND 0x3F),
           0x80 OR (ucast r AND 0x3F)]
        else
          [0xF0 OR ucast (drop_bit 18 r), 0x80 OR (ucast (drop_bit 12 r) AND 0x3F),
           0x80 OR (ucast (drop_bit 6 r) AND 0x3F), 0x80 OR (ucast r AND 0x3F)])"

lemma length_EncodeRune: "length (EncodeRune r) \<le> (if r \<le> 0x7F then 1 else if r \<le> 0xFFFF then 3 else 4)"
  by (auto simp: EncodeRune_def Let_def RuneError_def)

lemma EncodeRune_pos: "0 < length (EncodeRune r)"
  by (auto simp: EncodeRune_def Let_def)

end
