(* ===== verification/Swar.thy ===== *)
theory Swar
  imports GoStd
begin

text \<open>
  The SWAR primitives of \<^verbatim>\<open>internal/gdec\<close>: eight source bytes are loaded into one 64-bit
  word and a mask flags the interesting ones in their high bits. \<open>hasByte\<close>, \<open>QuoteOrEscapeMask\<close>
  and \<open>QuoteOrEscape\<close> are of str.go, \<open>hasLess\<close> of utf8.go, \<open>eqMask\<close> of extent.go.

  A mask may carry spurious flags above the first true match, so its contract, \<open>low_mask\<close>, only
  speaks of the flags up to that match. The locale \<open>swar_mask\<close> states it for a mask function and
  derives what the clients use: the mask is zero exactly when no byte matches, and its trailing
  zeros name the first match. The locale \<open>word_search\<close> lifts it to the search loop every
  scanner has, eight bytes at a time and then byte by byte.
\<close>

section \<open>The masks\<close>

definition lsb :: u64 where "lsb = 0x0101010101010101"
definition msb :: u64 where "msb = 0x8080808080808080"

definition hasByte :: "u64 \<Rightarrow> byte \<Rightarrow> u64" where
  "hasByte w b = (let x = w XOR (lsb * ucast b) in (x - lsb) AND NOT x AND msb)"

definition QuoteOrEscapeMask :: "u64 \<Rightarrow> u64" where
  "QuoteOrEscapeMask w = hasByte w ch_quote OR hasByte w ch_bslash"

definition hasLess :: "u64 \<Rightarrow> byte \<Rightarrow> u64" where
  "hasLess w n = (w - lsb * ucast n) AND NOT w AND msb"

definition eqMask :: "u64 \<Rightarrow> byte \<Rightarrow> u64" where
  "eqMask w c =
     (let low7 = NOT msb; x = w XOR (lsb * ucast c)
      in NOT (((x AND low7) + low7) OR x OR low7))"

section \<open>What a mask promises\<close>

definition low_mask :: "(byte \<Rightarrow> bool) \<Rightarrow> u64 \<Rightarrow> bytes \<Rightarrow> bool" where
  "low_mask P m bs \<longleftrightarrow>
     (\<forall>n. bit m n \<longrightarrow> n mod 8 = 7)
     \<and> (\<forall>j < 8. (\<forall>i \<le> j. \<not> P (bs ! i)) \<longrightarrow> \<not> bit m (8 * j + 7))
     \<and> (\<forall>j < 8. P (bs ! j) \<and> (\<forall>i < j. \<not> P (bs ! i)) \<longrightarrow> bit m (8 * j + 7))"

locale swar_mask =
  fixes P :: "byte \<Rightarrow> bool" and mask :: "u64 \<Rightarrow> u64"
  assumes low: "length bs = 8 \<Longrightarrow> low_mask P (mask (le64 bs)) bs"
begin

lemma mask_hit:
  assumes "length bs = 8" "j < 8" "P (bs ! j)" "\<And>i. i < j \<Longrightarrow> \<not> P (bs ! i)"
  shows "mask (le64 bs) \<noteq> 0" and "TrailingZeros64 (mask (le64 bs)) div 8 = j"
proof -
  note L = low [OF assms(1), unfolded low_mask_def]
  have b: "bit (mask (le64 bs)) (8 * j + 7)" using L assms by blast
  then show "mask (le64 bs) \<noteq> 0" by auto
  have "\<not> bit (mask (le64 bs)) n" if "n < 8 * j + 7" for n
  proof
    assume n: "bit (mask (le64 bs)) n"
    then have m: "n mod 8 = 7" using L by blast
    then have eq: "n = 8 * (n div 8) + 7" by presburger
    then have "n div 8 < j" using that by simp
    then have "\<not> bit (mask (le64 bs)) (8 * (n div 8) + 7)" using L assms(2,4) by simp
    with n eq show False by simp
  qed
  then have "TrailingZeros64 (mask (le64 bs)) = 8 * j + 7"
    using b assms(2) by (intro TrailingZeros64_eqI) auto
  then show "TrailingZeros64 (mask (le64 bs)) div 8 = j" by simp
qed

lemma mask_zero_iff:
  assumes "length bs = 8"
  shows "mask (le64 bs) = 0 \<longleftrightarrow> (\<forall>c \<in> set bs. \<not> P c)"
proof
  assume z: "mask (le64 bs) = 0"
  show "\<forall>c \<in> set bs. \<not> P c"
  proof (rule ccontr)
    assume "\<not> (\<forall>c \<in> set bs. \<not> P c)"
    then have "\<exists>c \<in> set bs. P c" by simp
    then obtain j where "j < length bs" "P (bs ! j)" "\<And>i. i < j \<Longrightarrow> \<not> P (bs ! i)"
      by (rule first_index) blast
    then have "mask (le64 bs) \<noteq> 0" using assms by (intro mask_hit(1)) auto
    with z show False by simp
  qed
next
  assume n: "\<forall>c \<in> set bs. \<not> P c"
  show "mask (le64 bs) = 0"
  proof (rule bit_eqI)
    fix k :: nat
    assume k: "possible_bit TYPE(64 word) k"
    have "\<not> bit (mask (le64 bs)) k"
    proof
      assume b: "bit (mask (le64 bs)) k"
      then have "k mod 8 = 7" using low [OF assms] by (auto simp: low_mask_def)
      then have eq: "k = 8 * (k div 8) + 7" by presburger
      have "k div 8 < 8" using k by (simp add: less_mult_imp_div_less)
      then have "\<not> bit (mask (le64 bs)) (8 * (k div 8) + 7)"
        using low [OF assms] n assms by (auto simp: low_mask_def)
      with b eq show False by simp
    qed
    then show "bit (mask (le64 bs)) k \<longleftrightarrow> bit (0 :: u64) k" by simp
  qed
qed

end

section \<open>Borrows stay above the first match\<close>

lemma lsb_mult: "lsb * ucast c = le64 (replicate 8 c)"
proof -
  have "uint (le64 (replicate 8 c)) = le_int (replicate 8 c)"
    by (rule uint_le64) simp
  also have "\<dots> = 0x0101010101010101 * uint c"
    by (simp add: replicate_8)
  finally have "le64 (replicate 8 c) = word_of_int (0x0101010101010101 * uint c)"
    by (metis word_of_int_uint)
  also have "\<dots> = word_of_int 0x0101010101010101 * word_of_int (uint c)"
    by (rule wi_hom_mult [symmetric])
  finally show ?thesis by (simp only: lsb_def word_of_int_numeral ucast_eq)
qed

text \<open>
  Subtracting the same constant \<open>c \<le> 128\<close> from every byte borrows first at the first byte
  below \<open>c\<close>: up to it the bytes of the difference are the differences of the bytes.
\<close>

lemma bit_le_int_7:
  "j < length xs \<Longrightarrow> bit (le_int xs) (8 * j + 7) \<longleftrightarrow> bit (xs ! j) 7"
proof (induction xs arbitrary: j)
  case (Cons b xs)
  show ?case
  proof (cases j)
    case (Suc k)
    then show ?thesis
      using Cons.IH [of k] Cons.prems by (simp add: bit_le_int_Cons add.commute del: le_int.simps)
  qed (simp add: bit_le_int_Cons del: le_int.simps)
qed simp

lemma int_high_bit: "0 \<le> x \<Longrightarrow> x < 256 \<Longrightarrow> bit (x :: int) 7 \<longleftrightarrow> 128 \<le> x"
proof -
  assume "0 \<le> x" "x < 256"
  then have "x div 128 = (if 128 \<le> x then 1 else 0)"
    by (auto simp: div_pos_pos_trivial intro: div_pos_geq [of 128 x, THEN trans])
  then show ?thesis by (simp add: bit_iff_odd)
qed

lemma byte_high_bit: "bit (b :: byte) 7 \<longleftrightarrow> 0x80 \<le> b"
  using int_high_bit [of "uint b"] by (simp add: bit_uint_iff word_le_def)

lemma sub_bytes_bit:
  assumes "uint c \<le> 128"
  shows "j < length xs \<Longrightarrow> (\<And>i. i < j \<Longrightarrow> c \<le> xs ! i) \<Longrightarrow>
    bit (le_int xs - le_int (replicate (length xs) c)) (8 * j + 7) \<and> \<not> bit (le_int xs) (8 * j + 7)
    \<longleftrightarrow> xs ! j < c"
proof (induction xs arbitrary: j)
  case (Cons b xs)
  define d where "d = le_int xs - le_int (replicate (length xs) c)"
  have D: "le_int (b # xs) - le_int (replicate (length (b # xs)) c) = (uint b - uint c) + 256 * d"
    by (simp add: d_def)
  show ?case
  proof (cases j)
    case 0
    show ?thesis
    proof (cases "c \<le> b")
      case True
      then have r: "0 \<le> uint b - uint c" "uint b - uint c < 256"
        by (simp_all add: word_le_def) (use uint_byte_bound [of b] uint_byte_bound [of c] in linarith)
      have "128 \<le> uint b - uint c \<Longrightarrow> 128 \<le> uint b" using uint_byte_bound(2) [of c] by linarith
      with r True 0 show ?thesis
        unfolding D
        by (auto simp: bit_byte_split bit_le_int_Cons int_high_bit byte_high_bit word_le_def
            word_less_def simp del: le_int.simps)
    next
      case False
      define e where "e = uint b - uint c + 256"
      have D': "(uint b - uint c) + 256 * d = e + 256 * (d - 1)" by (simp add: e_def)
      have lt: "uint b < uint c" using False by (simp add: word_le_def)
      then have "128 \<le> e" "e < 256" "uint b < 128"
        unfolding e_def using assms uint_byte_bound(2) [of b] by linarith+
      moreover from this have "bit (e + 256 * (d - 1)) 7"
        by (subst bit_byte_split) (simp_all add: int_high_bit)
      ultimately show ?thesis
        unfolding D D' using lt 0
        by (simp add: bit_le_int_Cons byte_high_bit word_le_def word_less_def
            del: le_int.simps)
    qed
  next
    case (Suc k)
    then have "c \<le> b" using Cons.prems(2) [of 0] by simp
    then have r: "0 \<le> uint b - uint c" "uint b - uint c < 256"
      by (simp_all add: word_le_def) (use uint_byte_bound [of b] uint_byte_bound [of c] in linarith)
    have "c \<le> xs ! i" if "i < k" for i using Cons.prems(2) [of "Suc i"] that Suc by simp
    then have "bit d (8 * k + 7) \<and> \<not> bit (le_int xs) (8 * k + 7) \<longleftrightarrow> xs ! k < c"
      unfolding d_def using Cons.prems(1) Suc by (intro Cons.IH) auto
    with r Suc show ?thesis
      unfolding D
      by (simp add: bit_byte_split bit_le_int_Cons add.commute del: le_int.simps)
  qed
qed simp

lemma bit_msb: "bit msb n \<longleftrightarrow> n < 64 \<and> n mod 8 = 7"
proof -
  have m: "msb = le64 (replicate 8 (2 ^ 7))" by (simp add: msb_def replicate_8)
  have "n < 64 \<Longrightarrow> n div 8 < 8" by (simp add: less_mult_imp_div_less)
  then show ?thesis unfolding m bit_le64
    by (auto simp: bit_exp_iff simp del: power_numeral)
qed

lemma bit_word_diff:
  "bit (v - w :: u64) n \<longleftrightarrow> n < 64 \<and> bit (uint v - uint w) n"
proof -
  have "v - w = word_of_int (uint v - uint w)" by simp
  then show ?thesis by (simp only: bit_word_of_int_iff) simp
qed

lemma less_mask:
  assumes "length bs = 8" "uint c \<le> 128"
  shows "low_mask (\<lambda>b. b < c) ((le64 bs - le64 (replicate 8 c)) AND NOT (le64 bs) AND msb) bs"
proof -
  let ?m = "(le64 bs - le64 (replicate 8 c)) AND NOT (le64 bs) AND msb"
  have flag: "bit ?m (8 * j + 7) \<longleftrightarrow> bs ! j < c" if "j < 8" "\<And>i. i < j \<Longrightarrow> \<not> bs ! i < c" for j
  proof -
    have "bit ?m (8 * j + 7) \<longleftrightarrow>
      bit (le_int bs - le_int (replicate (length bs) c)) (8 * j + 7) \<and> \<not> bit (le_int bs) (8 * j + 7)"
      using that assms(1)
      by (simp add: bit_and_iff bit_not_iff bit_msb bit_word_diff uint_le64 bit_le_int)
    also have "\<dots> \<longleftrightarrow> bs ! j < c"
      using that assms by (intro sub_bytes_bit) (auto simp: not_less)
    finally show ?thesis .
  qed
  show ?thesis
    unfolding low_mask_def using flag by (auto simp: bit_and_iff bit_msb)
qed

lemma low_mask_or:
  "low_mask P m bs \<Longrightarrow> low_mask Q k bs \<Longrightarrow> low_mask (\<lambda>b. P b \<or> Q b) (m OR k) bs"
  unfolding low_mask_def bit_or_iff by blast

lemma low_mask_cong: "length bs = 8 \<Longrightarrow> (\<And>i. i < 8 \<Longrightarrow> P (bs ! i) \<longleftrightarrow> Q (cs ! i)) \<Longrightarrow>
  low_mask P m bs \<longleftrightarrow> low_mask Q m cs"
  unfolding low_mask_def by (meson le_less_trans less_trans)

section \<open>The masks keep the promise\<close>

interpretation less20: swar_mask "\<lambda>b. b < 0x20" "\<lambda>w. hasLess w 0x20"
proof
  fix bs :: bytes
  assume "length bs = 8"
  then show "low_mask (\<lambda>b. b < 0x20) (hasLess (le64 bs) 0x20) bs"
    unfolding hasLess_def lsb_mult by (rule less_mask) simp
qed

lemma hasByte_low:
  assumes "length bs = 8"
  shows "low_mask (\<lambda>b. b = c) (hasByte (le64 bs) c) bs"
proof -
  let ?xs = "map2 (XOR) bs (replicate 8 c)"
  have lsb1: "lsb = le64 (replicate 8 1)" using lsb_mult [of 1] by simp
  have x: "le64 bs XOR (lsb * ucast c) = le64 ?xs"
    using assms by (simp add: lsb_mult le64_xor)
  have "low_mask (\<lambda>b. b < 1) (hasByte (le64 bs) c) ?xs"
    unfolding hasByte_def Let_def x unfolding lsb1 using assms by (intro less_mask) simp_all
  moreover have "?xs ! i < 1 \<longleftrightarrow> bs ! i = c" if "i < 8" for i
  proof -
    have "?xs ! i = bs ! i XOR c" using assms that by simp
    moreover have "(v :: byte) < 1 \<longleftrightarrow> v = 0" for v by (metis word_less_1)
    ultimately show ?thesis by (simp add: xor_byte_zero)
  qed
  ultimately show ?thesis
    using low_mask_cong [of ?xs "\<lambda>b. b < 1" "\<lambda>b. b = c" bs] assms by simp
qed

abbreviation is_stop :: "byte \<Rightarrow> bool" where
  "is_stop c \<equiv> c = ch_quote \<or> c = ch_bslash"

interpretation qoe: swar_mask is_stop QuoteOrEscapeMask
  by unfold_locales (simp add: QuoteOrEscapeMask_def low_mask_or hasByte_low)

section \<open>Word-wise search\<close>

locale word_search = swar_mask P mask for P mask +
  fixes search :: "bytes \<Rightarrow> nat \<Rightarrow> nat"
  assumes search_word: "i + 8 \<le> length src \<Longrightarrow> search src i =
      (let m = mask (load64 src i) in
       if m \<noteq> 0 then i + TrailingZeros64 m div 8 else search src (i + 8))"
    and search_tail: "\<not> i + 8 \<le> length src \<Longrightarrow> search src i = find_from P src i"
begin

lemma window: "i + 8 \<le> length src \<Longrightarrow> length (take 8 (drop i src)) = 8"
  by simp

lemma search_hit:
  assumes "i + 8 \<le> length src" "mask (load64 src i) \<noteq> 0"
  shows "i + TrailingZeros64 (mask (load64 src i)) div 8 = find_from P src i"
proof -
  let ?w = "take 8 (drop i src)"
  have w: "length ?w = 8" using assms(1) by simp
  have "\<exists>c \<in> set ?w. P c" using assms mask_zero_iff [OF w] by (simp add: load64_def)
  then obtain j where j: "j < 8" "P (?w ! j)" "\<And>i. i < j \<Longrightarrow> \<not> P (?w ! i)"
    using w by (metis first_index)
  have "TrailingZeros64 (mask (load64 src i)) div 8 = j"
    unfolding load64_def using w j by (intro mask_hit(2)) auto
  moreover have "find_from P src i = i + j"
  proof (rule find_from_eqI)
    show "\<not> P (src ! k)" if "i \<le> k" "k < i + j" for k
      using j(3) [of "k - i"] that assms(1) j(1) by simp
  qed (use assms(1) j in auto)
  ultimately show ?thesis by simp
qed

lemma search_eq: "search src i = find_from P src i"
proof (induction "length src - i" arbitrary: i rule: less_induct)
  case less
  show ?case
  proof (cases "i + 8 \<le> length src")
    case True
    show ?thesis
    proof (cases "mask (load64 src i) = 0")
      case True
      with \<open>i + 8 \<le> length src\<close> have "search src i = search src (i + 8)"
        by (simp add: search_word)
      also have "\<dots> = find_from P src (i + 8)"
        using \<open>i + 8 \<le> length src\<close> by (intro less) simp
      also have "\<dots> = find_from P src i"
      proof (rule find_from_skip [symmetric])
        fix k
        assume k: "i \<le> k" "k < i + 8"
        have "src ! k \<in> set (take 8 (drop i src))"
          using k \<open>i + 8 \<le> length src\<close> by (auto simp: in_set_conv_nth intro!: exI [of _ "k - i"])
        with True window [OF \<open>i + 8 \<le> length src\<close>] show "\<not> P (src ! k)"
          by (simp add: load64_def mask_zero_iff)
      qed (use \<open>i + 8 \<le> length src\<close> in auto)
      finally show ?thesis .
    next
      case False
      with \<open>i + 8 \<le> length src\<close> show ?thesis
        by (simp add: search_word Let_def search_hit)
    qed
  qed (simp add: search_tail)
qed

end

text \<open>\<^verbatim>\<open>QuoteOrEscape\<close>: the word loop, then the byte loop over what is left.\<close>

function QuoteOrEscape :: "bytes \<Rightarrow> nat \<Rightarrow> nat" where
  "QuoteOrEscape src i =
     (if i + 8 \<le> length src then
        let m = QuoteOrEscapeMask (load64 src i) in
        if m \<noteq> 0 then i + TrailingZeros64 m div 8 else QuoteOrEscape src (i + 8)
      else find_from (\<lambda>c. c = ch_quote \<or> c = ch_bslash) src i)"
  by pat_completeness auto
termination by (relation "measure (\<lambda>(src, i). length src - i)") auto

declare QuoteOrEscape.simps [simp del]

interpretation qsearch: word_search is_stop QuoteOrEscapeMask QuoteOrEscape
  by unfold_locales (simp_all add: QuoteOrEscape.simps)

text \<open>
  The structural scans call \<open>QuoteOrEscape\<close> everywhere; as a rewrite to the reference search
  it removes the word loop from every later proof.
\<close>

lemma QuoteOrEscape_eq: "QuoteOrEscape src i = find_from is_stop src i"
  by (rule qsearch.search_eq)

section \<open>The exact mask\<close>

lemma le_int_add:
  "length xs = length ys \<Longrightarrow> (\<And>i. i < length xs \<Longrightarrow> uint (xs ! i) + uint (ys ! i) < 256) \<Longrightarrow>
   le_int xs + le_int ys = le_int (map2 (+) xs ys)"
proof (induction xs ys rule: list_induct2)
  case (Cons x xs y ys)
  have "uint (x + y) = uint x + uint y"
    using Cons.prems [of 0] by (simp add: uint_word_ariths)
  moreover have "le_int xs + le_int ys = le_int (map2 (+) xs ys)"
    using Cons.prems [of "Suc i" for i] by (intro Cons.IH) auto
  ultimately show ?case by simp
qed simp

lemma le64_add:
  assumes "length xs = 8" "length ys = 8" "\<And>i. i < 8 \<Longrightarrow> uint (xs ! i) + uint (ys ! i) < 256"
  shows "le64 xs + le64 ys = le64 (map2 (+) xs ys)"
proof -
  have "uint (le64 xs + le64 ys) = (le_int xs + le_int ys) mod 2 ^ 64"
    using assms by (simp add: uint_word_ariths uint_le64)
  also have "\<dots> = le_int (map2 (+) xs ys) mod 2 ^ 64"
    using assms by (subst le_int_add) simp_all
  also have "\<dots> = uint (le64 (map2 (+) xs ys))"
    using assms le_int_bound [of "map2 (+) xs ys"] by (simp add: uint_le64)
  finally show ?thesis by (simp only: word_uint_eq_iff)
qed

lemma eq_byte_flag: "(bit ((b AND 0x7F) + 0x7F :: byte) 7 \<or> bit b 7) \<longleftrightarrow> b \<noteq> 0"
  by (rule all_bytesD [of "\<lambda>b. (bit ((b AND 0x7F) + 0x7F :: byte) 7 \<or> bit b 7) \<longleftrightarrow> b \<noteq> 0"]) code_simp

lemma le64_nth_bit:
  "length bs = 8 \<Longrightarrow> n < 64 \<Longrightarrow> bit (le64 bs) n \<longleftrightarrow> bit (bs ! (n div 8)) (n mod 8)"
  by (simp add: bit_le64 less_mult_imp_div_less)

lemma eqMask_bit:
  assumes "length bs = 8"
  shows "bit (eqMask (le64 bs) c) n \<longleftrightarrow> n < 64 \<and> n mod 8 = 7 \<and> bs ! (n div 8) = c"
proof -
  let ?xs = "map2 (XOR) bs (replicate 8 c)"
  let ?ys = "map2 (AND) ?xs (replicate 8 0x7F)"
  let ?zs = "map2 (+) ?ys (replicate 8 0x7F)"
  have l: "NOT msb = le64 (replicate 8 0x7F)" by (simp add: msb_def replicate_8)
  have x: "le64 bs XOR (lsb * ucast c) = le64 ?xs"
    using assms by (simp add: lsb_mult le64_xor)
  have a: "le64 ?xs AND NOT msb = le64 ?ys"
    unfolding l using assms by (simp add: le64_and)
  have small: "uint (b AND 0x7F :: byte) + 127 < 256" for b
    by (rule all_bytesD [of "\<lambda>b. uint (b AND 0x7F :: byte) + 127 < 256"]) code_simp
  have s: "le64 ?ys + NOT msb = le64 ?zs"
    unfolding l using assms small by (intro le64_add) simp_all
  have m: "eqMask (le64 bs) c = NOT (le64 ?zs OR le64 ?xs OR NOT msb)"
    by (simp only: eqMask_def Let_def x a s)
  show ?thesis
  proof (cases "n < 64")
    case True
    let ?k = "n div 8"
    have k: "?k < 8" using True by (simp add: less_mult_imp_div_less)
    have "?xs ! ?k = bs ! ?k XOR c" "?zs ! ?k = ((bs ! ?k XOR c) AND 0x7F) + 0x7F"
      using assms k by simp_all
    then have f: "\<not> bit (?zs ! ?k) 7 \<and> \<not> bit (?xs ! ?k) 7 \<longleftrightarrow> bs ! ?k = c"
      using eq_byte_flag [of "bs ! ?k XOR c"] by (auto simp: xor_byte_zero)
    have "bit (eqMask (le64 bs) c) n \<longleftrightarrow>
        n mod 8 = 7 \<and> \<not> bit (?zs ! ?k) (n mod 8) \<and> \<not> bit (?xs ! ?k) (n mod 8)"
      unfolding m bit_not_iff bit_or_iff bit_msb bit_le64 using True assms k by auto
    with f True show ?thesis by auto
  next
    case False
    then show ?thesis using bit_imp_le_length [of "eqMask (le64 bs) c" n] by auto
  qed
qed

text \<open>Bytes at or above \<open>0x80\<close>, as the UTF-8 validators find them.\<close>

interpretation high: swar_mask "\<lambda>b. 0x80 \<le> b" "\<lambda>w. w AND msb"
proof
  fix bs :: bytes
  assume l: "length bs = 8"
  have "bit (le64 bs AND msb) (8 * j + 7) \<longleftrightarrow> 0x80 \<le> bs ! j" if "j < 8" for j
    using that l by (simp add: bit_and_iff bit_msb le64_nth_bit byte_high_bit)
  then show "low_mask (\<lambda>b. 0x80 \<le> b) (le64 bs AND msb) bs"
    by (auto simp: low_mask_def bit_and_iff bit_msb)
qed

text \<open>The first non-zero byte of a word, as \<open>SkipWS\<close> finds the first byte that is no space.\<close>

lemma le64_zero_iff: "length bs = 8 \<Longrightarrow> le64 bs = 0 \<longleftrightarrow> (\<forall>b \<in> set bs. b = 0)"
proof
  assume l: "length bs = 8" and z: "\<forall>b \<in> set bs. b = 0"
  then have "bs ! k = 0" if "k < 8" for k using that by simp
  with l show "le64 bs = 0" by (intro bit_eqI) (simp add: bit_le64)
next
  assume l: "length bs = 8" and z: "le64 bs = 0"
  show "\<forall>b \<in> set bs. b = 0"
  proof
    fix b
    assume "b \<in> set bs"
    then obtain k where k: "k < 8" "bs ! k = b" using l by (metis in_set_conv_nth)
    have "\<not> bit (bs ! k) r" if "r < 8" for r
      using z le64_nth_bit [OF l, of "8 * k + r"] that k(1) by simp
    then show "b = 0" using k(2) by (intro bit_eqI) auto
  qed
qed

lemma TrailingZeros64_byte:
  assumes l: "length bs = 8" and j: "j < 8" "bs ! j \<noteq> 0" "\<And>i. i < j \<Longrightarrow> bs ! i = 0"
  shows "TrailingZeros64 (le64 bs) div 8 = j"
proof -
  obtain r where r: "bit (bs ! j) r" "\<And>s. s < r \<Longrightarrow> \<not> bit (bs ! j) s"
    using j(2) by (metis bit_eq_iff exists_least_iff bit_0_eq bot_apply bot_bool_def)
  have r8: "r < 8" using r(1) bit_imp_le_length [of "bs ! j" r] by simp
  have "TrailingZeros64 (le64 bs) = 8 * j + r"
  proof (rule TrailingZeros64_eqI)
    show "bit (le64 bs) (8 * j + r)" using l j(1) r(1) r8 by (simp add: le64_nth_bit)
    show "\<not> bit (le64 bs) k" if "k < 8 * j + r" for k
    proof (cases "k div 8 = j")
      case True
      then have "k mod 8 < r" using that by (metis add_less_cancel_left div_mult_mod_eq mult.commute)
      with True r(2) show ?thesis by (simp add: bit_le64)
    next
      case False
      then have "k div 8 < j" using that r8 by (auto simp: nat_neq_iff less_eq_div_iff_mult_less_eq)
      with j(3) show ?thesis by (simp add: bit_le64)
    qed
  qed (use j(1) r8 in simp)
  with r8 show ?thesis by simp
qed


section \<open>Claims\<close>

text \<open>
  \<open>QuoteOrEscape\<close>, which reads eight bytes per step and trusts the lowest flag of a mask
  that may carry spurious flags above it, finds exactly the first quote or backslash at or past
  \<open>i\<close>, or the end of the source when there is none.
\<close>

theorem QuoteOrEscape_first:
  "QuoteOrEscape src i = find_from (\<lambda>c. c = ch_quote \<or> c = ch_bslash) src i"
  by (rule QuoteOrEscape_eq)

text \<open>
  \<open>eqMask\<close> is exact: unlike the borrow-based masks it flags, in the high bit of its lane,
  every byte of the word equal to \<open>c\<close> and nothing else.
\<close>

theorem eqMask_exact:
  assumes "length bs = 8"
  shows "bit (eqMask (le64 bs) c) n \<longleftrightarrow> n < 64 \<and> n mod 8 = 7 \<and> bs ! (n div 8) = c"
  using assms by (rule eqMask_bit)

theorem eqMask_exact_witness:
  "length [1, 2, 3, 4, 5, 6, 7, 8 :: byte] = 8 \<and> bit (eqMask (le64 [1, 2, 3, 4, 5, 6, 7, 8]) 3) 23"
  using eqMask_exact [of "[1, 2, 3, 4, 5, 6, 7, 8]" 3 23] by simp

end
