(* ===== verification/Lex.thy ===== *)
theory Lex
  imports Swar
begin

text \<open>
  The byte classes and the small lexers of \<^verbatim>\<open>internal/gdec/scan.go\<close>: the delimiter and operator
  tables, the padded read \<open>At\<close>, and the whitespace scans.
\<close>

section \<open>Byte classes\<close>

abbreviation is_ws :: "byte \<Rightarrow> bool" where
  "is_ws c \<equiv> c = ch_space \<or> c = ch_tab \<or> c = ch_lf \<or> c = ch_cr"

definition nonDelim :: "byte \<Rightarrow> byte" where [byte_defs]:
  "nonDelim c =
     (if c \<in> set [ch_space, ch_tab, ch_lf, ch_cr, ch_lbrace, ch_rbrace, ch_lbrack, ch_rbrack, ch_comma]
      then 0 else 1)"

definition IsNonDelim :: "byte \<Rightarrow> bool" where [byte_defs]:
  "IsNonDelim c \<longleftrightarrow> nonDelim c \<noteq> 0"

text \<open>The subtraction wraps, so bytes below \<open>'0'\<close> become large.\<close>

definition IsDigit :: "byte \<Rightarrow> bool" where
  "IsDigit c \<longleftrightarrow> c - ch_0 < 10"

definition At :: "bytes \<Rightarrow> nat \<Rightarrow> byte" where
  "At src i = (if i < length src then src ! i else 0x20)"

definition byteClass :: "byte \<Rightarrow> nat" where [byte_defs]:
  "byteClass c =
     (if c \<in> set [ch_space, ch_tab, ch_lf, ch_cr] then 1
      else if c \<in> set [ch_lbrace, ch_rbrace, ch_lbrack, ch_rbrack, ch_comma, ch_colon] then 2
      else 0)"

section \<open>Whitespace\<close>

function TrimTrailingWS :: "bytes \<Rightarrow> bytes" where
  "TrimTrailingWS b =
     (if 0 < length b then
        (if is_ws (b ! (length b - 1)) then TrimTrailingWS (take (length b - 1) b) else b)
      else b)"
  by pat_completeness auto
termination by (relation "measure length") auto

declare TrimTrailingWS.simps [simp del]

text \<open>
  \<^verbatim>\<open>SkipWS\<close>: one byte of whitespace, an early exit on a byte above the space, then whole words
  of spaces. The inner word loop is \<open>skip_spaces\<close>.
\<close>

function skip_spaces :: "bytes \<Rightarrow> nat \<Rightarrow> nat" where
  "skip_spaces src i =
     (if i + 8 \<le> length src then
        let x = load64 src i XOR (lsb * ucast ch_space) in
        if x \<noteq> 0 then i + TrailingZeros64 x div 8 else skip_spaces src (i + 8)
      else i)"
  by pat_completeness auto
termination by (relation "measure (\<lambda>(src, i). length src - i)") auto

declare skip_spaces.simps [simp del]

lemma skip_spaces_ge: "i \<le> skip_spaces src i"
proof (induction src i rule: skip_spaces.induct)
  case (1 src i)
  then show ?case by (subst skip_spaces.simps) (force simp: Let_def)
qed

function SkipWS :: "bytes \<Rightarrow> nat \<Rightarrow> nat" where
  "SkipWS src i =
     (if i < length src then
        (if ch_space < src ! i \<or> byteClass (src ! i) \<noteq> 1 then i
         else if i + 1 < length src \<and> ch_space < src ! (i + 1) then i + 1
         else SkipWS src (skip_spaces src (i + 1)))
      else i)"
  by pat_completeness auto
termination
proof (relation "measure (\<lambda>(src, i). length src - i)", goal_cases)
  case (2 src i)
  then show ?case using skip_spaces_ge [of "i + 1" src] by simp
qed simp

declare SkipWS.simps [simp del]

section \<open>Facts about the classes\<close>

lemma IsDigit_iff: "IsDigit c \<longleftrightarrow> ch_0 \<le> c \<and> c \<le> ch_9"
  unfolding IsDigit_def
  by (rule all_bytesD [of "\<lambda>c. c - ch_0 < 10 \<longleftrightarrow> ch_0 \<le> c \<and> c \<le> ch_9"]) code_simp

lemma byteClass_cases:
  "byteClass c = 1 \<longleftrightarrow> is_ws c"
  "byteClass c = 2 \<longleftrightarrow> c = ch_lbrace \<or> c = ch_rbrace \<or> c = ch_lbrack \<or> c = ch_rbrack \<or> c = ch_comma \<or> c = ch_colon"
  by (auto simp: byteClass_def)

lemma byteClass_range: "byteClass c = 0 \<or> byteClass c = 1 \<or> byteClass c = 2"
  by (simp add: byteClass_def)

lemma IsNonDelim_iff:
  "IsNonDelim c \<longleftrightarrow> \<not> (is_ws c \<or> c = ch_lbrace \<or> c = ch_rbrace \<or> c = ch_lbrack \<or> c = ch_rbrack \<or> c = ch_comma)"
  by (auto simp: IsNonDelim_def nonDelim_def)

lemma At_in [simp]: "i < length src \<Longrightarrow> At src i = src ! i"
  by (simp add: At_def)

lemma At_out [simp]: "length src \<le> i \<Longrightarrow> At src i = 0x20"
  by (simp add: At_def)

lemma At_neq_space: "At src i \<noteq> 0x20 \<Longrightarrow> i < length src"
  by (auto simp: At_def split: if_splits)

lemma above_space_no_ws: "ch_space < c \<Longrightarrow> \<not> is_ws c"
  by auto

section \<open>SkipWS is the reference search\<close>

lemma skip_spaces_spec:
  "i \<le> length src \<Longrightarrow>
   skip_spaces src i \<le> length src \<and> (\<forall>k. i \<le> k \<longrightarrow> k < skip_spaces src i \<longrightarrow> src ! k = ch_space)"
proof (induction src i rule: skip_spaces.induct)
  case (1 src i)
  show ?case
  proof (cases "i + 8 \<le> length src")
    case True
    let ?xs = "map2 (XOR) (take 8 (drop i src)) (replicate 8 ch_space)"
    have x: "load64 src i XOR (lsb * ucast ch_space) = le64 ?xs"
      using True by (simp only: load64_def lsb_mult) (simp add: le64_xor)
    have l: "length ?xs = 8" using True by simp
    have nth: "?xs ! k = 0 \<longleftrightarrow> src ! (i + k) = ch_space" if "k < 8" for k
    proof -
      have "?xs ! k = src ! (i + k) XOR ch_space" using that True by simp
      then show ?thesis by (simp only: xor_byte_zero)
    qed
    show ?thesis
    proof (cases "le64 ?xs = 0")
      case z: True
      have "?xs ! m = 0" if "m < 8" for m using z l that le64_zero_iff [OF l] by (metis nth_mem)
      then have "src ! k = ch_space" if "i \<le> k" "k < i + 8" for k
        using that nth [of "k - i"] by simp
      moreover have "skip_spaces src i = skip_spaces src (i + 8)"
        using True z by (subst skip_spaces.simps) (simp only: x Let_def, simp)
      moreover have "skip_spaces src (i + 8) \<le> length src \<and>
          (\<forall>k. i + 8 \<le> k \<longrightarrow> k < skip_spaces src (i + 8) \<longrightarrow> src ! k = ch_space)"
        using "1.IH" [OF True refl] True z by (simp only: x) simp
      ultimately show ?thesis by (metis not_less)
    next
      case nz: False
      then have "\<exists>b \<in> set ?xs. b \<noteq> 0" using l by (simp add: le64_zero_iff)
      then obtain j where j': "j < length ?xs" "?xs ! j \<noteq> 0" "\<And>k. k < j \<Longrightarrow> \<not> ?xs ! k \<noteq> 0"
        by (rule first_index) blast
      then have j: "j < 8" "?xs ! j \<noteq> 0" "\<And>k. k < j \<Longrightarrow> ?xs ! k = 0" using l by auto
      have "TrailingZeros64 (le64 ?xs) div 8 = j" using l j by (intro TrailingZeros64_byte)
      then have "skip_spaces src i = i + j"
        using True nz by (subst skip_spaces.simps) (simp only: x Let_def, simp)
      moreover have "src ! k = ch_space" if "i \<le> k" "k < i + j" for k
        using that j nth [of "k - i"] by simp
      ultimately show ?thesis using True j(1) by simp
    qed
  next
    case False
    then show ?thesis using "1.prems" by (simp add: skip_spaces.simps)
  qed
qed

lemma SkipWS_eq: "i \<le> length src \<Longrightarrow> SkipWS src i = find_from (\<lambda>c. \<not> is_ws c) src i"
proof (induction src i rule: SkipWS.induct)
  case (1 src i)
  show ?case
  proof (cases "i < length src \<and> is_ws (src ! i)")
    case True
    then have ws: "i < length src" "\<not> (ch_space < src ! i \<or> byteClass (src ! i) \<noteq> 1)"
      by (auto simp: byteClass_cases simp flip: One_nat_def)
    show ?thesis
    proof (cases "i + 1 < length src \<and> ch_space < src ! (i + 1)")
      case t: True
      then have "find_from (\<lambda>c. \<not> is_ws c) src i = i + 1"
        using True above_space_no_ws [of "src ! (i + 1)"]
        by (simp add: find_from_miss)
      then show ?thesis using ws t by (subst SkipWS.simps) simp
    next
      case f: False
      let ?s = "skip_spaces src (i + 1)"
      have s: "i + 1 \<le> ?s" "?s \<le> length src"
        "\<And>k. i + 1 \<le> k \<Longrightarrow> k < ?s \<Longrightarrow> src ! k = ch_space"
        using skip_spaces_spec [of "i + 1" src] skip_spaces_ge [of "i + 1" src] ws(1) by auto
      have "SkipWS src i = SkipWS src ?s"
        using ws f by (subst SkipWS.simps) auto
      also have "\<dots> = find_from (\<lambda>c. \<not> is_ws c) src ?s"
        using "1.IH" [OF ws f s(2)] by simp
      also have "\<dots> = find_from (\<lambda>c. \<not> is_ws c) src i"
      proof (rule find_from_skip [symmetric])
        show "\<not> \<not> is_ws (src ! k)" if "i \<le> k" "k < ?s" for k
          using that s(3) [of k] True by (cases "k = i") auto
      qed (use s in auto)
      finally show ?thesis .
    qed
  next
    case False
    then show ?thesis
      using "1.prems" by (subst SkipWS.simps) (auto simp: byteClass_cases simp flip: One_nat_def)
  qed
qed

end
