(* ===== verification/Strings.thy ===== *)
theory Strings
  imports Lex
begin

text \<open>
  The string lexers of \<^verbatim>\<open>internal/gdec/str.go\<close>. A body starts one past the opening quote.
  \<open>StringEnd\<close> finds the closing quote the structural scan resolves, \<open>ScanString\<close> also validates
  the escapes, \<open>DecodeString\<close> decodes into a caller's buffer and \<open>AppendString\<close> into a growing one.

  The two decoders write through slices: a write past the end panics, which is \<open>None\<close> here, and
  \<open>AppendString\<close> works on the whole capacity of its buffer, storing eight bytes at a time past the
  bytes it counts as written. Both are compared with \<open>decode_from\<close>, which decodes without a buffer.
\<close>

declare Let_def [simp]

section \<open>Finding the end\<close>

lemma QuoteOrEscape_ge: "QuoteOrEscape src i < length src \<Longrightarrow> i \<le> QuoteOrEscape src i"
  by (cases "i \<le> length src") (auto simp: QuoteOrEscape_eq find_from_ge)

lemma QuoteOrEscape_dec:
  "q = QuoteOrEscape src i \<Longrightarrow> q < length src \<Longrightarrow> q < j \<Longrightarrow> length src - j < length src - i"
  using QuoteOrEscape_ge [of src i] by auto

function StringEnd :: "bytes \<Rightarrow> nat \<Rightarrow> nat \<times> bool" where
  "StringEnd src i =
     (let i = QuoteOrEscape src i in
      if length src \<le> i then (length src, False)
      else if src ! i = ch_quote then (i, True)
      else StringEnd src (i + 2))"
  by pat_completeness auto
termination
  by (relation "measure (\<lambda>(src, i). length src - i)") (auto simp: not_le intro!: QuoteOrEscape_dec)

declare StringEnd.simps [simp del]

section \<open>Escapes\<close>

definition simpleEscape :: "byte \<Rightarrow> byte" where [byte_defs]:
  "simpleEscape c =
     (if c = ch_quote then ch_quote
      else if c = ch_bslash then ch_bslash
      else if c = ch_slash then ch_slash
      else if c = ch_b then 0x08
      else if c = ch_f then 0x0C
      else if c = ch_n then ch_lf
      else if c = ch_r then ch_cr
      else if c = ch_t then ch_tab
      else 0)"

definition hexVal :: "byte \<Rightarrow> u32 option" where [byte_defs]:
  "hexVal c =
     (if ch_0 \<le> c \<and> c \<le> ch_9 then Some (ucast (c - ch_0))
      else if 0x61 \<le> c \<and> c \<le> 0x66 then Some (ucast (c - 0x61) + 10)
      else if 0x41 \<le> c \<and> c \<le> 0x46 then Some (ucast (c - 0x41) + 10)
      else None)"

text \<open>The loop of \<^verbatim>\<open>hex4\<close>: \<open>n\<close> digits left, the next one at \<open>i\<close>.\<close>

fun hex4_loop :: "bytes \<Rightarrow> nat \<Rightarrow> nat \<Rightarrow> u32 \<Rightarrow> u32 option" where
  "hex4_loop src i 0 r = Some r"
| "hex4_loop src i (Suc n) r =
     (case hexVal (At src i) of
        None \<Rightarrow> None
      | Some v \<Rightarrow> hex4_loop src (i + 1) n (push_bit 4 r OR v))"

definition hex4 :: "bytes \<Rightarrow> nat \<Rightarrow> u32 option" where
  "hex4 src i = hex4_loop src i 4 0"

function ScanString :: "bytes \<Rightarrow> nat \<Rightarrow> nat \<times> bool" where
  "ScanString src i =
     (let i = QuoteOrEscape src i in
      if length src \<le> i then (length src, False)
      else if src ! i = ch_quote then (i, True)
      else let c = At src (i + 1) in
        if c = ch_u then
          (if hex4 src (i + 2) = None then (i, False) else ScanString src (i + 6))
        else if simpleEscape c = 0 then (i, False)
        else ScanString src (i + 2))"
  by pat_completeness auto
termination
  by (relation "measure (\<lambda>(src, i). length src - i)") (auto simp: not_le intro!: QuoteOrEscape_dec)

declare ScanString.simps [simp del]

text \<open>What the escape at the backslash \<open>src ! i\<close> stands for: the offset past it and its bytes.\<close>

definition escape_at :: "bytes \<Rightarrow> nat \<Rightarrow> (nat \<times> bytes) option" where
  "escape_at src i =
     (let c = At src (i + 1) in
      if c \<noteq> ch_u then
        (let m = simpleEscape c in if m = 0 then None else Some (i + 2, [m]))
      else case hex4 src (i + 2) of
        None \<Rightarrow> None
      | Some r \<Rightarrow>
          if 0xD800 \<le> r \<and> r \<le> 0xDBFF then
            (if At src (i + 6) = ch_bslash \<and> At src (i + 7) = ch_u then
               (case hex4 src (i + 8) of
                  Some lo \<Rightarrow>
                    if 0xDC00 \<le> lo \<and> lo \<le> 0xDFFF then
                      Some (i + 12, EncodeRune (push_bit 10 (r - 0xD800) + (lo - 0xDC00) + 0x10000))
                    else Some (i + 6, EncodeRune RuneError)
                | None \<Rightarrow> Some (i + 6, EncodeRune RuneError))
             else Some (i + 6, EncodeRune RuneError))
          else if 0xDC00 \<le> r \<and> r \<le> 0xDFFF then Some (i + 6, EncodeRune RuneError)
          else Some (i + 6, EncodeRune r))"

text \<open>Go's writes: \<open>put_at dst n bs\<close> stores \<open>bs\<close> at \<^verbatim>\<open>dst[n:]\<close> and panics when it does not fit.\<close>

definition put_at :: "bytes \<Rightarrow> nat \<Rightarrow> bytes \<Rightarrow> bytes option" where
  "put_at dst n bs =
     (if n + length bs \<le> length dst then Some (take n dst @ bs @ drop (n + length bs) dst) else None)"

text \<open>\<^verbatim>\<open>DecodeEscape\<close> into \<^verbatim>\<open>dst[n:]\<close>: the offset past the escape, the bytes written, the buffer.\<close>

definition DecodeEscape :: "bytes \<Rightarrow> nat \<Rightarrow> bytes \<Rightarrow> nat \<Rightarrow> (nat \<times> nat \<times> bool \<times> bytes) option" where
  "DecodeEscape src i dst n =
     (case escape_at src i of
        None \<Rightarrow> Some (i, 0, False, dst)
      | Some (nxt, bs) \<Rightarrow> map_option (\<lambda>d. (nxt, length bs, True, d)) (put_at dst n bs))"

lemma hex4_in_range: "hex4 src i \<noteq> None \<Longrightarrow> i + 4 \<le> length src"
proof -
  assume h: "hex4 src i \<noteq> None"
  have "At src (i + 3) \<noteq> 0x20"
  proof
    assume "At src (i + 3) = 0x20"
    then have "hexVal (At src (i + 3)) = None" by (simp add: hexVal_def)
    then show False using h
      by (auto simp: hex4_def numeral_eq_Suc split: option.splits)
  qed
  then show ?thesis by (auto dest: At_neq_space)
qed

lemma simpleEscape_in_range: "simpleEscape (At src i) \<noteq> 0 \<Longrightarrow> i < length src"
  by (rule At_neq_space) (auto simp: simpleEscape_def)

lemma escape_at_bounds:
  assumes "escape_at src i = Some (nxt, bs)"
  shows "i + 2 \<le> nxt" "nxt \<le> length src" "length bs + i < nxt" "0 < length bs"
proof -
  have "i + 2 \<le> nxt \<and> nxt \<le> length src \<and> length bs + i < nxt \<and> 0 < length bs"
  proof (cases "At src (i + 1) = ch_u")
    case True
    then obtain r where r: "hex4 src (i + 2) = Some r" using assms
      by (auto simp: escape_at_def split: option.splits)
    then have i6: "i + 6 \<le> length src" using hex4_in_range [of src "i + 2"] by simp
    have i12: "hex4 src (i + 8) \<noteq> None \<Longrightarrow> i + 12 \<le> length src"
      using hex4_in_range [of src "i + 8"] by simp
    have enc: "length (EncodeRune RuneError) = 3" "length (EncodeRune x) \<le> 4" "0 < length (EncodeRune x)" for x
      using length_EncodeRune [of x] EncodeRune_pos [of x]
      by (auto simp: EncodeRune_def RuneError_def Let_def split: if_splits)
    show ?thesis
      using assms True r i6 i12 enc
      by (auto simp: escape_at_def le_less_trans [OF enc(2)] less_le_trans intro: enc split: if_splits option.splits)
  next
    case False
    then show ?thesis using assms simpleEscape_in_range [of src "i + 1"]
      by (auto simp: escape_at_def Let_def split: if_splits)
  qed
  then show "i + 2 \<le> nxt" "nxt \<le> length src" "length bs + i < nxt" "0 < length bs" by auto
qed

lemma escape_at_length: "escape_at src i = Some (nxt, bs) \<Longrightarrow> length bs \<le> UTFMax"
proof -
  have "length (EncodeRune x) \<le> 4" for x
    using length_EncodeRune [of x] by (auto split: if_splits)
  then show "escape_at src i = Some (nxt, bs) \<Longrightarrow> length bs \<le> UTFMax"
    by (auto simp: escape_at_def UTFMax_def split: if_splits option.splits)
qed

section \<open>Decoding without a buffer\<close>

text \<open>
  The decoded bytes, the offset the decoder stops at (the closing quote, a bad escape's backslash
  or the end), whether an escape was decoded, and whether the body is well formed.
\<close>

function decode_from :: "bytes \<Rightarrow> nat \<Rightarrow> bytes \<times> nat \<times> bool \<times> bool" where
  "decode_from src i =
     (let j = find_from is_stop src i; run = cut src i j in
      if length src \<le> j then (run, j, False, False)
      else if src ! j = ch_quote then (run, j, False, True)
      else case escape_at src j of
        None \<Rightarrow> (run, j, False, False)
      | Some (nxt, bs) \<Rightarrow>
          (case decode_from src nxt of (rest, e, _, ok) \<Rightarrow> (run @ bs @ rest, e, True, ok)))"
  by pat_completeness auto
termination
  by (relation "measure (\<lambda>(src, i). length src - i)")
    (auto simp: not_le simp flip: QuoteOrEscape_eq dest!: escape_at_bounds(1) intro!: QuoteOrEscape_dec)

declare decode_from.simps [simp del]

section \<open>The decoders\<close>

text \<open>
  \<^verbatim>\<open>DecodeString\<close>: \<^verbatim>\<open>copy\<close> stores as much of the run as fits in \<^verbatim>\<open>dst[n:]\<close>, which panics when
  \<open>n\<close> is past the end; the quote sentinel is stored at \<^verbatim>\<open>dst[n]\<close>.
\<close>

definition copy_at :: "bytes \<Rightarrow> nat \<Rightarrow> bytes \<Rightarrow> (bytes \<times> nat) option" where
  "copy_at dst n bs =
     (if n \<le> length dst then
        let k = min (length bs) (length dst - n)
        in Some (take n dst @ take k bs @ drop (n + k) dst, k)
      else None)"

function DecodeString_loop ::
    "bytes \<Rightarrow> nat \<Rightarrow> bytes \<Rightarrow> nat \<Rightarrow> bool \<Rightarrow> (bytes \<times> nat \<times> bool \<times> bool) option" where
  "DecodeString_loop src i dst n esc =
     (let j = QuoteOrEscape src i in
      case copy_at dst n (cut src i j) of
        None \<Rightarrow> None
      | Some (dst, k) \<Rightarrow>
          let n = n + k in
          if length src \<le> j then Some (dst, n, esc, False)
          else if src ! j = ch_quote then
            map_option (\<lambda>d. (d, n, esc, True)) (put_at dst n [ch_quote])
          else if length dst < n then None
          else (case DecodeEscape src j dst n of
                  None \<Rightarrow> None
                | Some (nxt, w, ok, dst) \<Rightarrow>
                    if \<not> ok then Some (dst, n, esc, False)
                    else DecodeString_loop src nxt dst (n + w) True))"
  by pat_completeness auto
termination
  by (relation "measure (\<lambda>(src, i, dst, n, esc). length src - i)")
    (auto simp: not_le DecodeEscape_def dest!: escape_at_bounds(1) intro!: QuoteOrEscape_dec
      split: option.splits prod.splits)

declare DecodeString_loop.simps [simp del]

definition DecodeString :: "bytes \<Rightarrow> nat \<Rightarrow> bytes \<Rightarrow> (bytes \<times> nat \<times> bool \<times> bool) option" where
  "DecodeString src body dst = DecodeString_loop src body dst 0 False"

text \<open>
  \<^verbatim>\<open>AppendString\<close> on the buffer \<open>dst\<close>, the slice at its full capacity, of which the first \<open>n\<close>
  bytes are written. \<open>append_words\<close> is its word loop, which stops at a quote or backslash or
  when fewer than eight source bytes remain; \<open>append_tail\<close> the byte loop after it.
\<close>

definition growTo :: "bytes \<Rightarrow> nat \<Rightarrow> nat \<Rightarrow> bytes" where
  "growTo dst n need =
     take n dst @ replicate (max (max need (2 * length dst)) 64 - length (take n dst)) 0"

function append_words :: "bytes \<Rightarrow> nat \<Rightarrow> bytes \<Rightarrow> nat \<Rightarrow> (bytes \<times> nat \<times> nat \<times> bool) option" where
  "append_words src i dst n =
     (if i + 8 \<le> length src then
        let dst = (if length dst < n + 8 then growTo dst n (n + 8 + (length src - i) div 4) else dst);
            w = load64 src i in
        (case put_at dst n (take 8 (drop i src)) of
           None \<Rightarrow> None
         | Some dst \<Rightarrow>
             let m = QuoteOrEscapeMask w in
             if m \<noteq> 0 then
               let k = TrailingZeros64 m div 8 in Some (dst, n + k, i + k, True)
             else append_words src (i + 8) dst (n + 8))
      else Some (dst, n, i, False))"
  by pat_completeness auto
termination by (relation "measure (\<lambda>(src, i, dst, n). length src - i)") auto

declare append_words.simps [simp del]

function append_tail :: "bytes \<Rightarrow> nat \<Rightarrow> bytes \<Rightarrow> nat \<Rightarrow> (bytes \<times> nat \<times> nat) option" where
  "append_tail src i dst n =
     (if i < length src \<and> src ! i \<noteq> ch_quote \<and> src ! i \<noteq> ch_bslash then
        let dst = (if n = length dst then growTo dst n (n + 1) else dst) in
        (case put_at dst n [src ! i] of
           None \<Rightarrow> None
         | Some dst \<Rightarrow> append_tail src (i + 1) dst (n + 1))
      else Some (dst, n, i))"
  by pat_completeness auto
termination by (relation "measure (\<lambda>(src, i, dst, n). length src - i)") auto

declare append_tail.simps [simp del]

lemma append_words_ge: "append_words src i dst n = Some (d, m, k, stop) \<Longrightarrow> i \<le> k"
proof (induction src i dst n arbitrary: d m k stop rule: append_words.induct)
  case (1 src i dst n)
  then show ?case
    by (subst (asm) (2) append_words.simps)
      (fastforce simp: Let_def split: if_splits option.splits dest: add_leD1)
qed

lemma append_tail_ge: "append_tail src i dst n = Some (d, m, k) \<Longrightarrow> i \<le> k"
proof (induction src i dst n arbitrary: d m k rule: append_tail.induct)
  case (1 src i dst n)
  then show ?case
    by (subst (asm) (2) append_tail.simps)
      (fastforce simp: Let_def split: if_splits option.splits dest: Suc_leD)
qed

definition append_run :: "bytes \<Rightarrow> nat \<Rightarrow> bytes \<Rightarrow> nat \<Rightarrow> (bytes \<times> nat \<times> nat) option" where
  "append_run src i dst n =
     (case append_words src i dst n of
        None \<Rightarrow> None
      | Some (dst, n, i, stop) \<Rightarrow> if stop then Some (dst, n, i) else append_tail src i dst n)"

lemma append_run_ge: "append_run src i dst n = Some (d, m, k) \<Longrightarrow> i \<le> k"
  by (fastforce simp: append_run_def split: option.splits if_splits
      dest: append_words_ge append_tail_ge)

text \<open>
  A run that stops before the end stops at a quote or backslash; one that reaches the end fails
  (the end test of the code is inside its \<^verbatim>\<open>if !stop\<close>, and a word stop is never at the end).
\<close>

function AppendString_loop :: "bytes \<Rightarrow> nat \<Rightarrow> bytes \<Rightarrow> nat \<Rightarrow> (bytes \<times> nat \<times> bool) option" where
  "AppendString_loop src i dst n =
     (case append_run src i dst n of
        None \<Rightarrow> None
      | Some (dst, n, i) \<Rightarrow>
          if length src \<le> i then Some (take n dst, i, False)
          else if src ! i = ch_quote then Some (take n dst, i, True)
          else
            let dst = (if length dst < n + UTFMax then growTo dst n (n + UTFMax) else dst) in
            (case DecodeEscape src i dst n of
               None \<Rightarrow> None
             | Some (nxt, w, ok, dst) \<Rightarrow>
                 if \<not> ok then Some (take n dst, i, False)
                 else AppendString_loop src nxt dst (n + w)))"
  by pat_completeness auto
termination
proof (relation "measure (\<lambda>(src, i, dst, n). length src - i)", goal_cases)
  case (2 src i dst n r d r' m k d' e nxt r'' w r3 ok d'')
  from 2 have "i \<le> k" by (auto dest: append_run_ge)
  moreover from 2 have "k + 2 \<le> nxt"
    by (auto simp: DecodeEscape_def dest!: escape_at_bounds(1) split: option.splits)
  ultimately show ?case using 2 by simp
qed simp

declare AppendString_loop.simps [simp del]

text \<open>\<open>AppendString dst spare src body\<close>: \<open>spare\<close> is what the capacity of \<open>dst\<close> holds past its length.\<close>

definition AppendString :: "bytes \<Rightarrow> bytes \<Rightarrow> bytes \<Rightarrow> nat \<Rightarrow> (bytes \<times> nat \<times> bool) option" where
  "AppendString dst spare src body = AppendString_loop src body (dst @ spare) (length dst)"

section \<open>The decoders agree with the reference\<close>

lemma decode_from_bounds:
  "i \<le> length src \<Longrightarrow> decode_from src i = (bs, e, esc, ok) \<Longrightarrow>
     i \<le> e \<and> e \<le> length src \<and> length bs \<le> e - i \<and> (ok \<longrightarrow> e < length src \<and> src ! e = ch_quote)"
proof (induction src i arbitrary: bs e esc ok rule: decode_from.induct)
  case (1 src i)
  let ?j = "find_from is_stop src i"
  have j: "i \<le> ?j" "?j \<le> length src" using "1.prems"(1) by (auto intro: find_from_ge)
  show ?case
  proof (cases "?j < length src \<and> src ! ?j \<noteq> ch_quote \<and> escape_at src ?j \<noteq> None")
    case True
    then obtain nxt b where n: "escape_at src ?j = Some (nxt, b)" by auto
    obtain r e' x ok' where d: "decode_from src nxt = (r, e', x, ok')" by (metis prod_cases4)
    note bd = escape_at_bounds [OF n]
    have "nxt \<le> e' \<and> e' \<le> length src \<and> length r \<le> e' - nxt \<and> (ok' \<longrightarrow> e' < length src \<and> src ! e' = ch_quote)"
      using True n d bd by (intro "1.IH" [OF refl refl _ _ _ refl]) auto
    moreover have "bs = cut src i ?j @ b @ r" "e = e'" "ok = ok'"
      using "1.prems"(2) True n d by (subst (asm) decode_from.simps; simp)+
    ultimately show ?thesis using bd j by auto
  next
    case False
    then have "bs = cut src i ?j \<and> e = ?j \<and> (ok \<longrightarrow> ?j < length src \<and> src ! ?j = ch_quote)"
      using "1.prems"(2) by (subst (asm) decode_from.simps)
        (auto simp: Let_def not_le split: if_splits option.splits)
    then show ?thesis using j by simp
  qed
qed

text \<open>One step of the reference, the cases every proof below splits on.\<close>

lemma decode_from_cases:
  assumes "i \<le> length src"
  obtains (eof) "find_from is_stop src i = length src"
      "decode_from src i = (cut src i (length src), length src, False, False)"
  | (close) j where "j = find_from is_stop src i" "i \<le> j" "j < length src" "src ! j = ch_quote"
      "decode_from src i = (cut src i j, j, False, True)"
  | (bad) j where "j = find_from is_stop src i" "i \<le> j" "j < length src" "src ! j = ch_bslash"
      "escape_at src j = None" "decode_from src i = (cut src i j, j, False, False)"
  | (escape) j nxt b r e x ok where "j = find_from is_stop src i" "i \<le> j" "j < length src"
      "src ! j = ch_bslash" "escape_at src j = Some (nxt, b)" "nxt \<le> length src" "j < nxt"
      "decode_from src nxt = (r, e, x, ok)" "nxt \<le> e"
      "decode_from src i = (cut src i j @ b @ r, e, True, ok)"
proof -
  let ?j = "find_from is_stop src i"
  have j: "i \<le> ?j" "?j \<le> length src" using assms by (auto intro: find_from_ge)
  consider "?j = length src" | "?j < length src" "src ! ?j = ch_quote"
    | "?j < length src" "src ! ?j = ch_bslash" "escape_at src ?j = None"
    | nxt b where "?j < length src" "src ! ?j = ch_bslash" "escape_at src ?j = Some (nxt, b)"
  proof -
    have "?j = length src \<or> ?j < length src \<and> is_stop (src ! ?j)"
      using j(2) find_from_found [of is_stop src i] by (auto simp: le_less)
    then show thesis using that by (cases "escape_at src ?j") auto
  qed
  then show thesis
  proof cases
    case 1
    then show thesis by (intro eof) (simp_all add: decode_from.simps Let_def)
  next
    case 2
    then show thesis using j(1) by (intro close) (simp_all add: decode_from.simps [of src i])
  next
    case 3
    then show thesis using j(1) by (intro bad) (simp_all add: decode_from.simps [of src i])
  next
    case (4 nxt b)
    obtain r e x ok where d: "decode_from src nxt = (r, e, x, ok)" by (metis prod_cases4)
    note bd = escape_at_bounds [OF 4(3)]
    have "nxt \<le> e" using decode_from_bounds [OF bd(2) d] by simp
    moreover have "decode_from src i = (cut src i ?j @ b @ r, e, True, ok)"
      using 4 d by (subst decode_from.simps) simp
    ultimately show thesis using 4 d bd j(1) by (intro escape) auto
  qed
qed

lemma copy_at_fits:
  "n + length bs \<le> length dst \<Longrightarrow>
   copy_at dst n bs = Some (take n dst @ bs @ drop (n + length bs) dst, length bs)"
  by (simp add: copy_at_def Let_def)

lemma put_at_fits:
  "n + length bs \<le> length dst \<Longrightarrow>
   \<exists>d. put_at dst n bs = Some d \<and> length d = length dst \<and> take (n + length bs) d = take n dst @ bs"
  by (auto simp: put_at_def)

lemma DecodeString_loop_spec:
  "i \<le> length src \<Longrightarrow> decode_from src i = (bs, e, x, ok) \<Longrightarrow> n + (e - i) < length dst \<Longrightarrow>
   \<exists>d. DecodeString_loop src i dst n esc = Some (d, n + length bs, esc \<or> x, ok) \<and>
       length d = length dst \<and> take (n + length bs) d = take n dst @ bs \<and>
       (ok \<longrightarrow> d ! (n + length bs) = ch_quote)"
proof (induction "length src - i" arbitrary: i dst n esc bs e x ok rule: less_induct)
  case less
  from less.prems(1) show ?case
  proof (cases rule: decode_from_cases)
    case eof
    then show ?thesis using less.prems
      by (subst DecodeString_loop.simps) (simp add: QuoteOrEscape_eq copy_at_fits Let_def)
  next
    case (close j)
    obtain m where m: "j = i + m" using close(2) le_Suc_ex by blast
    let ?d = "take n dst @ cut src i (i + m) @ drop (n + m) dst"
    have f: "find_from is_stop src i = i + m" using close(1) m by simp
    have eq: "bs = cut src i (i + m)" "e = i + m" "\<not> x" "ok" using less.prems close(5) m by auto
    have room: "n + m < length dst" "i + m < length src" using less.prems(3) eq close(3) m by auto
    have "copy_at dst n (cut src i (i + m)) = Some (?d, m)"
      using copy_at_fits [of n "cut src i (i + m)" dst] room by simp
    moreover have "put_at ?d (n + m) [ch_quote] =
        Some (take n dst @ cut src i (i + m) @ ch_quote # drop (Suc (n + m)) dst)"
      using room unfolding put_at_def by simp
    ultimately show ?thesis using f eq room close(4) m
      by (subst DecodeString_loop.simps) (simp add: QuoteOrEscape_eq nth_append Let_def)
  next
    case (bad j)
    then show ?thesis using less.prems
      by (subst DecodeString_loop.simps) (simp add: QuoteOrEscape_eq copy_at_fits DecodeEscape_def)
  next
    case (escape j nxt b r e' x' ok')
    obtain m where m: "j = i + m" using escape(2) le_Suc_ex by blast
    let ?d = "take n dst @ cut src i (i + m) @ drop (n + m) dst"
    have f: "find_from is_stop src i = i + m" using escape(1) m by simp
    note esc' = escape(3-10) [unfolded m]
    note bd = escape_at_bounds [OF esc'(3)]
    have eq: "bs = cut src i (i + m) @ b @ r" "e = e'" "x = True" "ok = ok'"
      using less.prems(2) esc'(8) by auto
    have room: "n + m + length b + (e - nxt) < length dst"
      using less.prems(3) bd esc'(7) eq(2) by linarith
    have len: "length ?d = length dst" using room esc'(1) by simp
    obtain d' where d': "put_at ?d (n + m) b = Some d'" "length d' = length dst"
        "take (n + m + length b) d' = take (n + m) ?d @ b"
      using put_at_fits [of "n + m" b ?d] len room by auto
    have "\<exists>d. DecodeString_loop src nxt d' (n + m + length b) True =
            Some (d, n + m + length b + length r, True \<or> x', ok') \<and> length d = length d' \<and>
            take (n + m + length b + length r) d = take (n + m + length b) d' @ r \<and>
            (ok' \<longrightarrow> d ! (n + m + length b + length r) = ch_quote)"
      using esc' eq room d'(2) by (intro less.hyps) auto
    moreover have "DecodeString_loop src i dst n esc = DecodeString_loop src nxt d' (n + m + length b) True"
      using esc' f d'(1) copy_at_fits [of n "cut src i (i + m)" dst] room len
      by (subst DecodeString_loop.simps) (simp add: QuoteOrEscape_eq DecodeEscape_def)
    moreover have "take (n + m) ?d = take n dst @ cut src i (i + m)"
      using esc'(1) room by simp
    ultimately show ?thesis using eq d' esc'(1) by (auto simp: add.assoc)
  qed
qed

text \<open>\<open>AppendString\<close>: a run copies the source up to the first quote or backslash.\<close>

lemma growTo_spec:
  "n \<le> length dst \<Longrightarrow> take n (growTo dst n need) = take n dst"
  "n \<le> length dst \<Longrightarrow> need \<le> length (growTo dst n need)"
  by (auto simp: growTo_def)

lemma cut_extend:
  "i \<le> j \<Longrightarrow> j \<le> k \<Longrightarrow> k \<le> length src \<Longrightarrow> (dst @ cut src i j) @ cut src j k = dst @ cut src i k"
  by (simp add: cut_append)

lemma append_tail_spec:
  "i \<le> length src \<Longrightarrow> n \<le> length dst \<Longrightarrow>
   \<exists>d. append_tail src i dst n =
         Some (d, n + (find_from is_stop src i - i), find_from is_stop src i) \<and>
       n + (find_from is_stop src i - i) \<le> length d \<and>
       take (n + (find_from is_stop src i - i)) d = take n dst @ cut src i (find_from is_stop src i)"
proof (induction src i dst n rule: append_tail.induct)
  case (1 src i dst n)
  show ?case
  proof (cases "i < length src \<and> \<not> is_stop (src ! i)")
    case True
    define dst' where "dst' = (if n = length dst then growTo dst n (n + 1) else dst)"
    have d': "n + length [src ! i] \<le> length dst'" "take n dst' = take n dst"
      using "1.prems"(2) growTo_spec [of n dst "n + 1"] by (auto simp: dst'_def)
    then obtain d where d: "put_at dst' n [src ! i] = Some d" "length d = length dst'"
        "take (n + 1) d = take n dst @ [src ! i]"
      using put_at_fits [of n "[src ! i]" dst'] by auto
    have j: "find_from is_stop src i = find_from is_stop src (Suc i)" "Suc i \<le> find_from is_stop src (Suc i)"
      using True by (auto simp: find_from_miss intro: find_from_ge)
    have "append_tail src i dst n = append_tail src (i + 1) d (n + 1)"
      using True d(1) by (subst append_tail.simps) (simp add: dst'_def Let_def)
    moreover have "cut src i (find_from is_stop src i) = src ! i # cut src (Suc i) (find_from is_stop src i)"
      using True j by (intro cut_Cons) auto
    moreover obtain m where "find_from is_stop src (Suc i) = Suc i + m"
      using j(2) le_Suc_ex by blast
    ultimately show ?thesis
      using "1.IH" [OF _ dst'_def d(1)] True d d' j(1) by auto
  next
    case False
    then have "find_from is_stop src i = i" using "1.prems"(1) by (cases "i < length src") auto
    then show ?thesis using False "1.prems" by (subst append_tail.simps) auto
  qed
qed

lemma append_words_spec:
  "i \<le> length src \<Longrightarrow> n \<le> length dst \<Longrightarrow>
   \<exists>d k stop. append_words src i dst n = Some (d, n + (k - i), k, stop) \<and>
       i \<le> k \<and> k \<le> find_from is_stop src i \<and> (stop \<longrightarrow> k = find_from is_stop src i \<and> k < length src) \<and>
       find_from is_stop src k = find_from is_stop src i \<and>
       n + (k - i) \<le> length d \<and> take (n + (k - i)) d = take n dst @ cut src i k"
proof (induction src i dst n rule: append_words.induct)
  case (1 src i dst n)
  show ?case
  proof (cases "i + 8 \<le> length src")
    case True
    let ?w = "take 8 (drop i src)"
    define dst' where
      "dst' = (if length dst < n + 8 then growTo dst n (n + 8 + (length src - i) div 4) else dst)"
    have d': "n + 8 \<le> length dst'" "take n dst' = take n dst"
      using "1.prems"(2) growTo_spec [of n dst "n + 8 + (length src - i) div 4"]
      by (auto simp: dst'_def)
    then obtain d where d: "put_at dst' n ?w = Some d" "length d = length dst'"
        "take (n + 8) d = take n dst @ ?w"
      using put_at_fits [of n ?w dst'] True by auto
    show ?thesis
    proof (cases "QuoteOrEscapeMask (load64 src i) = 0")
      case m: True
      have skip: "find_from is_stop src i = find_from is_stop src (i + 8)"
      proof -
        have "QuoteOrEscape src i = QuoteOrEscape src (i + 8)"
          using True m by (subst QuoteOrEscape.simps) simp
        then show ?thesis by (simp only: QuoteOrEscape_eq)
      qed
      have "append_words src i dst n = append_words src (i + 8) d (n + 8)"
        using True m d(1) by (subst append_words.simps) (simp add: dst'_def Let_def)
      moreover from True m d d' obtain e k stop where
        "append_words src (i + 8) d (n + 8) = Some (e, n + 8 + (k - (i + 8)), k, stop)"
        "i + 8 \<le> k" "k \<le> find_from is_stop src i"
        "stop \<longrightarrow> k = find_from is_stop src i \<and> k < length src"
        "find_from is_stop src k = find_from is_stop src i"
        "n + 8 + (k - (i + 8)) \<le> length e"
        "take (n + 8 + (k - (i + 8))) e = take (n + 8) d @ cut src (i + 8) k"
        using "1.IH" [OF True dst'_def refl d(1) refl] unfolding skip by auto
      moreover have "?w @ cut src (i + 8) k = cut src i k" if "i + 8 \<le> k" "k \<le> length src" for k
        using cut_append [of i "i + 8" k src] that by (simp add: cut_def)
      moreover have "k \<le> length src" if "k \<le> find_from is_stop src i" for k
        using that find_from_le order_trans by blast
      ultimately show ?thesis using d(3) by (auto simp: add.assoc intro!: exI [of _ e] exI [of _ k])
    next
      case m: False
      define q where "q = TrailingZeros64 (QuoteOrEscapeMask (load64 src i)) div 8"
      have f: "find_from is_stop src i = i + q"
        using qsearch.search_hit [OF True m] by (simp add: q_def)
      have q8: "q < 8" using TrailingZeros64_less [OF m] by (simp add: q_def less_mult_imp_div_less)
      have "take (n + q) d = take (n + q) (take (n + 8) d)" using q8 by (simp add: min_def)
      also have "\<dots> = take n dst @ cut src i (i + q)"
        using q8 "1.prems"(2) by (simp only: d(3)) (simp add: cut_def min_def)
      finally have t: "take (n + q) d = take n dst @ cut src i (i + q)" .
      have "append_words src i dst n = Some (d, n + q, i + q, True)"
        using True m d(1) by (subst append_words.simps) (simp add: dst'_def q_def)
      moreover have "find_from is_stop src (i + q) = i + q" using f find_from_idem by metis
      ultimately show ?thesis
        using t f d(2) d'(1) True q8
        by (intro exI [of _ d] exI [of _ "i + q"] exI [of _ True]) simp
    qed
  next
    case False
    then show ?thesis using "1.prems" by (subst append_words.simps) (auto simp: find_from_ge)
  qed
qed

lemma append_run_spec:
  assumes "i \<le> length src" "n \<le> length dst" "j = find_from is_stop src i"
  shows "\<exists>d. append_run src i dst n = Some (d, n + (j - i), j) \<and> n + (j - i) \<le> length d \<and>
       take (n + (j - i)) d = take n dst @ cut src i j"
proof -
  obtain d k stop where w: "append_words src i dst n = Some (d, n + (k - i), k, stop)"
      "i \<le> k" "k \<le> j" "stop \<longrightarrow> k = j" "find_from is_stop src k = j"
      "n + (k - i) \<le> length d" "take (n + (k - i)) d = take n dst @ cut src i k"
    using append_words_spec [OF assms(1,2)] assms(3) by auto
  have j: "j \<le> length src" using assms(3) by simp
  show ?thesis
  proof (cases stop)
    case True
    then show ?thesis using w by (simp add: append_run_def)
  next
    case False
    obtain e where e: "append_tail src k d (n + (k - i)) = Some (e, n + (k - i) + (j - k), j)"
        "n + (k - i) + (j - k) \<le> length e"
        "take (n + (k - i) + (j - k)) e = take (n + (k - i)) d @ cut src k j"
      using append_tail_spec [of k src "n + (k - i)" d] w(3,5,6) j by auto
    have "n + (k - i) + (j - k) = n + (j - i)" using w(2,3) by simp
    with False w e cut_append [of i k j src] j show ?thesis
      by (simp add: append_run_def)
  qed
qed

lemma AppendString_loop_spec:
  "i \<le> length src \<Longrightarrow> n \<le> length dst \<Longrightarrow> decode_from src i = (bs, e, x, ok) \<Longrightarrow>
   AppendString_loop src i dst n = Some (take n dst @ bs, e, ok)"
proof (induction "length src - i" arbitrary: i dst n bs e x ok rule: less_induct)
  case less
  obtain d where d: "append_run src i dst n =
        Some (d, n + (find_from is_stop src i - i), find_from is_stop src i)"
      "n + (find_from is_stop src i - i) \<le> length d"
      "take (n + (find_from is_stop src i - i)) d = take n dst @ cut src i (find_from is_stop src i)"
    using append_run_spec [OF less.prems(1,2) refl] by auto
  from less.prems(1) show ?case
  proof (cases rule: decode_from_cases)
    case eof
    then show ?thesis using d less.prems by (subst AppendString_loop.simps) simp
  next
    case (close j)
    then show ?thesis using d less.prems by (subst AppendString_loop.simps) simp
  next
    case (bad j)
    then show ?thesis using d less.prems
      by (subst AppendString_loop.simps) (simp add: DecodeEscape_def growTo_spec(1))
  next
    case (escape j nxt b r e' x' ok')
    let ?n = "n + (j - i)"
    note bd = escape_at_bounds [OF escape(5)]
    have d': "append_run src i dst n = Some (d, ?n, j)" "?n \<le> length d" "take ?n d = take n dst @ cut src i j"
      using d by (simp_all only: escape(1))
    define g where "g = (if length d < ?n + UTFMax then growTo d ?n (?n + UTFMax) else d)"
    have "length b \<le> UTFMax" using escape_at_length [OF escape(5)] .
    then have g: "?n + length b \<le> length g" "take ?n g = take ?n d"
      using growTo_spec [OF d'(2), of "?n + UTFMax"] by (auto simp: g_def)
    then obtain h where h: "put_at g ?n b = Some h" "length h = length g"
        "take (?n + length b) h = take ?n g @ b"
      using put_at_fits [of ?n b g] by auto
    have "AppendString_loop src i dst n = AppendString_loop src nxt h (?n + length b)"
      using d'(1) escape(3,4,5) h(1) by (subst AppendString_loop.simps) (simp add: g_def DecodeEscape_def)
    also have "\<dots> = Some (take (?n + length b) h @ r, e', ok')"
      using escape g h by (intro less.hyps) auto
    finally show ?thesis using h g(2) d'(3) escape(10) less.prems(3) by simp
  qed
qed

section \<open>The scanners agree with the decoders\<close>

lemma QuoteOrEscape_idem:
  "find_from is_stop src i = j \<Longrightarrow> QuoteOrEscape src j = QuoteOrEscape src i"
  using find_from_idem [of is_stop src i] by (simp add: QuoteOrEscape_eq)

lemma ScanString_stop:
  "find_from is_stop src i = j \<Longrightarrow> ScanString src i = ScanString src j"
  by (simp only: ScanString.simps [of src i] ScanString.simps [of src j] QuoteOrEscape_idem)

lemma ScanString_escape:
  assumes "j < length src" "src ! j = ch_bslash"
  shows "ScanString src j =
     (if At src (j + 1) = ch_u then
        (if hex4 src (j + 2) = None then (j, False) else ScanString src (j + 6))
      else if simpleEscape (At src (j + 1)) = 0 then (j, False) else ScanString src (j + 2))"
  using assms by (subst ScanString.simps) (simp add: QuoteOrEscape_eq)

text \<open>A decoded escape is one or two escapes of the validating scan.\<close>

lemma ScanString_decoded_escape:
  assumes "j < length src" "src ! j = ch_bslash" "escape_at src j = Some (nxt, b)"
  shows "ScanString src j = ScanString src nxt"
proof (cases "nxt = j + 12")
  case True
  with assms(3) have p: "At src (j + 1) = ch_u" "hex4 src (j + 2) \<noteq> None"
      "At src (j + 6) = ch_bslash" "At src (j + 7) = ch_u" "hex4 src (j + 8) \<noteq> None"
    by (auto simp: escape_at_def split: if_splits option.splits)
  have "j + 6 < length src" using p(3) by (intro At_neq_space) simp
  then have "ScanString src (j + 6) = ScanString src (j + 12)"
    using p by (subst ScanString_escape) (auto simp: numeral_eq_Suc)
  with p assms True show ?thesis by (subst ScanString_escape) auto
next
  case False
  with assms show ?thesis
    by (subst ScanString_escape) (auto simp: escape_at_def split: if_splits option.splits)
qed

lemma ScanString_eq:
  "i \<le> length src \<Longrightarrow> decode_from src i = (bs, e, x, ok) \<Longrightarrow> ScanString src i = (e, ok)"
proof (induction "length src - i" arbitrary: i bs e x ok rule: less_induct)
  case less
  from less.prems(1) show ?case
  proof (cases rule: decode_from_cases)
    case (bad j)
    then have "ScanString src j = (j, False)"
      by (subst ScanString_escape) (auto simp: escape_at_def split: if_splits option.splits)
    with bad less.prems ScanString_stop [of src i j] show ?thesis by simp
  next
    case (escape j nxt b r e' x' ok')
    have "ScanString src i = ScanString src nxt"
      using escape by (simp add: ScanString_stop [of src i j] ScanString_decoded_escape)
    also have "\<dots> = (e', ok')" using escape by (intro less.hyps) auto
    finally show ?thesis using escape less.prems(2) by simp
  qed (use less.prems in \<open>subst ScanString.simps; simp add: QuoteOrEscape_eq\<close>)+
qed

lemma StringEnd_stop:
  "find_from is_stop src i = j \<Longrightarrow> StringEnd src i = StringEnd src j"
  by (simp only: StringEnd.simps [of src i] StringEnd.simps [of src j] QuoteOrEscape_idem)

lemma StringEnd_escape:
  "j < length src \<Longrightarrow> src ! j = ch_bslash \<Longrightarrow> StringEnd src j = StringEnd src (j + 2)"
  by (subst StringEnd.simps) (simp add: QuoteOrEscape_eq)

lemma hexVal_stops_decided:
  "all_bytes (\<lambda>c. hexVal c \<noteq> None \<longrightarrow> \<not> is_stop c \<and> \<not> is_ws c \<and> \<not> c < 0x20)"
  by code_simp

lemma hexVal_no_stop: "hexVal c \<noteq> None \<Longrightarrow> \<not> is_stop c \<and> \<not> is_ws c \<and> \<not> c < 0x20"
  using all_bytesD [of "\<lambda>c. hexVal c \<noteq> None \<longrightarrow> \<not> is_stop c \<and> \<not> is_ws c \<and> \<not> c < 0x20" c]
  hexVal_stops_decided by blast

lemma hex4_digits: "hex4 src i \<noteq> None \<Longrightarrow> k < 4 \<Longrightarrow> hexVal (At src (i + k)) \<noteq> None"
  by (auto simp: hex4_def numeral_eq_Suc less_Suc_eq split: option.splits)

lemma StringEnd_hex:
  assumes "hex4 src i \<noteq> None"
  shows "StringEnd src i = StringEnd src (i + 4)"
proof -
  have l: "i + 4 \<le> length src" using assms by (rule hex4_in_range)
  have "\<not> is_stop (src ! k)" if "i \<le> k" "k < i + 4" for k
    using hex4_digits [OF assms, of "k - i"] hexVal_no_stop [of "src ! k"] that l by simp
  then have "find_from is_stop src i = find_from is_stop src (i + 4)"
    using l by (intro find_from_skip) auto
  then show ?thesis
    using StringEnd_stop [OF refl, of src i] StringEnd_stop [OF refl, of src "i + 4"] by argo
qed

lemma ScanString_StringEnd:
  "ScanString src i = (e, True) \<Longrightarrow> StringEnd src i = (e, True)"
proof (induction src i rule: ScanString.induct)
  case (1 src i)
  let ?j = "find_from is_stop src i"
  have eq: "StringEnd src i = StringEnd src ?j" "ScanString src i = ScanString src ?j"
    by (rule StringEnd_stop [OF refl], rule ScanString_stop [OF refl])
  consider "?j = length src" | "?j < length src" "src ! ?j = ch_quote"
    | "?j < length src" "src ! ?j = ch_bslash"
    using find_from_le [of is_stop src i] find_from_found [of is_stop src i] by (auto simp: le_less)
  then show ?case
  proof cases
    case 3
    note s = ScanString_escape [OF 3]
    show ?thesis
    proof (cases "At src (?j + 1) = ch_u")
      case True
      with s "1.prems" eq have h: "hex4 src (?j + 2) \<noteq> None" "ScanString src (?j + 6) = (e, True)"
        by (auto split: if_splits)
      then have "StringEnd src (?j + 6) = (e, True)"
        using 3 True by (intro "1.IH"(1) [OF QuoteOrEscape_eq [symmetric] _ _ refl])
          (auto simp: QuoteOrEscape_eq)
      then show ?thesis using StringEnd_escape [OF 3] StringEnd_hex [OF h(1)] eq by (simp add: add.commute)
    next
      case False
      with s "1.prems" eq have h: "simpleEscape (At src (?j + 1)) \<noteq> 0" "ScanString src (?j + 2) = (e, True)"
        by (auto split: if_splits)
      then have "StringEnd src (?j + 2) = (e, True)"
        using 3 False by (intro "1.IH"(2) [OF QuoteOrEscape_eq [symmetric] _ _ refl])
          (auto simp: QuoteOrEscape_eq)
      then show ?thesis using StringEnd_escape [OF 3] eq by simp
    qed
  qed (use "1.prems" in \<open>subst StringEnd.simps; subst (asm) ScanString.simps; simp add: QuoteOrEscape_eq\<close>)+
qed


section \<open>Claims\<close>

text \<open>
  Claim C19. \<open>DecodeString\<close> never writes outside its buffer when the buffer is longer than the
  source span it consumes: it stores the decoded bytes at the front of the buffer, reports their
  number, whether an escape occurred and whether the body is well formed, and on success stores the
  quote sentinel right after them.
\<close>

theorem DecodeString_decodes:
  assumes "body \<le> length src" "decode_from src body = (bs, e, x, ok)" "e - body < length dst"
  shows "\<exists>d. DecodeString src body dst = Some (d, length bs, x, ok) \<and> length d = length dst \<and>
           take (length bs) d = bs \<and> (ok \<longrightarrow> d ! length bs = ch_quote)"
  using DecodeString_loop_spec [OF assms(1,2), of 0 dst False] assms(3)
  by (simp add: DecodeString_def)

theorem DecodeString_decodes_witness:
  "\<exists>d. DecodeString (lit ''\"a'' @ [ch_bslash] @ lit ''nb\"'') 1 (replicate 8 0) = Some (d, 3, True, True) \<and>
     take 3 d = [0x61, 0x0A, 0x62] \<and> d ! 3 = ch_quote"
proof -
  let ?src = "lit ''\"a'' @ [ch_bslash] @ lit ''nb\"''"
  have d: "decode_from ?src 1 = ([0x61, 0x0A, 0x62], 5, True, True)" by code_simp
  have l: "1 \<le> length ?src" by (simp add: lit_def)
  have b: "(5 :: nat) - 1 < length (replicate 8 (0 :: byte))" by simp
  show ?thesis using DecodeString_decodes [OF l d b] by (simp add: numeral_eq_Suc) blast
qed

text \<open>
  Claim C20. \<open>AppendString\<close>, which grows its buffer and copies eight bytes at a time past the bytes
  it counts, never writes outside it: whatever the spare capacity holds, the result is the old
  contents followed by exactly the decoded bytes, with the end offset and verdict of the decoding.
\<close>

theorem AppendString_decodes:
  assumes "body \<le> length src"
  shows "AppendString dst spare src body =
           (case decode_from src body of (bs, e, x, ok) \<Rightarrow> Some (dst @ bs, e, ok))"
proof -
  obtain bs e x ok where d: "decode_from src body = (bs, e, x, ok)" by (rule prod_cases4)
  then show ?thesis
    using AppendString_loop_spec [OF assms _ d, of "length dst" "dst @ spare"]
    by (simp add: AppendString_def)
qed

theorem AppendString_decodes_witness:
  "1 \<le> length (lit ''\"0123456789'' @ [ch_bslash] @ lit ''t\" '') \<and>
   AppendString (lit ''>'') [7, 7] (lit ''\"0123456789'' @ [ch_bslash] @ lit ''t\" '') 1 =
     Some (lit ''>0123456789'' @ [0x09], 13, True)"
proof -
  let ?src = "lit ''\"0123456789'' @ [ch_bslash] @ lit ''t\" ''"
  have d: "decode_from ?src 1 = (lit ''0123456789'' @ [0x09], 13, True, True)" by code_simp
  have l: "1 \<le> length ?src" by (simp add: lit_def)
  have "lit ''>'' @ lit ''0123456789'' @ [0x09] = lit ''>0123456789'' @ [0x09]" by (simp add: lit_def)
  then show ?thesis using l AppendString_decodes [OF l, of "lit ''>''" "[7, 7]", unfolded d] by auto
qed

text \<open>
  Claim C21. \<open>ScanString\<close> accepts exactly the bodies the decoders decode and stops where they stop;
  on success that is the closing quote \<open>StringEnd\<close> resolves, and the decoded bytes are no longer
  than the span, so a decode into a copy of the span fits.
\<close>

theorem ScanString_agrees:
  assumes "body \<le> length src" "decode_from src body = (bs, e, x, ok)"
  shows "ScanString src body = (e, ok) \<and> (ok \<longrightarrow> StringEnd src body = (e, True)) \<and>
         body \<le> e \<and> e \<le> length src \<and> length bs \<le> e - body"
  using ScanString_eq [OF assms] ScanString_StringEnd [of src body e] decode_from_bounds [OF assms]
  by auto

theorem ScanString_agrees_witness:
  "ScanString (lit ''\"a'' @ [ch_bslash] @ lit ''nb\"'') 1 = (5, True) \<and>
   StringEnd (lit ''\"a'' @ [ch_bslash] @ lit ''nb\"'') 1 = (5, True)"
proof -
  let ?src = "lit ''\"a'' @ [ch_bslash] @ lit ''nb\"''"
  have d: "decode_from ?src 1 = ([0x61, 0x0A, 0x62], 5, True, True)" by code_simp
  have l: "1 \<le> length ?src" by (simp add: lit_def)
  show ?thesis using ScanString_agrees [OF l d] by blast
qed

end
