(* ===== verification/Scan.thy ===== *)
theory Scan
  imports Strings
begin

text \<open>
  The structural scan of \<^verbatim>\<open>internal/gdec/scan.go\<close>. \<open>Scan\<close> writes the index the tape walkers run
  over, \<open>Check\<close> reaches the same verdict without an index, \<open>TokenEnd\<close> ends one token for the
  cursor-driven binder. The three are three renderings of one tokenizer: \<open>Scan\<close> and \<open>Check\<close> give
  the same verdict, and the index of \<open>Scan\<close> lists the offsets \<open>SkipWS\<close> and \<open>TokenEnd\<close> step through.
\<close>

section \<open>The definitions\<close>

datatype ScanMode = ScanLax | ScanStrict | ScanCtl

definition ScanSlack :: nat where "ScanSlack = 24"

record scan_state =
  out :: "u32 list"
  cnt :: nat
  scalars :: nat
  inStr :: bool
  esc :: bool
  prevSW :: bool
  ctlErr :: bool

text \<open>\<^verbatim>\<open>out[n] = uint32(i); n++\<close>\<close>

definition record_idx :: "nat \<Rightarrow> scan_state \<Rightarrow> scan_state" where
  "record_idx i s = s\<lparr>out := (out s)[cnt s := word_of_nat i], cnt := cnt s + 1\<rparr>"

text \<open>The body of the loop over \<open>src\<close>, one byte.\<close>

definition scan_byte :: "nat \<Rightarrow> byte \<Rightarrow> scan_state \<Rightarrow> scan_state" where
  "scan_byte i c s =
     (let quote = (c = ch_quote \<and> \<not> esc s);
          s = s\<lparr>esc := (c = ch_bslash \<and> \<not> esc s)\<rparr> in
      if inStr s then
        (if quote then s\<lparr>inStr := False, prevSW := True\<rparr>
         else s\<lparr>ctlErr := (c < 0x20 \<or> ctlErr s), prevSW := (byteClass c = 1)\<rparr>)
      else if quote then (record_idx i s)\<lparr>inStr := True, prevSW := True\<rparr>
      else if byteClass c = 2 then (record_idx i s)\<lparr>prevSW := True\<rparr>
      else if byteClass c = 1 then s\<lparr>prevSW := True\<rparr>
      else if prevSW s then
        (record_idx i s)\<lparr>scalars := scalars s + 1, prevSW := False\<rparr>
      else s\<lparr>prevSW := False\<rparr>)"

fun scan_loop :: "nat \<Rightarrow> bytes \<Rightarrow> scan_state \<Rightarrow> scan_state" where
  "scan_loop i [] s = s"
| "scan_loop i (c # cs) s = scan_loop (i + 1) cs (scan_byte i c s)"

definition scan_init :: "u32 list \<Rightarrow> scan_state" where
  "scan_init o' = \<lparr>out = o', cnt = 0, scalars = 0, inStr = False, esc = False, prevSW = True, ctlErr = False\<rparr>"

text \<open>\<^verbatim>\<open>Scan\<close>: the index buffer as written, the index count, the scalar count, the verdict.\<close>

definition Scan :: "bytes \<Rightarrow> u32 list \<Rightarrow> ScanMode \<Rightarrow> u32 list \<times> nat \<times> nat \<times> bool" where
  "Scan src o' mode =
     (if length o' < length src + ScanSlack then (o', 0, 0, False)
      else let s = scan_loop 0 src (scan_init o') in
        if inStr s then (out s, 0, 0, False)
        else if mode \<noteq> ScanLax \<and> ctlErr s then (out s, 0, 0, False)
        else if mode = ScanStrict \<and> \<not> utf8_Valid src then (out s, 0, 0, False)
        else let l = word_of_nat (length src); n = cnt s in
          ((out s)[n := l, n + 1 := l, n + 2 := l], n, scalars s, True))"

definition hasCtl :: "bytes \<Rightarrow> bool" where
  "hasCtl b \<longleftrightarrow> list_ex (\<lambda>c. c < 0x20) b"

text \<open>The inner loop of \<^verbatim>\<open>Check\<close>, from one past an opening quote: the offset past the string.\<close>

function Check_string :: "bytes \<Rightarrow> bool \<Rightarrow> nat \<Rightarrow> nat option" where
  "Check_string src ctl j =
     (let k = QuoteOrEscape src j in
      if ctl \<and> hasCtl (cut src j k) then None
      else if length src \<le> k then None
      else if src ! k = ch_quote then Some (k + 1)
      else if length src < k + 2 \<or> (ctl \<and> src ! (k + 1) < 0x20) then None
      else Check_string src ctl (k + 2))"
  by pat_completeness auto
termination
  by (relation "measure (\<lambda>(src, ctl, j). length src - j)") (auto simp: not_le intro!: QuoteOrEscape_dec)

declare Check_string.simps [simp del]

lemma Check_string_bounds: "Check_string src ctl j = Some i \<Longrightarrow> j < i \<and> i \<le> length src"
proof (induction src ctl j rule: Check_string.induct)
  case (1 src ctl j)
  let ?k = "QuoteOrEscape src j"
  note p = "1.prems" [unfolded Check_string.simps [of src ctl j] Let_def]
  have lt: "?k < length src" using p by (auto split: if_splits)
  have ge: "j \<le> ?k" using lt by (rule QuoteOrEscape_ge)
  show ?case
  proof (cases "src ! ?k = ch_quote")
    case True
    then show ?thesis using p lt ge by (auto split: if_splits)
  next
    case False
    with p have "?k + 2 < i \<and> i \<le> length src"
      by (intro "1.IH" [OF refl]) (auto split: if_splits)
    with ge show ?thesis by simp
  qed
qed

function Check_loop :: "bytes \<Rightarrow> bool \<Rightarrow> nat \<Rightarrow> bool" where
  "Check_loop src ctl i =
     (let i = QuoteOrEscape src i in
      if length src \<le> i then True
      else if src ! i = ch_bslash then Check_loop src ctl (i + 2)
      else case Check_string src ctl (i + 1) of
        None \<Rightarrow> False
      | Some i \<Rightarrow> Check_loop src ctl i)"
  by pat_completeness auto
termination
  by (relation "measure (\<lambda>(src, ctl, j). length src - j)")
    (auto simp: not_le dest!: Check_string_bounds intro!: QuoteOrEscape_dec)

declare Check_loop.simps [simp del]

definition Check :: "bytes \<Rightarrow> ScanMode \<Rightarrow> bool" where
  "Check src mode \<longleftrightarrow>
     Check_loop src (mode \<noteq> ScanLax) 0 \<and> (mode \<noteq> ScanStrict \<or> utf8_Valid src)"

text \<open>\<^verbatim>\<open>scalarEnd\<close>, with the loop variable \<open>i\<close>.\<close>

function scalarEnd :: "bytes \<Rightarrow> nat \<Rightarrow> nat" where
  "scalarEnd src i =
     (if i < length src then
        (if byteClass (src ! i) \<noteq> 0 \<or> src ! i = ch_quote then i
         else if src ! i = ch_bslash \<and> i + 1 < length src \<and> (src ! (i + 1) = ch_quote \<or> src ! (i + 1) = ch_bslash)
         then scalarEnd src (i + 2)
         else scalarEnd src (i + 1))
      else length src)"
  by pat_completeness auto
termination by (relation "measure (\<lambda>(src, i). length src - i)") auto

declare scalarEnd.simps [simp del]

definition TokenEnd :: "bytes \<Rightarrow> nat \<Rightarrow> nat \<times> bool" where
  "TokenEnd src i =
     (if length src \<le> i then (i, True)
      else if byteClass (src ! i) = 2 then (i + 1, True)
      else if src ! i = ch_quote then (case StringEnd src (i + 1) of (e, ok) \<Rightarrow> (e + 1, ok))
      else (scalarEnd src i, True))"

section \<open>Scan and Check reach one verdict\<close>

text \<open>What the verdict depends on: whether a string is open, the escape carry, a control byte seen.\<close>

fun str_run :: "bool \<Rightarrow> bool \<Rightarrow> bytes \<Rightarrow> bool \<times> bool" where
  "str_run q e [] = (q, False)"
| "str_run q e (c # cs) =
     (let quote = (c = ch_quote \<and> \<not> e);
          (q', ctl) = str_run (if quote then \<not> q else q) (c = ch_bslash \<and> \<not> e) cs
      in (q', ctl \<or> (q \<and> \<not> quote \<and> c < 0x20)))"

lemma scan_loop_run:
  "inStr (scan_loop i cs s) = fst (str_run (inStr s) (esc s) cs)"
  "ctlErr (scan_loop i cs s) = (snd (str_run (inStr s) (esc s) cs) \<or> ctlErr s)"
  by (induction cs arbitrary: i s)
    (auto simp: scan_byte_def record_idx_def split: prod.splits if_splits)

lemma str_run_plain:
  "\<forall>c \<in> set cs. \<not> is_stop c \<Longrightarrow>
   str_run q False (cs @ ds) = (fst (str_run q False ds), snd (str_run q False ds) \<or> (q \<and> hasCtl cs))"
  by (induction cs) (auto simp: hasCtl_def split: prod.splits)

lemma str_run_skip:
  assumes "i \<le> length src" "k = find_from is_stop src i"
  shows "str_run q False (drop i src) =
    (fst (str_run q False (drop k src)), snd (str_run q False (drop k src)) \<or> (q \<and> hasCtl (cut src i k)))"
proof -
  have k: "i \<le> k" "k \<le> length src" using assms by (auto intro: find_from_ge)
  then have "drop i src = cut src i k @ drop k src"
    using append_take_drop_id [of "k - i" "drop i src"] by (simp add: cut_def)
  moreover have "\<forall>c \<in> set (cut src i k). \<not> is_stop c"
    using k assms(2) find_from_before [of i _ is_stop src] by (auto simp: set_cut)
  ultimately show ?thesis by (simp add: str_run_plain)
qed

lemma str_run_bslash:
  assumes "k < length src" "src ! k = ch_bslash"
  shows "fst (str_run q False (drop k src)) = fst (str_run q False (drop (k + 2) src))"
    and "snd (str_run q False (drop k src)) \<longleftrightarrow>
      snd (str_run q False (drop (k + 2) src)) \<or> (q \<and> k + 1 < length src \<and> src ! (k + 1) < 0x20)"
proof -
  have d: "drop k src = ch_bslash # drop (k + 1) src"
    using assms by (simp add: Cons_nth_drop_Suc [symmetric])
  have "fst (str_run q False (drop k src)) = fst (str_run q False (drop (k + 2) src)) \<and>
    (snd (str_run q False (drop k src)) \<longleftrightarrow>
      snd (str_run q False (drop (k + 2) src)) \<or> (q \<and> k + 1 < length src \<and> src ! (k + 1) < 0x20))"
  proof (cases "k + 1 < length src")
    case True
    then have "drop (k + 1) src = src ! (k + 1) # drop (k + 2) src"
      by (simp add: Cons_nth_drop_Suc [symmetric])
    with d True show ?thesis by (auto split: prod.splits)
  next
    case False
    with d show ?thesis by simp
  qed
  then show "fst (str_run q False (drop k src)) = fst (str_run q False (drop (k + 2) src))"
    and "snd (str_run q False (drop k src)) \<longleftrightarrow>
      snd (str_run q False (drop (k + 2) src)) \<or> (q \<and> k + 1 < length src \<and> src ! (k + 1) < 0x20)"
    by auto
qed

lemma str_run_quote:
  "k < length src \<Longrightarrow> src ! k = ch_quote \<Longrightarrow>
   str_run q False (drop k src) = str_run (\<not> q) False (drop (k + 1) src)"
  by (simp add: Cons_nth_drop_Suc [symmetric] split: prod.splits)

text \<open>A run is accepted when the string is closed and, under \<open>ctl\<close>, holds no control byte.\<close>

abbreviation run_ok :: "bool \<Rightarrow> bool \<times> bool \<Rightarrow> bool" where
  "run_ok ctl r \<equiv> \<not> fst r \<and> (ctl \<longrightarrow> \<not> snd r)"

lemma Check_string_run:
  "j \<le> length src \<Longrightarrow>
   run_ok ctl (str_run True False (drop j src)) \<longleftrightarrow>
   (case Check_string src ctl j of None \<Rightarrow> False | Some i \<Rightarrow> run_ok ctl (str_run False False (drop i src)))"
proof (induction src ctl j rule: Check_string.induct)
  case (1 src ctl j)
  define k where "k = find_from is_stop src j"
  have k: "QuoteOrEscape src j = k" by (simp add: k_def QuoteOrEscape_eq)
  note skip = str_run_skip [OF "1.prems" k_def, of True]
  note unf = Check_string.simps [of src ctl j, unfolded Let_def k]
  consider "k = length src" | "k < length src" "src ! k = ch_quote" | "k < length src" "src ! k = ch_bslash"
    using find_from_le [of is_stop src j] find_from_found [of is_stop src j]
    by (auto simp: k_def le_less)
  then show ?case
  proof cases
    case 2
    then show ?thesis using skip unf str_run_quote [of k src True] by auto
  next
    case 3
    note b = str_run_bslash [OF 3, of True]
    show ?thesis
    proof (cases "length src < k + 2 \<or> ctl \<and> (hasCtl (cut src j k) \<or> src ! (k + 1) < 0x20)")
      case True
      then show ?thesis using skip b unf 3 by (auto simp: not_less)
    next
      case False
      then have "run_ok ctl (str_run True False (drop (k + 2) src)) \<longleftrightarrow>
        (case Check_string src ctl (k + 2) of None \<Rightarrow> False
         | Some i \<Rightarrow> run_ok ctl (str_run False False (drop i src)))"
        using 3 by (intro "1.IH" [OF k [symmetric]]) auto
      with False skip b unf 3 show ?thesis by auto
    qed
  qed (use skip unf in auto)
qed

lemma Check_loop_run: "Check_loop src ctl i \<longleftrightarrow> run_ok ctl (str_run False False (drop i src))"
proof (induction src ctl i rule: Check_loop.induct)
  case (1 src ctl i)
  define k where "k = find_from is_stop src i"
  have k: "QuoteOrEscape src i = k" by (simp add: k_def QuoteOrEscape_eq)
  note unf = Check_loop.simps [of src ctl i, unfolded Let_def k]
  show ?case
  proof (cases "i \<le> length src")
    case True
    note skip = str_run_skip [OF True k_def, of False]
    consider "k = length src" | "k < length src" "src ! k = ch_quote" | "k < length src" "src ! k = ch_bslash"
      using find_from_le [of is_stop src i] find_from_found [of is_stop src i]
      by (auto simp: k_def le_less)
    then show ?thesis
    proof cases
      case 2
      have "Check_loop src ctl i \<longleftrightarrow>
          (case Check_string src ctl (k + 1) of None \<Rightarrow> False | Some i \<Rightarrow> Check_loop src ctl i)"
        using 2 unf by simp
      also have "\<dots> \<longleftrightarrow> run_ok ctl (str_run True False (drop (k + 1) src))"
        using 2 "1.IH"(2) [OF k [symmetric]] Check_string_run [of "k + 1" src ctl]
        by (auto split: option.splits)
      finally show ?thesis using skip 2 by (simp add: str_run_quote)
    next
      case 3
      have "Check_loop src ctl (k + 2) \<longleftrightarrow> run_ok ctl (str_run False False (drop (k + 2) src))"
        using 3 by (intro "1.IH"(1) [OF k [symmetric]]) auto
      then show ?thesis using skip str_run_bslash [OF 3, of False] unf 3 by simp
    qed (use skip unf in simp)
  next
    case False
    then show ?thesis using unf by (simp add: k_def)
  qed
qed

lemma Scan_verdict:
  assumes "length src + ScanSlack \<le> length o'"
  shows "snd (snd (snd (Scan src o' mode))) \<longleftrightarrow> Check src mode"
  using assms Check_loop_run [of src "mode \<noteq> ScanLax" 0]
  by (auto simp: Scan_def Check_def scan_loop_run scan_init_def)

section \<open>The index lists the token starts\<close>

lemma scalarEnd_ge: "i \<le> length src \<Longrightarrow> i \<le> scalarEnd src i \<and> scalarEnd src i \<le> length src"
proof (induction src i rule: scalarEnd.induct)
  case (1 src i)
  then show ?case by (subst (1 2) scalarEnd.simps) (auto split: if_splits)
qed

lemma StringEnd_bounds: "j \<le> length src \<Longrightarrow> StringEnd src j = (e, ok) \<Longrightarrow>
  j \<le> e \<and> e \<le> length src \<and> (ok \<longrightarrow> e < length src \<and> src ! e = ch_quote)"
proof (induction src j rule: StringEnd.induct)
  case (1 src j)
  define k where "k = find_from is_stop src j"
  have k: "QuoteOrEscape src j = k" by (simp add: k_def QuoteOrEscape_eq)
  have jk: "j \<le> k" "k \<le> length src" using "1.prems"(1) by (auto simp: k_def intro: find_from_ge)
  note unf = StringEnd.simps [of src j, unfolded Let_def k]
  show ?case
  proof (cases "k < length src \<and> src ! k \<noteq> ch_quote")
    case True
    show ?thesis
    proof (cases "k + 2 \<le> length src")
      case le: True
      have "k + 2 \<le> e \<and> e \<le> length src \<and> (ok \<longrightarrow> e < length src \<and> src ! e = ch_quote)"
        using True le "1.prems"(2) unf by (intro "1.IH" [OF k [symmetric]]) auto
      with jk show ?thesis by simp
    next
      case False
      then have "StringEnd src (k + 2) = (length src, False)"
        by (subst StringEnd.simps) (simp add: QuoteOrEscape_eq)
      with True unf "1.prems" show ?thesis by simp
    qed
  next
    case False
    then show ?thesis using unf "1.prems" jk by (auto split: if_splits)
  qed
qed

lemma TokenEnd_bounds:
  assumes "i < length src" "\<not> is_ws (src ! i)" "TokenEnd src i = (e, True)"
  shows "i < e \<and> e \<le> length src"
proof -
  consider "byteClass (src ! i) = 2" | "src ! i = ch_quote" "byteClass (src ! i) \<noteq> 2"
    | "byteClass (src ! i) = 0" "src ! i \<noteq> ch_quote"
    using assms(2) byteClass_cases(1) [of "src ! i"] byteClass_range [of "src ! i"] by fastforce
  then show ?thesis
  proof cases
    case 2
    obtain e' ok where s: "StringEnd src (i + 1) = (e', ok)" by fastforce
    with 2 assms StringEnd_bounds [of "i + 1" src e' ok] show ?thesis by (auto simp: TokenEnd_def)
  next
    case 3
    then have "scalarEnd src i = scalarEnd src (i + 1) \<or> i + 2 \<le> length src \<and> scalarEnd src i = scalarEnd src (i + 2)"
      using assms(1) by (subst (1 3) scalarEnd.simps) auto
    with 3 assms scalarEnd_ge [of "i + 1" src] scalarEnd_ge [of "i + 2" src] show ?thesis
      by (auto simp: TokenEnd_def)
  qed (use assms in \<open>auto simp: TokenEnd_def\<close>)
qed

lemma SkipWS_bounds: "i \<le> length src \<Longrightarrow> i \<le> SkipWS src i \<and> SkipWS src i \<le> length src \<and>
  (SkipWS src i < length src \<longrightarrow> \<not> is_ws (src ! SkipWS src i))"
  using find_from_found [of "\<lambda>c. \<not> is_ws c" src i] by (simp add: SkipWS_eq find_from_ge)

lemma token_dec:
  "i \<le> length src \<Longrightarrow> SkipWS src i < length src \<Longrightarrow> (e, True) = TokenEnd src (SkipWS src i) \<Longrightarrow>
   length src - e < length src - i"
  using SkipWS_bounds [of i src] TokenEnd_bounds [of "SkipWS src i" src e] by auto

text \<open>The offsets a cursor visits that skips whitespace and steps over one token at a time.\<close>

function token_starts :: "bytes \<Rightarrow> nat \<Rightarrow> nat list" where
  "token_starts src i =
     (if length src < i then [] else
      let p = SkipWS src i in
      if length src \<le> p then []
      else case TokenEnd src p of (e, ok) \<Rightarrow> p # (if ok then token_starts src e else []))"
  by pat_completeness auto
termination
  by (relation "measure (\<lambda>(src, i). length src - i)") (auto simp: not_less not_le intro!: token_dec)

declare token_starts.simps [simp del]

text \<open>The offsets the scan records from a given state on.\<close>

fun idx_run :: "bool \<Rightarrow> bool \<Rightarrow> bool \<Rightarrow> nat \<Rightarrow> bytes \<Rightarrow> nat list" where
  "idx_run q e p i [] = []"
| "idx_run q e p i (c # cs) =
     (let quote = (c = ch_quote \<and> \<not> e); e' = (c = ch_bslash \<and> \<not> e) in
      if q then (if quote then idx_run False e' True (i + 1) cs
                 else idx_run True e' (byteClass c = 1) (i + 1) cs)
      else if quote then i # idx_run True e' True (i + 1) cs
      else if byteClass c = 2 then i # idx_run False e' True (i + 1) cs
      else if byteClass c = 1 then idx_run False e' True (i + 1) cs
      else if p then i # idx_run False e' False (i + 1) cs
      else idx_run False e' False (i + 1) cs)"

lemma length_idx_run: "length (idx_run q e p i cs) \<le> length cs"
  by (induction cs arbitrary: q e p i) (auto simp: le_SucI)

lemma scan_loop_idx:
  "cnt s + length cs \<le> length (out s) \<Longrightarrow>
   let r = idx_run (inStr s) (esc s) (prevSW s) i cs; s' = scan_loop i cs s in
   cnt s' = cnt s + length r \<and> length (out s') = length (out s) \<and>
   take (cnt s') (out s') = take (cnt s) (out s) @ map word_of_nat r"
proof (induction cs arbitrary: i s)
  case (Cons c cs)
  have rec: "cnt (record_idx i s) = cnt s + 1" "length (out (record_idx i s)) = length (out s)"
      "take (cnt s + 1) (out (record_idx i s)) = take (cnt s) (out s) @ [word_of_nat i]"
    if "cnt s < length (out s)" for s :: scan_state using that by (auto simp: record_idx_def take_Suc_conv_app_nth)
  have sel: "inStr (record_idx i s) = inStr s" "esc (record_idx i s) = esc s" "prevSW (record_idx i s) = prevSW s"
    for s :: scan_state by (auto simp: record_idx_def)
  have "cnt (scan_byte i c s) + length cs \<le> length (out (scan_byte i c s))"
    using Cons.prems rec by (auto simp: scan_byte_def)
  from Cons.IH [OF this, of "i + 1"] show ?case
    using Cons.prems rec [of "s\<lparr>esc := _\<rparr>"] by (auto simp: scan_byte_def sel split: if_splits)
qed simp

lemma drop_nth: "i < length src \<Longrightarrow> drop i src = src ! i # drop (i + 1) src"
  by (simp add: Cons_nth_drop_Suc [symmetric])

lemma idx_run_ws:
  assumes "i \<le> length src" "k = SkipWS src i"
  shows "idx_run False False True i (drop i src) = idx_run False False True k (drop k src)"
proof -
  have "idx_run False False True i (drop i src) = idx_run False False True m (drop m src)"
    if "i \<le> m" "m \<le> length src" "\<And>j. i \<le> j \<Longrightarrow> j < m \<Longrightarrow> is_ws (src ! j)" for m
    using that
  proof (induction "m - i" arbitrary: m)
    case (Suc n)
    then obtain m' where m: "m = Suc m'" by (cases m) auto
    then have "idx_run False False True i (drop i src) = idx_run False False True m' (drop m' src)"
      using Suc by (intro Suc.hyps(1)) auto
    moreover have "is_ws (src ! m')" using Suc m by (intro Suc.prems(3)) auto
    ultimately show ?case using m Suc.prems(2)
      by (auto simp: drop_nth byteClass_def)
  qed simp
  moreover have "is_ws (src ! j)" if "i \<le> j" "j < k" for j
    using find_from_before [of i j "\<lambda>c. \<not> is_ws c" src] that assms by (simp add: SkipWS_eq)
  ultimately show ?thesis using SkipWS_bounds [OF assms(1)] assms(2) by auto
qed

lemma idx_run_inStr_plain:
  "\<forall>c \<in> set cs. \<not> is_stop c \<Longrightarrow>
   \<exists>p'. idx_run True False p i (cs @ ds) = idx_run True False p' (i + length cs) ds"
proof (induction cs arbitrary: i p)
  case (Cons c cs)
  then show ?case using Cons.IH [of "byteClass c = 1" "i + 1"] by auto
qed auto

lemma idx_run_string:
  "j \<le> length src \<Longrightarrow> StringEnd src j = (e, ok) \<Longrightarrow>
   idx_run True False p j (drop j src) =
   (if ok then idx_run False False True (e + 1) (drop (e + 1) src) else [])"
proof (induction src j arbitrary: p rule: StringEnd.induct)
  case (1 src j)
  define k where "k = find_from is_stop src j"
  have k: "QuoteOrEscape src j = k" by (simp add: k_def QuoteOrEscape_eq)
  have jk: "j \<le> k" "k \<le> length src" using "1.prems"(1) by (auto simp: k_def intro: find_from_ge)
  note unf = StringEnd.simps [of src j, unfolded Let_def k]
  have "drop j src = cut src j k @ drop k src"
    using jk append_take_drop_id [of "k - j" "drop j src"] by (simp add: cut_def)
  moreover have "\<forall>c \<in> set (cut src j k). \<not> is_stop c"
    using jk find_from_before [of j _ is_stop src] by (auto simp: set_cut k_def)
  ultimately obtain p' where p': "idx_run True False p j (drop j src) = idx_run True False p' k (drop k src)"
    using idx_run_inStr_plain [of "cut src j k" p j "drop k src"] jk by auto
  consider "k = length src" | "k < length src" "src ! k = ch_quote" | "k < length src" "src ! k = ch_bslash"
    using find_from_le [of is_stop src j] find_from_found [of is_stop src j]
    by (auto simp: k_def le_less)
  then show ?case
  proof cases
    case 1
    then show ?thesis using p' unf "1.prems" by auto
  next
    case 2
    then show ?thesis using p' unf "1.prems" by (auto simp: drop_nth)
  next
    case 3
    show ?thesis
    proof (cases "k + 1 < length src")
      case True
      have "idx_run True False q (k + 2) (drop (k + 2) src) =
          (if ok then idx_run False False True (e + 1) (drop (e + 1) src) else [])" for q
        using True 3 unf "1.prems"(2) by (intro "1.IH" [OF k [symmetric]]) auto
      then show ?thesis using p' 3 True by (auto simp: drop_nth)
    next
      case False
      then have "StringEnd src (k + 2) = (length src, False)"
        by (subst StringEnd.simps) (simp add: QuoteOrEscape_eq)
      then show ?thesis using p' 3 False unf "1.prems"(2) by (auto simp: drop_nth)
    qed
  qed
qed

lemma idx_run_esc_irrelevant:
  "\<not> is_stop c \<Longrightarrow> idx_run q True p i (c # cs) = idx_run q False p i (c # cs)"
  by auto

lemma idx_run_scalar:
  "i \<le> length src \<Longrightarrow>
   idx_run False False False i (drop i src) =
   idx_run False False True (scalarEnd src i) (drop (scalarEnd src i) src)"
proof (induction src i rule: scalarEnd.induct)
  case (1 src i)
  note unf = scalarEnd.simps [of src i]
  consider "i = length src" | "i < length src" "byteClass (src ! i) \<noteq> 0 \<or> src ! i = ch_quote"
    | "i < length src" "byteClass (src ! i) = 0" "src ! i \<noteq> ch_quote"
    using "1.prems" by (auto simp: le_less)
  then show ?case
  proof cases
    case 2
    then show ?thesis using unf byteClass_range [of "src ! i"] by (auto simp: drop_nth)
  next
    case 3
    show ?thesis
    proof (cases "src ! i = ch_bslash \<and> i + 1 < length src \<and> is_stop (src ! (i + 1))")
      case True
      have "idx_run False False False (i + 2) (drop (i + 2) src) =
          idx_run False False True (scalarEnd src (i + 2)) (drop (scalarEnd src (i + 2)) src)"
        using True 3 by (intro "1.IH"(1)) auto
      moreover have "idx_run False False False i (drop i src) = idx_run False False False (i + 2) (drop (i + 2) src)"
        using True 3 by (auto simp: drop_nth byteClass_def)
      ultimately show ?thesis using unf 3 True by auto
    next
      case False
      have "idx_run False False False (i + 1) (drop (i + 1) src) =
          idx_run False False True (scalarEnd src (i + 1)) (drop (scalarEnd src (i + 1)) src)"
        using False 3 by (intro "1.IH"(2)) auto
      moreover have "idx_run False (src ! i = ch_bslash) False (i + 1) (drop (i + 1) src) =
          idx_run False False False (i + 1) (drop (i + 1) src)"
      proof (cases "src ! i = ch_bslash \<and> i + 1 < length src")
        case t: True
        then show ?thesis using False idx_run_esc_irrelevant [of "src ! (i + 1)" False False "i + 1"]
          by (simp add: drop_nth del: idx_run.simps)
      qed auto
      ultimately show ?thesis using unf 3 False by (auto simp: drop_nth)
    qed
  qed (use unf in simp)
qed

lemma idx_run_tokens:
  "i \<le> length src \<Longrightarrow> idx_run False False True i (drop i src) = token_starts src i"
proof (induction src i rule: token_starts.induct)
  case (1 src i)
  define p where "p = SkipWS src i"
  have p: "i \<le> p" "p \<le> length src" "p < length src \<Longrightarrow> \<not> is_ws (src ! p)"
    using SkipWS_bounds [OF "1.prems"] by (auto simp: p_def)
  obtain e ok where t: "TokenEnd src p = (e, ok)" by fastforce
  note unf = token_starts.simps [of src i, folded p_def, unfolded Let_def t]
  show ?case
  proof (cases "p < length src")
    case True
    have IH: "ok \<Longrightarrow> idx_run False False True e (drop e src) = token_starts src e"
      using True p t TokenEnd_bounds [of p src e] "1.prems"
      by (intro "1.IH" [OF _ p_def _ t [symmetric]]) auto
    consider "byteClass (src ! p) = 2" | "src ! p = ch_quote" "byteClass (src ! p) \<noteq> 2"
      | "byteClass (src ! p) = 0" "src ! p \<noteq> ch_quote"
      using p(3) [OF True] byteClass_cases(1) [of "src ! p"] byteClass_range [of "src ! p"] by fastforce
    then have "idx_run False False True p (drop p src) = p # (if ok then token_starts src e else [])"
    proof cases
      case 1
      then have "e = p + 1" "ok" using t True by (auto simp: TokenEnd_def)
      moreover have "src ! p \<noteq> ch_bslash" using 1 by (auto simp: byteClass_def split: if_splits)
      ultimately show ?thesis using 1 IH True by (auto simp: drop_nth byteClass_def)
    next
      case 2
      obtain e' where s: "StringEnd src (p + 1) = (e', ok)" "e = e' + 1"
        using t 2 True by (auto simp: TokenEnd_def split: prod.splits)
      with 2 IH True idx_run_string [OF _ s(1)] show ?thesis by (auto simp: drop_nth)
    next
      case 3
      then have e: "e = scalarEnd src p" "ok" using t True by (auto simp: TokenEnd_def)
      have "idx_run False False True p (drop p src) = p # idx_run False False False p (drop p src)"
        using 3 True by (simp add: drop_nth)
      with e IH idx_run_scalar [OF p(2)] show ?thesis by simp
    qed
    then show ?thesis using unf True "1.prems" idx_run_ws [OF "1.prems" p_def] by simp
  next
    case False
    then show ?thesis using unf p "1.prems" idx_run_ws [OF "1.prems" p_def] by simp
  qed
qed

lemma token_starts_step:
  assumes "i \<le> length src" "SkipWS src i < length src" "TokenEnd src (SkipWS src i) = (e, ok)"
  shows "token_starts src i = SkipWS src i # (if ok then token_starts src e else [])"
  by (subst token_starts.simps) (use assms in simp)

lemma token_starts_end:
  "\<not> (i \<le> length src \<and> SkipWS src i < length src) \<Longrightarrow> token_starts src i = []"
  by (subst token_starts.simps) auto

lemma token_starts_range:
  "\<forall>p \<in> set (token_starts src i). i \<le> p \<and> p < length src \<and> \<not> is_ws (src ! p)"
proof (induction src i rule: token_starts.induct)
  case (1 src i)
  show ?case
  proof (cases "i \<le> length src \<and> SkipWS src i < length src")
    case True
    obtain e ok where t: "TokenEnd src (SkipWS src i) = (e, ok)" by fastforce
    have IH: "ok \<Longrightarrow> \<forall>p \<in> set (token_starts src e). e \<le> p \<and> p < length src \<and> \<not> is_ws (src ! p)"
      using True by (intro "1.IH" [OF _ refl _ t [symmetric]]) auto
    have p: "i \<le> SkipWS src i" "\<not> is_ws (src ! SkipWS src i)"
      using True SkipWS_bounds [of i src] by auto
    moreover have "ok \<Longrightarrow> SkipWS src i < e"
      using True t TokenEnd_bounds [of "SkipWS src i" src e] SkipWS_bounds [of i src] by auto
    ultimately show ?thesis using True IH token_starts_step [OF _ _ t] by fastforce
  qed (simp add: token_starts_end)
qed

lemma token_starts_sorted: "sorted_wrt (<) (token_starts src i)"
proof (induction src i rule: token_starts.induct)
  case (1 src i)
  show ?case
  proof (cases "i \<le> length src \<and> SkipWS src i < length src")
    case True
    obtain e ok where t: "TokenEnd src (SkipWS src i) = (e, ok)" by fastforce
    have IH: "ok \<Longrightarrow> sorted_wrt (<) (token_starts src e)"
      using True by (intro "1.IH" [OF _ refl _ t [symmetric]]) auto
    have "ok \<Longrightarrow> SkipWS src i < e"
      using True t TokenEnd_bounds [of "SkipWS src i" src e] SkipWS_bounds [of i src] by auto
    then have "ok \<Longrightarrow> \<forall>p \<in> set (token_starts src e). SkipWS src i < p"
      using token_starts_range [of src e] by (meson less_le_trans)
    then show ?thesis using True IH token_starts_step [OF _ _ t] by simp
  qed (simp add: token_starts_end)
qed

lemma Scan_index:
  assumes "Scan src o' mode = (idx, n, sc, True)" and "length src < 2 ^ 32"
  shows "take (n + 3) idx = map word_of_nat (token_starts src 0) @ replicate 3 (word_of_nat (length src))"
    and "n = length (token_starts src 0)"
    and "map unat (take n idx) = token_starts src 0 \<and>
    sorted_wrt (<) (token_starts src 0) \<and>
    (\<forall>p \<in> set (token_starts src 0). p < length src \<and> \<not> is_ws (src ! p)) \<and>
    unat (idx ! n) = length src \<and> unat (idx ! (n + 1)) = length src \<and> unat (idx ! (n + 2)) = length src"
proof -
  let ?s = "scan_loop 0 src (scan_init o')" and ?r = "token_starts src 0"
  have cap: "length src + 24 \<le> length o'"
    using assms(1) by (auto simp: Scan_def ScanSlack_def split: if_splits)
  have idx: "idx = (out ?s)[n := word_of_nat (length src), n + 1 := word_of_nat (length src),
      n + 2 := word_of_nat (length src)]" "n = cnt ?s"
    using assms(1) by (auto simp: Scan_def split: if_splits)
  have loop: "cnt ?s = length ?r" "length (out ?s) = length o'" "take n (out ?s) = map word_of_nat ?r"
    using scan_loop_idx [of "scan_init o'" src 0] idx_run_tokens [of 0 src] cap
    by (auto simp: scan_init_def idx(2))
  have r: "p < length src" if "p \<in> set ?r" for p using that token_starts_range [of src 0] by blast
  have le: "length ?r \<le> length src"
    using length_idx_run [of False False True 0 src] idx_run_tokens [of 0 src] by simp
  have un: "unat (word_of_nat k :: u32) = k" if "k \<le> length src" for k
    using that assms(2) by (simp add: unat_of_nat)
  have "take n idx = map word_of_nat ?r" using loop(3) by (simp add: idx(1))
  then have "map unat (take n idx) = ?r"
    using r un by (simp add: map_idI comp_def less_imp_le)
  moreover have "\<forall>p \<in> set ?r. p < length src \<and> \<not> is_ws (src ! p)"
    using token_starts_range [of src 0] by blast
  moreover have "unat (idx ! n) = length src \<and> unat (idx ! (n + 1)) = length src \<and> unat (idx ! (n + 2)) = length src"
    using un [of "length src"] le cap loop(1,2) by (simp add: idx)
  ultimately show "map unat (take n idx) = token_starts src 0 \<and>
    sorted_wrt (<) (token_starts src 0) \<and>
    (\<forall>p \<in> set (token_starts src 0). p < length src \<and> \<not> is_ws (src ! p)) \<and>
    unat (idx ! n) = length src \<and> unat (idx ! (n + 1)) = length src \<and> unat (idx ! (n + 2)) = length src"
    using token_starts_sorted [of src 0] by blast
  have l: "n + 3 \<le> length idx" using le cap loop(1,2) by (simp add: idx)
  have "take (n + 3) idx = take n idx @ take 3 (drop n idx)" by (rule take_add)
  also have "take 3 (drop n idx) = [idx ! n, idx ! (n + 1), idx ! (n + 2)]"
    using l by (simp add: numeral_3_eq_3 take_Suc_conv_app_nth)
  also have "\<dots> = replicate 3 (word_of_nat (length src))"
    using l by (simp add: idx numeral_3_eq_3)
  finally show "take (n + 3) idx = map word_of_nat ?r @ replicate 3 (word_of_nat (length src))"
    using \<open>take n idx = map word_of_nat ?r\<close> by simp
  show "n = length ?r" using loop(1) idx(2) by simp
qed

section \<open>Claims\<close>

text \<open>
  Claim C16. \<open>Check\<close>, which jumps from stop to stop and never looks at the bytes between them, and
  \<open>Scan\<close>, which walks every byte with an escape carry, reach the same verdict in every mode.
\<close>

theorem Scan_verdict_eq_Check:
  assumes "length src + ScanSlack \<le> length o'"
  shows "snd (snd (snd (Scan src o' mode))) \<longleftrightarrow> Check src mode"
  using assms by (rule Scan_verdict)

theorem Scan_verdict_eq_Check_witness:
  "let src = lit ''{\"a'' @ [ch_bslash] @ lit ''\":1}'' in
   length src + ScanSlack \<le> length (replicate 40 (0 :: u32)) \<and>
   snd (snd (snd (Scan src (replicate 40 0) ScanCtl))) = Check src ScanCtl \<and> \<not> Check src ScanCtl"
proof -
  let ?src = "lit ''{\"a'' @ [ch_bslash] @ lit ''\":1}''"
  have h: "length ?src + ScanSlack \<le> length (replicate 40 (0 :: u32))" by code_simp
  have "\<not> Check ?src ScanCtl" by code_simp
  then show ?thesis unfolding Let_def using h Scan_verdict_eq_Check [OF h, of ScanCtl] by blast
qed

text \<open>
  Claim C15. The index \<open>Scan\<close> writes is exactly the sequence of token starts a cursor visits with
  \<open>SkipWS\<close> and \<open>TokenEnd\<close>, followed by three sentinels equal to the source length; it is strictly
  increasing, and every entry lies inside the source on a byte that is no whitespace.
\<close>

theorem Scan_index_tokens:
  assumes "Scan src o' mode = (idx, n, sc, True)" and "length src < 2 ^ 32"
  shows "map unat (take n idx) = token_starts src 0 \<and>
    sorted_wrt (<) (token_starts src 0) \<and>
    (\<forall>p \<in> set (token_starts src 0). p < length src \<and> \<not> is_ws (src ! p)) \<and>
    unat (idx ! n) = length src \<and> unat (idx ! (n + 1)) = length src \<and> unat (idx ! (n + 2)) = length src"
  using Scan_index [OF assms] by blast

theorem Scan_index_tokens_witness:
  "let src = lit ''[1, \"a'' @ [ch_bslash] @ lit ''\"b\"]''; r = Scan src (replicate 40 0) ScanLax in
   snd (snd (snd r)) \<and> length src < 2 ^ 32 \<and>
   map unat (take (fst (snd r)) (fst r)) = token_starts src 0 \<and> token_starts src 0 = [0, 1, 2, 4, 10]"
proof -
  let ?src = "lit ''[1, \"a'' @ [ch_bslash] @ lit ''\"b\"]''"
  have l: "length ?src < 2 ^ 32" by (simp add: lit_def)
  have t: "token_starts ?src 0 = [0, 1, 2, 4, 10]" by code_simp
  have "snd (snd (snd (Scan ?src (replicate 40 0) ScanLax)))" by code_simp
  moreover obtain idx n sc ok where "Scan ?src (replicate 40 0) ScanLax = (idx, n, sc, ok)"
    by (rule prod_cases4)
  ultimately have s: "Scan ?src (replicate 40 0) ScanLax = (idx, n, sc, True)"
    by (metis snd_conv)
  show ?thesis unfolding Let_def s fst_conv snd_conv using Scan_index_tokens [OF s l] l t by blast
qed

end
