(* ===== verification/Utf8.thy ===== *)
theory Utf8
  imports Scan
begin

text \<open>
  The strict string-body policy of \<^verbatim>\<open>internal/gdec/utf8.go\<close>: no raw byte below 0x20 and well-formed
  UTF-8. \<open>validRun\<close> walks a run of multibyte sequences with the packed lead table, \<open>ValidateBody\<close>
  checks a span and \<open>QuoteOrEscapeBody\<close> searches and checks at once. They are compared with
  \<open>body_ok\<close>, the policy stated with the standard library's \<open>utf8_Valid\<close>. The Go result \<^verbatim>\<open>-1\<close> is \<open>None\<close>.
\<close>

section \<open>Definitions\<close>

definition lead_entry :: "nat \<Rightarrow> byte \<Rightarrow> byte \<Rightarrow> u32" where
  "lead_entry n lo hi = word_of_nat n OR push_bit 8 (ucast lo) OR push_bit 16 (ucast hi)"

definition utf8Lead :: "byte \<Rightarrow> u32" where
  "utf8Lead b =
     (if b = 0xF4 then lead_entry 4 0x80 0x8F
      else if b = 0xF0 then lead_entry 4 0x90 0xBF
      else if b = 0xED then lead_entry 3 0x80 0x9F
      else if b = 0xE0 then lead_entry 3 0xA0 0xBF
      else if 0xF1 \<le> b \<and> b \<le> 0xF3 then lead_entry 4 0x80 0xBF
      else if 0xEE \<le> b \<and> b \<le> 0xEF then lead_entry 3 0x80 0xBF
      else if 0xE1 \<le> b \<and> b \<le> 0xEC then lead_entry 3 0x80 0xBF
      else if 0xC2 \<le> b \<and> b \<le> 0xDF then lead_entry 2 0x80 0xBF
      else 0)"

function validRun :: "bytes \<Rightarrow> nat \<Rightarrow> nat option" where
  "validRun src i =
     (if length src \<le> i then Some i
      else let p = drop i src; p0 = p ! 0 in
        if p0 < 0x80 then Some i
        else let lead = utf8Lead p0;
                 sz = (ucast lead :: byte); lo = (ucast (drop_bit 8 lead) :: byte);
                 hi = (ucast (drop_bit 16 lead) :: byte) in
          if sz = 2 then
            (if length p < 2 \<or> p ! 1 < lo \<or> hi < p ! 1 then None else validRun src (i + 2))
          else if sz = 3 then
            (if length p < 3 \<or> p ! 1 < lo \<or> hi < p ! 1 \<or> p ! 2 < 0x80 \<or> 0xBF < p ! 2 then None
             else validRun src (i + 3))
          else if sz = 4 then
            (if length p < 4 \<or> p ! 1 < lo \<or> hi < p ! 1 \<or> p ! 2 < 0x80 \<or> 0xBF < p ! 2 \<or>
                p ! 3 < 0x80 \<or> 0xBF < p ! 3 then None
             else validRun src (i + 4))
          else None)"
  by pat_completeness auto
termination by (relation "measure (\<lambda>(src, i). length src - i)") auto

declare validRun.simps [simp del]

section \<open>Runs\<close>

definition lead_rows :: "(nat \<times> byte \<times> byte) list" where
  "lead_rows = [(0, 0, 0), (2, 0x80, 0xBF), (3, 0x80, 0xBF), (3, 0xA0, 0xBF), (3, 0x80, 0x9F),
     (4, 0x80, 0xBF), (4, 0x90, 0xBF), (4, 0x80, 0x8F)]"

lemma lead_rows_unpacked:
  "\<forall>(n, lo, hi) \<in> set lead_rows.
     (ucast (lead_entry n lo hi) :: byte) = word_of_nat n \<and>
     (ucast (drop_bit 8 (lead_entry n lo hi)) :: byte) = lo \<and>
     (ucast (drop_bit 16 (lead_entry n lo hi)) :: byte) = hi \<and>
     n \<in> set [0, 2, 3, 4] \<and> (n \<noteq> 0 \<longrightarrow> 0x80 \<le> lo)"
  by code_simp

lemma byte_conds:
  "b < numeral k \<longleftrightarrow> unat b < unat (numeral k :: byte)"
  "b \<le> numeral k \<longleftrightarrow> unat b \<le> unat (numeral k :: byte)"
  "numeral k \<le> b \<longleftrightarrow> unat (numeral k :: byte) \<le> unat b"
  "b = numeral k \<longleftrightarrow> unat b = unat (numeral k :: byte)" for b :: byte
  by (simp_all add: word_less_nat_alt word_le_nat_alt word_unat_eq_iff)

lemma utf8Lead_decided:
  "\<not> b < 0x80 \<Longrightarrow> utf8_first b \<in> set lead_rows \<and>
   (case utf8_first b of (n, lo, hi) \<Rightarrow> utf8Lead b = lead_entry n lo hi)"
proof -
  assume h: "\<not> b < 0x80"
  have z: "lead_entry 0 0 0 = 0" by code_simp
  have "utf8_first b \<in> set lead_rows" unfolding utf8_first_def using h by (simp add: lead_rows_def)
  moreover have "case utf8_first b of (n, lo, hi) \<Rightarrow> utf8Lead b = lead_entry n lo hi"
    using h unfolding utf8_first_def utf8Lead_def byte_conds
    by (simp add: z split: if_split)
  ultimately show ?thesis by blast
qed
lemma utf8Lead_eq:
  assumes "\<not> b < 0x80"
  obtains n lo hi where "utf8_first b = (n, lo, hi)" "(ucast (utf8Lead b) :: byte) = word_of_nat n"
    "n \<in> {0, 2, 3, 4}"
    "n \<noteq> 0 \<Longrightarrow> (ucast (drop_bit 8 (utf8Lead b)) :: byte) = lo \<and> (ucast (drop_bit 16 (utf8Lead b)) :: byte) = hi \<and> 0x80 \<le> lo"
proof -
  obtain n lo hi where u: "(n, lo, hi) \<in> set lead_rows" "utf8_first b = (n, lo, hi)" "utf8Lead b = lead_entry n lo hi"
    using utf8Lead_decided [OF assms] by (cases "utf8_first b") auto
  show thesis using that [OF u(2)] bspec [OF lead_rows_unpacked u(1)] u(3) by auto
qed

lemma utf8_size_ascii [simp]: "c < 0x80 \<Longrightarrow> utf8_size (c # cs) = 1"
  by (simp add: utf8_size_def utf8_first_def)

lemma validRun_step:
  assumes "i < length src" "\<not> src ! i < 0x80"
  shows "validRun src i =
    (if utf8_size (drop i src) = 0 then None else validRun src (i + utf8_size (drop i src)))"
proof -
  obtain n lo hi where f: "utf8_first (src ! i) = (n, lo, hi)"
      "(ucast (utf8Lead (src ! i)) :: byte) = word_of_nat n" "n \<in> {0, 2, 3, 4}"
      "n \<noteq> 0 \<Longrightarrow> (ucast (drop_bit 8 (utf8Lead (src ! i))) :: byte) = lo \<and>
         (ucast (drop_bit 16 (utf8Lead (src ! i))) :: byte) = hi \<and> 0x80 \<le> lo"
    using utf8Lead_eq [OF assms(2)] by metis
  have d: "drop i src = src ! i # drop (i + 1) src" using assms(1) by (rule drop_nth)
  consider "n = 0" | "n = 2" | "n = 3" | "n = 4" using f(3) by auto
  then show ?thesis
    by cases (use f(1,2,4) assms in
      \<open>subst validRun.simps; auto simp: d utf8_size_def not_le not_less\<close>)+
qed

lemma utf8_size_alt:
  assumes "p \<noteq> []" "utf8_first (p ! 0) = (n, lo, hi)" "n \<in> {0, 2, 3, 4}"
  shows "utf8_size p =
    (if n = 0 \<or> length p < n \<or> p ! 1 < lo \<or> hi < p ! 1 \<or> (3 \<le> n \<and> \<not> cont_byte (p ! 2)) \<or>
        (n = 4 \<and> \<not> cont_byte (p ! 3)) then 0 else n)"
proof (cases p)
  case (Cons c cs)
  consider "n = 0" | "n = 2" | "n = 3" | "n = 4" using assms(3) by auto
  then show ?thesis by cases (use Cons assms(2) in \<open>simp_all add: utf8_size_def\<close>)
qed (use assms in simp)

lemma utf8_size_high:
  assumes "k < utf8_size p" "\<not> p ! 0 < 0x80"
  shows "\<not> p ! k < 0x80"
proof -
  have p: "p \<noteq> []" using assms(1) by (auto simp: utf8_size_def)
  obtain n lo hi where f: "utf8_first (p ! 0) = (n, lo, hi)" "n \<in> {0, 2, 3, 4}" "n \<noteq> 0 \<Longrightarrow> 0x80 \<le> lo"
    using utf8Lead_eq [OF assms(2)] by metis
  note s = utf8_size_alt [OF p f(1,2)]
  have n: "n \<noteq> 0" "k < n" "lo \<le> p ! 1" "3 \<le> n \<Longrightarrow> 0x80 \<le> p ! 2" "n = 4 \<Longrightarrow> 0x80 \<le> p ! 3"
    using s assms(1) by (auto split: if_splits)
  have "0x80 \<le> p ! 1" using f(3) n by (meson order_trans)
  moreover have "k = 0 \<or> k = 1 \<or> k = 2 \<and> 3 \<le> n \<or> k = 3 \<and> n = 4" using n(2) f(2) by auto
  ultimately show ?thesis using n assms(2) by (auto simp: not_less)
qed

lemma utf8_size_prefix:
  assumes "xs \<noteq> []" "y < 0x80"
  shows "utf8_size (xs @ y # ys) = utf8_size xs"
proof (cases "xs ! 0 < 0x80")
  case True
  then show ?thesis using assms(1) by (cases xs) auto
next
  case False
  obtain n lo hi where f: "utf8_first (xs ! 0) = (n, lo, hi)" "n \<in> {0, 2, 3, 4}" "n \<noteq> 0 \<Longrightarrow> 0x80 \<le> lo"
    using utf8Lead_eq [OF False] by metis
  have hd: "(xs @ y # ys) ! 0 = xs ! 0" using assms(1) by (simp add: nth_append)
  have y: "n \<noteq> 0 \<Longrightarrow> y < lo" "\<not> 0x80 \<le> y" using f(3) assms(2) by (auto intro: less_le_trans)
  have nth: "(xs @ y # ys) ! k = (if k = length xs then y else xs ! k)" if "k \<le> length xs" for k
    using that by (simp add: nth_append)
  have y1: "length xs = k \<Longrightarrow> (xs @ y # ys) ! k = y" for k by auto
  have l: "0 < length xs" using assms(1) by simp
  show ?thesis
  proof (cases "length xs < n")
    case True
    have "utf8_size xs = 0" using True utf8_size_alt [OF assms(1) f(1,2)] by simp
    moreover have "length xs = 1 \<or> length xs = 2 \<and> 3 \<le> n \<or> length xs = 3 \<and> n = 4"
      using True l f(2) unfolding insert_iff empty_iff by arith
    then have "utf8_size (xs @ y # ys) = 0"
      using utf8_size_alt [of "xs @ y # ys", unfolded hd, OF _ f(1,2)] y True y1 [of "Suc 0"] y1 [of 2] y1 [of 3]
      by (auto simp del: length_append)
    ultimately show ?thesis by simp
  next
    case False
    have "k < n \<Longrightarrow> (xs @ y # ys) ! k = xs ! k" for k using False nth [of k] by simp
    then show ?thesis
      using utf8_size_alt [of "xs @ y # ys", unfolded hd, OF _ f(1,2)] utf8_size_alt [OF assms(1) f(1,2)] f(2) False
      by auto
  qed
qed

lemma utf8_Valid_ascii: "c < 0x80 \<Longrightarrow> utf8_Valid (c # cs) = utf8_Valid cs"
  by (subst utf8_Valid.simps) simp

lemma cut_prefix_split:
  "i \<le> j \<Longrightarrow> j \<le> length src \<Longrightarrow> drop i src = cut src i j @ drop j src"
  by (simp add: cut_def) (metis append_take_drop_id drop_drop le_add_diff_inverse2)

text \<open>A span end sits at the end of the source or on an ASCII byte.\<close>

definition span_end :: "bytes \<Rightarrow> nat \<Rightarrow> bool" where
  "span_end src j \<longleftrightarrow> j = length src \<or> (j < length src \<and> src ! j < 0x80)"

lemma utf8_size_span:
  assumes "i < j" "span_end src j"
  shows "utf8_size (drop i src) = utf8_size (cut src i j)"
proof (cases "j = length src")
  case True
  then show ?thesis by (simp add: cut_def)
next
  case False
  then have j: "j < length src" "src ! j < 0x80" using assms(2) by (auto simp: span_end_def)
  then have "cut src i j \<noteq> []" using assms(1) by (metis length_cut less_imp_le_nat list.size(3) zero_less_diff less_irrefl)
  then show ?thesis using cut_prefix_split [of i j src] assms(1) j
    by (simp add: drop_nth [OF j(1)] utf8_size_prefix)
qed

lemma validRun_spec:
  assumes "i \<le> j" "span_end src j"
  shows "case validRun src i of
      None \<Rightarrow> \<not> utf8_Valid (cut src i j)
    | Some k \<Rightarrow> i \<le> k \<and> k \<le> j \<and> span_end src k \<and> (\<forall>m. i \<le> m \<longrightarrow> m < k \<longrightarrow> \<not> src ! m < 0x80) \<and>
        utf8_Valid (cut src i j) = utf8_Valid (cut src k j)"
  using assms
proof (induction "length src - i" arbitrary: i rule: less_induct)
  case less
  have jl: "j \<le> length src" using less.prems(2) by (auto simp: span_end_def)
  show ?case
  proof (cases "i < length src \<and> \<not> src ! i < 0x80")
    case False
    then have "validRun src i = Some i"
      using less.prems jl by (subst validRun.simps) auto
    then show ?thesis using False less.prems jl by (auto simp: span_end_def)
  next
    case True
    then have ij: "i < j" using less.prems by (cases "i = j") (auto simp: span_end_def)
    let ?n = "utf8_size (cut src i j)"
    have n: "utf8_size (drop i src) = ?n" by (rule utf8_size_span [OF ij less.prems(2)])
    have ne: "cut src i j \<noteq> []" using ij jl by (metis length_cut less_irrefl list.size(3) zero_less_diff)
    have c0: "cut src i j ! m = src ! (i + m)" if "i + m < j" for m using that jl by (intro nth_cut) auto
    show ?thesis
    proof (cases "?n = 0")
      case True
      then show ?thesis using validRun_step [of i src] \<open>i < length src \<and> _\<close> n ne
        by (subst utf8_Valid.simps) simp
    next
      case False
      have le: "i + ?n \<le> j" using utf8_size_le [of "cut src i j"] ij jl by simp
      have hi: "\<not> src ! (i + m) < 0x80" if "m < ?n" for m
        using utf8_size_high [OF that] c0 [of 0] c0 [of m] that le ij True by simp
      have v: "utf8_Valid (cut src i j) = utf8_Valid (cut src (i + ?n) j)"
        using False ne le jl by (subst utf8_Valid.simps) (simp add: cut_def drop_take add.commute)
      have IH: "case validRun src (i + ?n) of
          None \<Rightarrow> \<not> utf8_Valid (cut src (i + ?n) j)
        | Some k \<Rightarrow> i + ?n \<le> k \<and> k \<le> j \<and> span_end src k \<and> (\<forall>m. i + ?n \<le> m \<longrightarrow> m < k \<longrightarrow> \<not> src ! m < 0x80) \<and>
            utf8_Valid (cut src (i + ?n) j) = utf8_Valid (cut src k j)"
        using False le True less.prems(2) by (intro less.hyps) auto
      have all: "\<not> src ! m < 0x80" if "i \<le> m" "m < k" "\<forall>m. i + ?n \<le> m \<longrightarrow> m < k \<longrightarrow> \<not> src ! m < 0x80" for m k
        using that hi [of "m - i"] by (cases "m < i + ?n") auto
      show ?thesis using IH v validRun_step [of i src] True False n all by (auto split: option.splits)
    qed
  qed
qed

section \<open>Bodies\<close>

text \<open>
  The word loop of \<^verbatim>\<open>ValidateBody\<close> over \<^verbatim>\<open>sub = src[:j]\<close>. A high byte starts a run at its own
  offset, so the run makes progress.
\<close>

lemma high_byte_run:
  assumes "k + 8 \<le> length sub" "load64 sub k AND msb \<noteq> 0" "t = k + TrailingZeros64 (load64 sub k AND msb) div 8"
  shows "k \<le> t" "t < k + 8" "\<not> sub ! t < 0x80" "\<And>m. k \<le> m \<Longrightarrow> m < t \<Longrightarrow> sub ! m < 0x80"
proof -
  let ?w = "take 8 (drop k sub)"
  have l: "length ?w = 8" using assms(1) by simp
  have "\<exists>c \<in> set ?w. 0x80 \<le> c"
    using high.mask_zero_iff [OF l] assms(2) by (auto simp: load64_def)
  then obtain j where j: "j < length ?w" "0x80 \<le> ?w ! j" "\<And>i. i < j \<Longrightarrow> \<not> 0x80 \<le> ?w ! i"
    by (rule first_index) blast
  have "TrailingZeros64 (load64 sub k AND msb) div 8 = j"
    using high.mask_hit(2) [OF l _ j(2,3)] j(1) l by (simp add: load64_def)
  then have t: "t = k + j" using assms(3) by simp
  show "k \<le> t" "t < k + 8" "\<not> sub ! t < 0x80" using t j l assms(1) by (auto simp: not_less)
  show "sub ! m < 0x80" if "k \<le> m" "m < t" for m
    using j(3) [of "m - k"] that t j(1) l assms(1) by (simp add: not_le)
qed

lemma validRun_progress:
  assumes "i < length src" "\<not> src ! i < 0x80" "validRun src i = Some k"
  shows "i < k" "k \<le> length src"
proof -
  have s: "span_end src (length src)" by (simp add: span_end_def)
  have "i \<le> k \<and> k \<le> length src \<and> span_end src k" using validRun_spec [OF _ s, of i] assms by simp
  moreover then have "i \<noteq> k" using assms by (auto simp: span_end_def)
  ultimately show "i < k" "k \<le> length src" by auto
qed

lemma high_run_progress:
  assumes "k + 8 \<le> length sub" "load64 sub k AND msb \<noteq> 0"
    "validRun sub (k + TrailingZeros64 (load64 sub k AND msb) div 8) = Some k'"
  shows "k < k'" "k' \<le> length sub"
proof -
  note h = high_byte_run [OF assms(1,2) refl]
  have l: "k + TrailingZeros64 (load64 sub k AND msb) div 8 < length sub" using h(2) assms(1) by linarith
  show "k < k'" "k' \<le> length sub" using validRun_progress [OF l h(3) assms(3)] by linarith+
qed

function validate_words :: "bytes \<Rightarrow> nat \<Rightarrow> bool" where
  "validate_words sub k =
     (if length sub < k + 8 then True
      else let w = load64 sub k in
        if hasLess w 0x20 \<noteq> 0 then False
        else if w AND msb = 0 then validate_words sub (k + 8)
        else case validRun sub (k + TrailingZeros64 (w AND msb) div 8) of
               None \<Rightarrow> False
             | Some k' \<Rightarrow> validate_words sub k')"
  by pat_completeness auto
termination
proof (relation "measure (\<lambda>(sub, k). length sub - k)", goal_cases)
  case (3 sub k w k')
  then show ?case using high_run_progress [of k sub k'] by auto
qed auto

declare validate_words.simps [simp del]

function validate_bytes :: "bytes \<Rightarrow> nat \<Rightarrow> bool" where
  "validate_bytes sub k =
     (if length sub \<le> k then True
      else let c = sub ! k in
        if c < 0x20 then False
        else if c < 0x80 then validate_bytes sub (k + 1)
        else case validRun sub k of None \<Rightarrow> False | Some k' \<Rightarrow> validate_bytes sub k')"
  by pat_completeness auto
termination
proof (relation "measure (\<lambda>(sub, k). length sub - k)", goal_cases)
  case (3 sub k c k')
  then have "k < k'" "k' \<le> length sub" using validRun_progress [of k sub k'] by auto
  with 3 show ?case by auto
qed auto

declare validate_bytes.simps [simp del]

text \<open>Both loops start at \<open>i\<close>: the second one scans the whole span again.\<close>

definition ValidateBody :: "bytes \<Rightarrow> nat \<Rightarrow> nat \<Rightarrow> bool" where
  "ValidateBody src i j = (let sub = take j src in validate_words sub i \<and> validate_bytes sub i)"

function QuoteOrEscapeBody :: "bytes \<Rightarrow> nat \<Rightarrow> nat option" where
  "QuoteOrEscapeBody src i =
     (if i + 8 \<le> length src then
        let w = load64 src i; m = QuoteOrEscapeMask w in
        if m \<noteq> 0 then
          let k = i + TrailingZeros64 m div 8 in
          if \<not> ValidateBody src i k then None else Some k
        else if hasLess w 0x20 \<noteq> 0 then None
        else if w AND msb \<noteq> 0 then
          (case validRun src (i + TrailingZeros64 (w AND msb) div 8) of
             None \<Rightarrow> None
           | Some i' \<Rightarrow> QuoteOrEscapeBody src i')
        else QuoteOrEscapeBody src (i + 8)
      else if i < length src then
        let c = src ! i in
        if c = ch_quote \<or> c = ch_bslash then Some i
        else if c < 0x20 then None
        else if c < 0x80 then QuoteOrEscapeBody src (i + 1)
        else (case validRun src i of None \<Rightarrow> None | Some i' \<Rightarrow> QuoteOrEscapeBody src i')
      else Some (length src))"
  by pat_completeness auto
termination
proof (relation "measure (\<lambda>(src, i). length src - i)", goal_cases)
  case (2 src i w m i')
  then show ?case using high_run_progress [of i src i'] by auto
next
  case (5 src i c i')
  then have "i < i'" "i' \<le> length src" using validRun_progress [of i src i'] by auto
  with 5 show ?case by auto
qed auto

declare QuoteOrEscapeBody.simps [simp del]

definition body_ok :: "bytes \<Rightarrow> bool" where
  "body_ok bs \<longleftrightarrow> (\<forall>c \<in> set bs. \<not> c < 0x20) \<and> utf8_Valid bs"

section \<open>The loops decide the policy\<close>

lemma body_ok_ascii:
  assumes "i < j" "j \<le> length src" "src ! i < 0x80"
  shows "body_ok (cut src i j) \<longleftrightarrow> \<not> src ! i < 0x20 \<and> body_ok (cut src (Suc i) j)"
  using assms by (auto simp: body_ok_def cut_Cons utf8_Valid_ascii)

lemma body_ok_ascii_run:
  assumes "i \<le> m" "m \<le> j" "j \<le> length src" "\<And>k. i \<le> k \<Longrightarrow> k < m \<Longrightarrow> src ! k < 0x80"
  shows "body_ok (cut src i j) \<longleftrightarrow> (\<forall>k \<in> {i..<m}. \<not> src ! k < 0x20) \<and> body_ok (cut src m j)"
  using assms
proof (induction i rule: inc_induct)
  case (step i)
  then have "body_ok (cut src (Suc i) j) \<longleftrightarrow>
      (\<forall>k \<in> {Suc i..<m}. \<not> src ! k < 0x20) \<and> body_ok (cut src m j)"
    by simp
  moreover have "{i..<m} = insert i {Suc i..<m}" using step by auto
  moreover have "body_ok (cut src i j) \<longleftrightarrow> \<not> src ! i < 0x20 \<and> body_ok (cut src (Suc i) j)"
    using step by (intro body_ok_ascii) auto
  ultimately show ?case by (simp only: ball_simps) blast
qed simp

lemma body_ok_run:
  assumes "i \<le> j" "span_end src j"
  shows "case validRun src i of
      None \<Rightarrow> \<not> body_ok (cut src i j)
    | Some k \<Rightarrow> i \<le> k \<and> k \<le> j \<and> (\<forall>m. i \<le> m \<longrightarrow> m < k \<longrightarrow> \<not> src ! m < 0x80) \<and>
        body_ok (cut src i j) = body_ok (cut src k j)"
proof -
  have j: "j \<le> length src" using assms(2) by (auto simp: span_end_def)
  have hi: "\<not> c < 0x20" if "\<not> c < 0x80" for c :: byte
    using that unfolding byte_conds by simp
  have "(\<forall>c \<in> set (cut src i j). \<not> c < 0x20) \<longleftrightarrow> (\<forall>c \<in> set (cut src k j). \<not> c < 0x20)"
    if "i \<le> k" "k \<le> j" "\<forall>m. i \<le> m \<longrightarrow> m < k \<longrightarrow> \<not> src ! m < 0x80" for k
  proof -
    have "cut src i j = cut src i k @ cut src k j" using that j by (intro cut_append [symmetric]) auto
    moreover have "\<forall>c \<in> set (cut src i k). \<not> c < 0x20" using that j hi by (auto simp: set_cut)
    ultimately show ?thesis by auto
  qed
  then show ?thesis using validRun_spec [OF assms]
    by (auto simp: body_ok_def split: option.splits)
qed

lemma body_ok_run_end:
  "k \<le> length sub \<Longrightarrow> case validRun sub k of None \<Rightarrow> \<not> body_ok (drop k sub)
     | Some k' \<Rightarrow> k \<le> k' \<and> k' \<le> length sub \<and> body_ok (drop k sub) = body_ok (drop k' sub)"
  using body_ok_run [of k "length sub" sub] by (auto simp: span_end_def cut_def split: option.splits)

lemma validate_bytes_spec: "k \<le> length sub \<Longrightarrow> validate_bytes sub k = body_ok (drop k sub)"
proof (induction sub k rule: validate_bytes.induct)
  case (1 sub k)
  show ?case
  proof (cases "k < length sub")
    case True
    have a: "body_ok (drop k sub) \<longleftrightarrow> \<not> sub ! k < 0x20 \<and> body_ok (drop (Suc k) sub)" if "sub ! k < 0x80"
      using body_ok_ascii [of k "length sub" sub] that True by (simp add: cut_def)
    have c: "sub ! k < 0x80" if "sub ! k < 0x20" using that by (rule order.strict_trans) simp
    show ?thesis
      using True a c "1.IH"(1) [OF _ refl] "1.IH"(2) [OF _ refl] body_ok_run_end [of k sub] "1.prems"
      by (subst validate_bytes.simps) (auto split: option.splits)
  qed (subst validate_bytes.simps, simp add: body_ok_def)
qed

lemma window_ctl:
  assumes "k + 8 \<le> length sub"
  shows "hasLess (load64 sub k) 0x20 \<noteq> 0 \<longleftrightarrow> (\<exists>m. k \<le> m \<and> m < k + 8 \<and> sub ! m < 0x20)"
proof -
  have "hasLess (load64 sub k) 0x20 = 0 \<longleftrightarrow> (\<forall>c \<in> set (cut sub k (k + 8)). \<not> c < 0x20)"
    using less20.mask_zero_iff [of "take 8 (drop k sub)"] assms by (simp add: load64_def cut_def)
  then show ?thesis using assms by (auto simp: set_cut)
qed

lemma window_high:
  assumes "k + 8 \<le> length sub"
  shows "load64 sub k AND msb = 0 \<longleftrightarrow> (\<forall>m. k \<le> m \<and> m < k + 8 \<longrightarrow> sub ! m < 0x80)"
proof -
  have "load64 sub k AND msb = 0 \<longleftrightarrow> (\<forall>c \<in> set (cut sub k (k + 8)). \<not> 0x80 \<le> c)"
    using high.mask_zero_iff [of "take 8 (drop k sub)"] assms by (simp add: load64_def cut_def)
  then show ?thesis using assms by (auto simp: set_cut not_le)
qed

lemma body_ok_high_run:
  assumes "k + 8 \<le> length src" "load64 src k AND msb \<noteq> 0" "hasLess (load64 src k) 0x20 = 0"
    and "t = k + TrailingZeros64 (load64 src k AND msb) div 8" "t \<le> j" "span_end src j"
  shows "body_ok (cut src k j) = body_ok (cut src t j)"
proof -
  note h = high_byte_run [OF assms(1,2,4)]
  have "j \<le> length src" using assms(6) by (auto simp: span_end_def)
  moreover have "\<not> src ! m < 0x20" if "k \<le> m" "m < t" for m
    using window_ctl [OF assms(1)] assms(3) that h(2) by auto
  ultimately show ?thesis using body_ok_ascii_run [OF h(1) assms(5) _ h(4)] by auto
qed

lemma validate_words_spec: "k \<le> length sub \<Longrightarrow> body_ok (drop k sub) \<Longrightarrow> validate_words sub k"
proof (induction sub k rule: validate_words.induct)
  case (1 sub k)
  show ?case
  proof (cases "k + 8 \<le> length sub")
    case True
    let ?w = "load64 sub k" and ?n = "length sub"
    let ?t = "k + TrailingZeros64 (?w AND msb) div 8"
    have d: "drop m sub = cut sub m ?n" for m by (simp add: cut_def)
    have c: "\<not> c < 0x20" if "c \<in> set (drop k sub)" for c using "1.prems"(2) that by (simp add: body_ok_def)
    have "\<not> sub ! m < 0x20" if "k \<le> m" "m < k + 8" for m
      using c [of "sub ! m"] that True by (auto simp: d set_cut)
    then have w: "hasLess ?w 0x20 = 0" using window_ctl [OF True] by auto
    show ?thesis
    proof (cases "?w AND msb = 0")
      case z: True
      then have "body_ok (drop (k + 8) sub)"
        using "1.prems"(2) True window_high [OF True] body_ok_ascii_run [of k "k + 8" ?n sub] by (simp add: d)
      then show ?thesis using True w z "1.IH"(1) [OF _ refl] by (subst validate_words.simps) simp
    next
      case z: False
      note h = high_byte_run [OF True z refl]
      have t: "?t \<le> ?n" using h True by linarith
      then have "body_ok (drop ?t sub)"
        using body_ok_high_run [OF True z w refl] "1.prems"(2) by (simp add: d span_end_def)
      then show ?thesis using True w z t body_ok_run_end [of ?t sub] "1.IH"(2) [OF _ refl]
        by (subst validate_words.simps) (auto split: option.splits)
    qed
  qed (subst validate_words.simps, simp)
qed

lemma ValidateBody_eq: "i \<le> j \<Longrightarrow> j \<le> length src \<Longrightarrow> ValidateBody src i j = body_ok (cut src i j)"
proof -
  assume a: "i \<le> j" "j \<le> length src"
  have "drop i (take j src) = cut src i j" by (simp add: cut_def drop_take)
  then show ?thesis using validate_bytes_spec [of i "take j src"] validate_words_spec [of i "take j src"] a
    by (auto simp: ValidateBody_def)
qed

lemma stop_ascii: "is_stop c \<Longrightarrow> c < 0x80"
  by auto

lemma stop_span_end: "span_end src (find_from is_stop src i)"
  using find_from_le [of is_stop src i] find_from_found [of is_stop src i]
  by (auto simp: span_end_def le_less)

lemma window_stop:
  assumes "i + 8 \<le> length src"
  shows "QuoteOrEscapeMask (load64 src i) = 0 \<longleftrightarrow> (\<forall>m. i \<le> m \<and> m < i + 8 \<longrightarrow> \<not> is_stop (src ! m))"
proof -
  have "QuoteOrEscapeMask (load64 src i) = 0 \<longleftrightarrow> (\<forall>c \<in> set (cut src i (i + 8)). \<not> is_stop c)"
    using qoe.mask_zero_iff [of "take 8 (drop i src)"] assms by (simp add: load64_def cut_def)
  then show ?thesis using assms by (auto simp: set_cut)
qed

definition checked_stop :: "bytes \<Rightarrow> nat \<Rightarrow> nat option" where
  "checked_stop src i =
     (let k = find_from is_stop src i in if body_ok (cut src i k) then Some k else None)"

lemma checked_stop_run:
  assumes "i \<le> length src" "\<not> is_stop (src ! i)"
  shows "checked_stop src i = (case validRun src i of None \<Rightarrow> None | Some k \<Rightarrow> checked_stop src k)"
proof (cases "validRun src i")
  case None
  then show ?thesis
    using body_ok_run [OF find_from_ge [OF assms(1), of is_stop] stop_span_end] by (simp add: checked_stop_def)
next
  case (Some k)
  have k: "i \<le> k" "k \<le> find_from is_stop src i" "\<And>m. i \<le> m \<Longrightarrow> m < k \<Longrightarrow> \<not> src ! m < 0x80"
      "body_ok (cut src i (find_from is_stop src i)) = body_ok (cut src k (find_from is_stop src i))"
    using body_ok_run [OF find_from_ge [OF assms(1), of is_stop] stop_span_end] Some by auto
  have "find_from is_stop src i = find_from is_stop src k"
    using k stop_ascii by (intro find_from_skip) (auto intro: order_trans [OF _ find_from_le])
  then show ?thesis using Some k(4) by (simp add: checked_stop_def)
qed

lemma checked_stop_skip:
  assumes "i \<le> m" "m \<le> length src" "\<And>k. i \<le> k \<Longrightarrow> k < m \<Longrightarrow> src ! k < 0x80 \<and> \<not> src ! k < 0x20 \<and> \<not> is_stop (src ! k)"
  shows "checked_stop src i = checked_stop src m"
proof -
  have f: "find_from is_stop src i = find_from is_stop src m" using assms by (intro find_from_skip) auto
  have "body_ok (cut src i (find_from is_stop src m)) = body_ok (cut src m (find_from is_stop src m))"
    using body_ok_ascii_run [of i m "find_from is_stop src m" src] assms find_from_ge [of m src is_stop] by auto
  then show ?thesis by (simp add: checked_stop_def f)
qed

lemma checked_stop_ctl:
  assumes "i \<le> m" "m < length src" "src ! m < 0x20" "\<And>k. i \<le> k \<Longrightarrow> k \<le> m \<Longrightarrow> \<not> is_stop (src ! k)"
  shows "checked_stop src i = None"
proof -
  have "find_from is_stop src i = find_from is_stop src (Suc m)" using assms by (intro find_from_skip) auto
  then have "m < find_from is_stop src i" using find_from_ge [of "Suc m" src is_stop] assms(2) by simp
  then have "src ! m \<in> set (cut src i (find_from is_stop src i))" using assms(1) by (auto simp: set_cut)
  then show ?thesis using assms(3) by (auto simp: checked_stop_def body_ok_def)
qed

lemma QuoteOrEscapeBody_eq: "i \<le> length src \<Longrightarrow> QuoteOrEscapeBody src i = checked_stop src i"
proof (induction src i rule: QuoteOrEscapeBody.induct)
  case (1 src i)
  let ?w = "load64 src i"
  consider "i + 8 \<le> length src" | "length src < i + 8" "i < length src" | "i = length src" using "1.prems" by linarith
  then show ?case
  proof cases
    case w: 1
    let ?t = "i + TrailingZeros64 (?w AND msb) div 8"
    show ?thesis
    proof (cases "QuoteOrEscapeMask ?w = 0")
      case False
      then have "i + TrailingZeros64 (QuoteOrEscapeMask ?w) div 8 = find_from is_stop src i"
        using qsearch.search_hit [OF w] by simp
      then show ?thesis using False w find_from_ge [of i src is_stop] "1.prems"
        by (subst QuoteOrEscapeBody.simps) (simp add: ValidateBody_eq checked_stop_def)
    next
      case s: True
      then have ns: "\<not> is_stop (src ! m)" if "i \<le> m" "m < i + 8" for m using window_stop [OF w] that by simp
      consider "hasLess ?w 0x20 \<noteq> 0" | "hasLess ?w 0x20 = 0" "?w AND msb = 0" | "hasLess ?w 0x20 = 0" "?w AND msb \<noteq> 0" by blast
      then show ?thesis
      proof cases
        case c: 1
        then obtain m where "i \<le> m" "m < i + 8" "src ! m < 0x20" using window_ctl [OF w] by blast
        then have "checked_stop src i = None" using ns w by (intro checked_stop_ctl [of i m]) auto
        then show ?thesis using c w s by (subst QuoteOrEscapeBody.simps) simp
      next
        case c: 2
        have "checked_stop src i = checked_stop src (i + 8)"
          using window_ctl [OF w] window_high [OF w] c ns w by (intro checked_stop_skip) auto
        then show ?thesis using c w s "1.IH"(2) [OF w refl refl] by (subst QuoteOrEscapeBody.simps) simp
      next
        case c: 3
        note h = high_byte_run [OF w c(2) refl]
        have t: "?t < length src" "\<not> is_stop (src ! ?t)" using h w ns [of ?t] by linarith+
        have "checked_stop src i = checked_stop src ?t"
          using window_ctl [OF w] c(1) ns h w by (intro checked_stop_skip) auto
        also have "\<dots> = (case validRun src ?t of None \<Rightarrow> None | Some k \<Rightarrow> checked_stop src k)"
          using t by (intro checked_stop_run) auto
        finally show ?thesis
          using c w s high_run_progress(2) [OF w c(2)] "1.IH"(1) [OF w refl refl]
          by (subst QuoteOrEscapeBody.simps) (simp split: option.split)
      qed
    qed
  next
    case b: 2
    note unf = QuoteOrEscapeBody.simps [of src i]
    consider "is_stop (src ! i)" | "src ! i < 0x20" "\<not> is_stop (src ! i)"
      | "\<not> is_stop (src ! i)" "\<not> src ! i < 0x20" "src ! i < 0x80" | "\<not> is_stop (src ! i)" "\<not> src ! i < 0x80"
      by blast
    then show ?thesis
    proof cases
      case 1
      then show ?thesis using b unf by (simp add: checked_stop_def body_ok_def)
    next
      case 2
      then have "checked_stop src i = None" using b by (intro checked_stop_ctl [of i i]) auto
      then show ?thesis using 2 b unf by simp
    next
      case 3
      then have "checked_stop src i = checked_stop src (i + 1)" using b by (intro checked_stop_skip) (auto simp: less_Suc_eq_le dest!: le_antisym)
      then show ?thesis using 3 b unf "1.IH"(3) [OF _ b(2) refl] by simp
    next
      case 4
      moreover have "\<not> src ! i < 0x20" using 4(2) unfolding byte_conds by simp
      ultimately show ?thesis
        using b unf checked_stop_run [of i src] validRun_progress(2) [OF b(2) 4(2)] "1.IH"(4) [OF _ b(2) refl]
        by (simp split: option.split)
    qed
  next
    case 3
    then show ?thesis by (subst QuoteOrEscapeBody.simps) (simp add: checked_stop_def body_ok_def)
  qed
qed

section \<open>Claims\<close>

text \<open>
  Claim C18. \<open>ValidateBody\<close>, with its word gates and packed lead table, accepts a span exactly when
  no byte of it is below 0x20 and the span is well-formed UTF-8 as \<^verbatim>\<open>utf8.Valid\<close> defines it.
\<close>

theorem ValidateBody_policy:
  assumes "i \<le> j" "j \<le> length src"
  shows "ValidateBody src i j \<longleftrightarrow> (\<forall>c \<in> set (cut src i j). 0x20 \<le> c) \<and> utf8_Valid (cut src i j)"
  using ValidateBody_eq [OF assms] by (simp add: body_ok_def not_less)

theorem ValidateBody_policy_witness:
  "ValidateBody (lit ''12345678'' @ [0xE2, 0x82, 0xAC, 0x61]) 0 12"
proof -
  let ?src = "lit ''12345678'' @ [0xE2, 0x82, 0xAC, 0x61]"
  have "(\<forall>c \<in> set (cut ?src 0 12). 0x20 \<le> c) \<and> utf8_Valid (cut ?src 0 12)" by code_simp
  moreover have "12 \<le> length ?src" by (simp add: lit_def)
  ultimately show ?thesis using ValidateBody_policy [of 0 12 ?src] by blast
qed

text \<open>
  \<open>QuoteOrEscapeBody\<close> stops where \<open>QuoteOrEscape\<close> stops when the bytes it walked past
  satisfy the strict policy, and reports a violation exactly when they do not.
\<close>

theorem QuoteOrEscapeBody_policy:
  assumes "i \<le> length src"
  shows "QuoteOrEscapeBody src i =
    (let k = QuoteOrEscape src i in if ValidateBody src i k then Some k else None)"
  using QuoteOrEscapeBody_eq [OF assms] ValidateBody_eq [of i "QuoteOrEscape src i" src] find_from_ge [OF assms, of is_stop]
  by (simp add: QuoteOrEscape_eq checked_stop_def)

theorem QuoteOrEscapeBody_policy_witness:
  "QuoteOrEscapeBody ([0xC3, 0xA9] @ lit ''abcdef\"'') 0 = Some 8 \<and>
   QuoteOrEscapeBody ([0xC3] @ lit ''abcdef\"'') 0 = None"
proof -
  have "QuoteOrEscape ([0xC3, 0xA9] @ lit ''abcdef\"'') 0 = 8" "ValidateBody ([0xC3, 0xA9] @ lit ''abcdef\"'') 0 8"
    "QuoteOrEscape ([0xC3] @ lit ''abcdef\"'') 0 = 7" "\<not> ValidateBody ([0xC3] @ lit ''abcdef\"'') 0 7"
    by code_simp+
  then show ?thesis
    using QuoteOrEscapeBody_policy [of 0 "[0xC3, 0xA9] @ lit ''abcdef\"''"]
      QuoteOrEscapeBody_policy [of 0 "[0xC3] @ lit ''abcdef\"''"] by simp
qed

end
