(* ===== verification/Number.thy ===== *)
theory Number
  imports Utf8
begin

text \<open>
  The number lexers of \<^verbatim>\<open>internal/gdec/number.go\<close>. \<open>ValidNumber\<close> checks the grammar of a number
  token, \<open>IntToken\<close> reads an integer magnitude at 64 bits and \<open>digitRun\<close> accumulates digits eight
  at a time. The grammar is \<open>is_number\<close>, stated on the token's bytes; the value of a digit string is
  the unbounded \<open>dec_val\<close>. \<^verbatim>\<open>srcAt(b, n, i)\<close> reads as \<open>At src i\<close>: both give 0x20 past the end.
\<close>

section \<open>Definitions\<close>

function digitsFrom :: "bytes \<Rightarrow> nat \<Rightarrow> nat" where
  "digitsFrom src p = (if p < length src \<and> IsDigit (src ! p) then digitsFrom src (p + 1) else p)"
  by pat_completeness auto
termination by (relation "measure (\<lambda>(src, p). length src - p)") auto

declare digitsFrom.simps [simp del]

text \<open>The optional fraction and exponent of \<^verbatim>\<open>ValidNumber\<close>: the offset past the part, and whether it is well formed.\<close>

definition fraction_part :: "bytes \<Rightarrow> nat \<Rightarrow> nat \<times> bool" where
  "fraction_part src p =
     (if At src p = ch_dot then
        let p = p + 1 in
        if \<not> IsDigit (At src p) then (p, False) else (digitsFrom src p, True)
      else (p, True))"

definition exponent_part :: "bytes \<Rightarrow> nat \<Rightarrow> nat \<times> bool" where
  "exponent_part src p =
     (let c = At src p in
      if c = ch_e \<or> c = ch_E then
        let p = p + 1; c = At src p; p = (if c = ch_plus \<or> c = ch_minus then p + 1 else p) in
        if \<not> IsDigit (At src p) then (p, False) else (digitsFrom src p, True)
      else (p, True))"

definition ValidNumber :: "bytes \<Rightarrow> nat \<Rightarrow> nat \<times> bool" where
  "ValidNumber src o' =
     (let d = (if At src o' = ch_minus then o' + 1 else o');
          p = digitsFrom src d; nd = p - d in
      if nd = 0 \<or> (At src d = ch_0 \<and> 1 < nd) then (p, False)
      else case fraction_part src p of (p, ok) \<Rightarrow>
        if \<not> ok then (p, False)
        else case exponent_part src p of (p, ok) \<Rightarrow>
          if \<not> ok then (p, False) else (p, \<not> IsNonDelim (At src p)))"

definition maxFastDigits :: nat where "maxFastDigits = 19"

text \<open>The digit loop of \<^verbatim>\<open>IntToken\<close> and the tail of \<^verbatim>\<open>digitRun\<close>; the magnitude wraps at 64 bits.\<close>

function mag_loop :: "bytes \<Rightarrow> nat \<Rightarrow> u64 \<Rightarrow> nat \<times> u64" where
  "mag_loop src p mag =
     (if p < length src then
        let v = src ! p - 0x30 in
        if 9 < v then (p, mag) else mag_loop src (p + 1) (10 * mag + ucast v)
      else (p, mag))"
  by pat_completeness auto
termination by (relation "measure (\<lambda>(src, p, mag). length src - p)") auto

declare mag_loop.simps [simp del]

definition IntToken :: "bytes \<Rightarrow> nat \<Rightarrow> u64 \<times> bool \<times> nat \<times> bool \<times> bool" where
  "IntToken src o' =
     (let neg = (At src o' = ch_minus); d = (if neg then o' + 1 else o') in
      case mag_loop src d 0 of (p, mag) \<Rightarrow>
        let nd = p - d in
        if nd = 0 \<or> (At src d = ch_0 \<and> 1 < nd) then (0, neg, p, True, False)
        else let c = At src p in
          if c = ch_dot \<or> c OR 0x20 = ch_e then (0, neg, p, True, False)
          else (mag, neg, p, False, maxFastDigits < nd))"

function digitRun :: "bytes \<Rightarrow> nat \<Rightarrow> u64 \<Rightarrow> nat \<times> u64" where
  "digitRun src p mant =
     (if p + 8 \<le> length src then
        let w = load64 src p in
        if (w AND 0xF0F0F0F0F0F0F0F0) OR drop_bit 4 ((w + 0x0606060606060606) AND 0xF0F0F0F0F0F0F0F0)
             \<noteq> 0x3333333333333333 then mag_loop src p mant
        else
          let w = drop_bit 8 ((w AND 0x0F0F0F0F0F0F0F0F) * 2561);
              w = drop_bit 16 ((w AND 0x00FF00FF00FF00FF) * 6553601);
              w = drop_bit 32 ((w AND 0x0000FFFF0000FFFF) * 42949672960001) in
          digitRun src (p + 8) (mant * 100000000 + w)
      else mag_loop src p mant)"
  by pat_completeness auto
termination by (relation "measure (\<lambda>(src, p, mant). length src - p)") auto

declare digitRun.simps [simp del]

section \<open>The grammar\<close>

definition digits :: "bytes \<Rightarrow> bool" where
  "digits ds \<longleftrightarrow> ds \<noteq> [] \<and> list_all IsDigit ds"

definition int_part :: "bytes \<Rightarrow> bool" where
  "int_part ds \<longleftrightarrow> digits ds \<and> (hd ds = ch_0 \<longrightarrow> length ds = 1)"

definition frac_text :: "bytes \<Rightarrow> bool" where
  "frac_text f \<longleftrightarrow> f = [] \<or> (\<exists>ds. f = ch_dot # ds \<and> digits ds)"

definition exp_text :: "bytes \<Rightarrow> bool" where
  "exp_text x \<longleftrightarrow> x = [] \<or>
     (\<exists>c s ds. x = c # s @ ds \<and> (c = ch_e \<or> c = ch_E) \<and> (s = [] \<or> s = [ch_plus] \<or> s = [ch_minus]) \<and> digits ds)"

definition is_number :: "bytes \<Rightarrow> bool" where
  "is_number t \<longleftrightarrow> (\<exists>s i f x. t = s @ i @ f @ x \<and> (s = [] \<or> s = [ch_minus]) \<and>
     int_part i \<and> frac_text f \<and> exp_text x)"

fun dec_val :: "bytes \<Rightarrow> nat" where
  "dec_val [] = 0"
| "dec_val (c # cs) = unat (c - 0x30) * 10 ^ length cs + dec_val cs"

section \<open>Reading from a suffix\<close>

definition head_byte :: "bytes \<Rightarrow> byte" where
  "head_byte xs = (case xs of [] \<Rightarrow> 0x20 | c # _ \<Rightarrow> c)"

lemma head_byte_simps [simp]: "head_byte [] = 0x20" "head_byte (c # cs) = c"
  by (simp_all add: head_byte_def)

lemma At_head: "At src i = head_byte (drop i src)"
  by (cases "i < length src") (simp_all add: drop_nth)

definition digit_run :: "bytes \<Rightarrow> bytes" where
  "digit_run xs = takeWhile IsDigit xs"

lemma digit_run_append:
  "list_all IsDigit ds \<Longrightarrow> \<not> IsDigit (head_byte ys) \<Longrightarrow> digit_run (ds @ ys) = ds"
  by (cases ys) (auto simp: digit_run_def list_all_iff takeWhile_append)

lemma digit_run_all: "list_all IsDigit (digit_run xs)"
  by (auto simp: digit_run_def list_all_iff dest: set_takeWhileD)

lemma space_no_digit [simp]: "\<not> IsDigit 0x20"
  by (simp add: IsDigit_iff)

lemma digit_run_rest: "\<not> IsDigit (head_byte (drop (length (digit_run xs)) xs))"
  by (induction xs) (auto simp: digit_run_def)

lemma digit_run_Nil_iff: "digit_run xs = [] \<longleftrightarrow> \<not> IsDigit (head_byte xs)"
  by (cases xs) (auto simp: digit_run_def)

lemma digit_run_take: "take (length (digit_run xs)) xs = digit_run xs"
  by (simp add: digit_run_def takeWhile_eq_take [symmetric])

lemma length_digit_run [simp]: "length (digit_run xs) \<le> length xs"
  by (simp add: digit_run_def length_takeWhile_le)

lemma digit_run_step:
  "p < length src \<Longrightarrow> digit_run (drop p src) =
     (if IsDigit (src ! p) then src ! p # digit_run (drop (p + 1) src) else [])"
  by (simp add: digit_run_def drop_nth [of p src])

lemma digit_run_stop:
  assumes "\<not> (p < length src \<and> IsDigit (src ! p))"
  shows "digit_run (drop p src) = []"
proof (cases "p < length src")
  case True
  with assms show ?thesis by (simp only: digit_run_step [OF True]) simp
qed (simp add: digit_run_def)

lemma digitsFrom_eq: "p \<le> length src \<Longrightarrow> digitsFrom src p = p + length (digit_run (drop p src))"
proof (induction src p rule: digitsFrom.induct)
  case (1 src p)
  show ?case
  proof (cases "p < length src \<and> IsDigit (src ! p)")
    case True
    with 1 show ?thesis by (simp add: digitsFrom.simps [of src p] digit_run_step [of p src])
  next
    case False
    then have "digit_run (drop p src) = []"
      by (rule digit_run_stop)
    with False show ?thesis by (subst digitsFrom.simps) auto
  qed
qed

lemma mag_digit: "9 < c - 0x30 \<longleftrightarrow> \<not> IsDigit c"
  unfolding IsDigit_def byte_conds word_less_nat_alt by simp arith

lemma mag_loop_eq:
  "p \<le> length src \<Longrightarrow>
   mag_loop src p mag = (let ds = digit_run (drop p src) in
     (p + length ds, mag * 10 ^ length ds + word_of_nat (dec_val ds)))"
proof (induction src p mag rule: mag_loop.induct)
  case (1 src p mag)
  note unf = mag_loop.simps [of src p mag]
  show ?case
  proof (cases "p < length src \<and> IsDigit (src ! p)")
    case True
    let ?v = "src ! p - 0x30" and ?ds = "digit_run (drop (p + 1) src)"
    have "mag_loop src p mag = mag_loop src (p + 1) (10 * mag + ucast ?v)"
      using True unf by (simp add: mag_digit)
    also have "\<dots> = (p + 1 + length ?ds, (10 * mag + ucast ?v) * 10 ^ length ?ds + word_of_nat (dec_val ?ds))"
      using "1.IH" [OF _ refl] True by (simp add: mag_digit)
    also have "(10 * mag + ucast ?v) * 10 ^ length ?ds = mag * 10 ^ Suc (length ?ds) + word_of_nat (unat ?v * 10 ^ length ?ds)"
      by (simp add: algebra_simps)
    finally show ?thesis using True by (simp add: digit_run_step [of p src])
  next
    case False
    then have "digit_run (drop p src) = []"
      by (rule digit_run_stop)
    with False unf show ?thesis by (auto simp: mag_digit)
  qed
qed

section \<open>ValidNumber decides the grammar\<close>

text \<open>The stages on the unread suffix: each gives the length of its part and whether it is well formed.\<close>

definition frac_len :: "bytes \<Rightarrow> nat \<times> bool" where
  "frac_len xs =
     (if head_byte xs = ch_dot then
        (if digit_run (tl xs) = [] then (1, False) else (1 + length (digit_run (tl xs)), True))
      else (0, True))"

definition sign_len :: "bytes \<Rightarrow> nat" where
  "sign_len xs = (if head_byte xs = ch_plus \<or> head_byte xs = ch_minus then 1 else 0)"

definition exp_len :: "bytes \<Rightarrow> nat \<times> bool" where
  "exp_len xs =
     (if head_byte xs = ch_e \<or> head_byte xs = ch_E then
        let s = sign_len (tl xs); ds = digit_run (drop s (tl xs)) in
        if ds = [] then (1 + s, False) else (1 + s + length ds, True)
      else (0, True))"

lemma head_byte_ne: "head_byte xs \<noteq> 0x20 \<Longrightarrow> xs \<noteq> []"
  by auto

lemma tl_drop_Suc: "tl (drop p src) = drop (Suc p) src"
  by (simp add: drop_Suc tl_drop)

lemma fraction_part_eq:
  assumes "p \<le> length src"
  shows "fraction_part src p = (case frac_len (drop p src) of (k, ok) \<Rightarrow> (p + k, ok))"
proof (cases "At src p = ch_dot")
  case True
  then have "p < length src" by (intro At_neq_space) simp
  with True show ?thesis
    using digitsFrom_eq [of "Suc p" src]
    by (simp add: fraction_part_def frac_len_def At_head digit_run_Nil_iff tl_drop_Suc)
qed (simp add: fraction_part_def frac_len_def At_head)

lemma exponent_part_eq:
  assumes "p \<le> length src"
  shows "exponent_part src p = (case exp_len (drop p src) of (k, ok) \<Rightarrow> (p + k, ok))"
proof (cases "At src p = ch_e \<or> At src p = ch_E")
  case True
  then have p: "p < length src" by (intro At_neq_space) auto
  let ?s = "sign_len (drop (Suc p) src)"
  have "?s = 0 \<or> (?s = 1 \<and> At src (Suc p) \<noteq> 0x20)" by (auto simp: sign_len_def At_head)
  then have s: "Suc p + ?s \<le> length src" using p At_neq_space [of src "Suc p"] by auto
  have q: "(if At src (p + 1) = ch_plus \<or> At src (p + 1) = ch_minus then p + 1 + 1 else p + 1) = Suc p + ?s"
    by (simp add: sign_len_def At_head)
  have "exponent_part src p =
      (if \<not> IsDigit (At src (Suc p + ?s)) then (Suc p + ?s, False) else (digitsFrom src (Suc p + ?s), True))"
    using True by (simp only: exponent_part_def Let_def q if_True)
  then show ?thesis
    using True digitsFrom_eq [OF s]
    by (auto simp: exp_len_def At_head digit_run_Nil_iff tl_drop_Suc add.commute)
qed (auto simp: exponent_part_def exp_len_def At_head)

lemma frac_len_iff:
  assumes "head_byte ys \<noteq> ch_dot" "\<not> IsDigit (head_byte ys)" "frac_text f"
  shows "frac_len (f @ ys) = (length f, True)"
  using assms by (auto simp: frac_len_def frac_text_def digits_def digit_run_append)

lemma frac_len_text:
  "frac_len xs = (k, True) \<Longrightarrow> k \<le> length xs \<and> frac_text (take k xs) \<and> (xs = take k xs @ drop k xs)"
  by (cases xs) (auto simp: frac_len_def frac_text_def digits_def digit_run_take digit_run_all split: if_splits)

lemma exp_len_iff:
  assumes "head_byte ys \<noteq> ch_e" "head_byte ys \<noteq> ch_E" "\<not> IsDigit (head_byte ys)" "exp_text x"
  shows "exp_len (x @ ys) = (length x, True)"
proof (cases "x = []")
  case False
  then obtain c s ds where x: "x = c # s @ ds" "c = ch_e \<or> c = ch_E" "s = [] \<or> s = [ch_plus] \<or> s = [ch_minus]" "digits ds"
    using assms(4) by (auto simp: exp_text_def)
  have d: "head_byte (ds @ ys) \<noteq> ch_plus" "head_byte (ds @ ys) \<noteq> ch_minus"
    using x(4) by (cases ds; auto simp: digits_def IsDigit_iff)+
  have "sign_len (s @ ds @ ys) = length s" using x(3) d by (auto simp: sign_len_def)
  moreover have "digit_run (ds @ ys) = ds" using assms(3) x(4) by (intro digit_run_append) (auto simp: digits_def)
  ultimately show ?thesis using x by (auto simp: exp_len_def digits_def)
qed (use assms in \<open>simp add: exp_len_def\<close>)

lemma exp_textI:
  "c = ch_e \<or> c = ch_E \<Longrightarrow> s = [] \<or> s = [ch_plus] \<or> s = [ch_minus] \<Longrightarrow> digits ds \<Longrightarrow> exp_text (c # s @ ds)"
  unfolding exp_text_def by blast

lemma exp_len_text:
  assumes "exp_len xs = (k, True)"
  shows "k \<le> length xs \<and> exp_text (take k xs)"
proof (cases "head_byte xs = ch_e \<or> head_byte xs = ch_E")
  case True
  then obtain c ys where xs: "xs = c # ys" "c = ch_e \<or> c = ch_E" by (cases xs) auto
  let ?s = "sign_len ys" and ?ds = "digit_run (drop (sign_len ys) ys)"
  have k: "k = 1 + ?s + length ?ds" "?ds \<noteq> []" using assms xs True by (auto simp: exp_len_def split: if_splits)
  have s: "take ?s ys = [] \<or> take ?s ys = [ch_plus] \<or> take ?s ys = [ch_minus]" "?s \<le> length ys"
    by (cases ys; auto simp: sign_len_def)+
  have "take k xs = c # take ?s ys @ ?ds"
    using k(1) xs(1) s(2) by (simp add: take_add digit_run_take)
  moreover have "digits ?ds" using k(2) digit_run_all by (simp add: digits_def)
  moreover have "?s + length ?ds \<le> length ys"
    using s(2) length_digit_run [of "drop ?s ys"] by simp
  ultimately show ?thesis using exp_textI [OF xs(2) s(1)] xs(1) k(1) by simp
qed (use assms in \<open>auto simp: exp_len_def exp_text_def\<close>)

definition minus_len :: "bytes \<Rightarrow> nat" where
  "minus_len xs = (if head_byte xs = ch_minus then 1 else 0)"

definition number_len :: "bytes \<Rightarrow> nat \<times> bool" where
  "number_len xs =
     (let m = minus_len xs; ds = digit_run (drop m xs); p = m + length ds in
      if ds = [] \<or> (head_byte ds = ch_0 \<and> 1 < length ds) then (p, False)
      else case frac_len (drop p xs) of (k, ok) \<Rightarrow>
        if \<not> ok then (p + k, False)
        else case exp_len (drop (p + k) xs) of (l, ok) \<Rightarrow>
          if \<not> ok then (p + k + l, False) else (p + k + l, \<not> IsNonDelim (head_byte (drop (p + k + l) xs))))"

lemma minus_len_le [simp]: "minus_len xs \<le> length xs"
  by (cases xs) (auto simp: minus_len_def)

lemma frac_len_le: "fst (frac_len xs) \<le> length xs"
  using length_digit_run [of "tl xs"] by (cases xs) (auto simp: frac_len_def)

lemma head_digit_run: "digit_run xs \<noteq> [] \<Longrightarrow> head_byte (digit_run xs) = head_byte xs"
  by (cases xs) (auto simp: digit_run_def)

lemma ValidNumber_len:
  assumes "o' \<le> length src"
  shows "ValidNumber src o' = (case number_len (drop o' src) of (k, ok) \<Rightarrow> (o' + k, ok))"
proof -
  let ?xs = "drop o' src"
  let ?m = "minus_len ?xs" and ?ds = "digit_run (drop (minus_len (drop o' src)) (drop o' src))"
  have d: "(if At src o' = ch_minus then o' + 1 else o') = o' + ?m" by (simp add: minus_len_def At_head)
  have m: "o' + ?m \<le> length src" using assms minus_len_le [of ?xs] by simp
  have run: "digitsFrom src (o' + ?m) = o' + ?m + length ?ds"
    using digitsFrom_eq [OF m] by (simp add: add.commute)
  have p: "o' + ?m + length ?ds \<le> length src" using m length_digit_run [of "drop ?m ?xs"] by simp
  have hd: "?ds \<noteq> [] \<Longrightarrow> At src (o' + ?m) = head_byte ?ds"
    using head_digit_run [of "drop ?m ?xs"] by (simp add: At_head add.commute)
  define P where "P = o' + ?m + length ?ds"
  have e1: "drop (?m + length ?ds) ?xs = drop P src" by (simp add: P_def ac_simps)
  obtain k ok where k: "frac_len (drop P src) = (k, ok)" by fastforce
  have f: "fraction_part src P = (P + k, ok)" using fraction_part_eq [OF p] k by (simp add: P_def)
  have pk: "P + k \<le> length src" using frac_len_le [of "drop P src"] k p by (simp add: P_def)
  have e2: "drop (?m + length ?ds + k) ?xs = drop (P + k) src" by (simp add: P_def ac_simps)
  obtain l ok' where l: "exp_len (drop (P + k) src) = (l, ok')" by fastforce
  have x: "exponent_part src (P + k) = (P + k + l, ok')" using exponent_part_eq [OF pk] l by simp
  have e3: "drop (?m + length ?ds + k + l) ?xs = drop (P + k + l) src" by (simp add: P_def ac_simps)
  show ?thesis
  proof (cases "?ds = [] \<or> (head_byte ?ds = ch_0 \<and> 1 < length ?ds)")
    case True
    then show ?thesis using hd unfolding ValidNumber_def number_len_def Let_def d run by auto
  next
    case False
    then have "\<not> (o' + ?m + length ?ds - (o' + ?m) = 0 \<or> At src (o' + ?m) = ch_0 \<and> 1 < o' + ?m + length ?ds - (o' + ?m))"
      using hd by auto
    then show ?thesis
      using False f x unfolding ValidNumber_def number_len_def Let_def d run
      by (simp add: e1 e2 e3 k l P_def [symmetric] At_head del: drop_drop split: if_split)
        (auto simp: P_def)
  qed
qed

lemma delim_no_number: "\<not> IsNonDelim c \<Longrightarrow> \<not> IsDigit c \<and> c \<noteq> ch_dot \<and> c \<noteq> ch_e \<and> c \<noteq> ch_E"
  by (auto simp: IsNonDelim_iff IsDigit_iff)

lemma is_numberI:
  "s = [] \<or> s = [ch_minus] \<Longrightarrow> int_part i \<Longrightarrow> frac_text f \<Longrightarrow> exp_text x \<Longrightarrow> is_number (s @ i @ f @ x)"
  unfolding is_number_def by blast

lemma number_len_iff:
  "number_len xs = (k, True) \<longleftrightarrow> k \<le> length xs \<and> is_number (take k xs) \<and> \<not> IsNonDelim (head_byte (drop k xs))"
proof
  assume n: "number_len xs = (k, True)"
  let ?m = "minus_len xs" and ?ds = "digit_run (drop (minus_len xs) xs)"
  obtain f where f: "frac_len (drop (?m + length ?ds) xs) = (f, True)"
    using n by (auto simp: number_len_def split: if_splits prod.splits)
  obtain x where x: "exp_len (drop (?m + length ?ds + f) xs) = (x, True)"
    using n f by (auto simp: number_len_def split: if_splits prod.splits)
  have k: "k = ?m + length ?ds + f + x" "\<not> IsNonDelim (head_byte (drop k xs))" "?ds \<noteq> []" "\<not> (head_byte ?ds = ch_0 \<and> 1 < length ?ds)"
    using n f x by (auto simp: number_len_def split: if_splits)
  have t: "take k xs = take ?m xs @ ?ds @ take f (drop (?m + length ?ds) xs) @ take x (drop (?m + length ?ds + f) xs)"
    unfolding k(1) take_add by (simp add: digit_run_take add.commute)
  have "take ?m xs = [] \<or> take ?m xs = [ch_minus]" by (cases xs) (auto simp: minus_len_def)
  moreover have "int_part ?ds"
    using k(3,4) digit_run_all [of "drop ?m xs"] by (cases ?ds) (auto simp: int_part_def digits_def)
  ultimately have "is_number (take k xs)"
    unfolding t using frac_len_text [OF f] exp_len_text [OF x] by (intro is_numberI) auto
  moreover have "?m + length ?ds \<le> length xs" using length_digit_run [of "drop ?m xs"] minus_len_le [of xs]
    unfolding length_drop by linarith
  then have "k \<le> length xs" using frac_len_text [OF f] exp_len_text [OF x] unfolding k(1) length_drop by linarith
  ultimately show "k \<le> length xs \<and> is_number (take k xs) \<and> \<not> IsNonDelim (head_byte (drop k xs))"
    using k(2) by blast
next
  assume "k \<le> length xs \<and> is_number (take k xs) \<and> \<not> IsNonDelim (head_byte (drop k xs))"
  then have k: "k \<le> length xs" "\<not> IsNonDelim (head_byte (drop k xs))" and "is_number (take k xs)" by auto
  then obtain s i f x where t: "take k xs = s @ i @ f @ x" "s = [] \<or> s = [ch_minus]" "int_part i" "frac_text f" "exp_text x"
    unfolding is_number_def by blast
  define r where "r = drop k xs"
  have xs: "xs = s @ i @ f @ x @ r" using t(1) append_take_drop_id [of k xs] by (simp add: r_def)
  have "length (take k xs) = k" using k(1) by simp
  then have kl: "k = length s + length i + length f + length x" unfolding t(1) by simp
  note r = delim_no_number [OF k(2), folded r_def]
  have hx: "\<not> IsDigit (head_byte (x @ r)) \<and> head_byte (x @ r) \<noteq> ch_dot"
    using t(5) r by (auto simp: exp_text_def IsDigit_iff)
  have hf: "\<not> IsDigit (head_byte (f @ x @ r))" using t(4) hx by (auto simp: frac_text_def IsDigit_iff)
  have i: "i \<noteq> []" "list_all IsDigit i" "\<not> (head_byte i = ch_0 \<and> 1 < length i)"
    using t(3) by (cases i; auto simp: int_part_def digits_def)+
  have m: "minus_len xs = length s"
    using t(2) i(1,2) by (cases i) (auto simp: minus_len_def xs IsDigit_iff)
  have run: "digit_run (i @ f @ x @ r) = i" using i(2) hf by (intro digit_run_append) auto
  have fl: "frac_len (f @ x @ r) = (length f, True)" using hx t(4) by (intro frac_len_iff) auto
  have xl: "exp_len (x @ r) = (length x, True)" using r t(5) by (intro exp_len_iff) auto
  have "drop (length s + length i) xs = f @ x @ r" "drop (length s + length i + length f) xs = x @ r" by (simp_all add: xs)
  then show "number_len xs = (k, True)"
    using fl xl i k(2) unfolding number_len_def m by (simp add: xs run kl)
qed

lemma ValidNumber_iff:
  assumes "o' \<le> length src"
  shows "ValidNumber src o' = (e, True) \<longleftrightarrow>
    o' \<le> e \<and> e \<le> length src \<and> is_number (cut src o' e) \<and> \<not> IsNonDelim (At src e)"
proof -
  obtain k ok where k: "number_len (drop o' src) = (k, ok)" by fastforce
  have c: "cut src o' (o' + j) = take j (drop o' src)" "At src (o' + j) = head_byte (drop j (drop o' src))" for j
    by (simp_all add: cut_def At_head add.commute)
  have len: "j \<le> length (drop o' src) \<longleftrightarrow> o' + j \<le> length src" for j using assms by auto
  show ?thesis
  proof
    assume "ValidNumber src o' = (e, True)"
    then have "e = o' + k" "ok" using ValidNumber_len [OF assms] k by auto
    then show "o' \<le> e \<and> e \<le> length src \<and> is_number (cut src o' e) \<and> \<not> IsNonDelim (At src e)"
      using number_len_iff [of "drop o' src" k] k by (simp only: c len) simp
  next
    assume a: "o' \<le> e \<and> e \<le> length src \<and> is_number (cut src o' e) \<and> \<not> IsNonDelim (At src e)"
    then obtain j where j: "e = o' + j" using le_Suc_ex by blast
    then have "number_len (drop o' src) = (j, True)" using a number_len_iff [of "drop o' src" j] by (simp only: c len) simp
    then show "ValidNumber src o' = (e, True)" using ValidNumber_len [OF assms] j by simp
  qed
qed

section \<open>IntToken\<close>

lemma dec_val_less: "list_all IsDigit ds \<Longrightarrow> dec_val ds < 10 ^ length ds"
proof (induction ds)
  case (Cons c cs)
  then have "\<not> 9 < c - 0x30" by (simp add: mag_digit)
  then have "unat (c - 0x30) \<le> 9" by (simp add: not_less word_le_nat_alt)
  then have "unat (c - 0x30) * 10 ^ length cs \<le> 9 * 10 ^ length cs" by (rule mult_right_mono) simp
  moreover have "dec_val cs < 10 ^ length cs" using Cons by simp
  ultimately have "unat (c - 0x30) * 10 ^ length cs + dec_val cs < 9 * 10 ^ length cs + 10 ^ length cs" by (rule add_le_less_mono)
  then show ?case by simp
qed simp

lemma exp_letter: "c OR 0x20 = ch_e \<longleftrightarrow> c = ch_e \<or> c = ch_E" for c :: byte
  by (rule all_bytesD [of "\<lambda>c. c OR 0x20 = ch_e \<longleftrightarrow> c = ch_e \<or> c = ch_E"]) code_simp

lemma cut_run: "p \<le> length src \<Longrightarrow> cut src p (p + length (digit_run (drop p src))) = digit_run (drop p src)"
  by (simp add: cut_def digit_run_take)

lemma fits_19: "length ds \<le> 19 \<Longrightarrow> list_all IsDigit ds \<Longrightarrow> unat (word_of_nat (dec_val ds) :: u64) = dec_val ds"
proof -
  assume a: "length ds \<le> 19" "list_all IsDigit ds"
  have "dec_val ds < 10 ^ length ds" using a(2) by (rule dec_val_less)
  also have "(10 :: nat) ^ length ds \<le> 10 ^ 19" using a(1) by (intro power_increasing) auto
  also have "(10 :: nat) ^ 19 < 2 ^ 64" by simp
  finally show ?thesis by (simp add: unat_of_nat)
qed

section \<open>Eight digits per step\<close>

lemma and_lane:
  fixes x y m n :: int
  assumes "0 \<le> x" "x < 2 ^ b" "0 \<le> m" "m < 2 ^ b"
  shows "(x + 2 ^ b * y) AND (m + 2 ^ b * n) = (x AND m) + 2 ^ b * (y AND n)"
proof -
  have c: "x + 2 ^ b * y = concat_bit b x y" "m + 2 ^ b * n = concat_bit b m n"
    using assms by (simp_all add: concat_bit_eq push_bit_eq_mult take_bit_int_eq_self mult.commute)
  have t: "take_bit b x = x" "take_bit b m = m" using assms by (simp_all add: take_bit_int_eq_self)
  have "(x + 2 ^ b * y) AND (m + 2 ^ b * n) = concat_bit b (x AND m) (y AND n)"
    unfolding c by (rule bit_eqI) (auto simp: bit_concat_bit_iff bit_and_iff)
  also have "\<dots> = (x AND m) + 2 ^ b * (y AND n)"
    by (simp add: concat_bit_eq t push_bit_eq_mult mult.commute)
  finally show ?thesis .
qed

lemma and_low: "0 \<le> x \<Longrightarrow> x < 2 ^ n \<Longrightarrow> (x :: int) AND (2 ^ n - 1) = x"
  by (metis mask_eq_exp_minus_1 take_bit_eq_mask take_bit_int_eq_self)

lemma mod_div_lane:
  fixes r e t :: int
  assumes "0 \<le> r" "r < 2 ^ s" "0 \<le> e" "r + 2 ^ s * e < 2 ^ 64"
  shows "(r + 2 ^ s * e + 2 ^ 64 * t) mod 2 ^ 64 div 2 ^ s = e"
proof -
  have "(r + 2 ^ s * e + 2 ^ 64 * t) mod 2 ^ 64 = r + 2 ^ s * e"
    using assms by (simp only: mod_mult_self2) (simp add: mod_pos_pos_trivial)
  then show ?thesis using assms by (simp add: div_pos_pos_trivial)
qed

text \<open>The three multiplications, on the digit values.\<close>

lemma pairs_combine:
  fixes d0 d1 d2 d3 d4 d5 d6 d7 :: int
  assumes d: "\<forall>d \<in> {d0, d1, d2, d3, d4, d5, d6, d7}. 0 \<le> d \<and> d \<le> 9"
  shows "((((d0 + 256 * (d1 + 256 * (d2 + 256 * (d3 + 256 * (d4 + 256 * (d5 + 256 * (d6 + 256 * d7)))))))
            * 2561) mod 2 ^ 64 div 2 ^ 8 AND 0x00FF00FF00FF00FF) =
         (d1 + 10 * d0) + 2 ^ 16 * ((d3 + 10 * d2) + 2 ^ 16 * ((d5 + 10 * d4) + 2 ^ 16 * (d7 + 10 * d6))))"
proof -
  let ?e = "\<lambda>a b :: int. b + 10 * a"
  let ?E = "?e d0 d1 + 2 ^ 8 * (?e d1 d2 + 2 ^ 8 * (?e d2 d3 + 2 ^ 8 * (?e d3 d4 + 2 ^ 8 * (?e d4 d5 + 2 ^ 8 * (?e d5 d6 + 2 ^ 8 * ?e d6 d7)))))"
  have e: "0 \<le> ?e a b" "?e a b < 2 ^ 8" if "a \<in> {d0, d1, d2, d3, d4, d5, d6, d7}" "b \<in> {d0, d1, d2, d3, d4, d5, d6, d7}" for a b
    using d that by fastforce+
  have "(d0 + 256 * (d1 + 256 * (d2 + 256 * (d3 + 256 * (d4 + 256 * (d5 + 256 * (d6 + 256 * d7))))))) * 2561
      = d0 + 2 ^ 8 * ?E + 2 ^ 64 * (10 * d7)" by (simp add: algebra_simps)
  then have "(d0 + 256 * (d1 + 256 * (d2 + 256 * (d3 + 256 * (d4 + 256 * (d5 + 256 * (d6 + 256 * d7))))))) * 2561 mod 2 ^ 64 div 2 ^ 8 = ?E"
    using d by (simp only:) (intro mod_div_lane; simp)
  moreover have "?E AND 0x00FF00FF00FF00FF =
      ?e d0 d1 + 2 ^ 16 * (?e d2 d3 + 2 ^ 16 * (?e d4 d5 + 2 ^ 16 * ?e d6 d7))"
  proof -
    have m: "(0x00FF00FF00FF00FF :: int) = (2 ^ 8 - 1) + 2 ^ 8 * (0 + 2 ^ 8 * ((2 ^ 8 - 1) + 2 ^ 8 * (0 + 2 ^ 8 * ((2 ^ 8 - 1) + 2 ^ 8 * (0 + 2 ^ 8 * (2 ^ 8 - 1))))))"
      by simp
    have l: "(x + 2 ^ 8 * y) AND ((2 ^ 8 - 1) + 2 ^ 8 * n) = x + 2 ^ 8 * (y AND n)"
      "(x + 2 ^ 8 * y) AND (0 + 2 ^ 8 * n) = 2 ^ 8 * (y AND n)" if "0 \<le> x" "x < 2 ^ 8" for x y n :: int
      using and_lane [of x 8 "2 ^ 8 - 1" y n] and_lane [of x 8 0 y n] and_low [of x 8] that by simp_all
    show ?thesis unfolding m using e by (simp only: l insertI1 insertI2 and_low) simp
  qed
  ultimately show ?thesis by simp
qed

lemma quads_combine:
  fixes p0 p1 p2 p3 :: int
  assumes p: "\<forall>p \<in> {p0, p1, p2, p3}. 0 \<le> p \<and> p \<le> 99"
  shows "(p0 + 2 ^ 16 * (p1 + 2 ^ 16 * (p2 + 2 ^ 16 * p3))) * 6553601 mod 2 ^ 64 div 2 ^ 16 AND 0x0000FFFF0000FFFF =
         (p1 + 100 * p0) + 2 ^ 32 * (p3 + 100 * p2)"
proof -
  let ?E = "(p1 + 100 * p0) + 2 ^ 16 * ((p2 + 100 * p1) + 2 ^ 16 * (p3 + 100 * p2))"
  have "(p0 + 2 ^ 16 * (p1 + 2 ^ 16 * (p2 + 2 ^ 16 * p3))) * 6553601 = p0 + 2 ^ 16 * ?E + 2 ^ 64 * (100 * p3)"
    by (simp add: algebra_simps)
  then have "(p0 + 2 ^ 16 * (p1 + 2 ^ 16 * (p2 + 2 ^ 16 * p3))) * 6553601 mod 2 ^ 64 div 2 ^ 16 = ?E"
    using p by (simp only:) (intro mod_div_lane; simp)
  moreover have "?E AND 0x0000FFFF0000FFFF = (p1 + 100 * p0) + 2 ^ 32 * (p3 + 100 * p2)"
  proof -
    have m: "(0x0000FFFF0000FFFF :: int) = (2 ^ 16 - 1) + 2 ^ 16 * (0 + 2 ^ 16 * (2 ^ 16 - 1))" by simp
    have l: "(x + 2 ^ 16 * y) AND ((2 ^ 16 - 1) + 2 ^ 16 * n) = x + 2 ^ 16 * (y AND n)"
      "(x + 2 ^ 16 * y) AND (0 + 2 ^ 16 * n) = 2 ^ 16 * (y AND n)" if "0 \<le> x" "x < 2 ^ 16" for x y n :: int
      using and_lane [of x 16 "2 ^ 16 - 1" y n] and_lane [of x 16 0 y n] and_low [of x 16] that by simp_all
    have e: "0 \<le> p1 + 100 * p0" "p1 + 100 * p0 < 2 ^ 16" "0 \<le> p2 + 100 * p1" "p2 + 100 * p1 < 2 ^ 16"
        "0 \<le> p3 + 100 * p2" "p3 + 100 * p2 < 2 ^ 16" using p by simp_all
    show ?thesis unfolding m using e by (simp only: l and_low) simp
  qed
  ultimately show ?thesis by simp
qed

lemma octet_combine:
  fixes q0 q1 :: int
  assumes "0 \<le> q0" "q0 \<le> 9999" "0 \<le> q1" "q1 \<le> 9999"
  shows "(q0 + 2 ^ 32 * q1) * 42949672960001 mod 2 ^ 64 div 2 ^ 32 = q1 + 10000 * q0"
proof -
  have "(q0 + 2 ^ 32 * q1) * 42949672960001 = q0 + 2 ^ 32 * (q1 + 10000 * q0) + 2 ^ 64 * (10000 * q1)"
    by (simp add: algebra_simps)
  then show ?thesis using assms by (simp only:) (intro mod_div_lane; simp)
qed

text \<open>The same on words.\<close>

definition swar_value :: "u64 \<Rightarrow> u64" where
  "swar_value w =
     (let w = drop_bit 8 ((w AND 0x0F0F0F0F0F0F0F0F) * 2561);
          w = drop_bit 16 ((w AND 0x00FF00FF00FF00FF) * 6553601)
      in drop_bit 32 ((w AND 0x0000FFFF0000FFFF) * 42949672960001))"

definition swar_digits :: "u64 \<Rightarrow> bool" where
  "swar_digits w \<longleftrightarrow> (w AND 0xF0F0F0F0F0F0F0F0) OR drop_bit 4 ((w + 0x0606060606060606) AND 0xF0F0F0F0F0F0F0F0)
     = 0x3333333333333333"

lemma uint_swar_step: "uint (drop_bit s (v * m) :: u64) = uint v * uint m mod 2 ^ 64 div 2 ^ s"
  by (simp only: unsigned_drop_bit_eq uint_word_ariths) (simp add: drop_bit_eq_div take_bit_eq_mod)

lemma digit_nibble: "IsDigit c \<Longrightarrow> uint (c AND 0x0F) = uint (c - 0x30) \<and> uint (c - 0x30) \<le> 9"
proof -
  assume "IsDigit c"
  moreover have "IsDigit c \<longrightarrow> c AND 0x0F = c - 0x30 \<and> c - 0x30 \<le> 9"
    by (rule all_bytesD [of "\<lambda>c. IsDigit c \<longrightarrow> c AND 0x0F = c - 0x30 \<and> c - 0x30 \<le> 9"]) code_simp
  ultimately show ?thesis by (auto simp: word_le_def)
qed

lemma length_8_cases:
  assumes "length bs = 8"
  obtains b0 b1 b2 b3 b4 b5 b6 b7 where "bs = [b0, b1, b2, b3, b4, b5, b6, b7]"
  using assms by (auto simp: length_Suc_conv numeral_eq_Suc)

lemma swar_value_eq:
  assumes "length bs = 8" "list_all IsDigit bs"
  shows "swar_value (le64 bs) = word_of_nat (dec_val bs)"
proof -
  obtain b0 b1 b2 b3 b4 b5 b6 b7 where bs: "bs = [b0, b1, b2, b3, b4, b5, b6, b7]"
    using assms(1) by (rule length_8_cases)
  let ?d = "\<lambda>b :: byte. uint (b - 0x30)"
  have dig: "uint (b AND 0x0F) = ?d b \<and> 0 \<le> ?d b \<and> ?d b \<le> 9" if "b \<in> set bs" for b
    using digit_nibble [of b] assms(2) that by (simp add: list_all_iff)
  have m: "(0x0F0F0F0F0F0F0F0F :: u64) = le64 (replicate 8 0x0F)" by (simp add: replicate_8)
  have "le64 bs AND 0x0F0F0F0F0F0F0F0F = le64 (map (\<lambda>b. b AND 0x0F) bs)"
    unfolding m using assms(1) by (subst le64_and) (simp_all add: bs replicate_8)
  then have u0: "uint (le64 bs AND 0x0F0F0F0F0F0F0F0F) = le_int (map (\<lambda>b. b AND 0x0F) bs)"
    using assms(1) by (simp add: uint_le64)
  have le: "le_int (map (\<lambda>b. b AND 0x0F) bs) = ?d b0 + 256 * (?d b1 + 256 * (?d b2 + 256 * (?d b3 + 256 * (?d b4 + 256 * (?d b5 + 256 * (?d b6 + 256 * ?d b7))))))"
    using dig by (simp add: bs)
  let ?p = "\<lambda>a b. ?d b + 10 * ?d a"
  define w0 where "w0 = le64 bs AND 0x0F0F0F0F0F0F0F0F"
  define w1 where "w1 = drop_bit 8 (w0 * 2561) AND 0x00FF00FF00FF00FF"
  define w2 where "w2 = drop_bit 16 (w1 * 6553601) AND 0x0000FFFF0000FFFF"
  have d: "\<forall>d \<in> {?d b0, ?d b1, ?d b2, ?d b3, ?d b4, ?d b5, ?d b6, ?d b7}. 0 \<le> d \<and> d \<le> 9"
    using dig by (simp add: bs)
  have u1: "uint w1 = ?p b0 b1 + 2 ^ 16 * (?p b2 b3 + 2 ^ 16 * (?p b4 b5 + 2 ^ 16 * ?p b6 b7))"
    using pairs_combine [OF d] unfolding w1_def uint_and uint_swar_step u0 [folded w0_def] le by simp
  have p: "\<forall>p \<in> {?p b0 b1, ?p b2 b3, ?p b4 b5, ?p b6 b7}. 0 \<le> p \<and> p \<le> 99" using d by auto
  let ?q = "\<lambda>a b c e. ?p c e + 100 * ?p a b"
  have u2: "uint w2 = ?q b0 b1 b2 b3 + 2 ^ 32 * ?q b4 b5 b6 b7"
    using quads_combine [OF p] unfolding w2_def uint_and uint_swar_step u1 by simp
  have "uint (swar_value (le64 bs)) = uint (drop_bit 32 (w2 * 42949672960001))"
    by (simp add: swar_value_def w0_def w1_def w2_def)
  also have "\<dots> = ?q b4 b5 b6 b7 + 10000 * ?q b0 b1 b2 b3"
    using octet_combine [of "?q b0 b1 b2 b3" "?q b4 b5 b6 b7"] d unfolding uint_swar_step u2 by simp
  also have "\<dots> = int (dec_val bs)" by (simp add: bs)
  finally show ?thesis by (metis of_int_of_nat_eq word_of_int_uint)
qed

lemma le64_inj: "length xs = 8 \<Longrightarrow> length ys = 8 \<Longrightarrow> le64 xs = le64 ys \<Longrightarrow> xs = ys"
proof (rule nth_equalityI)
  fix i
  assume a: "length xs = 8" "length ys = 8" "le64 xs = le64 ys" and i: "i < length xs"
  show "xs ! i = ys ! i"
  proof (rule bit_eqI)
    fix n
    assume "possible_bit TYPE(8 word) n"
    then have n: "n < 8" by simp
    have "bit (le64 xs) (8 * i + n) = bit (le64 ys) (8 * i + n)" using a(3) by simp
    then show "bit (xs ! i) n = bit (ys ! i) n" unfolding bit_le64 using a(1,2) i n by simp
  qed
qed simp

lemma map2_replicate: "length bs = n \<Longrightarrow> map2 f bs (replicate n c) = map (\<lambda>b. f b c) bs"
  by (induction bs arbitrary: n) auto

lemma le64_nibble:
  assumes "length bs = 8"
  shows "drop_bit 4 (le64 (map (\<lambda>b. b AND 0xF0) bs)) = le64 (map (\<lambda>b. drop_bit 4 (b AND 0xF0)) bs)"
proof (rule bit_eqI)
  fix n
  assume "possible_bit TYPE(64 word) n"
  moreover obtain q r where n: "n = 8 * q + r" "r < 8" using mult_div_mod_eq [of 8 n] by (metis mod_less_divisor zero_less_numeral)
  ultimately have q: "q < 8" by simp
  have low: "\<not> bit ((b :: byte) AND 0xF0) k" if "k < 4" for b k
    using that by (auto simp: bit_simps numeral_eq_Suc less_Suc_eq)
  have high: "\<not> bit (b :: byte) k" if "8 \<le> k" for b k using that bit_imp_le_length [of b k] by auto
  have b: "bit (drop_bit 4 (le64 (map (\<lambda>b. b AND 0xF0) bs))) n \<longleftrightarrow> bit (le64 (map (\<lambda>b. b AND 0xF0) bs)) (8 * q + (r + 4))"
    by (simp add: bit_simps n ac_simps)
  have c: "bit (le64 (map (\<lambda>b. drop_bit 4 (b AND 0xF0)) bs)) n \<longleftrightarrow> bit (bs ! q AND 0xF0) (r + 4)"
  proof -
    have "n div 8 = q" "n mod 8 = r" "n < 64" using n q by auto
    moreover have "map (\<lambda>b. drop_bit 4 (b AND 0xF0)) bs ! q = drop_bit 4 (bs ! q AND 0xF0)"
      using q assms by (simp only: nth_map)
    moreover have "bit (drop_bit 4 x) r = bit x (r + 4)" for x :: byte by (simp only: bit_drop_bit_eq comp_apply add.commute)
    ultimately show ?thesis unfolding bit_le64 using q assms by (simp only: length_map) simp
  qed
  show "bit (drop_bit 4 (le64 (map (\<lambda>b. b AND 0xF0) bs))) n \<longleftrightarrow> bit (le64 (map (\<lambda>b. drop_bit 4 (b AND 0xF0)) bs)) n"
  proof (cases "r < 4")
    case True
    then have "(8 * q + (r + 4)) div 8 = q" "(8 * q + (r + 4)) mod 8 = r + 4" "8 * q + (r + 4) < 64" using q by auto
    then show ?thesis unfolding b c unfolding bit_le64 using assms q by simp
  next
    case False
    then obtain k where "r = 4 + k" using le_Suc_ex not_less by blast
    then have e: "8 * q + (r + 4) = 8 * Suc q + k" "k < 4" using n(2) by auto
    have "(8 * Suc q + k) mod 8 = k" using e(2) by (simp only: mod_mult_self4) simp
    then show ?thesis unfolding b c e(1) unfolding bit_le64 using low [OF e(2)] high [of "r + 4"] False assms
      by (auto simp: bit_and_iff)
  qed
qed

lemma nibble_flags_decided:
  "all_bytes (\<lambda>b. b AND 0xF0 = 0x30 \<longrightarrow>
     uint b + 6 < 256 \<and> ((b AND 0xF0) OR drop_bit 4 ((b + 6) AND 0xF0) = 0x33 \<longleftrightarrow> IsDigit b))"
  by code_simp

lemma digit_high_nibble: "IsDigit b \<Longrightarrow> b AND 0xF0 = 0x30"
proof -
  have "IsDigit b \<longrightarrow> b AND 0xF0 = 0x30"
    by (rule all_bytesD [of "\<lambda>b. IsDigit b \<longrightarrow> b AND 0xF0 = 0x30"]) code_simp
  then show "IsDigit b \<Longrightarrow> b AND 0xF0 = 0x30" by blast
qed

lemma swar_flags_eq:
  assumes "length bs = 8" "\<forall>b \<in> set bs. b AND 0xF0 = 0x30"
  shows "swar_digits (le64 bs) \<longleftrightarrow> list_all IsDigit bs"
proof -
  let ?f = "\<lambda>b :: byte. (b AND 0xF0) OR drop_bit 4 ((b + 6) AND 0xF0)"
  have nib: "uint b + 6 < 256" "?f b = 0x33 \<longleftrightarrow> IsDigit b" if "b \<in> set bs" for b
    using all_bytesD [OF nibble_flags_decided, of b] assms(2) that by auto
  have m: "(0xF0F0F0F0F0F0F0F0 :: u64) = le64 (replicate 8 0xF0)" "(0x0606060606060606 :: u64) = le64 (replicate 8 6)"
    "(0x3333333333333333 :: u64) = le64 (replicate 8 0x33)" by (simp_all add: replicate_8)
  have "le64 bs + 0x0606060606060606 = le64 (map (\<lambda>b. b + 6) bs)"
    unfolding m(2) using assms(1) nib(1) by (subst le64_add) (simp_all add: map2_replicate)
  then have "drop_bit 4 ((le64 bs + 0x0606060606060606) AND 0xF0F0F0F0F0F0F0F0) = le64 (map (\<lambda>b. drop_bit 4 ((b + 6) AND 0xF0)) bs)"
    using le64_nibble [of "map (\<lambda>b. b + 6) bs"] assms(1) unfolding m(1)
    by (simp only: le64_and length_map length_replicate map2_replicate map_map comp_def)
  moreover have "le64 bs AND 0xF0F0F0F0F0F0F0F0 = le64 (map (\<lambda>b. b AND 0xF0) bs)"
    unfolding m(1) using assms(1) by (simp only: le64_and length_replicate map2_replicate)
  ultimately have "swar_digits (le64 bs) \<longleftrightarrow> le64 (map ?f bs) = le64 (replicate 8 0x33)"
    unfolding swar_digits_def m(3) using assms(1)
    by (simp only: le64_or length_map) (simp only: map2_map_map zip_same_conv_map map_map comp_def)
  also have "\<dots> \<longleftrightarrow> map ?f bs = replicate 8 0x33" using le64_inj [of "map ?f bs" "replicate 8 0x33"] assms(1) by auto
  also have "\<dots> \<longleftrightarrow> (\<forall>b \<in> set bs. ?f b = 0x33)"
    using assms(1) by (metis (no_types, lifting) in_set_replicate length_map length_replicate list.set_map image_eqI map_replicate_const list.map_cong0)
  also have "\<dots> \<longleftrightarrow> list_all IsDigit bs" using nib(2) by (auto simp: list_all_iff)
  finally show ?thesis .
qed

lemma swar_digits_high:
  assumes "length bs = 8" "swar_digits (le64 bs)"
  shows "\<forall>b \<in> set bs. b AND 0xF0 = 0x30"
proof -
  let ?x = "(le64 bs + 0x0606060606060606) AND 0xF0F0F0F0F0F0F0F0"
  have m: "(0xF0F0F0F0F0F0F0F0 :: u64) = le64 (replicate 8 0xF0)" "(0x3030303030303030 :: u64) = le64 (replicate 8 0x30)"
    by (simp_all add: replicate_8)
  have "drop_bit 4 (y AND 0xF0F0F0F0F0F0F0F0) AND 0xF0F0F0F0F0F0F0F0 = 0" for y :: u64
  proof -
    have "drop_bit 4 (y AND 0xF0F0F0F0F0F0F0F0) AND 0xF0F0F0F0F0F0F0F0 = drop_bit 4 y AND (drop_bit 4 0xF0F0F0F0F0F0F0F0 AND 0xF0F0F0F0F0F0F0F0)"
      by (simp only: drop_bit_and and.assoc)
    also have "(drop_bit 4 0xF0F0F0F0F0F0F0F0 AND 0xF0F0F0F0F0F0F0F0 :: u64) = 0" by code_simp
    finally show ?thesis by simp
  qed
  then have "((le64 bs AND 0xF0F0F0F0F0F0F0F0) OR drop_bit 4 ?x) AND 0xF0F0F0F0F0F0F0F0 = le64 bs AND 0xF0F0F0F0F0F0F0F0"
    by (simp only: bit.conj_disj_distrib2 and.assoc and.idem or.right_neutral)
  moreover have "(0x3333333333333333 AND 0xF0F0F0F0F0F0F0F0 :: u64) = 0x3030303030303030" by code_simp
  ultimately have "le64 bs AND 0xF0F0F0F0F0F0F0F0 = 0x3030303030303030"
    using assms(2) unfolding swar_digits_def by metis
  then have "le64 (map (\<lambda>b. b AND 0xF0) bs) = le64 (replicate 8 0x30)"
    unfolding m using assms(1) by (simp only: le64_and length_replicate map2_replicate)
  then have "map (\<lambda>b. b AND 0xF0) bs = replicate 8 0x30" using assms(1) by (intro le64_inj) auto
  then show ?thesis by (metis (no_types, lifting) image_eqI in_set_replicate list.set_map)
qed

lemma swar_digits_iff: "length bs = 8 \<Longrightarrow> swar_digits (le64 bs) \<longleftrightarrow> list_all IsDigit bs"
  using swar_flags_eq swar_digits_high digit_high_nibble by (auto simp: list_all_iff)

lemma dec_val_append: "dec_val (xs @ ys) = dec_val xs * 10 ^ length ys + dec_val ys"
  by (induction xs) (simp_all add: algebra_simps power_add)

lemma digit_run_window:
  assumes "p + 8 \<le> length src" "list_all IsDigit (take 8 (drop p src))"
  shows "digit_run (drop p src) = take 8 (drop p src) @ digit_run (drop (p + 8) src)"
proof -
  have "drop p src = take 8 (drop p src) @ drop (p + 8) src" by (metis append_take_drop_id drop_drop add.commute)
  moreover have "digit_run (xs @ ys) = xs @ digit_run ys" if "list_all IsDigit xs" for xs ys
    using that by (induction xs) (simp_all add: digit_run_def)
  ultimately show ?thesis using assms(2) by metis
qed

lemma digitRun_eq:
  "p \<le> length src \<Longrightarrow> digitRun src p mant = (let ds = digit_run (drop p src) in
     (p + length ds, mant * 10 ^ length ds + word_of_nat (dec_val ds)))"
proof (induction src p mant rule: digitRun.induct)
  case (1 src p mant)
  let ?w = "take 8 (drop p src)"
  note unf = digitRun.simps [of src p mant, folded swar_digits_def]
  show ?case
  proof (cases "p + 8 \<le> length src \<and> swar_digits (load64 src p)")
    case True
    then have w: "length ?w = 8" "list_all IsDigit ?w" by (auto simp: load64_def swar_digits_iff)
    let ?ds = "digit_run (drop (p + 8) src)"
    have "digitRun src p mant = digitRun src (p + 8) (mant * 100000000 + swar_value (load64 src p))"
      using True unf by (simp add: swar_value_def)
    also have "\<dots> = (p + 8 + length ?ds, (mant * 100000000 + swar_value (load64 src p)) * 10 ^ length ?ds + word_of_nat (dec_val ?ds))"
      using True "1.IH" [OF _ refl _ refl refl refl]
      by (simp add: swar_digits_def swar_value_def)
    also have "swar_value (load64 src p) = word_of_nat (dec_val ?w)" using w by (simp add: load64_def swar_value_eq)
    finally show ?thesis
      using True digit_run_window [of p src] w
      by (simp add: dec_val_append algebra_simps power_add)
  next
    case False
    then have "digitRun src p mant = mag_loop src p mant" using unf by (simp split: if_splits)
    then show ?thesis using mag_loop_eq [OF "1.prems"] by simp
  qed
qed

section \<open>Claims\<close>

text \<open>
  Claim C17. \<open>ValidNumber\<close> succeeds with end \<open>e\<close> exactly when the bytes up to \<open>e\<close> are a number of the
  JSON grammar (optional minus, an integer without a leading zero, optional fraction, optional
  exponent) and a delimiter or the end of the source follows.
\<close>

theorem ValidNumber_grammar:
  assumes "o' \<le> length src"
  shows "ValidNumber src o' = (e, True) \<longleftrightarrow>
    o' \<le> e \<and> e \<le> length src \<and> is_number (cut src o' e) \<and> \<not> IsNonDelim (At src e)"
  using assms by (rule ValidNumber_iff)

theorem ValidNumber_grammar_witness:
  "ValidNumber (lit ''[-0.5e+10]'') 1 = (9, True) \<and> is_number (lit ''-0.5e+10'')"
proof -
  have v: "ValidNumber (lit ''[-0.5e+10]'') 1 = (9, True)" by code_simp
  have "cut (lit ''[-0.5e+10]'') 1 9 = lit ''-0.5e+10''" by code_simp
  then show ?thesis using v ValidNumber_grammar [of 1 "lit ''[-0.5e+10]''" 9] by (simp add: lit_def)
qed

text \<open>
  Claim C22. \<open>IntToken\<close> stops after the digit run behind an optional minus. It flags the token as bad
  exactly when that run is empty, has a leading zero or is followed by a fraction or exponent, and as
  long exactly when it has more than 19 digits; otherwise its 64-bit magnitude is the run's value and
  did not wrap.
\<close>

theorem IntToken_value:
  assumes "o' \<le> length src" "IntToken src o' = (mag, neg, e, bad, long)"
    and "d = (if neg then o' + 1 else o')"
  shows "neg = (At src o' = ch_minus) \<and> d \<le> e \<and> e \<le> length src \<and> \<not> IsDigit (At src e) \<and>
    list_all IsDigit (cut src d e) \<and>
    (bad \<longleftrightarrow> \<not> int_part (cut src d e) \<or> At src e \<in> {ch_dot, ch_e, ch_E}) \<and>
    (\<not> bad \<longrightarrow> (long \<longleftrightarrow> 19 < e - d)) \<and>
    (\<not> bad \<longrightarrow> \<not> long \<longrightarrow> unat mag = dec_val (cut src d e))"
proof -
  have neg: "neg = (At src o' = ch_minus)" using assms(2) by (auto simp: IntToken_def split: prod.splits if_splits)
  have d: "d \<le> length src" using assms(1,3) neg At_neq_space [of src o'] by (auto split: if_splits)
  let ?ds = "digit_run (drop d src)"
  have run: "mag_loop src d 0 = (d + length ?ds, word_of_nat (dec_val ?ds))" using mag_loop_eq [OF d, of 0] by simp
  have e: "e = d + length ?ds" using assms(2,3) run neg by (auto simp: IntToken_def split: if_splits)
  have d': "(if At src o' = ch_minus then o' + 1 else o') = d" using assms(3) neg by simp
  have c: "cut src d e = ?ds" using cut_run [OF d] e by simp
  have hd: "?ds \<noteq> [] \<Longrightarrow> At src d = hd ?ds" using head_digit_run [of "drop d src"] by (cases ?ds) (auto simp: At_head)
  have "At src e = head_byte (drop (length ?ds) (drop d src))" by (simp add: At_head e add.commute)
  then have nd: "\<not> IsDigit (At src e)" using digit_run_rest [of "drop d src"] by simp
  have ip: "int_part ?ds \<longleftrightarrow> \<not> (length ?ds = 0 \<or> (At src d = ch_0 \<and> 1 < length ?ds))"
    using hd digit_run_all [of "drop d src"] by (cases ?ds) (auto simp: int_part_def digits_def)
  have eq: "(mag, neg, e, bad, long) =
      (if \<not> int_part ?ds then (0, neg, e, True, False)
       else if At src e = ch_dot \<or> At src e OR 0x20 = ch_e then (0, neg, e, True, False)
       else (word_of_nat (dec_val ?ds), neg, e, False, 19 < length ?ds))"
    unfolding assms(2) [symmetric] unfolding IntToken_def Let_def d' run prod.case maxFastDigits_def ip e neg by simp
  have "?ds \<noteq> [] \<and> length ?ds \<le> 19 \<Longrightarrow> unat (word_of_nat (dec_val ?ds) :: u64) = dec_val ?ds"
    using fits_19 digit_run_all by blast
  then show ?thesis
    using eq neg nd digit_run_all [of "drop d src"] d length_digit_run [of "drop d src"] unfolding c exp_letter
    by (auto simp: e int_part_def digits_def split: if_splits)
qed

theorem IntToken_value_witness:
  "IntToken (lit ''-1234,'') 0 = (1234, True, 5, False, False) \<and> unat (1234 :: u64) = dec_val (lit ''1234'')"
proof -
  have v: "IntToken (lit ''-1234,'') 0 = (1234, True, 5, False, False)" by code_simp
  have "cut (lit ''-1234,'') 1 5 = lit ''1234''" by code_simp
  then show ?thesis using v IntToken_value [of 0 "lit ''-1234,''" 1234 True 5 False False 1] by simp
qed

text \<open>
  \<open>digitRun\<close>, which recognises eight digits at once with one masked comparison and combines
  them with three multiplications, consumes exactly the maximal digit run and yields, modulo $2^{64}$,
  the mantissa extended by the value of the run.
\<close>

theorem digitRun_value:
  assumes "p \<le> length src"
  shows "digitRun src p mant = mag_loop src p mant \<and>
    digitRun src p mant = (let ds = takeWhile IsDigit (drop p src) in
      (p + length ds, mant * 10 ^ length ds + word_of_nat (dec_val ds)))"
  using digitRun_eq [OF assms] mag_loop_eq [OF assms] by (simp add: digit_run_def)

theorem digitRun_value_witness:
  "digitRun (lit ''12345678901.'') 0 0 = mag_loop (lit ''12345678901.'') 0 0"
  using digitRun_value [of 0 "lit ''12345678901.''" 0] by blast

end
