(* ===== verification/Float64.thy ===== *)
theory Float64
  imports Number
begin

text \<open>
  IEEE 754 binary64 as the code uses it: a value is its 64 bits, and \<open>round64\<close> gives the bits of the
  value nearest to a positive fraction, ties to even, overflowing to infinity. On it rests
  \<open>ParseFloat\<close>, the standard library's correctly rounded conversion of a decimal text; its range
  error, which the modelled caller ignores, comes with an infinity.
\<close>

function bit_len :: "int \<Rightarrow> nat" where
  "bit_len n = (if n \<le> 0 then 0 else Suc (bit_len (n div 2)))"
  by pat_completeness auto
termination by (relation "measure nat") auto

declare bit_len.simps [simp del]

text \<open>The binary exponent of \<open>n / d\<close>: the \<open>b\<close> with \<open>2\<^sup>b \<le> n / d < 2\<^sup>b\<^sup>+\<^sup>1\<close>.\<close>

definition exponent2 :: "int \<Rightarrow> int \<Rightarrow> int" where
  "exponent2 n d =
     (let k = int (bit_len n) - int (bit_len d) in
      if (if 0 \<le> k then n < d * 2 ^ nat k else n * 2 ^ nat (- k) < d) then k - 1 else k)"

definition round_even :: "int \<Rightarrow> int \<Rightarrow> int" where
  "round_even n d =
     (let q = n div d; r = n mod d in
      if d < 2 * r \<or> (2 * r = d \<and> odd q) then q + 1 else q)"

definition inf_bits :: int where "inf_bits = 0x7FF0000000000000"

definition round64 :: "bool \<Rightarrow> int \<Rightarrow> int \<Rightarrow> u64" where
  "round64 neg n d =
     (let e = max (exponent2 n d) (- 1022); s = e - 52;
          q = (if 0 \<le> s then round_even n (d * 2 ^ nat s) else round_even (n * 2 ^ nat (- s)) d);
          b = min ((e + 1022) * 2 ^ 52 + q) inf_bits in
      word_of_int b OR (if neg then push_bit 63 1 else 0))"

definition dec_int :: "bytes \<Rightarrow> int" where
  "dec_int ds = foldl (\<lambda>a c. 10 * a + uint (c - 0x30)) 0 ds"

text \<open>The sign, the digits and the power of ten of a decimal text.\<close>

definition dec_text :: "bytes \<Rightarrow> bool \<times> int \<times> int" where
  "dec_text t =
     (let neg = (head_byte t = ch_minus); t = drop (minus_len t) t;
          i = digit_run t; t = drop (length i) t;
          f = (if head_byte t = ch_dot then digit_run (tl t) else []);
          t = (if head_byte t = ch_dot then drop (length f) (tl t) else t);
          s = (if head_byte t = ch_e \<or> head_byte t = ch_E then tl t else []);
          e = dec_int (digit_run (drop (sign_len s) s)) in
      (neg, dec_int (i @ f), (if head_byte s = ch_minus then - e else e) - int (length f)))"

definition ParseFloat :: "bytes \<Rightarrow> u64" where
  "ParseFloat t =
     (case dec_text t of (neg, m, e) \<Rightarrow>
        if m = 0 then (if neg then push_bit 63 1 else 0)
        else if 0 \<le> e then round64 neg (m * 10 ^ nat e) 1
        else round64 neg m (10 ^ nat (- e)))"

end
