(* ===== verification/Tape.thy ===== *)
theory Tape
  imports Number Float64
begin

text \<open>
  The tape walker of \<^verbatim>\<open>internal/gdec/tape.go\<close>. A walker replays the document over the structural
  index: a state machine with an explicit stack of open containers checks the grammar and, unless
  its tape is nil (\<open>None\<close>), writes the DOM tape and the string arena. \<open>BuildTape\<close> and \<open>ValidWalk\<close>
  are its two entries.

  A step ends in \<open>Ok\<close> with the new walker, in \<open>Fail\<close> where the code returns false, and in \<open>Panic\<close>
  where a Go index or slice expression is out of range. The closures of \<^verbatim>\<open>run\<close> share its locals
  \<open>depth\<close>, \<open>curCnt\<close> and \<open>curTidx\<close>, which are fields of the state here; \<open>src\<close>, \<open>idx\<close> and \<open>zc\<close>, which no
  step writes, are the record \<open>input\<close>.
\<close>

section \<open>Words and limits\<close>

definition tag_word :: "byte \<Rightarrow> u64" where
  "tag_word c = push_bit 56 (ucast c)"

definition tagArrBeg :: u64 where "tagArrBeg = tag_word ch_lbrack"
definition tagArrEnd :: u64 where "tagArrEnd = tag_word ch_rbrack"
definition tagObjBeg :: u64 where "tagObjBeg = tag_word ch_lbrace"
definition tagObjEnd :: u64 where "tagObjEnd = tag_word ch_rbrace"
definition tagString :: u64 where "tagString = tag_word ch_quote"
definition tagStrRaw :: u64 where "tagStrRaw = tag_word 0x52"
definition tagStrFree :: u64 where "tagStrFree = tag_word 0x53"
definition tagInt64 :: u64 where "tagInt64 = tag_word 0x6C"
definition tagUint64 :: u64 where "tagUint64 = tag_word 0x75"
definition tagDouble :: u64 where "tagDouble = tag_word 0x64"
definition tagNumRaw :: u64 where "tagNumRaw = tag_word 0x44"

definition maxSpan :: nat where "maxSpan = 0xFFFFFF"
definition maxDepth :: nat where "maxDepth = 256"

definition TapeNeed :: "nat \<Rightarrow> nat \<Rightarrow> nat" where
  "TapeNeed n sc = n + sc + 3"

section \<open>The walker\<close>

datatype 'a outcome = Panic | Fail | Ok 'a

fun bind :: "'a outcome \<Rightarrow> ('a \<Rightarrow> 'b outcome) \<Rightarrow> 'b outcome" where
  "bind Panic f = Panic"
| "bind Fail f = Fail"
| "bind (Ok a) f = f a"

record openCtn =
  tidx :: u32
  count :: u32

record input =
  in_src :: bytes
  in_idx :: "u32 list"
  in_zc :: bool

record walker =
  ip :: nat
  tape :: "u64 list option"
  tp :: nat
  str :: bytes
  sp :: nat
  stack :: "openCtn list"
  depth :: int
  curCnt :: u32
  curTidx :: u32

definition off :: "input \<Rightarrow> nat \<Rightarrow> nat" where
  "off inp k = (if k < length (in_idx inp) then unat (in_idx inp ! k) else length (in_src inp))"

definition peek :: "input \<Rightarrow> walker \<Rightarrow> byte" where
  "peek inp w = At (in_src inp) (off inp (ip w))"

definition adv :: "walker \<Rightarrow> walker" where
  "adv w = w\<lparr>ip := ip w + 1\<rparr>"

text \<open>A store to the tape panics past its end, and always when the tape is nil.\<close>

definition put :: "u64 \<Rightarrow> walker \<Rightarrow> walker outcome" where
  "put word w =
     (case tape w of
        None \<Rightarrow> Panic
      | Some t \<Rightarrow>
          if tp w < length t then Ok (w\<lparr>tape := Some (t[tp w := word]), tp := tp w + 1\<rparr>) else Panic)"

definition emitEmpty :: "u64 \<Rightarrow> u64 \<Rightarrow> walker \<Rightarrow> walker outcome" where
  "emitEmpty beg en w =
     (case tape w of
        None \<Rightarrow> Ok w
      | Some _ \<Rightarrow>
          let s = word_of_nat (tp w) in bind (put (beg OR (s + 1)) w) (put (en OR s)))"

section \<open>Strings\<close>

text \<open>The word of \<open>n\<close> arena bytes at \<open>sp\<close>, and the step past them and their terminator.\<close>

definition put_text :: "u64 \<Rightarrow> nat \<Rightarrow> walker \<Rightarrow> walker outcome" where
  "put_text tag n w =
     bind (put (tag OR word_of_nat (sp w) OR push_bit 32 (word_of_nat n)) w)
       (\<lambda>w. Ok (w\<lparr>sp := sp w + (n + 1)\<rparr>))"

definition visitString :: "input \<Rightarrow> nat \<Rightarrow> walker \<Rightarrow> walker outcome" where
  "visitString inp open w =
     (let src = in_src inp; body = open + 1;
          decode = (\<lambda>tag_of.
            if length (str w) < sp w then Panic
            else case DecodeString src body (drop (sp w) (str w)) of
                   None \<Rightarrow> Panic
                 | Some (d, n, es, ok) \<Rightarrow>
                     let w = w\<lparr>str := take (sp w) (str w) @ d\<rparr> in
                     if \<not> ok \<or> maxSpan < n then Fail
                     else put_text (tag_of es) n w) in
      if tape w = None then (if snd (ScanString src body) then Ok w else Fail)
      else if in_zc inp then
        let en = QuoteOrEscape src body in
        if length src \<le> en then Panic
        else if src ! en = ch_quote then
          let n = en - body in
          if maxSpan < n then Fail
          else put (tagStrRaw OR word_of_nat body OR push_bit 32 (word_of_nat n)) w
        else decode (\<lambda>_. tagString)
      else decode (\<lambda>es. if es then tagString else tagStrFree))"

section \<open>Numbers and literals\<close>

definition storeText :: "input \<Rightarrow> u64 \<Rightarrow> nat \<Rightarrow> nat \<Rightarrow> walker \<Rightarrow> walker outcome" where
  "storeText inp tag from to w =
     (let n = to - from in
      if maxSpan < n \<or> 2 ^ 32 - 1 < sp w then Fail
      else case copy_at (str w) (sp w) (cut (in_src inp) from to) of
             None \<Rightarrow> Panic
           | Some (s, _) \<Rightarrow>
               (case put_at s (sp w + n) [0] of
                  None \<Rightarrow> Panic
                | Some s \<Rightarrow>
                    put_text tag n (w\<lparr>str := s\<rparr>)))"

text \<open>\<^verbatim>\<open>for IsDigit(at(p)) { v = 10*v + digit; p++ }\<close>, of \<^verbatim>\<open>visitNumber\<close> and \<^verbatim>\<open>parseExponent\<close>.\<close>

function at_digits :: "bytes \<Rightarrow> nat \<Rightarrow> u64 \<Rightarrow> nat \<times> u64" where
  "at_digits src p v =
     (if IsDigit (At src p) then at_digits src (p + 1) (10 * v + ucast (At src p - 0x30)) else (p, v))"
  by pat_completeness auto
termination
proof (relation "measure (\<lambda>(src, p, v). length src - p)", goal_cases)
  case (2 src p v)
  then have "p < length src" by (intro At_neq_space) (auto simp: IsDigit_iff)
  then show ?case by simp
qed simp

declare at_digits.simps [simp del]

function skip_zeros :: "(byte \<Rightarrow> bool) \<Rightarrow> bytes \<Rightarrow> nat \<Rightarrow> nat" where
  "skip_zeros P src s = (if P (At src s) \<and> s < length src then skip_zeros P src (s + 1) else s)"
  by pat_completeness auto
termination by (relation "measure (\<lambda>(P, src, s). length src - s)") auto

declare skip_zeros.simps [simp del]

definition parseExponent :: "bytes \<Rightarrow> nat \<Rightarrow> int \<Rightarrow> (nat \<times> int) \<times> bool" where
  "parseExponent src p exp =
     (let negE = (At src p = ch_minus);
          se = (if negE \<or> At src p = ch_plus then p + 1 else p) in
      case at_digits src se 0 of (p, en) \<Rightarrow>
        if p = se then ((p, exp), False)
        else
          let en = (if se + 18 < p \<and> skip_zeros (\<lambda>c. c = ch_0) src se + 18 < p
                    then 999999999999999999 else en)
          in ((p, if negE then exp - sint en else exp + sint en), True))"

definition realValue :: "bytes \<Rightarrow> u64 \<Rightarrow> int \<Rightarrow> bool \<Rightarrow> u64" where
  "realValue text i exp neg =
     (if i = 0 \<or> exp < -342 \<or> 308 < exp then (if neg then push_bit 63 1 else 0)
      else ParseFloat text)"

definition real_number :: "input \<Rightarrow> nat \<Rightarrow> nat \<Rightarrow> nat \<Rightarrow> nat \<Rightarrow> u64 \<Rightarrow> int \<Rightarrow> bool \<Rightarrow> walker \<Rightarrow> walker outcome" where
  "real_number inp o' sd p dc i exp neg w =
     (let src = in_src inp; dirty = IsNonDelim (At src p);
          raw = (if dirty then Fail else storeText inp tagNumRaw o' p w);
          s = skip_zeros (\<lambda>c. c = ch_0 \<or> c = ch_dot) src sd in
      if 19 < dc \<and> 19 < int dc - int (s - sd) then raw
      else if 308 < exp \<and> i \<noteq> 0 then raw
      else if dirty then Fail
      else
        let dv = realValue (cut src o' p) i exp neg in
        bind (storeText inp tagDouble o' p w) (put dv))"

definition integer_number :: "input \<Rightarrow> nat \<Rightarrow> nat \<Rightarrow> nat \<Rightarrow> u64 \<Rightarrow> bool \<Rightarrow> walker \<Rightarrow> walker outcome" where
  "integer_number inp o' p dc i neg w =
     (let src = in_src inp; dirty = IsNonDelim (At src p);
          raw = (if dirty then Fail else storeText inp tagNumRaw o' p w);
          longest = (if neg then 19 else 20) in
      if longest < dc then raw
      else if dc = longest \<and> neg \<and> 0x8000000000000000 < i then raw
      else if dc = longest \<and> \<not> neg \<and> (At src o' \<noteq> 0x31 \<or> i \<le> 0x7FFFFFFFFFFFFFFF) then raw
      else if dirty then Fail
      else if 0x7FFFFFFFFFFFFFFF < i \<and> \<not> neg then bind (put tagUint64 w) (put i)
      else bind (put tagInt64 w) (put (if neg then NOT i + 1 else i)))"

definition visitNumber :: "input \<Rightarrow> nat \<Rightarrow> walker \<Rightarrow> walker outcome" where
  "visitNumber inp o' w =
     (let src = in_src inp; neg = (At src o' = ch_minus); sd = (if neg then o' + 1 else o') in
      case at_digits src sd 0 of (p, i) \<Rightarrow>
        let dc = p - sd in
        if dc = 0 \<or> (At src sd = ch_0 \<and> 1 < dc) then Fail
        else
          let dot = (At src p = ch_dot); first = p + 1 in
          case (if dot then at_digits src first i else (p, i)) of (p, i) \<Rightarrow>
            if dot \<and> p = first then Fail
            else
              let exp = (if dot then int first - int p else 0);
                  dc = (if dot then p - sd else dc) in
              if At src p = ch_e \<or> At src p = ch_E then
                (case parseExponent src (p + 1) exp of ((p, exp), ok) \<Rightarrow>
                   if \<not> ok then Fail else real_number inp o' sd p dc i exp neg w)
              else if dot then real_number inp o' sd p dc i exp neg w
              else integer_number inp o' p dc i neg w)"

definition ValidAtom :: "bytes \<Rightarrow> nat \<Rightarrow> nat \<times> bool" where
  "ValidAtom src o' =
     (let c = At src o' in
      if c \<noteq> ch_t \<and> c \<noteq> ch_f \<and> c \<noteq> ch_n then (o', False)
      else
        let l = (if c = ch_t then lit ''true'' else if c = ch_f then lit ''false'' else lit ''null'');
            en = o' + length l in
        if length src < en \<or> cut src o' en \<noteq> l then (o', False)
        else (en, \<not> IsNonDelim (At src en)))"

definition visitPrimitive :: "input \<Rightarrow> walker \<Rightarrow> walker outcome" where
  "visitPrimitive inp w =
     (let o' = off inp (ip w); w = adv w; src = in_src inp; c = At src o' in
      if c = ch_quote then visitString inp o' w
      else if c = ch_minus \<or> IsDigit c then
        (if tape w = None then (if snd (ValidNumber src o') then Ok w else Fail)
         else visitNumber inp o' w)
      else if c = ch_t \<or> c = ch_f \<or> c = ch_n then
        (if \<not> snd (ValidAtom src o') then Fail
         else if tape w \<noteq> None then put (tag_word c) w else Ok w)
      else Fail)"

section \<open>The state machine\<close>

datatype run_state =
    stObjBegin | stObjField | stObjCont | stArrBegin | stArrValue | stArrCont
  | stScopeEnd | stRootScalar | stDocEnd

definition isArr_bit :: u32 where "isArr_bit = push_bit 31 1"

text \<open>
  \<^verbatim>\<open>push\<close> saves the open container, refuses the depth limit and reserves the word its close patches;
  \<^verbatim>\<open>pop\<close> patches that word, writes the end word and restores the container around it.
\<close>

definition push :: "bool \<Rightarrow> walker \<Rightarrow> walker outcome" where
  "push isArr w =
     (let w = (if 0 \<le> depth w
               then w\<lparr>stack := (stack w)[nat (depth w) := \<lparr>tidx = curTidx w, count = curCnt w\<rparr>]\<rparr> else w);
          nd = depth w + 1 in
      if int maxDepth \<le> nd then Fail
      else Ok (w\<lparr>depth := nd, curTidx := word_of_nat (tp w), curCnt := (if isArr then isArr_bit else 0),
                 tp := (if tape w \<noteq> None then tp w + 1 else tp w)\<rparr>))"

definition pop :: "u64 \<Rightarrow> u64 \<Rightarrow> walker \<Rightarrow> walker outcome" where
  "pop beg en w =
     bind (case tape w of
             None \<Rightarrow> Ok w
           | Some t \<Rightarrow>
               let s = curTidx w; c = min (curCnt w AND 0x7FFFFFFF) (word_of_nat maxSpan); e = word_of_nat (tp w) in
               if length t \<le> unat s then Panic
               else put (en OR ucast s) (w\<lparr>tape := Some (t[unat s := beg OR e OR push_bit 32 (ucast c)])\<rparr>))
       (\<lambda>w. let d = depth w - 1; w = w\<lparr>depth := d\<rparr> in
          Ok (if 0 \<le> d
              then w\<lparr>curTidx := tidx (stack w ! nat d), curCnt := count (stack w ! nat d)\<rparr> else w))"

definition key :: "input \<Rightarrow> walker \<Rightarrow> walker outcome" where
  "key inp w =
     (let k = off inp (ip w); w = adv w in
      if At (in_src inp) k \<noteq> ch_quote then Fail
      else bind (visitString inp k w) (\<lambda>w.
        let c = peek inp w; w = adv w in if c = ch_colon then Ok w else Fail))"

definition run_value :: "input \<Rightarrow> run_state \<Rightarrow> walker \<Rightarrow> (run_state \<times> walker) outcome" where
  "run_value inp cont w =
     (if peek inp w = ch_lbrace then
        let w = adv w in
        if peek inp w \<noteq> ch_rbrace then Ok (stObjBegin, w)
        else bind (emitEmpty tagObjBeg tagObjEnd (adv w)) (\<lambda>w. Ok (cont, w))
      else if peek inp w = ch_lbrack then
        let w = adv w in
        if peek inp w \<noteq> ch_rbrack then Ok (stArrBegin, w)
        else bind (emitEmpty tagArrBeg tagArrEnd (adv w)) (\<lambda>w. Ok (cont, w))
      else bind (visitPrimitive inp w) (\<lambda>w. Ok (cont, w)))"

definition bump :: "walker \<Rightarrow> walker" where
  "bump w = w\<lparr>curCnt := curCnt w + 1\<rparr>"

text \<open>One pass through the loop of \<^verbatim>\<open>run\<close> in a state other than \<open>stDocEnd\<close>.\<close>

fun step :: "input \<Rightarrow> run_state \<Rightarrow> walker \<Rightarrow> (run_state \<times> walker) outcome" where
  "step inp stObjBegin w =
     bind (push False w) (\<lambda>w. bind (key inp (bump w)) (\<lambda>w. Ok (stObjField, w)))"
| "step inp stObjField w = run_value inp stObjCont w"
| "step inp stObjCont w =
     (let c = peek inp w; w = adv w in
      if c = ch_comma then bind (key inp (bump w)) (\<lambda>w. Ok (stObjField, w))
      else if c = ch_rbrace then bind (pop tagObjBeg tagObjEnd w) (\<lambda>w. Ok (stScopeEnd, w))
      else if c = 0x20 then Ok (stDocEnd, w)
      else Fail)"
| "step inp stArrBegin w = bind (push True w) (\<lambda>w. Ok (stArrValue, bump w))"
| "step inp stArrValue w = run_value inp stArrCont w"
| "step inp stArrCont w =
     (let c = peek inp w; w = adv w in
      if c = ch_comma then Ok (stArrValue, bump w)
      else if c = ch_rbrack then bind (pop tagArrBeg tagArrEnd w) (\<lambda>w. Ok (stScopeEnd, w))
      else if c = 0x20 then Ok (stDocEnd, w)
      else Fail)"
| "step inp stScopeEnd w =
     Ok (if curCnt w AND isArr_bit \<noteq> 0 then stArrCont else stObjCont, w)"
| "step inp stRootScalar w = bind (visitPrimitive inp w) (\<lambda>w. Ok (stDocEnd, w))"
| "step inp stDocEnd w = Ok (stDocEnd, w)"

text \<open>
  The scope-end test reads \<open>curCnt\<close> of the container popped to, or of the root container itself
  once it is closed; there the machine is then in a continuation state with \<open>depth = -1\<close>, which the
  sentinel ends.
\<close>

section \<open>What a visit leaves alone\<close>

definition same_ctl :: "walker \<Rightarrow> walker \<Rightarrow> bool" where
  "same_ctl w w' \<longleftrightarrow> ip w' = ip w \<and> depth w' = depth w \<and> stack w' = stack w \<and> curCnt w' = curCnt w \<and>
     curTidx w' = curTidx w \<and> map_option length (tape w') = map_option length (tape w)"

lemma same_ctl_refl [simp]: "same_ctl w w"
  by (simp add: same_ctl_def)

lemma same_ctl_trans: "same_ctl w w' \<Longrightarrow> same_ctl w' w'' \<Longrightarrow> same_ctl w w''"
  by (simp add: same_ctl_def)

lemma same_ctl_upd [simp]:
  "same_ctl w (w\<lparr>str := s\<rparr>)" "same_ctl w (w\<lparr>sp := k\<rparr>)" "same_ctl w (w\<lparr>tp := k\<rparr>)"
  by (simp_all add: same_ctl_def)

lemma bind_Ok: "bind m f = Ok b \<longleftrightarrow> (\<exists>a. m = Ok a \<and> f a = Ok b)"
  by (cases m) auto

lemma put_ctl: "put x w = Ok w' \<Longrightarrow> same_ctl w w'"
  by (auto simp: put_def same_ctl_def split: option.splits if_splits)

lemma emitEmpty_ctl: "emitEmpty b e w = Ok w' \<Longrightarrow> same_ctl w w'"
  by (auto simp: emitEmpty_def bind_Ok split: option.splits dest!: put_ctl intro: same_ctl_trans)

lemma put_text_ctl: "put_text t n (w\<lparr>str := s\<rparr>) = Ok w' \<Longrightarrow> same_ctl w w'"
  by (auto simp: put_text_def bind_Ok same_ctl_def dest!: put_ctl)

lemma visitString_ctl: "visitString inp o' w = Ok w' \<Longrightarrow> same_ctl w w'"
  by (auto simp: visitString_def split: if_splits option.splits prod.splits intro: put_text_ctl put_ctl)

lemma storeText_ctl: "storeText inp t a b w = Ok w' \<Longrightarrow> same_ctl w w'"
  by (auto simp: storeText_def split: if_splits option.splits prod.splits intro: put_text_ctl)

lemma visitNumber_ctl: "visitNumber inp o' w = Ok w' \<Longrightarrow> same_ctl w w'"
  by (auto simp: visitNumber_def real_number_def integer_number_def bind_Ok
      split: if_splits prod.splits intro: same_ctl_trans dest!: put_ctl storeText_ctl)

lemma visitPrimitive_ctl: "visitPrimitive inp w = Ok w' \<Longrightarrow> same_ctl (adv w) w'"
  by (auto simp: visitPrimitive_def split: if_splits dest: visitString_ctl visitNumber_ctl put_ctl)

lemma off_in_range: "At (in_src inp) (off inp k) \<noteq> 0x20 \<Longrightarrow> k < length (in_idx inp)"
  by (rule ccontr) (simp add: off_def)

lemma visitPrimitive_in_range: "visitPrimitive inp w = Ok w' \<Longrightarrow> ip w < length (in_idx inp)"
  by (rule off_in_range) (auto simp: visitPrimitive_def)

lemma ip_simps [simp]: "ip (adv w) = ip w + 1" "ip (bump w) = ip w" "tape (adv w) = tape w" "tape (bump w) = tape w"
  by (simp_all add: adv_def bump_def)

lemma key_ip: "key inp w = Ok w' \<Longrightarrow> ip w < length (in_idx inp) \<and> ip w' = ip w + 2"
  using off_in_range [of inp "ip w"]
  by (auto simp: key_def bind_Ok same_ctl_def split: if_splits dest!: visitString_ctl)

lemma value_ip: "run_value inp cont w = Ok (st, w') \<Longrightarrow> ip w < length (in_idx inp) \<and> ip w < ip w'"
  using off_in_range [of inp "ip w"] visitPrimitive_in_range [of inp w]
  by (auto simp: run_value_def peek_def bind_Ok same_ctl_def split: if_splits dest!: visitPrimitive_ctl emitEmpty_ctl)

lemma push_ip: "push a w = Ok w' \<Longrightarrow> ip w' = ip w"
  by (auto simp: push_def split: if_splits)

lemma pop_ip: "pop b e w = Ok w' \<Longrightarrow> ip w' = ip w"
  by (auto simp: pop_def bind_Ok same_ctl_def split: option.splits if_splits dest!: put_ctl)

fun rank :: "run_state \<Rightarrow> nat" where
  "rank stDocEnd = 0"
| "rank stArrBegin = 2"
| "rank stScopeEnd = 2"
| "rank _ = 1"

lemma value_state: "run_value inp cont w = Ok (st, w') \<Longrightarrow> st = cont \<or> st = stObjBegin \<or> st = stArrBegin"
  by (auto simp: run_value_def bind_Ok split: if_splits)

lemma step_decreases:
  assumes "step inp st w = Ok (st', w')" "st \<noteq> stDocEnd"
  shows "3 * (length (in_idx inp) - ip w') + rank st' < 3 * (length (in_idx inp) - ip w) + rank st"
proof (cases st)
  case stObjField
  then show ?thesis using assms value_ip [of inp _ w] value_state [of inp _ w] by fastforce
next
  case stArrValue
  then show ?thesis using assms value_ip [of inp _ w] value_state [of inp _ w] by fastforce
next
  case stObjCont
  then show ?thesis using assms off_in_range [of inp "ip w"]
    by (auto simp: bind_Ok peek_def split: if_splits dest!: key_ip pop_ip)
next
  case stArrCont
  then show ?thesis using assms off_in_range [of inp "ip w"]
    by (auto simp: bind_Ok peek_def split: if_splits dest!: pop_ip)
qed (use assms visitPrimitive_in_range [of inp w] in
    \<open>auto simp: bind_Ok same_ctl_def dest!: push_ip key_ip visitPrimitive_ctl\<close>)

section \<open>The entries\<close>

function run_loop :: "input \<Rightarrow> nat \<Rightarrow> run_state \<Rightarrow> walker \<Rightarrow> walker outcome" where
  "run_loop inp n st w =
     (if st = stDocEnd then
        (if depth w = - 1 \<and> (ip w = n \<or> ip w = n + 1) then Ok w else Fail)
      else case step inp st w of
        Panic \<Rightarrow> Panic
      | Fail \<Rightarrow> Fail
      | Ok (st', w') \<Rightarrow> run_loop inp n st' w')"
  by pat_completeness auto
termination
  by (relation "measure (\<lambda>(inp, n, st, w). 3 * (length (in_idx inp) - ip w) + rank st)")
    (auto intro: step_decreases)

declare run_loop.simps [simp del]

definition run :: "input \<Rightarrow> nat \<Rightarrow> walker \<Rightarrow> walker outcome" where
  "run inp n w =
     (if n = 0 then Fail
      else
        let w = w\<lparr>depth := - 1, curCnt := 0, curTidx := 0\<rparr> in
        if peek inp w = ch_lbrace then
          let w = adv w in
          if peek inp w = ch_rbrace then
            bind (emitEmpty tagObjBeg tagObjEnd (adv w)) (run_loop inp n stDocEnd)
          else run_loop inp n stObjBegin w
        else if peek inp w = ch_lbrack then
          let w = adv w in
          if peek inp w = ch_rbrack then
            bind (emitEmpty tagArrBeg tagArrEnd (adv w)) (run_loop inp n stDocEnd)
          else run_loop inp n stArrBegin w
        else run_loop inp n stRootScalar w)"

definition walker0 :: "u64 list option \<Rightarrow> bytes \<Rightarrow> walker" where
  "walker0 t s =
     \<lparr>ip = 0, tape = t, tp = 0, str = s, sp = 0, stack = replicate maxDepth \<lparr>tidx = 0, count = 0\<rparr>,
      depth = - 1, curCnt = 0, curTidx = 0\<rparr>"

text \<open>
  The tape and the arena are written in place, so the result carries them: the words and bytes
  written, and both buffers.
\<close>

definition BuildTape ::
    "bytes \<Rightarrow> u32 list \<Rightarrow> nat \<Rightarrow> u64 list \<Rightarrow> bytes \<Rightarrow> bool \<Rightarrow> (nat \<times> nat \<times> u64 list \<times> bytes) outcome" where
  "BuildTape src idx n t s zc =
     bind (run \<lparr>in_src = src, in_idx = take (min (n + 3) (length idx)) idx, in_zc = zc\<rparr> n (walker0 (Some t) s))
       (\<lambda>w. Ok (tp w, sp w, the (tape w), str w))"

definition ValidWalk :: "bytes \<Rightarrow> u32 list \<Rightarrow> nat \<Rightarrow> bool" where
  "ValidWalk src idx n =
     (case run \<lparr>in_src = src, in_idx = take (min (n + 3) (length idx)) idx, in_zc = False\<rparr> n (walker0 None []) of
        Ok _ \<Rightarrow> True
      | _ \<Rightarrow> False)"

section \<open>The walk is bounded\<close>

text \<open>The loop of \<^verbatim>\<open>run\<close> with a bound on its iterations; \<open>None\<close> is a walk that has not ended within it.\<close>

fun run_steps :: "nat \<Rightarrow> input \<Rightarrow> nat \<Rightarrow> run_state \<Rightarrow> walker \<Rightarrow> walker outcome option" where
  "run_steps 0 inp n st w = None"
| "run_steps (Suc k) inp n st w =
     (if st = stDocEnd then Some (if depth w = - 1 \<and> (ip w = n \<or> ip w = n + 1) then Ok w else Fail)
      else case step inp st w of
        Panic \<Rightarrow> Some Panic
      | Fail \<Rightarrow> Some Fail
      | Ok (st', w') \<Rightarrow> run_steps k inp n st' w')"

lemma run_steps_enough:
  "3 * (length (in_idx inp) - ip w) + rank st < k \<Longrightarrow> run_steps k inp n st w = Some (run_loop inp n st w)"
proof (induction k arbitrary: st w)
  case (Suc k)
  show ?case
  proof (cases "st = stDocEnd")
    case False
    show ?thesis
    proof (cases "step inp st w")
      case (Ok r)
      obtain st' w' where r: "r = (st', w')" by (cases r)
      have "3 * (length (in_idx inp) - ip w') + rank st' < 3 * (length (in_idx inp) - ip w) + rank st"
        using step_decreases [OF _ False] Ok r by blast
      then have "run_steps k inp n st' w' = Some (run_loop inp n st' w')" using Suc by simp
      then show ?thesis using False Ok r by (simp add: run_loop.simps [of inp n st w])
    qed (use False in \<open>simp_all add: run_loop.simps [of inp n st w]\<close>)
  qed (simp add: run_loop.simps)
qed simp

text \<open>
  Claim C9. The tape walker ends on every input, valid or not, from every state: three iterations per index entry
  and three more are enough, and the outcome is that of the unbounded loop.
\<close>

theorem walk_terminates:
  assumes "3 * length (in_idx inp) + 3 \<le> k"
  shows "run_steps k inp n st w = Some (run_loop inp n st w)"
proof -
  have "rank st \<le> 2" by (cases st) simp_all
  then show ?thesis using assms by (intro run_steps_enough) simp
qed

theorem walk_terminates_witness:
  "run_steps 21 \<lparr>in_src = [ch_lbrack, 0x31, ch_rbrack], in_idx = [0, 1, 2, 3, 3, 3], in_zc = False\<rparr> 3 stArrBegin (adv (walker0 None [])) =
     Some (run_loop \<lparr>in_src = [ch_lbrack, 0x31, ch_rbrack], in_idx = [0, 1, 2, 3, 3, 3], in_zc = False\<rparr> 3 stArrBegin (adv (walker0 None [])))"
  by (rule walk_terminates) simp

end
