(* ===== verification/Walk.thy ===== *)
theory Walk
  imports Tape
begin

text \<open>
  The validation walk against the JSON grammar. \<open>value_at\<close> is the grammar on source offsets, with
  the number of nested non-empty containers a value may use; \<open>cursor\<close> relates the walker's index
  position to a source offset, \<open>ctl\<close> its depth, counters and stack to the list of open containers.

  Every JSON text nested at most 256 deep is accepted. The converse fails: once the root container is
  closed the machine is back in a continuation state, so a comma and further members are read as if
  the root were still open.
\<close>

section \<open>The grammar\<close>

inductive value_at :: "bytes \<Rightarrow> nat \<Rightarrow> nat \<Rightarrow> nat \<Rightarrow> bool"
  and elems_at :: "bytes \<Rightarrow> nat \<Rightarrow> nat \<Rightarrow> nat \<Rightarrow> bool"
  and members_at :: "bytes \<Rightarrow> nat \<Rightarrow> nat \<Rightarrow> nat \<Rightarrow> bool" for src :: bytes where
  string: "o' < length src \<Longrightarrow> src ! o' = ch_quote \<Longrightarrow> ScanString src (o' + 1) = (e, True) \<Longrightarrow>
    value_at src d o' (e + 1)"
| number: "o' \<le> e \<Longrightarrow> e \<le> length src \<Longrightarrow> is_number (cut src o' e) \<Longrightarrow> value_at src d o' e"
| atom: "o' \<le> e \<Longrightarrow> e \<le> length src \<Longrightarrow> cut src o' e \<in> {lit ''true'', lit ''false'', lit ''null''} \<Longrightarrow>
    value_at src d o' e"
| emptyArr: "o' < length src \<Longrightarrow> src ! o' = ch_lbrack \<Longrightarrow> p = SkipWS src (o' + 1) \<Longrightarrow> p < length src \<Longrightarrow>
    src ! p = ch_rbrack \<Longrightarrow> value_at src d o' (p + 1)"
| emptyObj: "o' < length src \<Longrightarrow> src ! o' = ch_lbrace \<Longrightarrow> p = SkipWS src (o' + 1) \<Longrightarrow> p < length src \<Longrightarrow>
    src ! p = ch_rbrace \<Longrightarrow> value_at src d o' (p + 1)"
| arr: "o' < length src \<Longrightarrow> src ! o' = ch_lbrack \<Longrightarrow> elems_at src d (SkipWS src (o' + 1)) e \<Longrightarrow>
    p = SkipWS src e \<Longrightarrow> p < length src \<Longrightarrow> src ! p = ch_rbrack \<Longrightarrow> value_at src (Suc d) o' (p + 1)"
| obj: "o' < length src \<Longrightarrow> src ! o' = ch_lbrace \<Longrightarrow> members_at src d (SkipWS src (o' + 1)) e \<Longrightarrow>
    p = SkipWS src e \<Longrightarrow> p < length src \<Longrightarrow> src ! p = ch_rbrace \<Longrightarrow> value_at src (Suc d) o' (p + 1)"
| elem: "value_at src d o' e \<Longrightarrow> elems_at src d o' e"
| elem_more: "value_at src d o' e \<Longrightarrow> q = SkipWS src e \<Longrightarrow> q < length src \<Longrightarrow> src ! q = ch_comma \<Longrightarrow>
    elems_at src d (SkipWS src (q + 1)) e' \<Longrightarrow> elems_at src d o' e'"
| member: "o' < length src \<Longrightarrow> src ! o' = ch_quote \<Longrightarrow> ScanString src (o' + 1) = (k, True) \<Longrightarrow>
    c = SkipWS src (k + 1) \<Longrightarrow> c < length src \<Longrightarrow> src ! c = ch_colon \<Longrightarrow>
    value_at src d (SkipWS src (c + 1)) e \<Longrightarrow> members_at src d o' e"
| member_more: "o' < length src \<Longrightarrow> src ! o' = ch_quote \<Longrightarrow> ScanString src (o' + 1) = (k, True) \<Longrightarrow>
    c = SkipWS src (k + 1) \<Longrightarrow> c < length src \<Longrightarrow> src ! c = ch_colon \<Longrightarrow>
    value_at src d (SkipWS src (c + 1)) e \<Longrightarrow> q = SkipWS src e \<Longrightarrow> q < length src \<Longrightarrow> src ! q = ch_comma \<Longrightarrow>
    members_at src d (SkipWS src (q + 1)) e' \<Longrightarrow> members_at src d o' e'"

definition json_text :: "bytes \<Rightarrow> nat \<Rightarrow> bool" where
  "json_text src d \<longleftrightarrow> (\<exists>e. value_at src d (SkipWS src 0) e \<and> SkipWS src e = length src)"

section \<open>Reading the index\<close>

definition idx_ok :: "input \<Rightarrow> nat \<Rightarrow> bool" where
  "idx_ok inp n \<longleftrightarrow> length (in_src inp) < 2 ^ 31 \<and> n = length (token_starts (in_src inp) 0) \<and>
     in_idx inp = map word_of_nat (token_starts (in_src inp) 0) @ replicate 3 (word_of_nat (length (in_src inp)))"

definition cursor :: "input \<Rightarrow> nat \<Rightarrow> nat \<Rightarrow> bool" where
  "cursor inp k pos \<longleftrightarrow> pos \<le> length (in_src inp) \<and> k \<le> length (token_starts (in_src inp) 0) \<and>
     drop k (token_starts (in_src inp) 0) = token_starts (in_src inp) pos"

lemma cursor_start: "cursor inp 0 0"
  by (simp add: cursor_def)

lemma token_starts_hd:
  assumes "pos \<le> length src"
  shows "token_starts src pos = [] \<longleftrightarrow> SkipWS src pos = length src"
    and "token_starts src pos \<noteq> [] \<Longrightarrow> hd (token_starts src pos) = SkipWS src pos"
proof -
  have b: "SkipWS src pos \<le> length src" using SkipWS_bounds [OF assms] by simp
  obtain e ok where t: "TokenEnd src (SkipWS src pos) = (e, ok)" by fastforce
  show "token_starts src pos = [] \<longleftrightarrow> SkipWS src pos = length src"
    and "token_starts src pos \<noteq> [] \<Longrightarrow> hd (token_starts src pos) = SkipWS src pos"
    using token_starts_step [OF assms _ t] token_starts_end [of pos src] b by (cases "SkipWS src pos < length src"; simp)+
qed

lemma off_cursor:
  assumes "idx_ok inp n" "cursor inp k pos"
  shows "off inp k = SkipWS (in_src inp) pos"
proof -
  let ?t = "token_starts (in_src inp) 0" and ?src = "in_src inp"
  have l: "unat (word_of_nat m :: u32) = m" if "m \<le> length ?src" for m
    using that assms(1) by (simp add: idx_ok_def unat_of_nat)
  have pos: "pos \<le> length ?src" "drop k ?t = token_starts ?src pos" "k \<le> length ?t" using assms(2) by (auto simp: cursor_def)
  have b: "SkipWS ?src pos \<le> length ?src" using SkipWS_bounds [OF pos(1)] by simp
  have "off inp k = (if k < length ?t then ?t ! k else length ?src)"
  proof (cases "k < length ?t")
    case True
    then have "?t ! k \<le> length ?src" using token_starts_range [of ?src 0] nth_mem less_imp_le by blast
    then show ?thesis using True assms(1) l by (simp add: off_def idx_ok_def nth_append)
  next
    case False
    then show ?thesis using pos(3) assms(1) l by (auto simp: off_def idx_ok_def nth_append)
  qed
  also have "\<dots> = SkipWS ?src pos"
    using token_starts_hd [OF pos(1)] pos(2,3) hd_drop_conv_nth [of k ?t] by (cases "k < length ?t") auto
  finally show ?thesis .
qed

lemma peek_cursor:
  "idx_ok inp n \<Longrightarrow> cursor inp (ip w) pos \<Longrightarrow> peek inp w = At (in_src inp) (SkipWS (in_src inp) pos)"
  by (simp add: peek_def off_cursor)

lemma cursor_token:
  assumes "cursor inp k pos" "SkipWS (in_src inp) pos < length (in_src inp)"
    "TokenEnd (in_src inp) (SkipWS (in_src inp) pos) = (e, True)"
  shows "cursor inp (k + 1) e"
proof -
  let ?src = "in_src inp"
  have pos: "pos \<le> length ?src" using assms(1) by (simp add: cursor_def)
  have "drop k (token_starts ?src 0) = SkipWS ?src pos # token_starts ?src e"
    using token_starts_step [OF pos assms(2,3)] assms(1) by (simp add: cursor_def)
  then have d: "tl (drop k (token_starts ?src 0)) = token_starts ?src e" and "drop k (token_starts ?src 0) \<noteq> []" by simp_all
  have "drop (k + 1) (token_starts ?src 0) = token_starts ?src e" using d by (simp add: drop_Suc tl_drop)
  moreover have "k < length (token_starts ?src 0)"
    using \<open>drop k (token_starts ?src 0) \<noteq> []\<close> by simp
  moreover have "e \<le> length ?src"
    using TokenEnd_bounds [of "SkipWS ?src pos" ?src e] SkipWS_bounds [OF pos] assms(2,3) by auto
  ultimately show ?thesis by (simp add: cursor_def)
qed

section \<open>Tokens\<close>

lemma cursor_structural:
  assumes "cursor inp k pos" "At (in_src inp) (SkipWS (in_src inp) pos) = c" "byteClass c = 2"
  shows "cursor inp (k + 1) (SkipWS (in_src inp) pos + 1)" "SkipWS (in_src inp) pos < length (in_src inp)"
proof -
  let ?o = "SkipWS (in_src inp) pos"
  have "c \<noteq> 0x20" using assms(3) by (auto simp: byteClass_def)
  then show l: "?o < length (in_src inp)" using assms(2) At_neq_space by blast
  then have "TokenEnd (in_src inp) ?o = (?o + 1, True)" using assms(2,3) by (simp add: TokenEnd_def)
  then show "cursor inp (k + 1) (?o + 1)" using cursor_token [OF assms(1) l] by blast
qed

lemma cursor_string:
  assumes "cursor inp k pos" "At (in_src inp) (SkipWS (in_src inp) pos) = ch_quote"
    "ScanString (in_src inp) (SkipWS (in_src inp) pos + 1) = (e, True)"
  shows "cursor inp (k + 1) (e + 1)" "SkipWS (in_src inp) pos < length (in_src inp)"
proof -
  let ?o = "SkipWS (in_src inp) pos"
  show l: "?o < length (in_src inp)" using assms(2) At_neq_space [of "in_src inp" ?o] by simp
  have "TokenEnd (in_src inp) ?o = (e + 1, True)"
    using assms(2) l ScanString_StringEnd [OF assms(3)] by (simp add: TokenEnd_def byteClass_def)
  then show "cursor inp (k + 1) (e + 1)" using cursor_token [OF assms(1) l] by blast
qed

definition plain_byte :: "byte \<Rightarrow> bool" where
  "plain_byte c \<longleftrightarrow> byteClass c = 0 \<and> c \<noteq> ch_quote \<and> c \<noteq> ch_bslash"

lemma scalarEnd_plain:
  assumes "o' \<le> e" "e \<le> length src" "\<And>k. o' \<le> k \<Longrightarrow> k < e \<Longrightarrow> plain_byte (src ! k)"
    "e < length src \<Longrightarrow> byteClass (src ! e) \<noteq> 0"
  shows "scalarEnd src o' = e"
  using assms
proof (induction o' rule: inc_induct)
  case base
  then show ?case by (subst scalarEnd.simps) auto
next
  case (step i)
  have "plain_byte (src ! i)" using step.hyps step.prems by (intro step.prems(2)) auto
  moreover have "scalarEnd src (Suc i) = e" using step by (intro step.IH) auto
  ultimately show ?case using step by (subst scalarEnd.simps) (auto simp: plain_byte_def)
qed

lemma plain_digit: "IsDigit c \<Longrightarrow> plain_byte c"
  by (auto simp: plain_byte_def byteClass_def IsDigit_iff)

lemma plain_digits: "list_all IsDigit ds \<Longrightarrow> list_all plain_byte ds"
  by (auto simp: list_all_iff plain_digit)

lemma is_number_plain: "is_number t \<Longrightarrow> list_all plain_byte t"
proof -
  have c: "plain_byte ch_minus" "plain_byte ch_plus" "plain_byte ch_dot" "plain_byte ch_e" "plain_byte ch_E"
    by (simp_all add: plain_byte_def byteClass_def)
  then show "is_number t \<Longrightarrow> list_all plain_byte t"
    by (fastforce simp: is_number_def int_part_def frac_text_def exp_text_def digits_def dest: plain_digits)
qed

lemma literals_plain: "t \<in> {lit ''true'', lit ''false'', lit ''null''} \<Longrightarrow> list_all plain_byte t"
  by (auto simp: lit_def plain_byte_def byteClass_def)

lemma delim_class: "\<not> IsNonDelim (At src e) \<Longrightarrow> e < length src \<Longrightarrow> byteClass (src ! e) \<noteq> 0"
  by (auto simp: IsNonDelim_iff byteClass_def)

lemma cut_plain: "list_all plain_byte (cut src i j) \<Longrightarrow> j \<le> length src \<Longrightarrow> i \<le> k \<Longrightarrow> k < j \<Longrightarrow> plain_byte (src ! k)"
  by (auto simp: list_all_iff set_cut)

lemma cursor_scalar:
  assumes "cursor inp k pos" "o' = SkipWS (in_src inp) pos" "o' < e" "e \<le> length (in_src inp)"
    "list_all plain_byte (cut (in_src inp) o' e)" "\<not> IsNonDelim (At (in_src inp) e)"
  shows "cursor inp (k + 1) e"
proof -
  let ?src = "in_src inp"
  have p: "plain_byte (?src ! o')" using cut_plain [OF assms(5,4)] assms(3) by simp
  have "scalarEnd ?src o' = e"
    using assms(3,4) cut_plain [OF assms(5,4)] delim_class [OF assms(6)] by (intro scalarEnd_plain) auto
  then have "TokenEnd ?src o' = (e, True)" using p assms(3,4) by (simp add: TokenEnd_def plain_byte_def)
  then show ?thesis using cursor_token [OF assms(1)] assms(2,3,4) by simp
qed

section \<open>Primitives\<close>

text \<open>A primitive value at \<open>o'\<close>, of which a number or literal is followed by a delimiter.\<close>

definition prim_at :: "bytes \<Rightarrow> nat \<Rightarrow> nat \<Rightarrow> bool" where
  "prim_at src o' e \<longleftrightarrow>
     (At src o' = ch_quote \<and> 0 < e \<and> ScanString src (o' + 1) = (e - 1, True)) \<or>
     (o' < e \<and> e \<le> length src \<and> \<not> IsNonDelim (At src e) \<and>
       (is_number (cut src o' e) \<or> cut src o' e \<in> {lit ''true'', lit ''false'', lit ''null''}))"

lemma prim_at_value: "prim_at src o' e \<Longrightarrow> value_at src d o' e"
proof -
  have q: "o' < length src \<and> src ! o' = ch_quote" if "At src o' = ch_quote"
    using that At_neq_space [of src o'] by simp
  assume "prim_at src o' e"
  then show ?thesis
    unfolding prim_at_def
    using q value_at_elems_at_members_at.string [of o' src "e - 1" d] value_at_elems_at_members_at.number [of o' e src d]
      value_at_elems_at_members_at.atom [of o' e src d] by auto
qed

lemma number_first:
  assumes "is_number t"
  shows "t \<noteq> [] \<and> (hd t = ch_minus \<or> IsDigit (hd t))"
proof -
  obtain s i f x where t: "t = s @ i @ f @ x" "s = [] \<or> s = [ch_minus]" "int_part i"
    using assms by (auto simp: is_number_def)
  then obtain c i' where "i = c # i'" "IsDigit c" by (cases i) (auto simp: int_part_def digits_def)
  then show ?thesis using t by auto
qed

lemma number_nonempty: "is_number (cut src o' e) \<Longrightarrow> o' < e"
  using number_first [of "cut src o' e"] by (cases "o' < e") auto

lemma literal_nonempty: "cut src o' e \<in> {lit ''true'', lit ''false'', lit ''null''} \<Longrightarrow> o' < e"
  by (cases "o' < e") (auto simp: lit_def)

lemma cut_first: "o' < e \<Longrightarrow> e \<le> length src \<Longrightarrow> hd (cut src o' e) = src ! o'"
  by (simp add: cut_Cons)

definition literal_of :: "byte \<Rightarrow> bytes" where
  "literal_of c = (if c = ch_t then lit ''true'' else if c = ch_f then lit ''false'' else lit ''null'')"

lemma literal_facts:
  "t \<in> {lit ''true'', lit ''false'', lit ''null''} \<longleftrightarrow>
     (\<exists>c \<in> {ch_t, ch_f, ch_n}. t = literal_of c)"
  "c \<in> {ch_t, ch_f, ch_n} \<Longrightarrow> hd (literal_of c) = c"
  "0 < length (literal_of c)"
  by (auto simp: literal_of_def lit_def)

lemma ValidAtom_alt:
  "ValidAtom src o' = (let c = At src o'; en = o' + length (literal_of c) in
     if c \<notin> {ch_t, ch_f, ch_n} then (o', False)
     else if length src < en \<or> cut src o' en \<noteq> literal_of c then (o', False)
     else (en, \<not> IsNonDelim (At src en)))"
  by (simp add: ValidAtom_def literal_of_def)

lemma ValidAtom_iff:
  "ValidAtom src o' = (e, True) \<longleftrightarrow>
     o' < e \<and> e \<le> length src \<and> cut src o' e \<in> {lit ''true'', lit ''false'', lit ''null''} \<and> \<not> IsNonDelim (At src e)"
  (is "?L \<longleftrightarrow> ?R")
proof
  assume ?L
  then have "At src o' \<in> {ch_t, ch_f, ch_n}" "e = o' + length (literal_of (At src o'))" "e \<le> length src"
      "cut src o' e = literal_of (At src o')" "\<not> IsNonDelim (At src e)"
    unfolding ValidAtom_alt Let_def by (simp_all only: prod.inject split: if_splits) auto
  moreover then have "o' < e" using literal_facts(3) [of "At src o'"] by simp
  ultimately show ?R unfolding literal_facts(1) by blast
next
  assume r: ?R
  then obtain c where c: "c \<in> {ch_t, ch_f, ch_n}" "cut src o' e = literal_of c" unfolding literal_facts(1) by blast
  have "At src o' = hd (cut src o' e)" using r cut_first [of o' e src] by simp
  then have at: "At src o' = c" using c literal_facts(2) by simp
  have "length (cut src o' e) = e - o'" using r by simp
  then have e: "e = o' + length (literal_of c)" using r c(2) by simp
  show ?L unfolding ValidAtom_alt Let_def at e [symmetric] using r c by simp
qed

lemma number_at_first: "o' < e \<Longrightarrow> e \<le> length src \<Longrightarrow> is_number (cut src o' e) \<Longrightarrow> At src o' = ch_minus \<or> IsDigit (At src o')"
  using number_first [of "cut src o' e"] cut_first [of o' e src] by simp

lemma literal_at_first:
  "o' < e \<Longrightarrow> e \<le> length src \<Longrightarrow> cut src o' e \<in> {lit ''true'', lit ''false'', lit ''null''} \<Longrightarrow>
   At src o' \<in> {ch_t, ch_f, ch_n}"
  unfolding literal_facts(1) using cut_first [of o' e src] literal_facts(2) by fastforce

lemma visit_number_valid:
  assumes "o' < length src" "At src o' = ch_minus \<or> IsDigit (At src o')"
  shows "snd (ValidNumber src o') \<longleftrightarrow> (\<exists>e. o' < e \<and> e \<le> length src \<and> is_number (cut src o' e) \<and> \<not> IsNonDelim (At src e))"
proof -
  have ne: "\<not> is_number (cut src o' e)" if "\<not> o' < e" for e
    using number_first [of "cut src o' e"] that by auto
  have "snd (ValidNumber src o') \<longleftrightarrow> (\<exists>e. ValidNumber src o' = (e, True))" by (cases "ValidNumber src o'") auto
  moreover have "ValidNumber src o' = (e, True) \<longleftrightarrow> o' < e \<and> e \<le> length src \<and> is_number (cut src o' e) \<and> \<not> IsNonDelim (At src e)" for e
    using ValidNumber_iff [OF less_imp_le [OF assms(1)], of e] ne [of e] less_imp_le by blast
  ultimately show ?thesis by blast
qed

lemma prim_at_string:
  assumes "At src o' = ch_quote"
  shows "prim_at src o' e \<longleftrightarrow> 0 < e \<and> ScanString src (o' + 1) = (e - 1, True)"
proof -
  have "\<not> IsDigit ch_quote" by (simp add: IsDigit_iff)
  then have "\<not> (o' < e \<and> e \<le> length src \<and> (is_number (cut src o' e) \<or> cut src o' e \<in> {lit ''true'', lit ''false'', lit ''null''}))"
    using number_at_first [of o' e src] literal_at_first [of o' e src] assms by (simp only:) auto
  then show ?thesis using assms unfolding prim_at_def by blast
qed

lemma prim_at_number:
  assumes "At src o' = ch_minus \<or> IsDigit (At src o')"
  shows "prim_at src o' e \<longleftrightarrow> o' < e \<and> e \<le> length src \<and> is_number (cut src o' e) \<and> \<not> IsNonDelim (At src e)"
proof -
  have c: "At src o' \<noteq> ch_quote" "At src o' \<notin> {ch_t, ch_f, ch_n}" using assms by (auto simp: IsDigit_iff)
  then have "\<not> (o' < e \<and> e \<le> length src \<and> cut src o' e \<in> {lit ''true'', lit ''false'', lit ''null''})"
    using literal_at_first [of o' e src] by blast
  then show ?thesis using c(1) unfolding prim_at_def by blast
qed

lemma prim_at_atom:
  assumes "At src o' \<in> {ch_t, ch_f, ch_n}"
  shows "prim_at src o' e \<longleftrightarrow> ValidAtom src o' = (e, True)"
proof -
  have c: "At src o' \<noteq> ch_quote" "\<not> (At src o' = ch_minus \<or> IsDigit (At src o'))" using assms by (auto simp: IsDigit_iff)
  then have "\<not> (o' < e \<and> e \<le> length src \<and> is_number (cut src o' e))" using number_at_first [of o' e src] by blast
  then show ?thesis using c(1) unfolding prim_at_def ValidAtom_iff by blast
qed

lemma prim_at_none:
  assumes "At src o' \<noteq> ch_quote" "\<not> (At src o' = ch_minus \<or> IsDigit (At src o'))" "At src o' \<notin> {ch_t, ch_f, ch_n}"
  shows "\<not> prim_at src o' e"
  using assms number_at_first [of o' e src] literal_at_first [of o' e src] unfolding prim_at_def by blast

lemma snd_True_iff: "snd x \<longleftrightarrow> (\<exists>e. x = (e, True))" for x :: "nat \<times> bool"
  by (cases x) auto

lemma string_end_iff: "(\<exists>e. 0 < e \<and> x = (e - 1, True)) \<longleftrightarrow> snd x" for x :: "nat \<times> bool"
proof
  assume "snd x"
  then have "0 < Suc (fst x) \<and> x = (Suc (fst x) - 1, True)" by (cases x) simp
  then show "\<exists>e. 0 < e \<and> x = (e - 1, True)" by blast
qed auto

lemma visitPrimitive_valid:
  assumes "idx_ok inp n" "tape w = None" "cursor inp (ip w) pos" "o' = SkipWS (in_src inp) pos"
  shows "visitPrimitive inp w = (if \<exists>e. prim_at (in_src inp) o' e then Ok (adv w) else Fail)"
    and "prim_at (in_src inp) o' e \<Longrightarrow> cursor inp (ip w + 1) e"
proof -
  let ?src = "in_src inp" and ?c = "At (in_src inp) o'"
  have off: "off inp (ip w) = o'" using off_cursor [OF assms(1,3)] assms(4) by simp
  show "visitPrimitive inp w = (if \<exists>e. prim_at ?src o' e then Ok (adv w) else Fail)"
  proof -
    consider "?c = ch_quote" | "?c \<noteq> ch_quote" "?c = ch_minus \<or> IsDigit ?c"
      | "?c \<noteq> ch_quote" "\<not> (?c = ch_minus \<or> IsDigit ?c)" "?c \<in> {ch_t, ch_f, ch_n}"
      | "?c \<noteq> ch_quote" "\<not> (?c = ch_minus \<or> IsDigit ?c)" "?c \<notin> {ch_t, ch_f, ch_n}" by blast
    then show ?thesis
    proof cases
      case 1
      then have "(\<exists>e. prim_at ?src o' e) \<longleftrightarrow> snd (ScanString ?src (o' + 1))"
        using prim_at_string [OF 1] string_end_iff by simp
      then show ?thesis using 1 assms(2) unfolding visitPrimitive_def Let_def off by (simp add: visitString_def)
    next
      case 2
      then have "o' < length ?src" by (intro At_neq_space) (auto simp: IsDigit_iff)
      then have "(\<exists>e. prim_at ?src o' e) \<longleftrightarrow> snd (ValidNumber ?src o')"
        using prim_at_number [OF 2(2)] visit_number_valid [OF _ 2(2)] by simp
      then show ?thesis using 2 assms(2) unfolding visitPrimitive_def Let_def off by simp
    next
      case 3
      then have "(\<exists>e. prim_at ?src o' e) \<longleftrightarrow> snd (ValidAtom ?src o')"
        using prim_at_atom [OF 3(3)] by (simp add: snd_True_iff)
      then show ?thesis using 3 assms(2) unfolding visitPrimitive_def Let_def off by simp
    next
      case 4
      then show ?thesis using prim_at_none [OF 4] unfolding visitPrimitive_def Let_def off by simp
    qed
  qed
  show "prim_at ?src o' e \<Longrightarrow> cursor inp (ip w + 1) e"
  proof -
    assume p: "prim_at ?src o' e"
    show ?thesis
    proof (cases "?c = ch_quote \<and> 0 < e \<and> ScanString ?src (o' + 1) = (e - 1, True)")
      case True
      then show ?thesis using cursor_string(1) [OF assms(3), of "e - 1"] assms(4) by simp
    next
      case False
      then have "o' < e" "e \<le> length ?src" "\<not> IsNonDelim (At ?src e)" "list_all plain_byte (cut ?src o' e)"
        using p is_number_plain literals_plain unfolding prim_at_def by blast+
      then show ?thesis using cursor_scalar [OF assms(3,4)] by blast
    qed
  qed
qed

section \<open>Open containers\<close>

definition cnt_word :: "bool \<times> nat \<Rightarrow> u32" where
  "cnt_word f = (if fst f then isArr_bit else 0) + word_of_nat (snd f)"

definition ctl :: "walker \<Rightarrow> (bool \<times> nat) list \<Rightarrow> bool" where
  "ctl w fs \<longleftrightarrow> depth w = int (length fs) - 1 \<and> length (stack w) = maxDepth \<and> length fs \<le> maxDepth \<and>
     (\<forall>f \<in> set fs. snd f \<le> ip w) \<and>
     (fs \<noteq> [] \<longrightarrow> curCnt w = cnt_word (hd fs)) \<and>
     (\<forall>j < length fs - 1. count (stack w ! j) = cnt_word (rev fs ! j))"

lemma ctl_mono: "ctl w fs \<Longrightarrow> same_ctl (w\<lparr>ip := k\<rparr>) w' \<Longrightarrow> ip w \<le> k \<Longrightarrow> ctl w' fs"
  by (auto simp: ctl_def same_ctl_def)

lemma ctl_adv: "ctl w fs \<Longrightarrow> ctl (adv w) fs"
  by (auto simp: ctl_def adv_def)

lemma ctl_bump: "ctl w ((a, m) # fs) \<Longrightarrow> m < ip w \<Longrightarrow> ctl (bump w) ((a, m + 1) # fs)"
  by (auto simp: ctl_def bump_def cnt_word_def nth_append)

lemma bit_isArr: "bit isArr_bit n \<longleftrightarrow> n = 31"
  unfolding isArr_bit_def bit_push_bit_iff bit_1_iff by auto

lemma cnt_word_flag: "m < 2 ^ 31 \<Longrightarrow> cnt_word (a, m) AND isArr_bit \<noteq> 0 \<longleftrightarrow> a"
proof -
  assume m: "m < 2 ^ 31"
  have "unat (word_of_nat m :: u32) = m" using m by (simp add: unat_of_nat)
  then have b: "\<not> bit (word_of_nat m :: u32) 31" using m bit_unsigned_iff [where 'a = nat, of "word_of_nat m :: u32" 31]
    by (simp add: bit_iff_odd)
  have s: "(isArr_bit + word_of_nat m) = isArr_bit OR (word_of_nat m :: u32)"
    using b by (intro disjunctive_add) (auto simp: bit_isArr)
  have z: "x AND isArr_bit \<noteq> 0 \<longleftrightarrow> bit x 31" for x :: u32
  proof -
    have a: "bit (x AND isArr_bit) n \<longleftrightarrow> bit x 31 \<and> n = 31" for n by (auto simp: bit_and_iff bit_isArr)
    show ?thesis using a bit_0_eq by (metis (mono_tags) bit_eqI bot_apply bot_bool_def)
  qed
  show ?thesis using b s z by (auto simp: cnt_word_def bit_or_iff bit_isArr)
qed

lemma ctl_push:
  assumes "ctl w fs" "length fs < maxDepth"
  obtains w' where "push a w = Ok w'" "ctl w' ((a, 0) # fs)" "ip w' = ip w" "tape w = None \<Longrightarrow> tape w' = None"
proof -
  let ?s = "if 0 \<le> depth w then (stack w)[nat (depth w) := \<lparr>tidx = curTidx w, count = curCnt w\<rparr>] else stack w"
  have d: "depth w = int (length fs) - 1" using assms(1) by (simp add: ctl_def)
  have p: "push a w = Ok (w\<lparr>stack := ?s, depth := depth w + 1, curTidx := word_of_nat (tp w),
      curCnt := if a then isArr_bit else 0, tp := if tape w \<noteq> None then tp w + 1 else tp w\<rparr>)"
    using assms(2) d by (simp add: push_def)
  have n: "nat (depth w) = length fs - 1" using d by simp
  have st: "count (?s ! j) = cnt_word (rev fs ! j)" if "j < length fs" for j
  proof (cases "j = length fs - 1")
    case True
    then have "fs \<noteq> []" using that by auto
    then have "rev fs ! j = hd fs" using True by (simp add: rev_nth hd_conv_nth)
    then show ?thesis using True that assms(1,2) d unfolding n by (auto simp: ctl_def)
  next
    case False
    then show ?thesis using that assms(1) unfolding n by (auto simp: ctl_def nth_list_update)
  qed
  show thesis
    by (rule that [OF p]) (use assms st d in \<open>auto simp: ctl_def cnt_word_def nth_append\<close>)
qed

lemma ctl_push_full: "ctl w fs \<Longrightarrow> length fs = maxDepth \<Longrightarrow> push a w = Fail"
  by (auto simp: ctl_def push_def maxDepth_def)

lemma ctl_pop:
  assumes "ctl w (f # fs)" "tape w = None"
  obtains w' where "pop b e w = Ok w'" "ctl w' fs" "ip w' = ip w" "tape w' = None" "fs = [] \<Longrightarrow> curCnt w' = cnt_word f"
proof -
  have d: "depth w = int (length fs)" using assms(1) by (simp add: ctl_def)
  let ?w = "w\<lparr>depth := depth w - 1\<rparr>"
  let ?w' = "if 0 \<le> depth w - 1 then ?w\<lparr>curTidx := tidx (stack ?w ! nat (depth w - 1)), curCnt := count (stack ?w ! nat (depth w - 1))\<rparr> else ?w"
  have p: "pop b e w = Ok ?w'" using assms(2) by (simp add: pop_def)
  have top: "count (stack w ! (length fs - 1)) = cnt_word (hd fs)" if "fs \<noteq> []"
  proof -
    have "length fs - 1 < length (f # fs) - 1" using that by simp
    then have "count (stack w ! (length fs - 1)) = cnt_word (rev (f # fs) ! (length fs - 1))" using assms(1) by (auto simp: ctl_def)
    also have "rev (f # fs) ! (length fs - 1) = hd fs" using that by (simp add: nth_append rev_nth hd_conv_nth)
    finally show ?thesis .
  qed
  have n: "nat (depth w - 1) = length fs - 1" using d by simp
  show thesis
  proof (cases "fs = []")
    case True
    show thesis by (rule that [OF p]) (use True assms d in \<open>auto simp: ctl_def\<close>)
  next
    case False
    then have "0 \<le> depth w - 1" using d by (cases fs) auto
    then show thesis using False top n
      by (intro that [OF p]) (use assms d in \<open>auto simp: ctl_def nth_append\<close>)
  qed
qed

section \<open>Every JSON text is accepted\<close>

definition walking :: "input \<Rightarrow> nat \<Rightarrow> walker \<Rightarrow> nat \<Rightarrow> (bool \<times> nat) list \<Rightarrow> bool" where
  "walking inp n w pos fs \<longleftrightarrow> idx_ok inp n \<and> tape w = None \<and> cursor inp (ip w) pos \<and> ctl w fs"

lemma walkingD:
  assumes "walking inp n w pos fs"
  shows "idx_ok inp n" "tape w = None" "cursor inp (ip w) pos" "ctl w fs" "pos \<le> length (in_src inp)"
    "peek inp w = At (in_src inp) (SkipWS (in_src inp) pos)" "off inp (ip w) = SkipWS (in_src inp) pos"
  using assms peek_cursor off_cursor by (auto simp: walking_def cursor_def)

lemma walking_structural:
  assumes "walking inp n w pos fs" "peek inp w = c" "byteClass c = 2"
  shows "walking inp n (adv w) (SkipWS (in_src inp) pos + 1) fs" "SkipWS (in_src inp) pos < length (in_src inp)"
  using cursor_structural [OF walkingD(3) [OF assms(1)], of c] assms walkingD(6) [OF assms(1)]
  by (auto simp: walking_def ctl_adv)

lemma class_2: "byteClass ch_lbrace = 2" "byteClass ch_rbrace = 2" "byteClass ch_lbrack = 2" "byteClass ch_rbrack = 2"
  "byteClass ch_comma = 2" "byteClass ch_colon = 2"
  by (simp_all add: byteClass_def)

lemma key_complete:
  assumes "walking inp n w pos fs" "At (in_src inp) (SkipWS (in_src inp) pos) = ch_quote"
    "ScanString (in_src inp) (SkipWS (in_src inp) pos + 1) = (k, True)"
    "c = SkipWS (in_src inp) (k + 1)" "At (in_src inp) c = ch_colon"
  shows "key inp w = Ok (adv (adv w))" "walking inp n (adv (adv w)) (c + 1) fs"
proof -
  note W = walkingD [OF assms(1)]
  have c1: "cursor inp (ip (adv w)) (k + 1)" using cursor_string [OF W(3) assms(2,3)] by simp
  then have w1: "walking inp n (adv w) (k + 1) fs" using W by (simp add: walking_def ctl_adv)
  show "walking inp n (adv (adv w)) (c + 1) fs"
    using walking_structural(1) [OF w1 _ class_2(6)] walkingD(6) [OF w1] assms(4,5) by simp
  show "key inp w = Ok (adv (adv w))"
    using walkingD(6) [OF w1] W assms by (simp add: key_def visitString_def)
qed

lemma value_at_bounds:
  "value_at src d o' e \<Longrightarrow> e \<le> length src"
  "elems_at src d o' e \<Longrightarrow> e \<le> length src"
  "members_at src d o' e \<Longrightarrow> e \<le> length src"
proof (induction rule: value_at_elems_at_members_at.inducts)
  case (string o' e d)
  then have "StringEnd src (o' + 1) = (e, True)" by (intro ScanString_StringEnd)
  then show ?case using StringEnd_bounds [of "o' + 1" src e True] string(1) by auto
qed auto

lemma delim_after:
  assumes "e \<le> length src" "c = At src (SkipWS src e)" "\<not> IsNonDelim c"
  shows "\<not> IsNonDelim (At src e)"
proof (cases "SkipWS src e = e")
  case False
  then have "e < SkipWS src e" using SkipWS_bounds [OF assms(1)] by simp
  then have "is_ws (src ! e)" using find_from_before [of e e "\<lambda>c. \<not> is_ws c" src] SkipWS_eq [OF assms(1)] by simp
  moreover have "e < length src" using \<open>e < SkipWS src e\<close> SkipWS_bounds [OF assms(1)] by simp
  ultimately show ?thesis by (simp add: IsNonDelim_iff)
qed (use assms in simp)

lemma delims: "\<not> IsNonDelim ch_comma" "\<not> IsNonDelim ch_rbrack" "\<not> IsNonDelim ch_rbrace" "\<not> IsNonDelim 0x20"
  by (simp_all add: IsNonDelim_iff)

lemma run_loop_step: "st \<noteq> stDocEnd \<Longrightarrow> step inp st w = Ok (st', w') \<Longrightarrow> run_loop inp n st w = run_loop inp n st' w'"
  by (subst run_loop.simps) simp

lemma ctl_small: "walking inp n w pos (f # fs) \<Longrightarrow> snd f < 2 ^ 31"
proof -
  assume w: "walking inp n w pos (f # fs)"
  have "snd f \<le> ip w" using w by (auto simp: walking_def ctl_def)
  also have "ip w \<le> length (token_starts (in_src inp) 0)" using w by (auto simp: walking_def cursor_def)
  also have "\<dots> \<le> length (in_src inp)"
    using length_idx_run [of False False True 0 "in_src inp"] idx_run_tokens [of 0 "in_src inp"] by simp
  finally show ?thesis using w by (auto simp: walking_def idx_ok_def)
qed

definition cont_of :: "bool \<Rightarrow> run_state" where
  "cont_of a = (if a then stArrCont else stObjCont)"

definition val_of :: "bool \<Rightarrow> run_state" where
  "val_of a = (if a then stArrValue else stObjField)"

lemma scope_end:
  assumes "walking inp n w pos (f # fs)"
  shows "run_loop inp n stScopeEnd w = run_loop inp n (cont_of (fst f)) w"
proof -
  have "curCnt w = cnt_word f" using assms by (auto simp: walking_def ctl_def)
  then have "curCnt w AND isArr_bit \<noteq> 0 \<longleftrightarrow> fst f"
    using cnt_word_flag [of "snd f" "fst f"] ctl_small [OF assms] by simp
  then show ?thesis by (intro run_loop_step) (auto simp: cont_of_def)
qed

lemma step_val: "step inp (val_of a) w = run_value inp (cont_of a) w"
  by (simp add: val_of_def cont_of_def)

lemma val_not_end [simp]: "val_of a \<noteq> stDocEnd" "cont_of a \<noteq> stDocEnd"
  by (simp_all add: val_of_def cont_of_def)

text \<open>The close of a container, from its continuation state to the scope end around it.\<close>

definition closer :: "bool \<Rightarrow> byte" where
  "closer a = (if a then ch_rbrack else ch_rbrace)"

lemma close_complete:
  assumes "walking inp n w e ((a, m) # fs)" "At (in_src inp) (SkipWS (in_src inp) e) = closer a"
  obtains w' where "run_loop inp n (cont_of a) w = run_loop inp n stScopeEnd w'"
    "walking inp n w' (SkipWS (in_src inp) e + 1) fs" "fs = [] \<Longrightarrow> curCnt w' = cnt_word (a, m)" "ip w < ip w'"
proof -
  have pk: "peek inp w = closer a" using walkingD(6) [OF assms(1)] assms(2) by simp
  have w1: "walking inp n (adv w) (SkipWS (in_src inp) e + 1) ((a, m) # fs)"
    by (rule walking_structural(1) [OF assms(1) pk]) (auto simp: closer_def class_2)
  let ?b = "if a then tagArrBeg else tagObjBeg" and ?e = "if a then tagArrEnd else tagObjEnd"
  obtain w' where p: "pop ?b ?e (adv w) = Ok w'" "ctl w' fs" "ip w' = ip (adv w)" "tape w' = None" "fs = [] \<Longrightarrow> curCnt w' = cnt_word (a, m)"
    using ctl_pop [OF walkingD(4,2) [OF w1]] by metis
  have "step inp (cont_of a) w = Ok (stScopeEnd, w')"
    using pk p(1) by (cases a) (simp_all add: cont_of_def closer_def)
  then show thesis using that run_loop_step [of "cont_of a"] p w1 by (simp add: walking_def)
qed

lemma value_first:
  assumes "value_at src d o' e"
  shows "At src o' \<noteq> ch_rbrack \<and> At src o' \<noteq> 0x20"
  using assms
proof (cases rule: value_at.cases)
  case number
  then have "o' < e" by (intro number_nonempty)
  then show ?thesis using number number_at_first [of o' e src] by (auto simp: IsDigit_iff)
next
  case atom
  then have "o' < e" by (intro literal_nonempty)
  then show ?thesis using atom literal_at_first [of o' e src] by auto
qed auto

lemma elems_first: "elems_at src d o' e \<Longrightarrow> At src o' \<noteq> ch_rbrack"
  by (cases rule: elems_at.cases) (auto dest: value_first)

lemma members_first: "members_at src d o' e \<Longrightarrow> At src o' = ch_quote"
  by (cases rule: members_at.cases) auto

lemma empty_complete:
  assumes "walking inp n w pos fs" "o' = SkipWS (in_src inp) pos" "At (in_src inp) o' = (if b then ch_lbrack else ch_lbrace)"
    "p = SkipWS (in_src inp) (o' + 1)" "At (in_src inp) p = closer b"
  shows "run_value inp cont w = Ok (cont, adv (adv w))" "walking inp n (adv (adv w)) (p + 1) fs"
proof -
  have w1: "walking inp n (adv w) (o' + 1) fs"
    using walking_structural(1) [OF assms(1), of "if b then ch_lbrack else ch_lbrace"] walkingD(6) [OF assms(1)] assms(2,3)
    by (auto simp: class_2)
  have pk: "peek inp (adv w) = closer b" using walkingD(6) [OF w1] assms(4,5) by simp
  show "walking inp n (adv (adv w)) (p + 1) fs"
    using walking_structural(1) [OF w1 pk] assms(4) by (auto simp: closer_def class_2)
  show "run_value inp cont w = Ok (cont, adv (adv w))"
    using pk walkingD(2,6) [OF assms(1)] assms(2,3) by (cases b) (simp_all add: run_value_def closer_def emitEmpty_def)
qed

lemma open_complete:
  assumes "walking inp n w pos fs" "o' = SkipWS (in_src inp) pos" "At (in_src inp) o' = (if b then ch_lbrack else ch_lbrace)"
    "At (in_src inp) (SkipWS (in_src inp) (o' + 1)) \<noteq> closer b"
  shows "run_value inp cont w = Ok (if b then stArrBegin else stObjBegin, adv w)" "walking inp n (adv w) (o' + 1) fs"
proof -
  show w1: "walking inp n (adv w) (o' + 1) fs"
    using walking_structural(1) [OF assms(1), of "if b then ch_lbrack else ch_lbrace"] walkingD(6) [OF assms(1)] assms(2,3)
    by (auto simp: class_2)
  show "run_value inp cont w = Ok (if b then stArrBegin else stObjBegin, adv w)"
    using walkingD(6) [OF w1] walkingD(6) [OF assms(1)] assms(2,3,4) by (cases b) (simp_all add: run_value_def closer_def)
qed

lemma begin_complete:
  assumes "walking inp n w pos fs" "length fs < maxDepth" "0 < ip w"
  obtains w' where "push a w = Ok w'" "walking inp n (bump w') pos ((a, 1) # fs)" "ip (bump w') = ip w"
proof -
  obtain w' where p: "push a w = Ok w'" "ctl w' ((a, 0) # fs)" "ip w' = ip w" "tape w' = None"
    using ctl_push [OF walkingD(4) [OF assms(1)] assms(2)] walkingD(2) [OF assms(1)] by metis
  have "ctl (bump w') ((a, 1) # fs)" using ctl_bump [OF p(2)] p(3) assms(3) by simp
  then show thesis using that [OF p(1)] p assms(1) by (simp add: walking_def)
qed

definition passes :: "input \<Rightarrow> nat \<Rightarrow> nat \<Rightarrow> nat \<Rightarrow> nat \<Rightarrow> bool" where
  "passes inp n d o' e \<longleftrightarrow> (\<forall>w pos f fs. walking inp n w pos (f # fs) \<longrightarrow> o' = SkipWS (in_src inp) pos \<longrightarrow>
     length (f # fs) + d \<le> maxDepth \<longrightarrow> \<not> IsNonDelim (At (in_src inp) e) \<longrightarrow>
     (\<exists>w'. run_loop inp n (val_of (fst f)) w = run_loop inp n (cont_of (fst f)) w' \<and> walking inp n w' e (f # fs)))"

definition passes_elems :: "input \<Rightarrow> nat \<Rightarrow> nat \<Rightarrow> nat \<Rightarrow> nat \<Rightarrow> bool" where
  "passes_elems inp n d o' e \<longleftrightarrow> (\<forall>w pos m fs. walking inp n w pos ((True, m) # fs) \<longrightarrow> o' = SkipWS (in_src inp) pos \<longrightarrow>
     Suc (length fs) + d \<le> maxDepth \<longrightarrow> \<not> IsNonDelim (At (in_src inp) e) \<longrightarrow>
     (\<exists>w' m'. run_loop inp n stArrValue w = run_loop inp n stArrCont w' \<and> walking inp n w' e ((True, m') # fs)))"

definition passes_members :: "input \<Rightarrow> nat \<Rightarrow> nat \<Rightarrow> nat \<Rightarrow> nat \<Rightarrow> bool" where
  "passes_members inp n d o' e \<longleftrightarrow> (\<forall>w pos m fs. walking inp n w pos ((False, m) # fs) \<longrightarrow> o' = SkipWS (in_src inp) pos \<longrightarrow>
     Suc (length fs) + d \<le> maxDepth \<longrightarrow> \<not> IsNonDelim (At (in_src inp) e) \<longrightarrow>
     (\<exists>w1 w' m'. key inp w = Ok w1 \<and> run_loop inp n stObjField w1 = run_loop inp n stObjCont w' \<and>
        walking inp n w' e ((False, m') # fs)))"

lemma passes_prim:
  assumes "prim_at (in_src inp) o' e"
  shows "passes inp n d o' e"
  unfolding passes_def
proof (intro allI impI)
  fix w pos f fs
  assume w: "walking inp n w pos (f # fs)" and o': "o' = SkipWS (in_src inp) pos"
  note W = walkingD [OF w]
  have v: "visitPrimitive inp w = Ok (adv w)" "cursor inp (ip w + 1) e"
    using visitPrimitive_valid [OF W(1,2,3) o'] assms by auto
  have "peek inp w \<noteq> ch_lbrace" "peek inp w \<noteq> ch_lbrack"
    using prim_at_none [of "in_src inp" o' e] assms W(6) o' by (auto simp: IsDigit_iff)
  then have "step inp (val_of (fst f)) w = Ok (cont_of (fst f), adv w)" using v(1) by (simp only: step_val) (simp add: run_value_def)
  then have "run_loop inp n (val_of (fst f)) w = run_loop inp n (cont_of (fst f)) (adv w)" by (intro run_loop_step) auto
  then show "\<exists>w'. run_loop inp n (val_of (fst f)) w = run_loop inp n (cont_of (fst f)) w' \<and> walking inp n w' e (f # fs)"
    using v(2) w by (intro exI [of _ "adv w"]) (simp add: walking_def ctl_adv)
qed

lemma passes_empty:
  assumes "At (in_src inp) o' = (if b then ch_lbrack else ch_lbrace)" "p = SkipWS (in_src inp) (o' + 1)" "At (in_src inp) p = closer b"
  shows "passes inp n d o' (p + 1)"
  unfolding passes_def
proof (intro allI impI)
  fix w pos f fs
  assume w: "walking inp n w pos (f # fs)" and o': "o' = SkipWS (in_src inp) pos"
  note v = empty_complete [OF w o' assms]
  have "run_loop inp n (val_of (fst f)) w = run_loop inp n (cont_of (fst f)) (adv (adv w))"
    using v(1) by (intro run_loop_step) (simp_all add: step_val)
  then show "\<exists>w'. run_loop inp n (val_of (fst f)) w = run_loop inp n (cont_of (fst f)) w' \<and> walking inp n w' (p + 1) (f # fs)"
    using v(2) by (intro exI [of _ "adv (adv w)"]) simp
qed

lemma array_complete:
  assumes "passes_elems inp n d (SkipWS (in_src inp) pos) e" "e \<le> length (in_src inp)"
    "walking inp n w pos fs" "length fs + Suc d \<le> maxDepth" "0 < ip w"
    "At (in_src inp) (SkipWS (in_src inp) e) = ch_rbrack"
  obtains w' m where "run_loop inp n stArrBegin w = run_loop inp n stScopeEnd w'"
    "walking inp n w' (SkipWS (in_src inp) e + 1) fs" "fs = [] \<Longrightarrow> curCnt w' = cnt_word (True, m)" "m < 2 ^ 31"
proof -
  have l: "length fs < maxDepth" using assms(4) by simp
  obtain w1 where w1: "push True w = Ok w1" "walking inp n (bump w1) pos ((True, 1) # fs)" "ip (bump w1) = ip w"
    using begin_complete [OF assms(3) l assms(5)] by metis
  have dl: "\<not> IsNonDelim (At (in_src inp) e)" using delim_after [OF assms(2) refl] assms(6) delims by simp
  obtain w2 m where w2: "run_loop inp n stArrValue (bump w1) = run_loop inp n stArrCont w2"
      "walking inp n w2 e ((True, m) # fs)"
    using assms(1,4) w1(2) dl unfolding passes_elems_def by force
  obtain w3 where w3: "run_loop inp n (cont_of True) w2 = run_loop inp n stScopeEnd w3"
      "walking inp n w3 (SkipWS (in_src inp) e + 1) fs" "fs = [] \<Longrightarrow> curCnt w3 = cnt_word (True, m)"
    using close_complete [OF w2(2)] assms(6) by (auto simp: closer_def)
  have "run_loop inp n stArrBegin w = run_loop inp n stArrValue (bump w1)" using w1(1) by (intro run_loop_step) auto
  then show thesis using that [of w3 m] w2 w3 ctl_small [OF w2(2)] by (simp add: cont_of_def)
qed

lemma object_complete:
  assumes "passes_members inp n d (SkipWS (in_src inp) pos) e" "e \<le> length (in_src inp)"
    "walking inp n w pos fs" "length fs + Suc d \<le> maxDepth" "0 < ip w"
    "At (in_src inp) (SkipWS (in_src inp) e) = ch_rbrace"
  obtains w' m where "run_loop inp n stObjBegin w = run_loop inp n stScopeEnd w'"
    "walking inp n w' (SkipWS (in_src inp) e + 1) fs" "fs = [] \<Longrightarrow> curCnt w' = cnt_word (False, m)" "m < 2 ^ 31"
proof -
  have l: "length fs < maxDepth" using assms(4) by simp
  obtain w1 where w1: "push False w = Ok w1" "walking inp n (bump w1) pos ((False, 1) # fs)" "ip (bump w1) = ip w"
    using begin_complete [OF assms(3) l assms(5)] by metis
  have dl: "\<not> IsNonDelim (At (in_src inp) e)" using delim_after [OF assms(2) refl] assms(6) delims by simp
  obtain wk w2 m where w2: "key inp (bump w1) = Ok wk" "run_loop inp n stObjField wk = run_loop inp n stObjCont w2"
      "walking inp n w2 e ((False, m) # fs)"
    using assms(1,4) w1(2) dl unfolding passes_members_def by force
  obtain w3 where w3: "run_loop inp n (cont_of False) w2 = run_loop inp n stScopeEnd w3"
      "walking inp n w3 (SkipWS (in_src inp) e + 1) fs" "fs = [] \<Longrightarrow> curCnt w3 = cnt_word (False, m)"
    using close_complete [OF w2(3)] assms(6) by (auto simp: closer_def)
  have "run_loop inp n stObjBegin w = run_loop inp n stObjField wk" using w1(1) w2(1) by (intro run_loop_step) auto
  then show thesis using that [of w3 m] w2 w3 ctl_small [OF w2(3)] by (simp add: cont_of_def)
qed

lemma passes_arr:
  assumes "At (in_src inp) o' = ch_lbrack" "passes_elems inp n d (SkipWS (in_src inp) (o' + 1)) e" "e \<le> length (in_src inp)"
    "At (in_src inp) (SkipWS (in_src inp) (o' + 1)) \<noteq> ch_rbrack" "At (in_src inp) (SkipWS (in_src inp) e) = ch_rbrack"
  shows "passes inp n (Suc d) o' (SkipWS (in_src inp) e + 1)"
  unfolding passes_def
proof (intro allI impI)
  fix w pos f fs
  assume w: "walking inp n w pos (f # fs)" and o': "o' = SkipWS (in_src inp) pos" and l: "length (f # fs) + Suc d \<le> maxDepth"
  have o1: "run_value inp (cont_of (fst f)) w = Ok (stArrBegin, adv w)" "walking inp n (adv w) (o' + 1) (f # fs)"
    using open_complete [OF w o', of True] assms(1,4) by (simp_all add: closer_def)
  obtain w' where w': "run_loop inp n stArrBegin (adv w) = run_loop inp n stScopeEnd w'"
      "walking inp n w' (SkipWS (in_src inp) e + 1) (f # fs)"
    using array_complete [OF assms(2,3) o1(2) l _ assms(5)] by (metis ip_simps(1) zero_less_Suc Suc_eq_plus1)
  have "run_loop inp n (val_of (fst f)) w = run_loop inp n stArrBegin (adv w)"
    using o1(1) by (intro run_loop_step) (simp_all add: step_val)
  then show "\<exists>w'. run_loop inp n (val_of (fst f)) w = run_loop inp n (cont_of (fst f)) w' \<and>
      walking inp n w' (SkipWS (in_src inp) e + 1) (f # fs)"
    using w' scope_end [OF w'(2)] by auto
qed

lemma passes_obj:
  assumes "At (in_src inp) o' = ch_lbrace" "passes_members inp n d (SkipWS (in_src inp) (o' + 1)) e" "e \<le> length (in_src inp)"
    "At (in_src inp) (SkipWS (in_src inp) (o' + 1)) \<noteq> ch_rbrace" "At (in_src inp) (SkipWS (in_src inp) e) = ch_rbrace"
  shows "passes inp n (Suc d) o' (SkipWS (in_src inp) e + 1)"
  unfolding passes_def
proof (intro allI impI)
  fix w pos f fs
  assume w: "walking inp n w pos (f # fs)" and o': "o' = SkipWS (in_src inp) pos" and l: "length (f # fs) + Suc d \<le> maxDepth"
  have o1: "run_value inp (cont_of (fst f)) w = Ok (stObjBegin, adv w)" "walking inp n (adv w) (o' + 1) (f # fs)"
    using open_complete [OF w o', of False] assms(1,4) by (simp_all add: closer_def)
  obtain w' where w': "run_loop inp n stObjBegin (adv w) = run_loop inp n stScopeEnd w'"
      "walking inp n w' (SkipWS (in_src inp) e + 1) (f # fs)"
    using object_complete [OF assms(2,3) o1(2) l _ assms(5)] by (metis ip_simps(1) zero_less_Suc Suc_eq_plus1)
  have "run_loop inp n (val_of (fst f)) w = run_loop inp n stObjBegin (adv w)"
    using o1(1) by (intro run_loop_step) (simp_all add: step_val)
  then show "\<exists>w'. run_loop inp n (val_of (fst f)) w = run_loop inp n (cont_of (fst f)) w' \<and>
      walking inp n w' (SkipWS (in_src inp) e + 1) (f # fs)"
    using w' scope_end [OF w'(2)] by auto
qed

lemma comma_complete:
  assumes "walking inp n w e ((a, m) # fs)" "At (in_src inp) (SkipWS (in_src inp) e) = ch_comma"
  shows "walking inp n (bump (adv w)) (SkipWS (in_src inp) e + 1) ((a, m + 1) # fs)" "peek inp w = ch_comma"
proof -
  show pk: "peek inp w = ch_comma" using walkingD(6) [OF assms(1)] assms(2) by simp
  have "walking inp n (adv w) (SkipWS (in_src inp) e + 1) ((a, m) # fs)"
    by (rule walking_structural(1) [OF assms(1) pk class_2(5)])
  moreover have "m \<le> ip w" using assms(1) by (auto simp: walking_def ctl_def)
  ultimately show "walking inp n (bump (adv w)) (SkipWS (in_src inp) e + 1) ((a, m + 1) # fs)"
    using ctl_bump [of "adv w" a m fs] by (simp add: walking_def)
qed

lemma passes_elem: "passes inp n d o' e \<Longrightarrow> passes_elems inp n d o' e"
  unfolding passes_def passes_elems_def by (fastforce simp: val_of_def cont_of_def)

lemma passes_elem_more:
  assumes "passes inp n d o' e" "e \<le> length (in_src inp)" "At (in_src inp) (SkipWS (in_src inp) e) = ch_comma"
    "passes_elems inp n d (SkipWS (in_src inp) (SkipWS (in_src inp) e + 1)) e'"
  shows "passes_elems inp n d o' e'"
  unfolding passes_elems_def
proof (intro allI impI)
  fix w pos m fs
  assume w: "walking inp n w pos ((True, m) # fs)" "o' = SkipWS (in_src inp) pos" "Suc (length fs) + d \<le> maxDepth"
    "\<not> IsNonDelim (At (in_src inp) e')"
  have "\<not> IsNonDelim (At (in_src inp) e)" using delim_after [OF assms(2) refl] assms(3) delims by simp
  then obtain w1 where w1: "run_loop inp n stArrValue w = run_loop inp n stArrCont w1" "walking inp n w1 e ((True, m) # fs)"
    using assms(1) w unfolding passes_def by (fastforce simp: val_of_def cont_of_def)
  note c = comma_complete [OF w1(2) assms(3)]
  have "run_loop inp n stArrCont w1 = run_loop inp n stArrValue (bump (adv w1))" using c(2) by (intro run_loop_step) auto
  then show "\<exists>w' m'. run_loop inp n stArrValue w = run_loop inp n stArrCont w' \<and> walking inp n w' e' ((True, m') # fs)"
    using assms(4) c(1) w w1(1) unfolding passes_elems_def by fastforce
qed

lemma passes_member:
  assumes "At (in_src inp) o' = ch_quote" "ScanString (in_src inp) (o' + 1) = (k, True)" "c = SkipWS (in_src inp) (k + 1)"
    "At (in_src inp) c = ch_colon" "passes inp n d (SkipWS (in_src inp) (c + 1)) e"
  shows "passes_members inp n d o' e"
  unfolding passes_members_def
proof (intro allI impI)
  fix w pos m fs
  assume w: "walking inp n w pos ((False, m) # fs)" "o' = SkipWS (in_src inp) pos" "Suc (length fs) + d \<le> maxDepth"
    "\<not> IsNonDelim (At (in_src inp) e)"
  note K = key_complete [OF w(1) assms(1,2) [unfolded w(2)] assms(3,4)]
  obtain w' where "run_loop inp n stObjField (adv (adv w)) = run_loop inp n stObjCont w'" "walking inp n w' e ((False, m) # fs)"
    using assms(5) K(2) w(3,4) unfolding passes_def by (fastforce simp: val_of_def cont_of_def)
  then show "\<exists>w1 w' m'. key inp w = Ok w1 \<and> run_loop inp n stObjField w1 = run_loop inp n stObjCont w' \<and>
      walking inp n w' e ((False, m') # fs)" using K(1) by blast
qed

lemma passes_member_more:
  assumes "passes_members inp n d o' e" "e \<le> length (in_src inp)" "At (in_src inp) (SkipWS (in_src inp) e) = ch_comma"
    "passes_members inp n d (SkipWS (in_src inp) (SkipWS (in_src inp) e + 1)) e'"
  shows "passes_members inp n d o' e'"
  unfolding passes_members_def
proof (intro allI impI)
  fix w pos m fs
  assume w: "walking inp n w pos ((False, m) # fs)" "o' = SkipWS (in_src inp) pos" "Suc (length fs) + d \<le> maxDepth"
    "\<not> IsNonDelim (At (in_src inp) e')"
  have "\<not> IsNonDelim (At (in_src inp) e)" using delim_after [OF assms(2) refl] assms(3) delims by simp
  then obtain wk w1 m1 where w1: "key inp w = Ok wk" "run_loop inp n stObjField wk = run_loop inp n stObjCont w1"
      "walking inp n w1 e ((False, m1) # fs)"
    using assms(1) w unfolding passes_members_def by fastforce
  note c = comma_complete [OF w1(3) assms(3)]
  obtain wk' w2 m2 where w2: "key inp (bump (adv w1)) = Ok wk'" "run_loop inp n stObjField wk' = run_loop inp n stObjCont w2"
      "walking inp n w2 e' ((False, m2) # fs)"
    using assms(4) c(1) w(3,4) unfolding passes_members_def by fastforce
  have "run_loop inp n stObjCont w1 = run_loop inp n stObjField wk'" using c(2) w2(1) by (intro run_loop_step) auto
  then show "\<exists>wk w' m'. key inp w = Ok wk \<and> run_loop inp n stObjField wk = run_loop inp n stObjCont w' \<and>
      walking inp n w' e' ((False, m') # fs)"
    using w1 w2 by (intro exI [of _ wk] exI [of _ w2] exI [of _ m2]) simp
qed

lemma At_nth: "i < length src \<Longrightarrow> src ! i = c \<Longrightarrow> At src i = c"
  by simp

lemma passes_delim: "(\<not> IsNonDelim (At (in_src inp) e) \<Longrightarrow> passes inp n d o' e) \<Longrightarrow> passes inp n d o' e"
  unfolding passes_def by blast

lemma value_passes:
  "value_at (in_src inp) d o' e \<Longrightarrow> passes inp n d o' e"
  "elems_at (in_src inp) d o' e \<Longrightarrow> passes_elems inp n d o' e"
  "members_at (in_src inp) d o' e \<Longrightarrow> passes_members inp n d o' e"
proof (induction rule: value_at_elems_at_members_at.inducts)
  case (string o' e d)
  then show ?case by (intro passes_prim) (simp add: prim_at_def)
next
  case (number o' e d)
  then have "o' < e" by (intro number_nonempty)
  then have "passes inp n d o' e" if "\<not> IsNonDelim (At (in_src inp) e)"
    using number that by (intro passes_prim) (simp add: prim_at_def)
  then show ?case by (rule passes_delim)
next
  case (atom o' e d)
  then have "o' < e" by (intro literal_nonempty)
  then have "passes inp n d o' e" if "\<not> IsNonDelim (At (in_src inp) e)"
    using atom that by (intro passes_prim) (simp add: prim_at_def)
  then show ?case by (rule passes_delim)
next
  case (emptyArr o' p d)
  then show ?case using passes_empty [of inp o' True p] by (simp add: closer_def)
next
  case (emptyObj o' p d)
  then show ?case using passes_empty [of inp o' False p] by (simp add: closer_def)
next
  case (arr o' d e p)
  then show ?case using elems_first [OF arr(3)] value_at_bounds(2) [OF arr(3)] passes_arr [of inp o' n d e] by simp
next
  case (obj o' d e p)
  then show ?case using members_first [OF obj(3)] value_at_bounds(3) [OF obj(3)] passes_obj [of inp o' n d e] by simp
next
  case (elem d o' e)
  then show ?case by (intro passes_elem)
next
  case (elem_more d o' e q e')
  then show ?case using value_at_bounds(1) [OF elem_more(1)] by (intro passes_elem_more [of inp n d o' e e']) auto
next
  case (member o' k c d e)
  then show ?case by (intro passes_member [of inp o' k c]) auto
next
  case (member_more o' k c d e q e')
  have "passes_members inp n d o' e" using member_more by (intro passes_member [of inp o' k c]) auto
  then show ?case using member_more value_at_bounds(1) [OF member_more(7)] by (intro passes_member_more [of inp n d o' e e']) auto
qed

section \<open>What acceptance implies\<close>

lemma accept_step:
  assumes "run_loop inp n st w = Ok r" "st \<noteq> stDocEnd"
  obtains st' w' where "step inp st w = Ok (st', w')" "run_loop inp n st' w' = Ok r"
proof (cases "step inp st w")
  case (Ok x)
  then show thesis using that assms by (cases x) (subst (asm) run_loop.simps, simp)
qed (use assms in \<open>subst (asm) run_loop.simps; simp\<close>)+

lemma key_sound:
  assumes "walking inp n w pos fs" "key inp w = Ok w'" "o' = SkipWS (in_src inp) pos"
  obtains k where "At (in_src inp) o' = ch_quote" "ScanString (in_src inp) (o' + 1) = (k, True)"
    "At (in_src inp) (SkipWS (in_src inp) (k + 1)) = ch_colon"
    "walking inp n w' (SkipWS (in_src inp) (k + 1) + 1) fs" "ip w < ip w'"
proof -
  note W = walkingD [OF assms(1)]
  have q: "At (in_src inp) o' = ch_quote" using assms(2) W(7) assms(3) by (auto simp: key_def split: if_splits)
  obtain k where k: "ScanString (in_src inp) (o' + 1) = (k, True)"
    using assms(2) W(2,7) assms(3) by (cases "ScanString (in_src inp) (o' + 1)") (auto simp: key_def visitString_def bind_Ok split: if_splits)
  have "cursor inp (ip (adv w)) (k + 1)" using cursor_string(1) [OF W(3)] q k assms(3) by simp
  then have w1: "walking inp n (adv w) (k + 1) fs" using W by (simp add: walking_def ctl_adv)
  have c: "At (in_src inp) (SkipWS (in_src inp) (k + 1)) = ch_colon"
    using assms(2,3) W(2,7) walkingD(6) [OF w1] by (auto simp: key_def visitString_def bind_Ok split: if_splits)
  note K = key_complete [OF assms(1) q [unfolded assms(3)] k [unfolded assms(3)] refl c]
  show thesis by (rule that [OF q k c]) (use K assms(2) in auto)
qed

text \<open>What the walk reads of a container after a value that ends at \<open>e0\<close>: nothing, or a comma and more.\<close>

definition more_at :: "bool \<Rightarrow> bytes \<Rightarrow> nat \<Rightarrow> nat \<Rightarrow> nat \<Rightarrow> bool" where
  "more_at a src d e0 e1 \<longleftrightarrow> e1 = e0 \<or>
     (At src (SkipWS src e0) = ch_comma \<and>
      (if a then elems_at src d (SkipWS src (SkipWS src e0 + 1)) e1 else members_at src d (SkipWS src (SkipWS src e0 + 1)) e1))"

definition reads_value :: "input \<Rightarrow> nat \<Rightarrow> walker \<Rightarrow> nat \<Rightarrow> bool \<times> nat \<Rightarrow> (bool \<times> nat) list \<Rightarrow> bool" where
  "reads_value inp n w pos f fs \<longleftrightarrow>
     (\<exists>e w'. value_at (in_src inp) (maxDepth - length (f # fs)) (SkipWS (in_src inp) pos) e \<and>
        run_loop inp n (val_of (fst f)) w = run_loop inp n (cont_of (fst f)) w' \<and> walking inp n w' e (f # fs) \<and> ip w < ip w')"

definition reads_close :: "input \<Rightarrow> nat \<Rightarrow> walker \<Rightarrow> nat \<Rightarrow> bool \<Rightarrow> (bool \<times> nat) list \<Rightarrow> bool" where
  "reads_close inp n w e0 a fs \<longleftrightarrow>
     (\<exists>e1 w' m. more_at a (in_src inp) (maxDepth - Suc (length fs)) e0 e1 \<and> e1 \<le> length (in_src inp) \<and>
        At (in_src inp) (SkipWS (in_src inp) e1) = closer a \<and>
        run_loop inp n (cont_of a) w = run_loop inp n stScopeEnd w' \<and> walking inp n w' (SkipWS (in_src inp) e1 + 1) fs \<and>
        (fs = [] \<longrightarrow> curCnt w' = cnt_word (a, m)) \<and> m < 2 ^ 31 \<and> ip w < ip w')"

lemma ctl_push_ok: "ctl w fs \<Longrightarrow> push a w = Ok w' \<Longrightarrow> length fs < maxDepth"
  using ctl_push_full [of w fs a] by (cases "length fs = maxDepth") (auto simp: ctl_def)

lemma more_members:
  assumes "At src o' = ch_quote" "ScanString src (o' + 1) = (k, True)" "At src (SkipWS src (k + 1)) = ch_colon"
    "value_at src d (SkipWS src (SkipWS src (k + 1) + 1)) e" "more_at False src d e e1"
  shows "members_at src d o' e1"
proof -
  have l: "i < length src \<and> src ! i = c" if "At src i = c" "c \<noteq> 0x20" for i c using that At_neq_space [of src i] by auto
  have q: "o' < length src" "src ! o' = ch_quote" using l [OF assms(1)] by simp_all
  have c: "SkipWS src (k + 1) < length src" "src ! SkipWS src (k + 1) = ch_colon" using l [OF assms(3)] by simp_all
  consider "e1 = e" | "At src (SkipWS src e) = ch_comma" "members_at src d (SkipWS src (SkipWS src e + 1)) e1"
    using assms(5) by (auto simp: more_at_def)
  then show ?thesis
  proof cases
    case 1
    then show ?thesis using value_at_elems_at_members_at.member [OF q assms(2) refl c assms(4)] by simp
  next
    case 2
    then have "SkipWS src e < length src" "src ! SkipWS src e = ch_comma" using l [OF 2(1)] by simp_all
    then show ?thesis using value_at_elems_at_members_at.member_more [OF q assms(2) refl c assms(4) refl _ _ 2(2)] by simp
  qed
qed

lemma more_elems:
  assumes "value_at src d o' e" "more_at True src d e e1"
  shows "elems_at src d o' e1"
proof -
  consider "e1 = e" | "At src (SkipWS src e) = ch_comma" "elems_at src d (SkipWS src (SkipWS src e + 1)) e1"
    using assms(2) by (auto simp: more_at_def)
  then show ?thesis
  proof cases
    case 1
    then show ?thesis using value_at_elems_at_members_at.elem [OF assms(1)] by simp
  next
    case 2
    then have "SkipWS src e < length src" using At_neq_space [of src "SkipWS src e"] by simp
    then show ?thesis using value_at_elems_at_members_at.elem_more [OF assms(1) refl _ _ 2(2)] 2(1) by simp
  qed
qed

definition accepts_read :: "input \<Rightarrow> nat \<Rightarrow> walker \<Rightarrow> walker \<Rightarrow> bool" where
  "accepts_read inp n r w \<longleftrightarrow>
     (\<forall>pos f fs. walking inp n w pos (f # fs) \<longrightarrow> run_loop inp n (val_of (fst f)) w = Ok r \<longrightarrow> reads_value inp n w pos f fs) \<and>
     (\<forall>e0 a m fs. walking inp n w e0 ((a, m) # fs) \<longrightarrow> run_loop inp n (cont_of a) w = Ok r \<longrightarrow> reads_close inp n w e0 a fs)"

lemma accepts_readD:
  assumes "accepts_read inp n r w"
  shows "walking inp n w pos (f # fs) \<Longrightarrow> run_loop inp n (val_of (fst f)) w = Ok r \<Longrightarrow> reads_value inp n w pos f fs"
    and "walking inp n w e0 ((a, m) # fs) \<Longrightarrow> run_loop inp n (cont_of a) w = Ok r \<Longrightarrow> reads_close inp n w e0 a fs"
  using assms unfolding accepts_read_def by blast+

text \<open>An accepted walk that enters a container reads it to its close.\<close>

lemma array_sound:
  assumes IH: "\<And>w'. ip w \<le> ip w' \<Longrightarrow> accepts_read inp n r w'"
    and w: "walking inp n w pos fs" "0 < ip w" "run_loop inp n stArrBegin w = Ok r"
  obtains e w' m where "elems_at (in_src inp) (maxDepth - Suc (length fs)) (SkipWS (in_src inp) pos) e" "length fs < maxDepth"
    "e \<le> length (in_src inp)" "At (in_src inp) (SkipWS (in_src inp) e) = ch_rbrack"
    "run_loop inp n stArrBegin w = run_loop inp n stScopeEnd w'" "walking inp n w' (SkipWS (in_src inp) e + 1) fs"
    "fs = [] \<Longrightarrow> curCnt w' = cnt_word (True, m)" "m < 2 ^ 31" "ip w < ip w'"
proof -
  obtain w1 where p: "push True w = Ok w1" "run_loop inp n stArrValue (bump w1) = Ok r"
    using accept_step [OF w(3)] by (auto simp: bind_Ok)
  have l: "length fs < maxDepth" using ctl_push_ok [OF walkingD(4) [OF w(1)] p(1)] .
  obtain w2 where "push True w = Ok w2" "walking inp n (bump w2) pos ((True, 1) # fs)" "ip (bump w2) = ip w"
    using begin_complete [OF w(1) l w(2)] by metis
  then have b: "walking inp n (bump w1) pos ((True, 1) # fs)" "ip (bump w1) = ip w" using p(1) by auto
  have "reads_value inp n (bump w1) pos (True, 1) fs"
    using accepts_readD(1) [OF IH b(1)] b(2) p(2) by (simp add: val_of_def)
  then obtain e w3 where v: "value_at (in_src inp) (maxDepth - Suc (length fs)) (SkipWS (in_src inp) pos) e"
      "run_loop inp n stArrValue (bump w1) = run_loop inp n stArrCont w3" "walking inp n w3 e ((True, 1) # fs)" "ip w < ip w3"
    using b(2) unfolding reads_value_def by (auto simp: val_of_def cont_of_def)
  have "reads_close inp n w3 e True fs"
    using accepts_readD(2) [OF IH v(3)] v(2,4) p(2) by (simp add: cont_of_def)
  then obtain e1 w4 m where c: "more_at True (in_src inp) (maxDepth - Suc (length fs)) e e1" "e1 \<le> length (in_src inp)"
      "At (in_src inp) (SkipWS (in_src inp) e1) = ch_rbrack" "run_loop inp n stArrCont w3 = run_loop inp n stScopeEnd w4"
      "walking inp n w4 (SkipWS (in_src inp) e1 + 1) fs" "fs = [] \<longrightarrow> curCnt w4 = cnt_word (True, m)" "m < 2 ^ 31" "ip w3 < ip w4"
    unfolding reads_close_def by (auto simp: cont_of_def closer_def)
  have "run_loop inp n stArrBegin w = run_loop inp n stArrValue (bump w1)" using p(1) by (intro run_loop_step) auto
  then show thesis using that [OF more_elems [OF v(1) c(1)] l c(2,3)] v c by auto
qed

lemma object_sound:
  assumes IH: "\<And>w'. ip w \<le> ip w' \<Longrightarrow> accepts_read inp n r w'"
    and w: "walking inp n w pos fs" "0 < ip w" "run_loop inp n stObjBegin w = Ok r"
  obtains e w' m where "members_at (in_src inp) (maxDepth - Suc (length fs)) (SkipWS (in_src inp) pos) e" "length fs < maxDepth"
    "e \<le> length (in_src inp)" "At (in_src inp) (SkipWS (in_src inp) e) = ch_rbrace"
    "run_loop inp n stObjBegin w = run_loop inp n stScopeEnd w'" "walking inp n w' (SkipWS (in_src inp) e + 1) fs"
    "fs = [] \<Longrightarrow> curCnt w' = cnt_word (False, m)" "m < 2 ^ 31" "ip w < ip w'"
proof -
  obtain w1 wk where p: "push False w = Ok w1" "key inp (bump w1) = Ok wk" "run_loop inp n stObjField wk = Ok r"
  proof -
    obtain st' w' where "step inp stObjBegin w = Ok (st', w')" "run_loop inp n st' w' = Ok r" using accept_step [OF w(3)] by blast
    then show thesis using that by (auto simp: bind_Ok)
  qed
  have l: "length fs < maxDepth" using ctl_push_ok [OF walkingD(4) [OF w(1)] p(1)] .
  obtain w2 where "push False w = Ok w2" "walking inp n (bump w2) pos ((False, 1) # fs)" "ip (bump w2) = ip w"
    using begin_complete [OF w(1) l w(2)] by metis
  then have b: "walking inp n (bump w1) pos ((False, 1) # fs)" "ip (bump w1) = ip w" using p(1) by auto
  obtain k where k: "At (in_src inp) (SkipWS (in_src inp) pos) = ch_quote" "ScanString (in_src inp) (SkipWS (in_src inp) pos + 1) = (k, True)"
      "At (in_src inp) (SkipWS (in_src inp) (k + 1)) = ch_colon"
      "walking inp n wk (SkipWS (in_src inp) (k + 1) + 1) ((False, 1) # fs)" "ip (bump w1) < ip wk"
    using key_sound [OF b(1) p(2) refl] by metis
  have "reads_value inp n wk (SkipWS (in_src inp) (k + 1) + 1) (False, 1) fs"
    using accepts_readD(1) [OF IH k(4)] b(2) k(5) p(3) by (simp add: val_of_def)
  then obtain e w3 where v: "value_at (in_src inp) (maxDepth - Suc (length fs)) (SkipWS (in_src inp) (SkipWS (in_src inp) (k + 1) + 1)) e"
      "run_loop inp n stObjField wk = run_loop inp n stObjCont w3" "walking inp n w3 e ((False, 1) # fs)" "ip w < ip w3"
    using b(2) k(5) unfolding reads_value_def by (auto simp: val_of_def cont_of_def)
  have "reads_close inp n w3 e False fs"
    using accepts_readD(2) [OF IH v(3)] v(2,4) p(3) by (simp add: cont_of_def)
  then obtain e1 w4 m where c: "more_at False (in_src inp) (maxDepth - Suc (length fs)) e e1" "e1 \<le> length (in_src inp)"
      "At (in_src inp) (SkipWS (in_src inp) e1) = ch_rbrace" "run_loop inp n stObjCont w3 = run_loop inp n stScopeEnd w4"
      "walking inp n w4 (SkipWS (in_src inp) e1 + 1) fs" "fs = [] \<longrightarrow> curCnt w4 = cnt_word (False, m)" "m < 2 ^ 31" "ip w3 < ip w4"
    unfolding reads_close_def by (auto simp: cont_of_def closer_def)
  have "run_loop inp n stObjBegin w = run_loop inp n stObjField wk" using p(1,2) by (intro run_loop_step) auto
  then show thesis using that [OF more_members [OF k(1,2,3) v(1) c(1)] l c(2,3)] v c by auto
qed

lemma value_cases:
  assumes "walking inp n w pos fs" "run_value inp cont w = Ok (st, w')" "o' = SkipWS (in_src inp) pos"
  obtains (empty) b p where "At (in_src inp) o' = (if b then ch_lbrack else ch_lbrace)" "p = SkipWS (in_src inp) (o' + 1)"
      "At (in_src inp) p = closer b" "st = cont" "walking inp n w' (p + 1) fs" "ip w < ip w'"
  | (opens) b where "At (in_src inp) o' = (if b then ch_lbrack else ch_lbrace)" "st = (if b then stArrBegin else stObjBegin)"
      "walking inp n w' (o' + 1) fs" "ip w < ip w'"
  | (prim) e where "prim_at (in_src inp) o' e" "st = cont" "walking inp n w' e fs" "ip w < ip w'"
proof -
  note W = walkingD [OF assms(1)]
  consider b where "At (in_src inp) o' = (if b then ch_lbrack else ch_lbrace)"
    | "At (in_src inp) o' \<noteq> ch_lbrack" "At (in_src inp) o' \<noteq> ch_lbrace" by (metis (full_types))
  then show thesis
  proof cases
    case (1 b)
    show thesis
    proof (cases "At (in_src inp) (SkipWS (in_src inp) (o' + 1)) = closer b")
      case True
      then show thesis using empty_complete(1) [OF assms(1,3) 1 refl True, of cont] empty_complete(2) [OF assms(1,3) 1 refl True] empty [OF 1 refl True] assms(2) by auto
    next
      case False
      then show thesis using open_complete(1) [OF assms(1,3) 1 False, of cont] open_complete(2) [OF assms(1,3) 1 False] opens [OF 1] assms(2) by auto
    qed
  next
    case 2
    then have v: "visitPrimitive inp w = Ok w'" "st = cont"
      using assms(2,3) W(6) by (auto simp: run_value_def bind_Ok)
    then obtain e where e: "prim_at (in_src inp) o' e" "w' = adv w"
      using visitPrimitive_valid(1) [OF W(1,2,3) assms(3)] by (auto split: if_splits)
    then have "cursor inp (ip w') e" using visitPrimitive_valid(2) [OF W(1,2,3) assms(3)] by auto
    then show thesis using prim [OF e(1) v(2)] e(2) W by (auto simp: walking_def ctl_adv)
  qed
qed

lemma At_lt: "At src i = c \<Longrightarrow> c \<noteq> 0x20 \<Longrightarrow> i < length src \<and> src ! i = c"
  using At_neq_space [of src i] by auto

lemma reads_valueI:
  "value_at (in_src inp) (maxDepth - length (f # fs)) (SkipWS (in_src inp) pos) e \<Longrightarrow>
   run_loop inp n (val_of (fst f)) w = run_loop inp n (cont_of (fst f)) w' \<Longrightarrow> walking inp n w' e (f # fs) \<Longrightarrow> ip w < ip w' \<Longrightarrow>
   reads_value inp n w pos f fs"
  unfolding reads_value_def by blast

lemma empty_value_at:
  assumes "At src o' = (if b then ch_lbrack else ch_lbrace)" "p = SkipWS src (o' + 1)" "At src p = closer b"
  shows "value_at src d o' (p + 1)"
proof -
  have o': "o' < length src" "src ! o' = (if b then ch_lbrack else ch_lbrace)" using At_lt [OF assms(1)] by (simp_all split: if_splits)
  have p: "p < length src" "src ! p = closer b" using At_lt [OF assms(3)] by (simp_all add: closer_def)
  show ?thesis
    using value_at_elems_at_members_at.emptyArr [OF o'(1) _ assms(2) p(1)] value_at_elems_at_members_at.emptyObj [OF o'(1) _ assms(2) p(1)] o'(2) p(2)
    by (cases b) (simp_all add: closer_def)
qed

lemma value_sound:
  assumes IH: "\<And>w'. ip w < ip w' \<Longrightarrow> accepts_read inp n r w'"
    and w: "walking inp n w pos (f # fs)" "run_loop inp n (val_of (fst f)) w = Ok r"
  shows "reads_value inp n w pos f fs"
proof -
  let ?src = "in_src inp" and ?o = "SkipWS (in_src inp) pos"
  obtain st w1 where s: "run_value inp (cont_of (fst f)) w = Ok (st, w1)" "run_loop inp n st w1 = Ok r"
    using accept_step [OF w(2)] by (auto simp: step_val)
  have run: "run_loop inp n (val_of (fst f)) w = run_loop inp n st w1" using s(1) by (intro run_loop_step) (auto simp: step_val)
  show ?thesis
  proof (cases rule: value_cases [OF w(1) s(1) refl])
    case (1 b p)
    show ?thesis by (rule reads_valueI [OF empty_value_at [OF 1(1-3)] _ 1(5,6)]) (simp only: run 1(4))
  next
    case (2 b)
    have IH1: "\<And>w'. ip w1 \<le> ip w' \<Longrightarrow> accepts_read inp n r w'" using IH 2(4) by auto
    have ip1: "0 < ip w1" using 2(4) by simp
    show ?thesis
    proof (cases b)
      case True
      then have st: "st = stArrBegin" using 2(2) by simp
      obtain e w' where a: "elems_at ?src (maxDepth - Suc (length (f # fs))) (SkipWS ?src (?o + 1)) e" "length (f # fs) < maxDepth"
          "At ?src (SkipWS ?src e) = ch_rbrack" "run_loop inp n stArrBegin w1 = run_loop inp n stScopeEnd w'"
          "walking inp n w' (SkipWS ?src e + 1) (f # fs)" "ip w1 < ip w'"
        by (rule array_sound [OF IH1 2(3) ip1 s(2) [unfolded st]]) blast
      have d: "Suc (maxDepth - Suc (length (f # fs))) = maxDepth - length (f # fs)" using a(2) by simp
      have v: "value_at ?src (maxDepth - length (f # fs)) ?o (SkipWS ?src e + 1)"
        using value_at_elems_at_members_at.arr [OF _ _ a(1) refl, unfolded d] At_lt [OF 2(1)] At_lt [OF a(3)] True by simp
      show ?thesis by (rule reads_valueI [OF v _ a(5)]) (use run st a(4,6) 2(4) scope_end [OF a(5)] in simp_all)
    next
      case False
      then have st: "st = stObjBegin" using 2(2) by simp
      obtain e w' where a: "members_at ?src (maxDepth - Suc (length (f # fs))) (SkipWS ?src (?o + 1)) e" "length (f # fs) < maxDepth"
          "At ?src (SkipWS ?src e) = ch_rbrace" "run_loop inp n stObjBegin w1 = run_loop inp n stScopeEnd w'"
          "walking inp n w' (SkipWS ?src e + 1) (f # fs)" "ip w1 < ip w'"
        by (rule object_sound [OF IH1 2(3) ip1 s(2) [unfolded st]]) blast
      have d: "Suc (maxDepth - Suc (length (f # fs))) = maxDepth - length (f # fs)" using a(2) by simp
      have v: "value_at ?src (maxDepth - length (f # fs)) ?o (SkipWS ?src e + 1)"
        using value_at_elems_at_members_at.obj [OF _ _ a(1) refl, unfolded d] At_lt [OF 2(1)] At_lt [OF a(3)] False by simp
      show ?thesis by (rule reads_valueI [OF v _ a(5)]) (use run st a(4,6) 2(4) scope_end [OF a(5)] in simp_all)
    qed
  next
    case (3 e)
    show ?thesis by (rule reads_valueI [OF prim_at_value [OF 3(1)] _ 3(3,4)]) (simp only: run 3(2))
  qed
qed

lemma doc_end: "run_loop inp n stDocEnd w = (if depth w = - 1 \<and> (ip w = n \<or> ip w = n + 1) then Ok w else Fail)"
  by (subst run_loop.simps) simp

lemma reads_closeI:
  "more_at a (in_src inp) (maxDepth - Suc (length fs)) e0 e1 \<Longrightarrow> e1 \<le> length (in_src inp) \<Longrightarrow>
   At (in_src inp) (SkipWS (in_src inp) e1) = closer a \<Longrightarrow>
   run_loop inp n (cont_of a) w = run_loop inp n stScopeEnd w' \<Longrightarrow> walking inp n w' (SkipWS (in_src inp) e1 + 1) fs \<Longrightarrow>
   (fs = [] \<longrightarrow> curCnt w' = cnt_word (a, m)) \<Longrightarrow> m < 2 ^ 31 \<Longrightarrow> ip w < ip w' \<Longrightarrow> reads_close inp n w e0 a fs"
  unfolding reads_close_def by blast

lemma comma_sound:
  assumes IH: "\<And>w'. ip w < ip w' \<Longrightarrow> accepts_read inp n r w'"
    and w: "walking inp n w e0 ((a, m) # fs)" "peek inp w = ch_comma" "run_loop inp n (cont_of a) w = Ok r"
  shows "reads_close inp n w e0 a fs"
proof -
  let ?src = "in_src inp" and ?d = "maxDepth - Suc (length fs)"
  have cm: "At ?src (SkipWS ?src e0) = ch_comma" using walkingD(6) [OF w(1)] w(2) by simp
  note c = comma_complete [OF w(1) cm]
  have "\<exists>e w2. (\<forall>e1. more_at a ?src ?d e e1 \<longrightarrow> more_at a ?src ?d e0 e1) \<and>
      run_loop inp n (cont_of a) w = run_loop inp n (cont_of a) w2 \<and> walking inp n w2 e ((a, m + 1) # fs) \<and> ip w < ip w2"
  proof (cases a)
    case True
    have s: "run_loop inp n stArrCont w = run_loop inp n stArrValue (bump (adv w))" using w(2) by (intro run_loop_step) auto
    have "reads_value inp n (bump (adv w)) (SkipWS ?src e0 + 1) (a, m + 1) fs"
      using accepts_readD(1) [OF IH c(1)] s w(3) True by (simp add: val_of_def cont_of_def)
    then obtain e w2 where v: "value_at ?src ?d (SkipWS ?src (SkipWS ?src e0 + 1)) e"
        "run_loop inp n stArrValue (bump (adv w)) = run_loop inp n stArrCont w2" "walking inp n w2 e ((a, m + 1) # fs)" "ip (bump (adv w)) < ip w2"
      using True unfolding reads_value_def by (auto simp: val_of_def cont_of_def)
    have "more_at a ?src ?d e0 e1" if "more_at a ?src ?d e e1" for e1
      using more_elems [OF v(1)] that cm True by (simp add: more_at_def)
    then show ?thesis using v s True by (intro exI [of _ e] exI [of _ w2]) (simp add: cont_of_def)
  next
    case False
    then obtain wk where k: "key inp (bump (adv w)) = Ok wk" "run_loop inp n stObjField wk = Ok r"
      using accept_step [OF w(3)] w(2) by (auto simp: bind_Ok cont_of_def)
    have s: "run_loop inp n stObjCont w = run_loop inp n stObjField wk" using w(2) k(1) by (intro run_loop_step) auto
    obtain kk where kk: "At ?src (SkipWS ?src (SkipWS ?src e0 + 1)) = ch_quote" "ScanString ?src (SkipWS ?src (SkipWS ?src e0 + 1) + 1) = (kk, True)"
        "At ?src (SkipWS ?src (kk + 1)) = ch_colon" "walking inp n wk (SkipWS ?src (kk + 1) + 1) ((a, m + 1) # fs)" "ip (bump (adv w)) < ip wk"
      using key_sound [OF c(1) k(1) refl] by metis
    have "reads_value inp n wk (SkipWS ?src (kk + 1) + 1) (a, m + 1) fs"
      using accepts_readD(1) [OF IH kk(4)] kk(5) k(2) False by (simp add: val_of_def)
    then obtain e w2 where v: "value_at ?src ?d (SkipWS ?src (SkipWS ?src (kk + 1) + 1)) e"
        "run_loop inp n stObjField wk = run_loop inp n stObjCont w2" "walking inp n w2 e ((a, m + 1) # fs)" "ip wk < ip w2"
      using False unfolding reads_value_def by (auto simp: val_of_def cont_of_def)
    have "more_at a ?src ?d e0 e1" if "more_at a ?src ?d e e1" for e1
      using more_members [OF kk(1-3) v(1)] that cm False by (simp add: more_at_def)
    then show ?thesis using v s False kk(5) by (intro exI [of _ e] exI [of _ w2]) (simp add: cont_of_def)
  qed
  then obtain e w2 where v: "\<And>e1. more_at a ?src ?d e e1 \<Longrightarrow> more_at a ?src ?d e0 e1"
      "run_loop inp n (cont_of a) w = run_loop inp n (cont_of a) w2" "walking inp n w2 e ((a, m + 1) # fs)" "ip w < ip w2" by blast
  have "reads_close inp n w2 e a fs" using accepts_readD(2) [OF IH [OF v(4)] v(3)] v(2) w(3) by simp
  then obtain e1 w' m' where x: "more_at a ?src ?d e e1" "e1 \<le> length ?src" "At ?src (SkipWS ?src e1) = closer a"
      "run_loop inp n (cont_of a) w2 = run_loop inp n stScopeEnd w'" "walking inp n w' (SkipWS ?src e1 + 1) fs"
      "fs = [] \<longrightarrow> curCnt w' = cnt_word (a, m')" "m' < 2 ^ 31" "ip w2 < ip w'"
    unfolding reads_close_def by blast
  show ?thesis
    by (rule reads_closeI [OF v(1) [OF x(1)] x(2,3) _ x(5,6,7)]) (use v(2,4) x(4,8) in simp_all)
qed

lemma close_sound:
  assumes IH: "\<And>w'. ip w < ip w' \<Longrightarrow> accepts_read inp n r w'"
    and w: "walking inp n w e0 ((a, m) # fs)" "run_loop inp n (cont_of a) w = Ok r"
  shows "reads_close inp n w e0 a fs"
proof -
  note W = walkingD [OF w(1)]
  have d: "depth w = int (length fs)" using W(4) by (simp add: ctl_def)
  obtain st w1 where s: "step inp (cont_of a) w = Ok (st, w1)" "run_loop inp n st w1 = Ok r" using accept_step [OF w(2)] by auto
  consider "peek inp w = ch_comma" | "peek inp w = closer a" | "peek inp w = 0x20" "st = stDocEnd" "w1 = adv w"
    using s(1) by (cases a) (auto simp: cont_of_def closer_def split: if_splits)
  then show ?thesis
  proof cases
    case 1
    then show ?thesis using comma_sound [OF IH w(1) _ w(2)] by blast
  next
    case 2
    then have c: "At (in_src inp) (SkipWS (in_src inp) e0) = closer a" using W(6) by simp
    obtain w' where w': "run_loop inp n (cont_of a) w = run_loop inp n stScopeEnd w'" "walking inp n w' (SkipWS (in_src inp) e0 + 1) fs"
        "fs = [] \<Longrightarrow> curCnt w' = cnt_word (a, m)" "ip w < ip w'"
      using close_complete [OF w(1) c] by metis
    show ?thesis
      by (rule reads_closeI [of a inp fs e0 e0 n w w' m])
        (use w' c W(5) ctl_small [OF w(1)] in \<open>auto simp: more_at_def\<close>)
  next
    case 3
    then show ?thesis using s(2) d by (simp add: doc_end adv_def)
  qed
qed

lemma accept_reads: "accepts_read inp n r w"
proof (induction "n - ip w" arbitrary: w rule: less_induct)
  case less
  have IH: "accepts_read inp n r w'" if "ip w < ip w'" for w'
  proof (cases "ip w' \<le> n")
    case True
    then show ?thesis using that by (intro less.hyps) simp
  next
    case False
    then show ?thesis by (auto simp: accepts_read_def walking_def cursor_def idx_ok_def)
  qed
  show ?case unfolding accepts_read_def using value_sound [OF IH] close_sound [OF IH] by blast
qed

section \<open>The root\<close>

lemma walking_start: "idx_ok inp n \<Longrightarrow> walking inp n (walker0 None s) 0 []"
  by (simp add: walking_def walker0_def cursor_start ctl_def)

lemma walker0_init: "(walker0 t s)\<lparr>depth := - 1, curCnt := 0, curTidx := 0\<rparr> = walker0 t s"
  by (simp add: walker0_def)

lemma cursor_end:
  assumes "idx_ok inp n" "cursor inp k e"
  shows "SkipWS (in_src inp) e = length (in_src inp) \<longleftrightarrow> k = n"
  using assms token_starts_hd(1) [of e "in_src inp"] by (auto simp: cursor_def idx_ok_def)

lemma walking_depth: "walking inp n w pos [] \<Longrightarrow> depth w = - 1"
  by (simp add: walking_def ctl_def)

lemma doc_end_walking:
  assumes "walking inp n w e []"
  shows "(\<exists>r. run_loop inp n stDocEnd w = Ok r) \<longleftrightarrow> SkipWS (in_src inp) e = length (in_src inp)"
proof -
  have "ip w \<le> n" using assms by (auto simp: walking_def cursor_def idx_ok_def)
  then show ?thesis
    using walking_depth [OF assms] cursor_end [OF walkingD(1,3) [OF assms]] by (simp add: doc_end)
qed

text \<open>After the root container has closed, the end of the index ends the document; what else can follow.\<close>

lemma root_closed:
  assumes "walking inp n w e []" "curCnt w = cnt_word (a, m)" "m < 2 ^ 31"
  shows "SkipWS (in_src inp) e = length (in_src inp) \<Longrightarrow> \<exists>r. run_loop inp n stScopeEnd w = Ok r"
    and "run_loop inp n stScopeEnd w = Ok r \<Longrightarrow> SkipWS (in_src inp) e \<noteq> length (in_src inp) \<Longrightarrow>
      At (in_src inp) (SkipWS (in_src inp) e) \<in> {ch_comma, closer a}"
proof -
  note W = walkingD [OF assms(1)]
  have s: "run_loop inp n stScopeEnd w = run_loop inp n (cont_of a) w"
    using cnt_word_flag [OF assms(3)] assms(2) by (intro run_loop_step) (auto simp: cont_of_def)
  show "\<exists>r. run_loop inp n stScopeEnd w = Ok r" if e: "SkipWS (in_src inp) e = length (in_src inp)"
  proof -
    have "peek inp w = 0x20" using W(6) e by simp
    then have "run_loop inp n (cont_of a) w = run_loop inp n stDocEnd (adv w)"
      by (intro run_loop_step) (cases a; simp add: cont_of_def)+
    moreover have "ip w = n" using cursor_end [OF W(1,3)] e by simp
    ultimately show ?thesis using s walking_depth [OF assms(1)] by (simp add: doc_end) (simp add: adv_def)
  qed
  show "At (in_src inp) (SkipWS (in_src inp) e) \<in> {ch_comma, closer a}"
    if r: "run_loop inp n stScopeEnd w = Ok r" and e: "SkipWS (in_src inp) e \<noteq> length (in_src inp)"
  proof -
    have "SkipWS (in_src inp) e < length (in_src inp)" "\<not> is_ws (in_src inp ! SkipWS (in_src inp) e)"
      using SkipWS_bounds [OF W(5)] e by auto
    then have "peek inp w \<noteq> 0x20" using W(6) by auto
    moreover have "run_loop inp n (cont_of a) w = Ok r" using r s by simp
    then obtain st w1 where "step inp (cont_of a) w = Ok (st, w1)" by (rule accept_step) auto
    ultimately have "peek inp w \<in> {ch_comma, closer a}" by (cases a) (auto simp: cont_of_def closer_def split: if_splits)
    then show ?thesis using W(6) by simp
  qed
qed

lemma run_alt:
  "run inp n (walker0 None s) = (if n = 0 then Fail else
     case run_value inp stDocEnd (walker0 None s) of
       Ok (st, w) \<Rightarrow> run_loop inp n st w
     | Fail \<Rightarrow> Fail
     | Panic \<Rightarrow> Panic)"
proof -
  have "run_loop inp n stRootScalar w =
      (case visitPrimitive inp w of Ok w \<Rightarrow> run_loop inp n stDocEnd w | Fail \<Rightarrow> Fail | Panic \<Rightarrow> Panic)" for w
    by (subst run_loop.simps) (cases "visitPrimitive inp w"; simp)
  then show ?thesis
    unfolding run_def walker0_init Let_def run_value_def
    by (cases "visitPrimitive inp (walker0 None s)") (simp_all add: emitEmpty_def walker0_def adv_def)
qed

lemma root_value:
  assumes "idx_ok inp n" "SkipWS (in_src inp) 0 < length (in_src inp)"
  shows "n \<noteq> 0"
  using assms cursor_end [OF assms(1) cursor_start] by auto

lemma prim_root:
  assumes "walking inp n w pos []" "o' = SkipWS (in_src inp) pos" "prim_at (in_src inp) o' e"
  shows "run_value inp stDocEnd w = Ok (stDocEnd, adv w)" "walking inp n (adv w) e []"
proof -
  note W = walkingD [OF assms(1)]
  have "peek inp w \<noteq> ch_lbrace" "peek inp w \<noteq> ch_lbrack"
    using prim_at_none [of "in_src inp" o' e] assms(2,3) W(6) by (auto simp: IsDigit_iff)
  then show "run_value inp stDocEnd w = Ok (stDocEnd, adv w)"
    using visitPrimitive_valid(1) [OF W(1,2,3) assms(2)] assms(3) by (auto simp: run_value_def)
  show "walking inp n (adv w) e []"
    using visitPrimitive_valid(2) [OF W(1,2,3) assms(2,3)] W by (simp add: walking_def ctl_adv)
qed

lemma value_prim_at:
  assumes "value_at src d o' e" "\<not> IsNonDelim (At src e)" "At src o' \<noteq> ch_lbrack" "At src o' \<noteq> ch_lbrace"
  shows "prim_at src o' e"
  using assms(1)
proof (cases rule: value_at.cases)
  case number
  then have "o' < e" by (intro number_nonempty)
  then show ?thesis using number assms(2) by (simp add: prim_at_def)
next
  case atom
  then have "o' < e" by (intro literal_nonempty)
  then show ?thesis using atom assms(2) by (simp add: prim_at_def)
qed (use assms(3,4) in \<open>auto simp: prim_at_def\<close>)

lemma root_complete:
  assumes "walking inp n w 0 []" "value_at (in_src inp) d o' e" "o' = SkipWS (in_src inp) 0" "d \<le> maxDepth"
    "SkipWS (in_src inp) e = length (in_src inp)"
  shows "\<exists>st w1 r. run_value inp stDocEnd w = Ok (st, w1) \<and> run_loop inp n st w1 = Ok r"
proof (cases "At (in_src inp) o' = ch_lbrack \<or> At (in_src inp) o' = ch_lbrace")
  case False
  have "e \<le> length (in_src inp)" using value_at_bounds(1) [OF assms(2)] .
  then have "\<not> IsNonDelim (At (in_src inp) e)" using delim_after [OF _ refl] assms(5) delims(4) by simp
  then have "prim_at (in_src inp) o' e" using value_prim_at [OF assms(2)] False by simp
  from prim_root [OF assms(1,3) this] show ?thesis using doc_end_walking [of inp n "adv w" e] assms(5) by auto
next
  case True
  from assms(2) True show ?thesis
  proof (cases rule: value_at.cases)
    case (emptyArr p)
    then have "run_value inp stDocEnd w = Ok (stDocEnd, adv (adv w))" "walking inp n (adv (adv w)) e []"
      using empty_complete(1) [OF assms(1,3), of True p] empty_complete(2) [OF assms(1,3), of True p] by (simp_all add: closer_def)
    then show ?thesis using doc_end_walking assms(5) by blast
  next
    case (emptyObj p)
    then have "run_value inp stDocEnd w = Ok (stDocEnd, adv (adv w))" "walking inp n (adv (adv w)) e []"
      using empty_complete(1) [OF assms(1,3), of False p] empty_complete(2) [OF assms(1,3), of False p] by (simp_all add: closer_def)
    then show ?thesis using doc_end_walking assms(5) by blast
  next
    case (arr d' e' p)
    have o1: "run_value inp stDocEnd w = Ok (stArrBegin, adv w)" "walking inp n (adv w) (o' + 1) []"
      using open_complete(1) [OF assms(1,3), of True] open_complete(2) [OF assms(1,3), of True] elems_first [OF arr(5)] arr(3,4)
      by (simp_all add: closer_def)
    obtain w' m where w': "run_loop inp n stArrBegin (adv w) = run_loop inp n stScopeEnd w'" "walking inp n w' e []"
        "curCnt w' = cnt_word (True, m)" "m < 2 ^ 31"
      using array_complete [OF value_passes(2) [OF arr(5)] value_at_bounds(2) [OF arr(5)] o1(2)] arr assms(4) by auto
    then show ?thesis using root_closed(1) [OF w'(2,3,4) assms(5)] o1(1) by auto
  next
    case (obj d' e' p)
    have o1: "run_value inp stDocEnd w = Ok (stObjBegin, adv w)" "walking inp n (adv w) (o' + 1) []"
      using open_complete(1) [OF assms(1,3), of False] open_complete(2) [OF assms(1,3), of False] members_first [OF obj(5)] obj(3,4)
      by (simp_all add: closer_def)
    obtain w' m where w': "run_loop inp n stObjBegin (adv w) = run_loop inp n stScopeEnd w'" "walking inp n w' e []"
        "curCnt w' = cnt_word (False, m)" "m < 2 ^ 31"
      using object_complete [OF value_passes(3) [OF obj(5)] value_at_bounds(3) [OF obj(5)] o1(2)] obj assms(4) by auto
    then show ?thesis using root_closed(1) [OF w'(2,3,4) assms(5)] o1(1) by auto
  next
    case number
    then show ?thesis using True number_at_first [OF number_nonempty [OF number(3)] number(2,3)] by (auto simp: IsDigit_iff)
  next
    case atom
    then show ?thesis using True literal_at_first [OF literal_nonempty [OF atom(3)] atom(2,3)] by auto
  qed (use True in auto)
qed

lemma root_sound:
  assumes "walking inp n w 0 []" "run_value inp stDocEnd w = Ok (st, w1)" "run_loop inp n st w1 = Ok r" "o' = SkipWS (in_src inp) 0"
  shows "\<exists>e. value_at (in_src inp) maxDepth o' e \<and>
    (SkipWS (in_src inp) e = length (in_src inp) \<or>
     (\<exists>b. At (in_src inp) o' = (if b then ch_lbrack else ch_lbrace) \<and> At (in_src inp) (SkipWS (in_src inp) e) \<in> {ch_comma, closer b}))"
proof (cases rule: value_cases [OF assms(1,2,4)])
  case (1 b p)
  then show ?thesis
    using empty_value_at [OF 1(1,2,3), of maxDepth] doc_end_walking [OF 1(5)] assms(3) by blast
next
  case (3 e)
  then show ?thesis using prim_at_value [OF 3(1), of maxDepth] doc_end_walking [OF 3(3)] assms(3) by blast
next
  case (2 b)
  let ?src = "in_src inp"
  have ip1: "0 < ip w1" using 2(4) by simp
  have d: "Suc (maxDepth - Suc (length ([] :: (bool \<times> nat) list))) = maxDepth" by (simp add: maxDepth_def)
  note o' = At_lt [OF 2(1)]
  show ?thesis
  proof (cases b)
    case True
    then have st: "st = stArrBegin" using 2(2) by simp
    obtain e w' m where a: "elems_at ?src (maxDepth - Suc (length ([] :: (bool \<times> nat) list))) (SkipWS ?src (o' + 1)) e"
        "At ?src (SkipWS ?src e) = ch_rbrack" "run_loop inp n stArrBegin w1 = run_loop inp n stScopeEnd w'"
        "walking inp n w' (SkipWS ?src e + 1) []" "curCnt w' = cnt_word (True, m)" "m < 2 ^ 31"
      by (rule array_sound [OF accept_reads 2(3) ip1 assms(3) [unfolded st]]) blast
    have v: "value_at ?src maxDepth o' (SkipWS ?src e + 1)"
      using value_at_elems_at_members_at.arr [OF _ _ a(1) refl, unfolded d] o' At_lt [OF a(2)] True by simp
    have "SkipWS ?src (SkipWS ?src e + 1) = length ?src \<or> At ?src (SkipWS ?src (SkipWS ?src e + 1)) \<in> {ch_comma, closer b}"
      using root_closed(2) [OF a(4,5,6)] a(3) assms(3) st True by auto
    then show ?thesis using v 2(1) by blast
  next
    case False
    then have st: "st = stObjBegin" using 2(2) by simp
    obtain e w' m where a: "members_at ?src (maxDepth - Suc (length ([] :: (bool \<times> nat) list))) (SkipWS ?src (o' + 1)) e"
        "At ?src (SkipWS ?src e) = ch_rbrace" "run_loop inp n stObjBegin w1 = run_loop inp n stScopeEnd w'"
        "walking inp n w' (SkipWS ?src e + 1) []" "curCnt w' = cnt_word (False, m)" "m < 2 ^ 31"
      by (rule object_sound [OF accept_reads 2(3) ip1 assms(3) [unfolded st]]) blast
    have v: "value_at ?src maxDepth o' (SkipWS ?src e + 1)"
      using value_at_elems_at_members_at.obj [OF _ _ a(1) refl, unfolded d] o' At_lt [OF a(2)] False by simp
    have "SkipWS ?src (SkipWS ?src e + 1) = length ?src \<or> At ?src (SkipWS ?src (SkipWS ?src e + 1)) \<in> {ch_comma, closer b}"
      using root_closed(2) [OF a(4,5,6)] a(3) assms(3) st False by auto
    then show ?thesis using v 2(1) by blast
  qed
qed

text \<open>The two entries share the index of a successful scan.\<close>

definition scanned :: "bytes \<Rightarrow> bool \<Rightarrow> input" where
  "scanned src zc = \<lparr>in_src = src,
     in_idx = map word_of_nat (token_starts src 0) @ replicate 3 (word_of_nat (length src)), in_zc = zc\<rparr>"

lemma scanned_idx_ok: "length src < 2 ^ 31 \<Longrightarrow> idx_ok (scanned src zc) (length (token_starts src 0))"
  by (simp add: idx_ok_def scanned_def)

lemma Scan_scanned:
  assumes "Scan src o' mode = (idx, n, sc, True)" "length src < 2 ^ 31"
  shows "\<lparr>in_src = src, in_idx = take (min (n + 3) (length idx)) idx, in_zc = zc\<rparr> = scanned src zc"
    and "n = length (token_starts src 0)"
proof -
  have l: "length src < 2 ^ 32" using assms(2) by simp
  note i = Scan_index [OF assms(1) l]
  have "take (min (n + 3) (length idx)) idx = take (n + 3) idx" by (simp add: min_def)
  then show "\<lparr>in_src = src, in_idx = take (min (n + 3) (length idx)) idx, in_zc = zc\<rparr> = scanned src zc"
    using i(1) by (simp add: scanned_def)
  show "n = length (token_starts src 0)" by (rule i(2))
qed

lemma ValidWalk_run:
  assumes "Scan src o' mode = (idx, n, sc, True)" "length src < 2 ^ 31"
  shows "ValidWalk src idx n \<longleftrightarrow> (\<exists>r. run (scanned src False) n (walker0 None []) = Ok r)"
  using Scan_scanned(1) [OF assms, of False] by (auto simp: ValidWalk_def split: outcome.splits)

lemma run_Ok_iff:
  "(\<exists>r. run inp n (walker0 None s) = Ok r) \<longleftrightarrow>
   n \<noteq> 0 \<and> (\<exists>st w1 r. run_value inp stDocEnd (walker0 None s) = Ok (st, w1) \<and> run_loop inp n st w1 = Ok r)"
  unfolding run_alt by (auto split: outcome.splits)

lemma ValidWalk_complete:
  assumes "Scan src o' mode = (idx, n, sc, True)" "length src < 2 ^ 31" "json_text src maxDepth"
  shows "ValidWalk src idx n"
proof -
  let ?inp = "scanned src False"
  note n = Scan_scanned(2) [OF assms(1,2)]
  have ok: "idx_ok ?inp n" using scanned_idx_ok [OF assms(2)] n by simp
  have s: "in_src ?inp = src" by (simp add: scanned_def)
  obtain e where e: "value_at src maxDepth (SkipWS src 0) e" "SkipWS src e = length src" using assms(3) by (auto simp: json_text_def)
  have "\<exists>st w1 r. run_value ?inp stDocEnd (walker0 None []) = Ok (st, w1) \<and> run_loop ?inp n st w1 = Ok r"
  proof -
    have "value_at (in_src ?inp) maxDepth (SkipWS (in_src ?inp) 0) e" using e(1) by (simp only: s)
    from root_complete [OF walking_start [OF ok] this refl order_refl] show ?thesis using e(2) by (simp only: s)
  qed
  moreover have "n \<noteq> 0"
  proof
    assume "n = 0"
    then have "SkipWS src 0 = length src" using cursor_end [OF ok cursor_start] s by simp
    then show False using value_first [OF e(1)] by simp
  qed
  ultimately show ?thesis unfolding ValidWalk_run [OF assms(1,2)] run_Ok_iff by blast
qed

lemma ValidWalk_sound:
  assumes "Scan src o' mode = (idx, n, sc, True)" "length src < 2 ^ 31" "ValidWalk src idx n"
  shows "\<exists>e. value_at src maxDepth (SkipWS src 0) e \<and>
    (SkipWS src e = length src \<or>
     (\<exists>b. At src (SkipWS src 0) = (if b then ch_lbrack else ch_lbrace) \<and> At src (SkipWS src e) \<in> {ch_comma, closer b}))"
proof -
  let ?inp = "scanned src False"
  have ok: "idx_ok ?inp n" using scanned_idx_ok [OF assms(2)] Scan_scanned(2) [OF assms(1,2)] by simp
  have s: "in_src ?inp = src" by (simp add: scanned_def)
  obtain st w1 r where "run_value ?inp stDocEnd (walker0 None []) = Ok (st, w1)" "run_loop ?inp n st w1 = Ok r"
    using assms(3) unfolding ValidWalk_run [OF assms(1,2)] run_Ok_iff by blast
  from root_sound [OF walking_start [OF ok] this refl] show ?thesis unfolding s .
qed

end
