(* ===== verification/Valid.thy ===== *)
theory Valid
  imports Walk
begin

text \<open>
  The public validator \<^verbatim>\<open>Valid\<close> of \<^verbatim>\<open>vj_valid.go\<close> with the pure-Go entry \<^verbatim>\<open>goValid\<close> of
  \<^verbatim>\<open>native/ndec/ndec_go.go\<close>: a control-byte-rejecting scan, then the validation walk. The scratch the
  pool hands out is an argument and a result, with whatever a previous call left in it.
  \<^verbatim>\<open>encoding/json\<close>'s \<^verbatim>\<open>Valid\<close>, the fallback for inputs past 4 GiB, is the parameter \<open>std_Valid\<close>.
\<close>

record ValidContext =
  vc_src :: bytes
  vc_structural :: "u32 list"
  vc_err :: int

definition ValidErrInvalid :: int where "ValidErrInvalid = - 1"

definition goValid :: "ValidContext \<Rightarrow> ValidContext" where
  "goValid c =
     (let src = vc_src c; c = c\<lparr>vc_err := ValidErrInvalid\<rparr> in
      if src = [] then c
      else case Scan src (vc_structural c) ScanCtl of (idx, n, _, ok) \<Rightarrow>
        let c = c\<lparr>vc_structural := idx\<rparr> in
        if ok \<and> ValidWalk src idx n then c\<lparr>vc_err := 0\<rparr> else c)"

record validScratch =
  vs_padded :: bytes
  vs_structural :: "u32 list"

definition ScanPadding :: nat where "ScanPadding = 64"

definition validNative :: "bytes \<Rightarrow> validScratch \<Rightarrow> bool \<times> validScratch" where
  "validNative data s =
     (let n = length data in
      if n = 0 then (False, s)
      else
        let srcNeed = n + ScanPadding;
            padded = (if length (vs_padded s) < srcNeed then replicate srcNeed 0 else vs_padded s);
            padded = data @ replicate ScanPadding 0x20 @ drop srcNeed padded;
            structCap = n + 24;
            structural = (if length (vs_structural s) < structCap then replicate structCap 0 else vs_structural s);
            c = goValid \<lparr>vc_src = take n padded, vc_structural = take structCap structural, vc_err = 0\<rparr> in
        (vc_err c = 0, \<lparr>vs_padded = padded, vs_structural = vc_structural c @ drop structCap structural\<rparr>))"

definition maxValidNativeLen :: nat where "maxValidNativeLen = 2 ^ 32 - 1 - 24"

definition Valid :: "(bytes \<Rightarrow> bool) \<Rightarrow> bytes \<Rightarrow> validScratch \<Rightarrow> bool" where
  "Valid std_Valid data s =
     (if length data \<le> maxValidNativeLen then fst (validNative data s) else std_Valid data)"

section \<open>The verdict\<close>

lemma goValid_err:
  assumes "vc_src c \<noteq> []" "Scan (vc_src c) (vc_structural c) ScanCtl = (idx, n, sc, ok)"
  shows "vc_err (goValid c) = 0 \<longleftrightarrow> ok \<and> ValidWalk (vc_src c) idx n"
  using assms by (simp add: goValid_def ValidErrInvalid_def)

lemma validNative_eq:
  assumes "data \<noteq> []"
  obtains st where "length data + ScanSlack \<le> length st"
    "fst (validNative data s) \<longleftrightarrow>
       (case Scan data st ScanCtl of (idx, n, _, ok) \<Rightarrow> ok \<and> ValidWalk data idx n)"
proof -
  let ?st = "if length (vs_structural s) < length data + 24 then replicate (length data + 24) 0 else vs_structural s"
  let ?c = "\<lparr>vc_src = data, vc_structural = take (length data + 24) ?st, vc_err = 0\<rparr>"
  obtain idx n sc ok where sc: "Scan (vc_src ?c) (vc_structural ?c) ScanCtl = (idx, n, sc, ok)" by (rule prod_cases4)
  have "fst (validNative data s) \<longleftrightarrow> vc_err (goValid ?c) = 0" using assms by (simp add: validNative_def)
  also have "\<dots> \<longleftrightarrow> ok \<and> ValidWalk data idx n" using goValid_err [OF _ sc] assms by simp
  finally show thesis using that [of "take (length data + 24) ?st"] sc by (simp add: ScanSlack_def)
qed

lemma Valid_iff:
  assumes "data \<noteq> []" "length data < 2 ^ 31"
  obtains st idx n sc ok where "Scan data st ScanCtl = (idx, n, sc, ok)" "ok = Check data ScanCtl"
    "Valid sv data s \<longleftrightarrow> ok \<and> ValidWalk data idx n"
proof -
  obtain st where st: "length data + ScanSlack \<le> length st"
      "fst (validNative data s) \<longleftrightarrow> (case Scan data st ScanCtl of (idx, n, _, ok) \<Rightarrow> ok \<and> ValidWalk data idx n)"
    using validNative_eq [OF assms(1)] by blast
  obtain idx n sc ok where sc: "Scan data st ScanCtl = (idx, n, sc, ok)" by (rule prod_cases4)
  have "ok = Check data ScanCtl" using Scan_verdict [OF st(1), of ScanCtl] sc by simp
  moreover have "length data \<le> maxValidNativeLen" using assms(2) by (simp add: maxValidNativeLen_def)
  ultimately show thesis using that [OF sc] st(2) sc by (simp add: Valid_def)
qed

lemma json_text_nonempty: "json_text src d \<Longrightarrow> src \<noteq> []"
proof
  assume "json_text src d" "src = []"
  then obtain e where "value_at [] d (SkipWS [] 0) e" by (auto simp: json_text_def)
  from value_first [OF this] show False by simp
qed

lemma bracketed_close:
  assumes "value_at src d o' e" "At src o' = ch_lbrack"
  shows "0 < e \<and> At src (e - 1) = ch_rbrack"
  using assms
proof (cases rule: value_at.cases)
  case number
  then show ?thesis using assms(2) number_at_first [OF number_nonempty [OF number(3)] number(2,3)] by (auto simp: IsDigit_iff)
next
  case atom
  then show ?thesis using assms(2) literal_at_first [OF literal_nonempty [OF atom(3)] atom(2,3)] by auto
qed auto

lemma array_text_last:
  assumes "json_text src d" "At src (SkipWS src 0) = ch_lbrack" "\<not> is_ws (last src)"
  shows "last src = ch_rbrack"
proof -
  obtain e where e: "value_at src d (SkipWS src 0) e" "SkipWS src e = length src" using assms(1) by (auto simp: json_text_def)
  have c: "0 < e" "At src (e - 1) = ch_rbrack" using bracketed_close [OF e(1) assms(2)] by auto
  have l: "e \<le> length src" using value_at_bounds(1) [OF e(1)] .
  have lst: "last src = src ! (length src - 1)" using l c(1) by (intro last_conv_nth) auto
  have "e = length src"
  proof (rule ccontr)
    assume "e \<noteq> length src"
    then have "e \<le> length src - 1" "length src - 1 < find_from (\<lambda>c. \<not> is_ws c) src e"
      using l c(1) e(2) SkipWS_eq [OF l] by auto
    then have "is_ws (src ! (length src - 1))" using find_from_before [of e "length src - 1" "\<lambda>c. \<not> is_ws c" src] by blast
    then show False using assms(3) lst by simp
  qed
  then show ?thesis using c lst by (simp add: At_def)
qed

section \<open>Claims\<close>

text \<open>
  Claim C4. \<open>Valid\<close> accepts every JSON text nested at most 256 containers deep whose strings are free of
  raw control bytes, whatever its pooled scratch holds.
\<close>

theorem Valid_accepts_json:
  assumes "length data < 2 ^ 31" "json_text data maxDepth" "Check data ScanCtl"
  shows "Valid std_Valid data s"
proof -
  have ne: "data \<noteq> []" using json_text_nonempty [OF assms(2)] .
  obtain st idx n sc ok where v: "Scan data st ScanCtl = (idx, n, sc, ok)" "ok = Check data ScanCtl"
      "Valid std_Valid data s \<longleftrightarrow> ok \<and> ValidWalk data idx n"
    by (rule Valid_iff [OF ne assms(1)])
  then show ?thesis using ValidWalk_complete [OF _ assms(1,2), of st ScanCtl idx n sc] assms(3) by simp
qed

theorem Valid_accepts_json_witness:
  "Valid (\<lambda>_. False) (lit '' [1 , {}] '') \<lparr>vs_padded = [], vs_structural = []\<rparr>"
proof -
  let ?d = "lit '' [1 , {}] ''"
  have pos: "SkipWS ?d 0 = 1" "SkipWS ?d 2 = 2" "SkipWS ?d 3 = 4" "SkipWS ?d 5 = 6" "SkipWS ?d 7 = 7" "SkipWS ?d 8 = 8"
      "SkipWS ?d 9 = 10" "length ?d = 10"
    by code_simp+
  have ch: "?d ! 1 = ch_lbrack" "?d ! 4 = ch_comma" "?d ! 6 = ch_lbrace" "?d ! 7 = ch_rbrace" "?d ! 8 = ch_rbrack" by code_simp+
  have "ValidNumber ?d 2 = (3, True)" by code_simp
  then have "is_number (cut ?d 2 3)" using ValidNumber_iff [of 2 ?d 3] pos by simp
  then have n: "value_at ?d 255 2 3" using pos by (intro value_at_elems_at_members_at.number) auto
  have "value_at ?d 255 6 (7 + 1)" by (rule value_at_elems_at_members_at.emptyObj) (use pos ch in simp_all)
  then have "elems_at ?d 255 6 8" using value_at_elems_at_members_at.elem by simp
  then have "elems_at ?d 255 2 8" using value_at_elems_at_members_at.elem_more [OF n, of 4 8] pos ch by simp
  moreover have "SkipWS ?d (1 + 1) = 2" by code_simp
  ultimately have "elems_at ?d 255 (SkipWS ?d (1 + 1)) 8" by simp
  then have "value_at ?d (Suc 255) 1 (8 + 1)" by (rule value_at_elems_at_members_at.arr [rotated 2]) (use pos ch in simp_all)
  then have "json_text ?d maxDepth" using pos by (auto simp: json_text_def maxDepth_def intro: exI [of _ 9])
  moreover have "Check ?d ScanCtl" by code_simp
  ultimately show ?thesis using pos by (intro Valid_accepts_json) simp_all
qed

text \<open>
  Claim C5. What \<open>Valid\<close> accepts has no raw control byte in a string and starts with a JSON value at most
  256 deep; only whitespace follows it, unless it is a non-empty root container that a comma or its own
  closing bracket follows, the one case in which the walk reads on.
\<close>

theorem Valid_sound_prefix:
  assumes "length data < 2 ^ 31" "Valid std_Valid data s"
  shows "Check data ScanCtl \<and> (\<exists>e. value_at data maxDepth (SkipWS data 0) e \<and>
    (SkipWS data e = length data \<or>
     (At data (SkipWS data 0) = ch_lbrack \<and> At data (SkipWS data e) \<in> {ch_comma, ch_rbrack}) \<or>
     (At data (SkipWS data 0) = ch_lbrace \<and> At data (SkipWS data e) \<in> {ch_comma, ch_rbrace})))"
proof -
  have ne: "data \<noteq> []" using assms(2) by (auto simp: Valid_def validNative_def)
  obtain st idx n sc ok where v: "Scan data st ScanCtl = (idx, n, sc, ok)" "ok = Check data ScanCtl"
      "Valid std_Valid data s \<longleftrightarrow> ok \<and> ValidWalk data idx n"
    by (rule Valid_iff [OF ne assms(1)])
  then have ok: "Scan data st ScanCtl = (idx, n, sc, True)" "ValidWalk data idx n" using assms(2) by auto
  obtain e where "value_at data maxDepth (SkipWS data 0) e" "SkipWS data e = length data \<or>
     (\<exists>b. At data (SkipWS data 0) = (if b then ch_lbrack else ch_lbrace) \<and> At data (SkipWS data e) \<in> {ch_comma, closer b})"
    using ValidWalk_sound [OF ok(1) assms(1) ok(2)] by blast
  then show ?thesis using v(2,3) assms(2) by (auto simp: closer_def split: if_splits)
qed

theorem Valid_sound_prefix_witness:
  "\<exists>e. value_at (lit ''[[]]'') maxDepth (SkipWS (lit ''[[]]'') 0) e"
proof -
  have "fst (validNative (lit ''[[]]'') \<lparr>vs_padded = [], vs_structural = []\<rparr>)" by code_simp
  moreover have "length (lit ''[[]]'') \<le> maxValidNativeLen" by (simp add: maxValidNativeLen_def lit_def)
  ultimately have "Valid (\<lambda>_. False) (lit ''[[]]'') \<lparr>vs_padded = [], vs_structural = []\<rparr>"
    unfolding Valid_def by (simp only: if_True simp_thms)
  moreover have "length (lit ''[[]]'') < 2 ^ 31" by (simp add: lit_def)
  ultimately show ?thesis using Valid_sound_prefix [of "lit ''[[]]''" "\<lambda>_. False"] by blast
qed

text \<open>
  Claim C6. The validator accepts trailing content after a root container: \<^verbatim>\<open>[1],2\<close> and \<^verbatim>\<open>[1]],[2\<close> pass,
  although neither is a JSON text at any depth.
\<close>

theorem Valid_accepts_trailing:
  "Valid std_Valid (lit ''[1],2'') \<lparr>vs_padded = [], vs_structural = []\<rparr> \<and> (\<forall>d. \<not> json_text (lit ''[1],2'') d) \<and>
   Valid std_Valid (lit ''[1]],[2'') \<lparr>vs_padded = [], vs_structural = []\<rparr> \<and> (\<forall>d. \<not> json_text (lit ''[1]],[2'') d)"
proof -
  have f: "At (lit ''[1],2'') (SkipWS (lit ''[1],2'') 0) = ch_lbrack" "At (lit ''[1]],[2'') (SkipWS (lit ''[1]],[2'') 0) = ch_lbrack"
    by code_simp+
  have l: "last (lit ''[1],2'') = 0x32" "last (lit ''[1]],[2'') = 0x32" by code_simp+
  have v: "fst (validNative (lit ''[1],2'') \<lparr>vs_padded = [], vs_structural = []\<rparr>)"
    "fst (validNative (lit ''[1]],[2'') \<lparr>vs_padded = [], vs_structural = []\<rparr>)" by code_simp+
  have "\<not> json_text (lit ''[1],2'') d" "\<not> json_text (lit ''[1]],[2'') d" for d
    using array_text_last [OF _ f(1), of d] array_text_last [OF _ f(2), of d] unfolding l by auto
  moreover have "length (lit ''[1],2'') \<le> maxValidNativeLen" "length (lit ''[1]],[2'') \<le> maxValidNativeLen"
    by (simp_all add: maxValidNativeLen_def lit_def)
  ultimately show ?thesis using v unfolding Valid_def by (simp only: if_True simp_thms)
qed

end
