(* ===== verification/Float_Token.thy ===== *)
theory Float_Token
  imports Float64 Pow5
begin

text \<open>
  The float lexer of \<^verbatim>\<open>internal/gdec/number.go\<close>: \<open>FloatToken\<close> reads the longest number prefix and its
  correctly rounded value where one IEEE operation or \<open>eiselLemire\<close> gives it. A float64 is its 64
  bits; \<open>f64_mul\<close> and \<open>f64_div\<close> are the IEEE operations on the positive finite operands the code
  passes, rounding the exact result by \<open>round64\<close>.
\<close>

section \<open>math/bits and float64 arithmetic\<close>

definition LeadingZeros64 :: "u64 \<Rightarrow> nat" where
  "LeadingZeros64 w = length (takeWhile (\<lambda>i. \<not> bit w (63 - i)) [0..<64])"

definition Mul64 :: "u64 \<Rightarrow> u64 \<Rightarrow> u64 \<times> u64" where
  "Mul64 x y = (word_of_int (uint x * uint y div 2 ^ 64), x * y)"

definition Add64 :: "u64 \<Rightarrow> u64 \<Rightarrow> u64 \<Rightarrow> u64 \<times> u64" where
  "Add64 x y c = (x + y + c, word_of_int ((uint x + uint y + uint c) div 2 ^ 64))"

text \<open>A positive finite value as a fraction.\<close>

definition f64_frac :: "u64 \<Rightarrow> int \<times> int" where
  "f64_frac b =
     (let x = uint (drop_bit 52 b AND 0x7FF); f = uint (b AND 0xFFFFFFFFFFFFF);
          e = (if x = 0 then 1 else x); n = (if x = 0 then f else f + 2 ^ 52) in
      if 1075 \<le> e then (n * 2 ^ nat (e - 1075), 1) else (n, 2 ^ nat (1075 - e)))"

definition f64_of_u64 :: "u64 \<Rightarrow> u64" where
  "f64_of_u64 m = (if m = 0 then 0 else round64 False (uint m) 1)"

definition f64_mul :: "u64 \<Rightarrow> u64 \<Rightarrow> u64" where
  "f64_mul a b = round64 False (fst (f64_frac a) * fst (f64_frac b)) (snd (f64_frac a) * snd (f64_frac b))"

definition f64_div :: "u64 \<Rightarrow> u64 \<Rightarrow> u64" where
  "f64_div a b = round64 False (fst (f64_frac a) * snd (f64_frac b)) (snd (f64_frac a) * fst (f64_frac b))"

definition f64_neg :: "u64 \<Rightarrow> u64" where
  "f64_neg f = f XOR push_bit 63 1"

section \<open>The Eisel-Lemire conversion\<close>

definition el_product :: "u64 \<Rightarrow> u64 \<times> u64 \<Rightarrow> u64 \<times> u64" where
  "el_product i pw =
     (case Mul64 i (fst pw) of (hi, lo) \<Rightarrow>
        if hi AND 0x1FF = 0x1FF then
          let h2 = fst (Mul64 i (snd pw)) in
          case Add64 lo h2 0 of (lo, carry) \<Rightarrow> (hi + carry, lo)
        else (hi, lo))"

definition frombits :: "int \<Rightarrow> u64 \<Rightarrow> u64" where
  "frombits re m = push_bit 52 (word_of_int re) OR (m AND (push_bit 52 1 - 1))"

definition el_round :: "u64 \<Rightarrow> u64" where
  "el_round m = drop_bit 1 (m + (m AND 1))"

definition eiselLemire :: "u64 \<Rightarrow> int \<Rightarrow> u64 \<times> bool" where
  "eiselLemire d q =
     (if q < pow5Smallest \<or> pow5Largest < q then (0, False)
      else
        let exponent = (152170 + 65536) * q div 65536 + 1024 + 63;
            lz = LeadingZeros64 d; i = push_bit lz d in
        case el_product i (pow5Table ! nat (q - pow5Smallest)) of (hi, lo) \<Rightarrow>
          let upper = drop_bit 63 hi;
              m = drop_bit (unat upper + 9) hi;
              re = exponent - (int lz + uint (1 XOR upper)) in
          if re \<le> 0 then
            (if 64 \<le> - re + 1 then (0, True)
             else
               let m = el_round (drop_bit (nat (- re + 1)) m) in
               (frombits (if push_bit 52 1 \<le> m then 1 else 0) m, True))
          else
            let m = (if lo \<le> 1 \<and> - 4 \<le> q \<and> q \<le> 23 \<and> m AND 3 = 1 \<and> push_bit (unat upper + 64 - 53 - 2) m = hi
                     then m AND NOT 1 else m);
                m = el_round m;
                re' = (if push_bit 53 1 \<le> m then re + 1 else re);
                m' = (if push_bit 53 1 \<le> m then push_bit 52 1 else m) in
            if 2046 < re' then (0, False) else (frombits re' m', True))"

section \<open>The token\<close>

definition pow10 :: "u64 list" where
  "pow10 = map (\<lambda>k. round64 False (10 ^ k) 1) [0..<23]"

text \<open>The zeros the fraction of a zero integer part skips, and the exponent's digits, clipped past four.\<close>

function zeros_from :: "bytes \<Rightarrow> nat \<Rightarrow> nat" where
  "zeros_from src p = (if p < length src \<and> src ! p = ch_0 then zeros_from src (p + 1) else p)"
  by pat_completeness auto
termination by (relation "measure (\<lambda>(src, p). length src - p)") auto

function exp_loop :: "bytes \<Rightarrow> nat \<Rightarrow> int \<Rightarrow> bool \<Rightarrow> nat \<times> int \<times> bool" where
  "exp_loop src p e clipped =
     (if p < length src then
        let v = src ! p - 0x30 in
        if 9 < v then (p, e, clipped)
        else if 1000 \<le> e then exp_loop src (p + 1) e True
        else exp_loop src (p + 1) (10 * e + uint v) clipped
      else (p, e, clipped))"
  by pat_completeness auto
termination by (relation "measure (\<lambda>(src, p, e, clipped). length src - p)") auto

declare zeros_from.simps [simp del] exp_loop.simps [simp del]

definition float_int :: "bytes \<Rightarrow> nat \<Rightarrow> nat \<times> u64 \<times> nat" where
  "float_int src d =
     (if At src d = ch_0 then (d + 1, 0, 0)
      else case digitRun src d 0 of (p, mant) \<Rightarrow> (p, mant, p - d))"

definition float_frac :: "bytes \<Rightarrow> nat \<Rightarrow> u64 \<Rightarrow> nat \<Rightarrow> nat \<times> u64 \<times> nat \<times> int" where
  "float_frac src p mant nd =
     (if At src p = ch_dot then
        let frac = p + 1; z = (if mant = 0 then zeros_from src frac else frac) in
        case digitRun src z mant of (p, mant) \<Rightarrow> (p, mant, nd + (p - z), int frac - int p)
      else (p, mant, nd, 0))"

definition float_exp :: "bytes \<Rightarrow> nat \<Rightarrow> int \<Rightarrow> nat \<times> int \<times> bool" where
  "float_exp src p exp =
     (if At src p OR 0x20 = ch_e then
        let c = At src (p + 1); q = (if c = ch_plus \<or> c = ch_minus then p + 2 else p + 1) in
        if IsDigit (At src q) then
          case exp_loop src q 0 False of (p, e, clipped) \<Rightarrow> (p, exp + (if c = ch_minus then - e else e), clipped)
        else (p, exp, False)
      else (p, exp, False))"

definition float_value :: "u64 \<Rightarrow> int \<Rightarrow> u64 option" where
  "float_value mant exp =
     (if mant = 0 then Some 0
      else if exp = 0 then Some (f64_of_u64 mant)
      else if mant \<le> push_bit 53 1 \<and> 0 < exp \<and> exp < int (length pow10) then Some (f64_mul (f64_of_u64 mant) (pow10 ! nat exp))
      else if mant \<le> push_bit 53 1 \<and> exp < 0 \<and> - exp < int (length pow10) then Some (f64_div (f64_of_u64 mant) (pow10 ! nat (- exp)))
      else case eiselLemire mant exp of (f, fin) \<Rightarrow> if fin then Some f else None)"

definition FloatToken :: "bytes \<Rightarrow> nat \<Rightarrow> u64 \<times> nat \<times> bool \<times> bool" where
  "FloatToken src o' =
     (let neg = (At src o' = ch_minus); d = (if neg then o' + 1 else o') in
      if At src d = ch_0 \<and> IsDigit (At src (d + 1)) then (0, d + 1, False, False)
      else case float_int src d of (p, mant, nd) \<Rightarrow>
        if p = d then (0, p, False, False)
        else if At src p = ch_dot \<and> \<not> IsDigit (At src (p + 1)) then (0, p, False, False)
        else case float_frac src p mant nd of (p, mant, nd, exp) \<Rightarrow>
          case float_exp src p exp of (p, exp, clipped) \<Rightarrow>
            if maxFastDigits < nd \<or> clipped then (0, p, True, False)
            else case float_value mant exp of
                   None \<Rightarrow> (0, p, True, False)
                 | Some f \<Rightarrow> (if neg then f64_neg f else f, p, True, True))"

section \<open>The truncated product\<close>

lemma Mul64_uint: "Mul64 x y = (hi, lo) \<Longrightarrow> uint x * uint y = uint hi * 2 ^ 64 + uint lo"
proof -
  assume m: "Mul64 x y = (hi, lo)"
  have b: "0 \<le> uint x * uint y" "uint x * uint y < 2 ^ 64 * 2 ^ 64"
    using uint_lt2p [of x] uint_lt2p [of y] by (simp, intro mult_strict_mono') simp_all
  then have "uint x * uint y div 2 ^ 64 < 2 ^ 64" by (simp add: div_less_iff_less_mult)
  then have "uint hi = uint x * uint y div 2 ^ 64"
    using m b(1) by (auto simp: Mul64_def uint_word_of_int_eq take_bit_int_eq_self pos_imp_zdiv_nonneg_iff)
  moreover have "uint lo = uint x * uint y mod 2 ^ 64" using m by (auto simp: Mul64_def uint_word_ariths)
  ultimately show ?thesis by simp
qed

lemma el_product_parts:
  fixes i :: u64
  assumes "el_product i pw = (hi, lo)"
  defines "N \<equiv> uint i * row_int pw"
  shows "uint hi div 512 = N div 2 ^ 137" "uint hi mod 512 \<noteq> 511 \<or> uint hi = N div 2 ^ 128"
proof -
  obtain h l where hl: "Mul64 i (fst pw) = (h, l)" by fastforce
  obtain h2 l2 where hl2: "Mul64 i (snd pw) = (h2, l2)" by fastforce
  define c where "c = (uint l + uint h2) div 2 ^ 64"
  have "N = (uint i * uint (fst pw)) * 2 ^ 64 + uint i * uint (snd pw)" by (simp add: N_def row_int_def algebra_simps)
  then have N: "N = uint h * 2 ^ 128 + (uint l + uint h2) * 2 ^ 64 + uint l2"
    unfolding Mul64_uint [OF hl] Mul64_uint [OF hl2] by (simp add: algebra_simps)
  have l2: "0 \<le> uint l2" "uint l2 < 2 ^ 64" using uint_lt2p [of l2] by simp_all
  have "N div 2 ^ 64 = uint h * 2 ^ 64 + (uint l + uint h2)"
    by (rule div_by_remainder [OF _ l2]) (simp add: N algebra_simps)
  then have "N div 2 ^ 64 div 2 ^ 64 = uint h + c" by (simp add: c_def)
  then have N128: "N div 2 ^ 128 = uint h + c" by (simp add: zdiv_zmult2_eq [symmetric])
  have "uint l + uint h2 < 2 * 2 ^ 64" using uint_lt2p [of l] uint_lt2p [of h2] by simp
  then have "c < 2" by (simp add: c_def div_less_iff_less_mult)
  then have c: "0 \<le> c" "c \<le> 1" by (simp_all add: c_def pos_imp_zdiv_nonneg_iff)
  have N137: "N div 2 ^ 137 = (uint h + c) div 512" by (simp add: N128 [symmetric] zdiv_zmult2_eq [symmetric])
  have "N < 2 ^ 64 * 2 ^ 128"
    unfolding N_def using uint_lt2p [of i] uint_lt2p [of "fst pw"] uint_lt2p [of "snd pw"]
    by (intro mult_strict_mono') (auto simp: row_int_def)
  then have "N div 2 ^ 128 < 2 ^ 64" by (simp add: div_less_iff_less_mult)
  then have hc: "uint h + c < 2 ^ 64" unfolding N128 .
  have mask: "h AND 0x1FF = 0x1FF \<longleftrightarrow> uint h mod 512 = 511"
  proof -
    have "h AND 0x1FF = take_bit 9 h" by (simp add: take_bit_eq_mask mask_eq_exp_minus_1)
    moreover have "uint (take_bit 9 h) = uint h mod 512" unfolding unsigned_take_bit_eq by (simp add: take_bit_eq_mod)
    ultimately have "uint (h AND 0x1FF) = uint h mod 512" by (simp only:)
    then show ?thesis using word_uint_eq_iff [of "h AND 0x1FF" "0x1FF"] by simp
  qed
  have "uint hi div 512 = N div 2 ^ 137 \<and> (uint hi mod 512 \<noteq> 511 \<or> uint hi = N div 2 ^ 128)"
  proof (cases "uint h mod 512 = 511")
    case True
    have "hi = h + word_of_int c" using assms(1) True mask by (auto simp: el_product_def hl hl2 Add64_def c_def)
    then have "uint hi = uint h + c" using hc c(1) by (simp add: uint_word_ariths uint_word_of_int mod_add_right_eq)
    then show ?thesis by (simp only: N137 N128 simp_thms)
  next
    case False
    then have hi: "hi = h" using assms(1) mask by (auto simp: el_product_def hl)
    have "uint h mod 512 < 512" by simp
    then have "uint h mod 512 + c < 512" using False c by linarith
    moreover have "uint h = 512 * (uint h div 512) + uint h mod 512" by simp
    ultimately have "(uint h + c) div 512 = uint h div 512" using c(1) by (intro div_by_remainder [of _ _ _ "uint h mod 512 + c"]) simp_all
    then show ?thesis using False by (simp only: hi N137 simp_thms)
  qed
  then show "uint hi div 512 = N div 2 ^ 137" "uint hi mod 512 \<noteq> 511 \<or> uint hi = N div 2 ^ 128" by blast+
qed

lemma uint_drop_bit_div: "uint (drop_bit n w :: u64) = uint w div 2 ^ n"
  unfolding unsigned_drop_bit_eq by (simp add: drop_bit_eq_div take_bit_int_eq_self uint_lt2p [of w, simplified])

lemma LeadingZeros64_shift:
  assumes "d \<noteq> 0"
  shows "LeadingZeros64 d < 64" "uint (push_bit (LeadingZeros64 d) d) = uint d * 2 ^ LeadingZeros64 d"
    "2 ^ 63 \<le> uint (push_bit (LeadingZeros64 d) d)"
proof -
  let ?z = "LeadingZeros64 d"
  obtain n where n: "bit d n" using assms by (metis bit_eq_iff bit_0_eq bot_apply bot_bool_def)
  then have n64: "n < 64" using bit_imp_le_length [of d n] by simp
  have ex: "\<exists>i \<in> set [0..<64]. \<not> \<not> bit d (63 - i)" using n n64 by (intro bexI [of _ "63 - n"]) auto
  have z: "?z < 64"
  proof (rule ccontr)
    assume "\<not> ?z < 64"
    then have "length (takeWhile (\<lambda>i. \<not> bit d (63 - i)) [0..<64]) = length [0..<64]"
      using length_takeWhile_le [of "\<lambda>i. \<not> bit d (63 - i)" "[0..<64]"] by (simp add: LeadingZeros64_def)
    then have "takeWhile (\<lambda>i. \<not> bit d (63 - i)) [0..<64] = [0..<64]" by (metis takeWhile_eq_take take_all_iff order_refl)
    then show False using ex by (metis takeWhile_eq_all_conv)
  qed
  then show "?z < 64" .
  have top: "bit d (63 - ?z)"
    using nth_length_takeWhile [of "\<lambda>i. \<not> bit d (63 - i)" "[0..<64]"] z by (simp add: LeadingZeros64_def)
  have low: "\<not> bit d (63 - j)" if "j < ?z" for j
    using that nth_mem [of j "takeWhile (\<lambda>i. \<not> bit d (63 - i)) [0..<64]"] takeWhile_nth [of j "\<lambda>i. \<not> bit d (63 - i)" "[0..<64]"]
      set_takeWhileD [of _ "\<lambda>i. \<not> bit d (63 - i)" "[0..<64]"] z by (auto simp: LeadingZeros64_def)
  have "take_bit (64 - ?z) d = d"
  proof (rule bit_eqI)
    fix k
    assume "possible_bit TYPE(64 word) k"
    then have "k < 64" by (simp add: possible_bit_def)
    moreover have "\<not> bit d k" if "64 - ?z \<le> k" using low [of "63 - k"] that \<open>k < 64\<close> z by auto
    ultimately show "bit (take_bit (64 - ?z) d) k = bit d k" by (cases "64 - ?z \<le> k") (auto simp: bit_take_bit_iff)
  qed
  then have "uint d = take_bit (64 - ?z) (uint d)" by (metis unsigned_take_bit_eq)
  then have "uint d < 2 ^ (64 - ?z)" by (metis take_bit_int_less_exp)
  then have "uint d * 2 ^ ?z < 2 ^ (64 - ?z) * 2 ^ ?z" by simp
  then have lt: "uint d * 2 ^ ?z < 2 ^ 64" using z by (simp flip: power_add)
  then show e: "uint (push_bit ?z d) = uint d * 2 ^ ?z"
    unfolding unsigned_push_bit_eq by (simp add: push_bit_eq_mult take_bit_int_eq_self)
  have "bit (uint d) (63 - ?z)" using top by (simp add: bit_uint_iff)
  then have "take_bit (63 - ?z) (uint d) \<noteq> uint d" by (metis bit_take_bit_iff less_irrefl)
  then have "2 ^ (63 - ?z) \<le> uint d" by (metis linorder_not_le take_bit_int_eq_self uint_ge_0)
  then have "2 ^ (63 - ?z) * 2 ^ ?z \<le> uint d * 2 ^ ?z" by simp
  then show "2 ^ 63 \<le> uint (push_bit ?z d)" using z unfolding e by (simp flip: power_add)
qed

section \<open>The extent of the token\<close>

lemma zeros_from_run:
  "p \<le> length src \<Longrightarrow> p \<le> zeros_from src p \<and> zeros_from src p \<le> length src \<and>
   digit_run (drop p src) = replicate (zeros_from src p - p) ch_0 @ digit_run (drop (zeros_from src p) src)"
proof (induction src p rule: zeros_from.induct)
  case (1 src p)
  show ?case
  proof (cases "p < length src \<and> src ! p = ch_0")
    case True
    then have "digit_run (drop p src) = ch_0 # digit_run (drop (p + 1) src)" using digit_run_step [of p src] by (simp add: IsDigit_iff)
    moreover have "zeros_from src p = zeros_from src (p + 1)" using True by (simp add: zeros_from.simps [of src p])
    moreover have "p + 1 \<le> zeros_from src (p + 1) \<and> zeros_from src (p + 1) \<le> length src \<and>
        digit_run (drop (p + 1) src) = replicate (zeros_from src (p + 1) - (p + 1)) ch_0 @ digit_run (drop (zeros_from src (p + 1)) src)"
      using 1 True by simp
    moreover have "Suc (zeros_from src (p + 1) - (p + 1)) = zeros_from src (p + 1) - p" if "p + 1 \<le> zeros_from src (p + 1)"
      using that by simp
    ultimately show ?thesis by (auto simp flip: replicate_Suc append_Cons)
  qed (use 1 in \<open>auto simp: zeros_from.simps [of src p]\<close>)
qed

lemma exp_loop_end: "p \<le> length src \<Longrightarrow> fst (exp_loop src p e c) = p + length (digit_run (drop p src))"
proof (induction src p e c rule: exp_loop.induct)
  case (1 src p e c)
  show ?case
  proof (cases "p < length src \<and> IsDigit (src ! p)")
    case True
    then have "\<not> 9 < src ! p - 0x30" by (simp add: mag_digit)
    then show ?thesis using 1 True digit_run_step [of p src] by (auto simp: exp_loop.simps [of src p] Let_def)
  next
    case False
    then have "p < length src \<Longrightarrow> 9 < src ! p - 0x30" by (simp add: mag_digit)
    then show ?thesis using False digit_run_stop [of p src] by (auto simp: exp_loop.simps [of src p] Let_def)
  qed
qed

lemma float_int_end:
  assumes "d \<le> length src" "\<not> (At src d = ch_0 \<and> IsDigit (At src (d + 1)))"
  shows "fst (float_int src d) = d + length (digit_run (drop d src))"
proof (cases "At src d = ch_0")
  case True
  then have "d < length src" using At_neq_space [of src d] by simp
  moreover from this have "IsDigit (src ! d)" using True by (simp add: IsDigit_iff)
  moreover have "digit_run (drop (d + 1) src) = []" using True assms(2) by (simp add: digit_run_Nil_iff At_head)
  ultimately have "digit_run (drop d src) = src ! d # digit_run (drop (d + 1) src)" "digit_run (drop (d + 1) src) = []"
    using digit_run_step [of d src] by auto
  then show ?thesis using True by (simp add: float_int_def)
qed (use assms in \<open>simp add: float_int_def digitRun_eq Let_def\<close>)

lemma float_frac_end:
  assumes "p \<le> length src" "At src p = ch_dot \<longrightarrow> IsDigit (At src (p + 1))"
  shows "frac_len (drop p src) = (fst (float_frac src p mant nd) - p, True)" "p \<le> fst (float_frac src p mant nd)"
    "fst (float_frac src p mant nd) \<le> length src"
proof -
  have *: "frac_len (drop p src) = (fst (float_frac src p mant nd) - p, True) \<and> p \<le> fst (float_frac src p mant nd) \<and>
    fst (float_frac src p mant nd) \<le> length src"
  proof (cases "At src p = ch_dot")
    case True
    then have p: "p < length src" using At_neq_space [of src p] by simp
    define z where "z = (if mant = 0 then zeros_from src (p + 1) else p + 1)"
    have z: "p + 1 \<le> z" "z \<le> length src" "length (digit_run (drop (p + 1) src)) = z - (p + 1) + length (digit_run (drop z src))"
      using zeros_from_run [of "p + 1" src] p by (auto simp: z_def)
    have f: "fst (float_frac src p mant nd) = z + length (digit_run (drop z src))"
      using True z(2) by (auto simp: float_frac_def Let_def digitRun_eq z_def)
    have "frac_len (drop p src) = (1 + length (digit_run (drop (p + 1) src)), True)"
      using True assms(2) digit_run_Nil_iff [of "drop (p + 1) src"] by (simp add: frac_len_def At_head tl_drop_Suc)
    moreover have "length (digit_run (drop z src)) \<le> length src - z" using length_digit_run [of "drop z src"] by simp
    ultimately show ?thesis unfolding f using z by auto
  qed (use assms in \<open>simp_all add: float_frac_def frac_len_def At_head\<close>)
  then show "frac_len (drop p src) = (fst (float_frac src p mant nd) - p, True)" "p \<le> fst (float_frac src p mant nd)"
    "fst (float_frac src p mant nd) \<le> length src" by blast+
qed

lemma float_exp_end:
  assumes "p \<le> length src"
  shows "fst (float_exp src p x) = p + (case exp_len (drop p src) of (l, ok) \<Rightarrow> if ok then l else 0)"
proof (cases "At src p = ch_e \<or> At src p = ch_E")
  case True
  then have p: "p < length src" using At_neq_space [of src p] by auto
  define q where "q = (if At src (p + 1) = ch_plus \<or> At src (p + 1) = ch_minus then p + 2 else p + 1)"
  have q: "q \<le> length src" using p At_neq_space [of src "p + 1"] by (auto simp: q_def)
  have s: "q = p + 1 + sign_len (tl (drop p src))" by (simp add: q_def sign_len_def tl_drop_Suc At_head)
  have x: "exp_len (drop p src) = (if digit_run (drop q src) = [] then (q - p, False) else (q - p + length (digit_run (drop q src)), True))"
    using True s by (simp add: exp_len_def Let_def At_head tl_drop_Suc add.commute)
  show ?thesis
  proof (cases "IsDigit (At src q)")
    case True
    then have ne: "digit_run (drop q src) \<noteq> []" by (simp add: digit_run_Nil_iff At_head)
    have "fst (float_exp src p x) = fst (exp_loop src q 0 False)"
      using True \<open>At src p = ch_e \<or> At src p = ch_E\<close> by (auto simp: float_exp_def Let_def exp_letter q_def split: prod.splits)
    then show ?thesis using exp_loop_end [OF q] x ne s by simp
  next
    case False
    then have "digit_run (drop q src) = []" by (simp add: digit_run_Nil_iff At_head)
    then show ?thesis using False x unfolding float_exp_def Let_def q_def [symmetric] by simp
  qed
next
  case False
  then show ?thesis by (simp add: float_exp_def exp_letter exp_len_def At_head)
qed

lemma FloatToken_len:
  assumes "o' \<le> length src" "FloatToken src o' = (f, e, ok, exact)"
  defines "xs \<equiv> drop o' src"
  defines "m \<equiv> minus_len xs"
  defines "ds \<equiv> digit_run (drop m xs)"
  defines "p \<equiv> m + length ds"
  shows "ok \<longleftrightarrow> \<not> (ds = [] \<or> (head_byte ds = ch_0 \<and> 1 < length ds)) \<and> snd (frac_len (drop p xs))"
    "ok \<Longrightarrow> e = o' + p + fst (frac_len (drop p xs)) +
       (case exp_len (drop (p + fst (frac_len (drop p xs))) xs) of (l, okx) \<Rightarrow> if okx then l else 0)"
proof -
  let ?P = "\<lambda>ok e. (ok \<longleftrightarrow> \<not> (ds = [] \<or> (head_byte ds = ch_0 \<and> 1 < length ds)) \<and> snd (frac_len (drop p xs))) \<and>
    (ok \<longrightarrow> e = o' + p + fst (frac_len (drop p xs)) +
       (case exp_len (drop (p + fst (frac_len (drop p xs))) xs) of (l, okx) \<Rightarrow> if okx then l else 0))"
  define d where "d = (if At src o' = ch_minus then o' + 1 else o')"
  have d: "d = o' + m" "d \<le> length src"
    using assms(1) minus_len_le [of xs] by (simp_all add: d_def m_def minus_len_def At_head xs_def split: if_splits)
  have ds: "ds = digit_run (drop d src)" by (simp add: ds_def xs_def d(1) add.commute)
  have hd: "ds \<noteq> [] \<Longrightarrow> At src d = head_byte ds" using head_digit_run [of "drop d src"] by (simp add: ds At_head)
  have zero: "At src d = ch_0 \<and> IsDigit (At src (d + 1)) \<longleftrightarrow> ds \<noteq> [] \<and> head_byte ds = ch_0 \<and> 1 < length ds"
  proof (cases "d < length src \<and> IsDigit (src ! d)")
    case True
    then have "ds = src ! d # digit_run (drop (d + 1) src)" using digit_run_step [of d src] by (simp add: ds)
    then show ?thesis using True digit_run_Nil_iff [of "drop (d + 1) src"] by (simp add: At_head) (metis At_head At_in)
  next
    case False
    then have "At src d \<noteq> ch_0" using At_neq_space [of src d] by (auto simp: IsDigit_iff)
    then show ?thesis using False by (simp add: ds digit_run_stop)
  qed
  define P1 where "P1 = d + length ds"
  have P1: "P1 = o' + p" "P1 \<le> length src" "drop p xs = drop P1 src"
    using d length_digit_run [of "drop d src"] unfolding ds [symmetric] by (simp_all add: P1_def p_def xs_def ac_simps)
  have "?P ok e"
  proof (cases "At src d = ch_0 \<and> IsDigit (At src (d + 1))")
    case True
    then have "ok = False" using assms(2) by (simp add: FloatToken_def d_def [symmetric] Let_def)
    then show ?thesis using True zero by blast
  next
    case False
    obtain mant nd where fi: "float_int src d = (P1, mant, nd)"
      using float_int_end [OF d(2) False] by (cases "float_int src d") (simp add: P1_def ds)
    note F = assms(2) [unfolded FloatToken_def Let_def d_def [symmetric] if_not_P [OF False] fi prod.case]
    have nz: "ds \<noteq> [] \<Longrightarrow> \<not> (head_byte ds = ch_0 \<and> 1 < length ds)" using False zero by blast
    consider "ds = []" | "ds \<noteq> []" "At src P1 = ch_dot" "\<not> IsDigit (At src (P1 + 1))"
      | "ds \<noteq> []" "At src P1 = ch_dot \<longrightarrow> IsDigit (At src (P1 + 1))" by blast
    then show ?thesis
    proof cases
      case 1
      then show ?thesis using F by (simp add: P1_def)
    next
      case 2
      then have "\<not> snd (frac_len (drop P1 src))"
        using digit_run_Nil_iff [of "drop (P1 + 1) src"] by (simp add: frac_len_def At_head tl_drop_Suc)
      moreover have "ok = False" using F 2 by (simp add: P1_def)
      ultimately show ?thesis by (simp add: P1(3))
    next
      case 3
      obtain P2 mant2 nd2 x where ff: "float_frac src P1 mant nd = (P2, mant2, nd2, x)" by (cases "float_frac src P1 mant nd") auto
      have fr: "frac_len (drop P1 src) = (P2 - P1, True)" "P1 \<le> P2" "P2 \<le> length src"
        using float_frac_end [OF P1(2) 3(2), of mant nd] ff by simp_all
      obtain P3 x3 cl where fe: "float_exp src P2 x = (P3, x3, cl)" by (cases "float_exp src P2 x") auto
      have P3: "P3 = P2 + (case exp_len (drop P2 src) of (l, ok) \<Rightarrow> if ok then l else 0)"
        using float_exp_end [OF fr(3), of x] fe by simp
      have c: "\<not> P1 = d" "\<not> (At src P1 = ch_dot \<and> \<not> IsDigit (At src (P1 + 1)))" using 3 by (auto simp: P1_def)
      have "ok" "e = P3" using F [unfolded if_not_P [OF c(1)] if_not_P [OF c(2)] ff fe prod.case]
        by (auto split: if_splits option.splits)
      moreover have "drop (p + fst (frac_len (drop p xs))) xs = drop P2 src"
        using fr P1 by (simp add: xs_def add.assoc [symmetric])
      ultimately show ?thesis using 3 nz P3 fr P1 by simp
    qed
  qed
  then show "ok \<longleftrightarrow> \<not> (ds = [] \<or> (head_byte ds = ch_0 \<and> 1 < length ds)) \<and> snd (frac_len (drop p xs))"
    "ok \<Longrightarrow> e = o' + p + fst (frac_len (drop p xs)) +
       (case exp_len (drop (p + fst (frac_len (drop p xs))) xs) of (l, okx) \<Rightarrow> if okx then l else 0)"
    by blast+
qed

lemma exp_start_bad: "exp_len xs = (l, False) \<Longrightarrow> IsNonDelim (head_byte xs)"
  by (auto simp: exp_len_def Let_def IsNonDelim_iff split: if_splits)

lemma FloatToken_number:
  assumes "o' \<le> length src" "FloatToken src o' = (f, e, True, exact)"
  shows "o' \<le> e" "e \<le> length src" "is_number (cut src o' e)"
proof -
  define xs where "xs = drop o' src"
  define m where "m = minus_len xs"
  define ds where "ds = digit_run (drop m xs)"
  define p where "p = m + length ds"
  define k where "k = fst (frac_len (drop p xs))"
  define l where "l = (case exp_len (drop (p + k) xs) of (l, okx) \<Rightarrow> if okx then l else 0)"
  have c: "ds \<noteq> []" "\<not> (head_byte ds = ch_0 \<and> 1 < length ds)" "frac_len (drop p xs) = (k, True)" "e = o' + p + k + l"
    using FloatToken_len [OF assms] by (auto simp: xs_def m_def ds_def p_def k_def l_def prod_eq_iff)
  have i: "int_part ds" using c(1,2) digit_run_all [of "drop m xs"] by (cases ds) (auto simp: int_part_def digits_def ds_def [symmetric])
  have f: "k \<le> length (drop p xs)" "frac_text (take k (drop p xs))" using frac_len_text [OF c(3)] by auto
  have x: "l \<le> length (drop (p + k) xs)" "exp_text (take l (drop (p + k) xs))"
    using exp_len_text [of "drop (p + k) xs"] by (auto simp: l_def exp_text_def split: prod.splits)
  have s: "take m xs = [] \<or> take m xs = [ch_minus]" by (cases xs) (auto simp: m_def minus_len_def)
  have "m \<le> length xs" "length ds \<le> length xs - m" using length_digit_run [of "drop m xs"] by (simp_all add: m_def ds_def)
  then have p: "p \<le> length xs" by (simp add: p_def)
  have "take (p + k + l) xs = take m xs @ ds @ take k (drop p xs) @ take l (drop (p + k) xs)"
    using digit_run_take [of "drop m xs"] unfolding p_def ds_def take_add drop_drop append_assoc by (simp add: add.commute)
  then have "is_number (take (p + k + l) xs)" using is_numberI [OF s i f(2) x(2)] by simp
  then show "is_number (cut src o' e)" by (simp add: cut_def xs_def c(4) add.assoc)
  show "o' \<le> e" by (simp add: c(4))
  show "e \<le> length src" using f(1) x(1) p assms(1) by (simp add: c(4) xs_def)
qed

lemma FloatToken_ValidNumber:
  assumes "o' \<le> length src" "FloatToken src o' = (f, e, ok, exact)"
  shows "ok \<and> \<not> IsNonDelim (At src e) \<longleftrightarrow> ValidNumber src o' = (e, True)" "\<not> ok \<Longrightarrow> \<not> snd (ValidNumber src o')"
proof -
  define xs where "xs = drop o' src"
  define m where "m = minus_len xs"
  define ds where "ds = digit_run (drop m xs)"
  define p where "p = m + length ds"
  obtain k fo where k: "frac_len (drop p xs) = (k, fo)" by fastforce
  obtain l xo where l: "exp_len (drop (p + k) xs) = (l, xo)" by fastforce
  have ok: "ok \<longleftrightarrow> \<not> (ds = [] \<or> (head_byte ds = ch_0 \<and> 1 < length ds)) \<and> fo"
    and e: "ok \<Longrightarrow> e = o' + p + k + (if xo then l else 0)"
    using FloatToken_len [OF assms] k l by (simp_all add: xs_def m_def ds_def p_def)
  have V: "number_len xs = (if \<not> ok then (fst (number_len xs), False)
      else if xo then (p + k + l, \<not> IsNonDelim (head_byte (drop (p + k + l) xs))) else (p + k + l, False))"
    using k l ok by (auto simp: number_len_def m_def ds_def p_def Let_def)
  have A: "At src (o' + j) = head_byte (drop j xs)" for j by (simp add: At_head xs_def add.commute)
  show "\<not> ok \<Longrightarrow> \<not> snd (ValidNumber src o')"
    using V ValidNumber_len [OF assms(1)] by (simp add: xs_def split: prod.splits)
  show "ok \<and> \<not> IsNonDelim (At src e) \<longleftrightarrow> ValidNumber src o' = (e, True)"
  proof (cases "ok \<and> xo")
    case True
    then show ?thesis using V e A [of "p + k + l"] ValidNumber_len [OF assms(1)] by (auto simp: xs_def [symmetric] add.assoc)
  next
    case False
    then have "\<not> snd (number_len xs)" using V by (metis snd_conv)
    then have "ValidNumber src o' \<noteq> (e, True)" using ValidNumber_len [OF assms(1)] by (auto simp: xs_def [symmetric] split: prod.splits)
    moreover have "IsNonDelim (At src e)" if ok
    proof -
      have xo: "\<not> xo" using False that by simp
      then have "e = o' + (p + k)" using e [OF that] by simp
      then show ?thesis using A [of "p + k"] exp_start_bad [of "drop (p + k) xs" l] l xo by simp
    qed
    ultimately show ?thesis by blast
  qed
qed

section \<open>Claims\<close>

text \<open>
  Claim C30. \<open>FloatToken\<close> reads a number: a token it takes is a JSON number, and with the caller's
  delimiter check it takes exactly the tokens \<open>ValidNumber\<close> takes, with the same end.
\<close>

theorem FloatToken_grammar:
  assumes "o' \<le> length src" "FloatToken src o' = (f, e, ok, exact)"
  shows "(ok \<longrightarrow> o' \<le> e \<and> e \<le> length src \<and> is_number (cut src o' e)) \<and>
    (ok \<and> \<not> IsNonDelim (At src e) \<longleftrightarrow> ValidNumber src o' = (e, True)) \<and> (\<not> ok \<longrightarrow> \<not> snd (ValidNumber src o'))"
  using FloatToken_ValidNumber [OF assms] FloatToken_number [OF assms(1), of f e exact] assms(2) by (cases ok) simp_all

theorem FloatToken_grammar_witness: "is_number (cut (lit ''[-1.5e2e]'') 1 7)"
proof -
  have "FloatToken (lit ''[-1.5e2e]'') 1 = (0xC062C00000000000, 7, True, True)" "1 \<le> length (lit ''[-1.5e2e]'')" by code_simp+
  from FloatToken_grammar [OF this(2,1)] show ?thesis by simp
qed

text \<open>
  Claim C32. The significand \<open>eiselLemire\<close> rounds is exact to its 54 bits: one or two multiplications
  give the product of the normalized mantissa and the 128-bit table row truncated to them, its top
  bit set.
\<close>

theorem el_product_truncates:
  assumes "d \<noteq> 0" "pow5Smallest \<le> q" "q \<le> pow5Largest"
    "el_product (push_bit (LeadingZeros64 d) d) (pow5Table ! nat (q - pow5Smallest)) = (hi, lo)"
  shows "uint (drop_bit (unat (drop_bit 63 hi) + 9) hi) =
      uint d * 2 ^ LeadingZeros64 d * pow5_ref q div 2 ^ (137 + unat (drop_bit 63 hi)) \<and>
    push_bit 53 1 \<le> drop_bit (unat (drop_bit 63 hi) + 9) hi \<and> drop_bit (unat (drop_bit 63 hi) + 9) hi < push_bit 54 1"
proof -
  define i where "i = push_bit (LeadingZeros64 d) d"
  define u where "u = unat (drop_bit 63 hi)"
  define N where "N = uint i * pow5_ref q"
  have row: "row_int (pow5Table ! nat (q - pow5Smallest)) = pow5_ref q" "2 ^ 127 \<le> pow5_ref q" "pow5_ref q < 2 ^ 128"
    using pow5Table_row [of q] assms(2,3) by (simp_all add: pow5Smallest_def pow5Largest_def)
  have i: "2 ^ 63 \<le> uint i" "uint i = uint d * 2 ^ LeadingZeros64 d" using LeadingZeros64_shift [OF assms(1)] by (simp_all add: i_def)
  have hi: "uint hi div 512 = N div 2 ^ 137" using el_product_parts [OF assms(4)] row(1) by (simp add: N_def i_def)
  have u: "int u = uint hi div 2 ^ 63" by (simp only: u_def uint_nat [symmetric] uint_drop_bit_div)
  have "uint (drop_bit (u + 9) hi) = uint hi div 2 ^ (u + 9)" by (rule uint_drop_bit_div)
  moreover have "uint hi div 2 ^ (u + 9) = uint hi div 512 div 2 ^ u" by (simp add: power_add mult.commute flip: zdiv_zmult2_eq)
  ultimately have m: "uint (drop_bit (u + 9) hi) = uint hi div 512 div 2 ^ u" by simp
  have N: "uint hi div 512 div 2 ^ u = N div 2 ^ (137 + u)" unfolding hi power_add by (simp add: zdiv_zmult2_eq)
  have "2 ^ 63 * 2 ^ 127 \<le> N" unfolding N_def using i(1) row(2) by (intro mult_mono) simp_all
  then have "2 ^ 53 \<le> N div 2 ^ 137" using zdiv_mono1 [of "2 ^ 63 * 2 ^ 127" N "2 ^ 137"] by simp
  then have h: "2 ^ 53 \<le> uint hi div 512" unfolding hi .
  have hi2: "uint hi < 2 ^ 64" using uint_lt2p [of hi] by simp
  have "u = 0 \<and> uint hi < 2 ^ 63 \<or> u = 1 \<and> 2 ^ 63 \<le> uint hi" using u hi2 by (auto simp: not_le)
  then have b: "2 ^ 53 \<le> uint (drop_bit (u + 9) hi)" "uint (drop_bit (u + 9) hi) < 2 ^ 54"
    using h hi2 unfolding m by (auto simp: zdiv_zmult2_eq [symmetric])
  have w: "uint (push_bit 53 1 :: u64) = 2 ^ 53" "uint (push_bit 54 1 :: u64) = 2 ^ 54" by simp_all
  show ?thesis
    using b m N unfolding u_def [symmetric] word_le_def word_less_def w N_def i(2) by simp
qed

theorem el_product_truncates_witness:
  "el_product (push_bit (LeadingZeros64 3) 3) (pow5Table ! 343) = (0x7800000000000000, 0) \<and>
   push_bit 53 1 \<le> (drop_bit 9 0x7800000000000000 :: u64)"
proof -
  have r: "pow5Table ! 343 = (0xa000000000000000, 0)"
    by (simp add: pow5Table_def nth_append pow5Rows0_def pow5Rows1_def pow5Rows2_def)
  have v: "el_product (push_bit (LeadingZeros64 3) 3) (0xa000000000000000, 0) = (0x7800000000000000, 0)" by code_simp
  then have "el_product (push_bit (LeadingZeros64 3) 3) (pow5Table ! nat (1 - pow5Smallest)) = (0x7800000000000000, 0)"
    by (simp add: pow5Smallest_def r)
  from el_product_truncates [OF _ _ _ this] show ?thesis using v by (simp add: pow5Smallest_def pow5Largest_def r)
qed

end
