(* ===== verification/Extent.thy ===== *)
theory Extent
  imports Walk
begin

text \<open>
  The extent scanner of \<^verbatim>\<open>internal/gdec/extent.go\<close>: it finds the end of the JSON value at an offset, over
  a buffer that may still grow. The scanner is a record; \<open>ExtentScan\<close> is its \<^verbatim>\<open>Scan\<close>, returning the new
  record and the two results. Inside a container or string it walks the quotes, backslashes and
  brackets of eight bytes from one set of masks (\<open>ext_word\<close>), then the rest byte by byte (\<open>ext_loop\<close>);
  both end in \<open>Found\<close> with the value's end or in \<open>More\<close> with the offset and the loop's locals.

  The word walk is shown equal to the byte walk; the byte walk can be cut anywhere and resumed, which
  is what the locale \<open>resumable\<close> asks of a scanner; and on a value of the grammar it stops at its end.
\<close>

section \<open>The scanner\<close>

record ExtentScanner =
  es_Pos :: nat
  es_depth :: int
  es_started :: bool
  es_scalar :: bool
  es_inStr :: bool
  es_esc :: bool

datatype extent_result = Found nat | More nat int bool

text \<open>One pass of the byte loop, and the loop.\<close>

definition ext_step :: "byte \<Rightarrow> nat \<Rightarrow> int \<Rightarrow> bool \<Rightarrow> extent_result" where
  "ext_step ch i d ins =
     (if ins then
        (if ch = ch_bslash then More (i + 2) d ins
         else if ch = ch_quote then (if d = 0 then Found (i + 1) else More (i + 1) d False)
         else More (i + 1) d ins)
      else if ch = ch_quote then More (i + 1) d True
      else if ch = ch_lbrace \<or> ch = ch_lbrack then More (i + 1) (d + 1) ins
      else if ch = ch_rbrace \<or> ch = ch_rbrack then
        (if d - 1 = 0 then Found (i + 1) else More (i + 1) (d - 1) ins)
      else More (i + 1) d ins)"

lemma ext_step_next: "ext_step ch i d s = More i' d' s' \<Longrightarrow> i < i'"
  by (auto simp: ext_step_def split: if_splits)

function ext_loop :: "bytes \<Rightarrow> nat \<Rightarrow> int \<Rightarrow> bool \<Rightarrow> extent_result" where
  "ext_loop b i d ins =
     (if i < length b then
        case ext_step (b ! i) i d ins of
          Found e \<Rightarrow> Found e
        | More i d ins \<Rightarrow> ext_loop b i d ins
      else More i d ins)"
  by pat_completeness auto
termination by (relation "measure (\<lambda>(b, i, d, s). length b - i)") (auto dest!: ext_step_next)

declare ext_loop.simps [simp del]

text \<open>\<^verbatim>\<open>m & -m\<close> is the lowest flag.\<close>

lemma bit_neg_low:
  fixes z :: int
  shows "bit z k \<Longrightarrow> (\<And>j. j < k \<Longrightarrow> \<not> bit z j) \<Longrightarrow> bit (- z) n \<longleftrightarrow> n = k \<or> (k < n \<and> \<not> bit z n)"
proof (induction k arbitrary: z n)
  case 0
  then have "odd z" by (simp add: bit_0)
  then have z: "z = 2 * (z div 2) + 1" by simp
  have "- z = 2 * NOT (z div 2) + 1" by (subst z) (simp add: not_int_def)
  then show ?case using \<open>odd z\<close> by (cases n) (simp_all add: bit_0 bit_Suc not_int_def[symmetric] bit_not_int_iff)
next
  case (Suc k)
  then have "even z" using bit_0 by blast
  then obtain y where y: "z = 2 * y" by blast
  have "bit y k" "\<And>j. j < k \<Longrightarrow> \<not> bit y j" using Suc.prems by (auto simp: y bit_Suc dest: Suc.prems(2) [OF Suc_mono])
  then have "bit (- y) m \<longleftrightarrow> m = k \<or> (k < m \<and> \<not> bit y m)" for m by (rule Suc.IH)
  moreover have "- z div 2 = - y" unfolding y by (metis minus_mult_right nonzero_mult_div_cancel_left zero_neq_numeral)
  ultimately show ?case using \<open>even z\<close> by (cases n) (simp_all add: bit_0 bit_Suc y)
qed

lemma low_bit:
  fixes m :: u64
  assumes "bit m k" "\<And>j. j < k \<Longrightarrow> \<not> bit m j"
  shows "m AND - m = push_bit k 1"
proof (rule bit_eqI)
  fix n
  assume "possible_bit TYPE(64 word) n"
  then have n: "n < 64" by (simp add: possible_bit_def)
  have "- m = word_of_int (- uint m)" by simp
  then have "bit (- m) n \<longleftrightarrow> bit (- uint m) n" using n by (simp only: bit_word_of_int_iff) simp
  then show "bit (m AND - m) n \<longleftrightarrow> bit (push_bit k 1 :: u64) n"
    using bit_neg_low [of "uint m" k n] assms n bit_imp_le_length [OF assms(1)]
    by (auto simp: bit_and_iff bit_uint_iff bit_exp_iff possible_bit_def)
qed

lemma least_bit:
  fixes m :: u64
  assumes "m \<noteq> 0"
  obtains k where "k < 64" "bit m k" "\<And>j. j < k \<Longrightarrow> \<not> bit m j" "m AND - m = push_bit k 1"
proof -
  obtain n where "bit m n" using assms by (metis bit_eq_iff bit_0_eq bot_apply bot_bool_def)
  then obtain k where k: "bit m k" "\<And>i. i < k \<Longrightarrow> \<not> bit m i" using exists_least_iff [of "bit m"] by blast
  then show ?thesis using that low_bit bit_imp_le_length [OF k(1)] by simp
qed

lemma uint_less_submask:
  fixes m m' :: u64
  assumes "\<And>n. bit m' n \<Longrightarrow> bit m n" "bit m k" "\<not> bit m' k"
  shows "uint m' < uint m"
proof -
  have "m' = m AND m'" by (rule bit_eqI) (use assms(1) in \<open>auto simp: bit_and_iff\<close>)
  then have "m' \<le> m" by (metis word_and_le2)
  moreover have "m' \<noteq> m" using assms by blast
  ultimately show ?thesis by (simp add: word_le_def word_uint_eq_iff)
qed

lemma low_bit_less:
  fixes m :: u64
  assumes "m \<noteq> 0"
  shows "unat ((m XOR (m AND - m)) AND k) < unat m" "unat (m XOR (m AND - m)) < unat m"
proof -
  obtain j where j: "j < 64" "bit m j" "\<And>i. i < j \<Longrightarrow> \<not> bit m i" "m AND - m = push_bit j 1" by (rule least_bit [OF assms]) blast
  have "uint ((m XOR (m AND - m)) AND k) < uint m" for k
    by (rule uint_less_submask [of _ _ j]) (use j in \<open>auto simp: bit_simps\<close>)
  from this [of k] this [of "-1"] show "unat ((m XOR (m AND - m)) AND k) < unat m" "unat (m XOR (m AND - m)) < unat m"
    by (simp_all add: unat_mono word_less_def)
qed

text \<open>
  The walk over the flags of one word, lowest first. \<open>q\<close>, \<open>e\<close>, \<open>op\<close> and \<open>c\<close> flag quotes, backslashes,
  opening and closing brackets; \<open>m\<close> holds the flags left.
\<close>

function ext_word ::
    "u64 \<Rightarrow> u64 \<Rightarrow> u64 \<Rightarrow> u64 \<Rightarrow> nat \<Rightarrow> nat \<Rightarrow> int \<Rightarrow> bool \<Rightarrow> extent_result" where
  "ext_word q e op m i nxt d ins =
     (if m = 0 then More nxt d ins
      else
        let b = m AND - m; m = m XOR b; en = i + TrailingZeros64 b div 8 + 1 in
        if ins \<and> e AND b \<noteq> 0 then
          ext_word q e op (m AND NOT (push_bit 8 b)) i (if b = push_bit 63 1 then nxt + 1 else nxt) d ins
        else if q AND b \<noteq> 0 then
          (if ins \<and> d = 0 then Found en else ext_word q e op m i nxt d (\<not> ins))
        else if ins \<or> e AND b \<noteq> 0 then ext_word q e op m i nxt d ins
        else if op AND b \<noteq> 0 then ext_word q e op m i nxt (d + 1) ins
        else if d - 1 = 0 then Found en
        else ext_word q e op m i nxt (d - 1) ins)"
  by pat_completeness auto
termination
  by (relation "measure (\<lambda>(q, e, op, m, i, nxt, d, s). unat m)")
    (simp_all only: wf_measure in_measure prod.case low_bit_less not_False_eq_True)

declare ext_word.simps [simp del]

lemma ext_word_next: "ext_word q e op m i nxt d s = More n d' s' \<Longrightarrow> nxt \<le> n"
proof (induction q e op m i nxt d s rule: ext_word.induct)
  case (1 q e op m i nxt d s)
  define b where "b = m AND - m"
  define m' where "m' = m XOR b"
  note IH = "1.IH" [OF _ b_def m'_def refl]
  show ?case
    using "1.prems" unfolding ext_word.simps [of q e op m i nxt d s] Let_def b_def [symmetric] m'_def [symmetric]
    by (auto split: if_splits dest: IH)
qed

function ext_words :: "bytes \<Rightarrow> nat \<Rightarrow> int \<Rightarrow> bool \<Rightarrow> extent_result" where
  "ext_words b i d ins =
     (if i + 8 \<le> length b then
        let w = load64 b i; f = w OR lsb * 0x20;
            q = eqMask w ch_quote; e = eqMask w ch_bslash; op = eqMask f ch_lbrace; c = eqMask f ch_rbrace in
        case ext_word q e op (q OR e OR op OR c) i (i + 8) d ins of
          Found en \<Rightarrow> Found en
        | More i d ins \<Rightarrow> ext_words b i d ins
      else ext_loop b i d ins)"
  by pat_completeness auto
termination
  by (relation "measure (\<lambda>(b, i, d, s). length b - i)") (auto dest!: ext_word_next)

declare ext_words.simps [simp del]

text \<open>The scan after the first byte, from offset \<open>i\<close>; what the first byte sets; and the scan.\<close>

definition scan_on :: "ExtentScanner \<Rightarrow> nat \<Rightarrow> bytes \<Rightarrow> bool \<Rightarrow> ExtentScanner \<times> nat \<times> bool" where
  "scan_on s i b eof =
     (if es_scalar s then
        (let e = find_from (\<lambda>c. \<not> IsNonDelim c) b i in
         if e < length b then (s, e, True)
         else let s = s\<lparr>es_Pos := max i (length b)\<rparr> in if eof then (s, length b, True) else (s, 0, False))
      else
        let i = (if es_esc s then i + 1 else i) in
        case ext_words b i (es_depth s) (es_inStr s) of
          Found e \<Rightarrow> (s, e, True)
        | More i d ins \<Rightarrow>
            (s\<lparr>es_esc := length b < i, es_Pos := min i (length b), es_depth := d, es_inStr := ins\<rparr>, 0, False))"

definition first_byte :: "byte \<Rightarrow> ExtentScanner \<Rightarrow> ExtentScanner" where
  "first_byte c s =
     (let s = s\<lparr>es_started := True\<rparr> in
      if c = ch_quote then s\<lparr>es_inStr := True\<rparr>
      else if c = ch_lbrace \<or> c = ch_lbrack then s\<lparr>es_depth := 1\<rparr>
      else s\<lparr>es_scalar := True\<rparr>)"

definition ExtentScan :: "ExtentScanner \<Rightarrow> bytes \<Rightarrow> bool \<Rightarrow> ExtentScanner \<times> nat \<times> bool" where
  "ExtentScan s b eof =
     (let i = es_Pos s in
      if es_started s then scan_on s i b eof
      else if length b \<le> i then (s, 0, False)
      else if b ! i \<in> {ch_rbrace, ch_rbrack, ch_comma} then (s\<lparr>es_started := True\<rparr>, i + 1, True)
      else scan_on (first_byte (b ! i) s) (i + 1) b eof)"

section \<open>The byte walk\<close>

lemma ext_loop_split:
  "ext_loop (xs @ ys) i d s =
     (case ext_loop xs i d s of Found e \<Rightarrow> Found e | More i d s \<Rightarrow> ext_loop (xs @ ys) i d s)"
proof (induction xs i d s rule: ext_loop.induct)
  case (1 xs i d s)
  show ?case
  proof (cases "i < length xs")
    case True
    then have "(xs @ ys) ! i = xs ! i" "i < length (xs @ ys)" by (simp_all add: nth_append)
    then show ?thesis using "1.IH" True unfolding ext_loop.simps [of "xs @ ys" i] ext_loop.simps [of xs i]
      by (cases "ext_step (xs ! i) i d s") simp_all
  qed (simp add: ext_loop.simps [of xs i])
qed

definition flagged :: "byte \<Rightarrow> bool" where
  "flagged c \<longleftrightarrow> c \<in> {ch_quote, ch_bslash, ch_lbrace, ch_lbrack, ch_rbrace, ch_rbrack}"

lemma ext_loop_plain:
  assumes "i \<le> k" "k \<le> length b" "\<And>j. i \<le> j \<Longrightarrow> j < k \<Longrightarrow> \<not> flagged (b ! j)"
  shows "ext_loop b i d s = ext_loop b k d s"
  using assms
proof (induction "k - i" arbitrary: i)
  case (Suc n)
  then have i: "i < length b" "\<not> flagged (b ! i)" by auto
  then have "ext_loop b i d s = ext_loop b (i + 1) d s" by (simp add: ext_loop.simps [of b i] ext_step_def flagged_def)
  also have "\<dots> = ext_loop b k d s" using Suc by (intro Suc.hyps) simp_all
  finally show ?case .
qed simp

section \<open>The word walk is the byte walk\<close>

definition flags :: "(byte \<Rightarrow> bool) \<Rightarrow> bytes \<Rightarrow> u64 \<Rightarrow> bool" where
  "flags P bs m \<longleftrightarrow> (\<forall>n. bit m n \<longleftrightarrow> n < 64 \<and> n mod 8 = 7 \<and> P (bs ! (n div 8)))"

definition flags_from :: "nat \<Rightarrow> bytes \<Rightarrow> u64 \<Rightarrow> bool" where
  "flags_from j bs m \<longleftrightarrow> (\<forall>n. bit m n \<longleftrightarrow> n < 64 \<and> n mod 8 = 7 \<and> j \<le> n div 8 \<and> flagged (bs ! (n div 8)))"

lemma eqMask_flags: "length bs = 8 \<Longrightarrow> flags (\<lambda>b. b = c) bs (eqMask (le64 bs) c)"
  by (simp add: flags_def eqMask_bit)

lemma fold_bit5_decided:
  "all_bytes (\<lambda>b. (b OR 0x20 = ch_lbrace \<longleftrightarrow> b = ch_lbrace \<or> b = ch_lbrack) \<and> (b OR 0x20 = ch_rbrace \<longleftrightarrow> b = ch_rbrace \<or> b = ch_rbrack))"
  by code_simp

lemma eqMask_fold_flags:
  assumes "length bs = 8"
  shows "flags (\<lambda>b. b = ch_lbrace \<or> b = ch_lbrack) bs (eqMask (le64 bs OR lsb * 0x20) ch_lbrace)"
    "flags (\<lambda>b. b = ch_rbrace \<or> b = ch_rbrack) bs (eqMask (le64 bs OR lsb * 0x20) ch_rbrace)"
proof -
  let ?cs = "map2 (OR) bs (replicate 8 0x20)"
  have l: "length ?cs = 8" using assms by simp
  have "lsb * 0x20 = le64 (replicate 8 0x20)" using lsb_mult [of "0x20"] by simp
  then have w: "le64 bs OR lsb * 0x20 = le64 ?cs" using assms by (simp add: le64_or)
  have n: "?cs ! k = bs ! k OR 0x20" if "k < 8" for k using that assms by simp
  note f = all_bytesD [OF fold_bit5_decided]
  show "flags (\<lambda>b. b = ch_lbrace \<or> b = ch_lbrack) bs (eqMask (le64 bs OR lsb * 0x20) ch_lbrace)"
    unfolding w flags_def eqMask_bit [OF l] using n f by (auto simp: less_mult_imp_div_less)
  show "flags (\<lambda>b. b = ch_rbrace \<or> b = ch_rbrack) bs (eqMask (le64 bs OR lsb * 0x20) ch_rbrace)"
    unfolding w flags_def eqMask_bit [OF l] using n f by (auto simp: less_mult_imp_div_less)
qed

lemma flags_and_bit:
  assumes "flags P bs m" "k < 8"
  shows "m AND push_bit (8 * k + 7) 1 \<noteq> 0 \<longleftrightarrow> P (bs ! k)"
proof -
  have "m AND push_bit (8 * k + 7) 1 \<noteq> 0 \<longleftrightarrow> bit m (8 * k + 7)"
  proof
    assume "m AND push_bit (8 * k + 7) 1 \<noteq> 0"
    then obtain n where "bit (m AND push_bit (8 * k + 7) 1) n" by (metis bit_eq_iff bit_0_eq bot_apply bot_bool_def)
    then show "bit m (8 * k + 7)" by (auto simp: bit_and_iff bit_exp_iff)
  next
    assume "bit m (8 * k + 7)"
    then have "bit (m AND push_bit (8 * k + 7) 1) (8 * k + 7)" using assms(2) by (simp add: bit_simps)
    then show "m AND push_bit (8 * k + 7) 1 \<noteq> 0" by force
  qed
  also have "\<dots> \<longleftrightarrow> P (bs ! k)" using assms by (simp add: flags_def)
  finally show ?thesis .
qed

lemma TrailingZeros64_push: "k < 64 \<Longrightarrow> TrailingZeros64 (push_bit k 1) = k"
  by (rule TrailingZeros64_eqI) (auto simp: bit_simps)

lemma flags_from_low:
  assumes "flags_from j bs m" "m \<noteq> 0"
  obtains k where "j \<le> k" "k < 8" "flagged (bs ! k)" "\<And>i. j \<le> i \<Longrightarrow> i < k \<Longrightarrow> \<not> flagged (bs ! i)"
    "m AND - m = push_bit (8 * k + 7) 1" "flags_from (k + 1) bs (m XOR (m AND - m))"
    "flags_from (k + 2) bs ((m XOR (m AND - m)) AND NOT (push_bit 8 (m AND - m)))"
proof -
  obtain n where n: "n < 64" "bit m n" "\<And>i. i < n \<Longrightarrow> \<not> bit m i" "m AND - m = push_bit n 1" by (rule least_bit [OF assms(2)]) blast
  define k where "k = n div 8"
  have k: "n = 8 * k + 7" "j \<le> k" "flagged (bs ! k)" "k < 8"
  proof -
    have "n mod 8 = 7" "j \<le> n div 8" "flagged (bs ! (n div 8))" using n(2) assms(1) by (simp_all add: flags_from_def)
    moreover from this(1) have "n = 8 * (n div 8) + 7" by presburger
    ultimately show "n = 8 * k + 7" "j \<le> k" "flagged (bs ! k)" "k < 8" using n(1) by (simp_all add: k_def less_mult_imp_div_less)
  qed
  have f: "bit m i \<longleftrightarrow> i < 64 \<and> i mod 8 = 7 \<and> j \<le> i div 8 \<and> flagged (bs ! (i div 8))" for i using assms(1) by (simp add: flags_from_def)
  have low: "\<not> flagged (bs ! i)" if "j \<le> i" "i < k" for i using n(3) [of "8 * i + 7"] f [of "8 * i + 7"] that k by auto
  have d: "k + 1 \<le> i div 8 \<longleftrightarrow> n < i" "k + 2 \<le> i div 8 \<longleftrightarrow> n < i \<and> i \<noteq> n + 8" if "i mod 8 = 7" for i
  proof -
    define x where "x = i div 8"
    have "i = 8 * x + 7" using that unfolding x_def by presburger
    then show "k + 1 \<le> i div 8 \<longleftrightarrow> n < i" "k + 2 \<le> i div 8 \<longleftrightarrow> n < i \<and> i \<noteq> n + 8"
      unfolding k(1) x_def [symmetric] by auto
  qed
  have p: "bit (push_bit n 1 :: u64) i \<longleftrightarrow> i = n" for i using n(1) by (auto simp: bit_exp_iff possible_bit_def)
  have p8: "bit (push_bit 8 (push_bit n 1) :: u64) i \<longleftrightarrow> i = n + 8 \<and> i < 64" for i
    unfolding bit_push_bit_iff [of 8] p by auto
  have x: "bit (m XOR (m AND - m)) i \<longleftrightarrow> bit m i \<and> n < i" for i
    unfolding n(4) bit_xor_iff p using n(2) n(3) [of i] by (cases i n rule: linorder_cases) auto
  have "flags_from (k + 1) bs (m XOR (m AND - m))"
    unfolding flags_from_def x f using d(1) k(1,2) by (auto simp del: One_nat_def)
  moreover have "flags_from (k + 2) bs ((m XOR (m AND - m)) AND NOT (push_bit 8 (m AND - m)))"
    unfolding flags_from_def bit_and_iff bit_not_iff x f unfolding n(4) p8 using d k(1,2) by (auto simp: possible_bit_def)
  ultimately show ?thesis using that [OF k(2,4,3) low] n(4) k(1) by simp
qed

lemma ext_word_eq:
  assumes "length bs = 8" "flags (\<lambda>b. b = ch_quote) bs q" "flags (\<lambda>b. b = ch_bslash) bs e"
    "flags (\<lambda>b. b = ch_lbrace \<or> b = ch_lbrack) bs op"
  shows "flags_from j bs m \<Longrightarrow> j \<le> 9 \<Longrightarrow> length pre = i \<Longrightarrow>
    ext_word q e op m i (i + max 8 j) d s = ext_loop (pre @ bs) (i + j) d s"
proof (induction "9 - j" arbitrary: j m d s rule: less_induct)
  case less
  have b: "(pre @ bs) ! (i + k) = bs ! k" for k using less.prems(3) by (simp add: nth_append)
  have plain: "ext_loop (pre @ bs) (i + j) d s = ext_loop (pre @ bs) (i + k) d s"
    if "j \<le> k" "k \<le> 8" "\<And>i. j \<le> i \<Longrightarrow> i < k \<Longrightarrow> \<not> flagged (bs ! i)" for k
  proof (rule ext_loop_plain)
    fix x
    assume "i + j \<le> x" "x < i + k"
    then show "\<not> flagged ((pre @ bs) ! x)" using that(3) [of "x - i"] b [of "x - i"] by simp
  qed (use that less.prems(3) assms(1) in simp_all)
  show ?case
  proof (cases "m = 0")
    case True
    then have no: "\<not> flagged (bs ! k)" if "j \<le> k" "k < 8" for k
      using less.prems(1) [unfolded flags_from_def, rule_format, of "8 * k + 7"] that by auto
    have "ext_loop (pre @ bs) (i + j) d s = More (i + max 8 j) d s"
    proof (cases "j \<le> 8")
      case True
      have "ext_loop (pre @ bs) (i + j) d s = ext_loop (pre @ bs) (i + 8) d s"
        using True no by (intro plain) simp_all
      then show ?thesis using True assms(1) less.prems(3) by (simp add: ext_loop.simps [of _ "i + 8"])
    next
      case False
      then show ?thesis using assms(1) less.prems(3) by (simp add: ext_loop.simps [of _ "i + j"])
    qed
    then show ?thesis using True by (simp add: ext_word.simps)
  next
    case False
    obtain k where k: "j \<le> k" "k < 8" "flagged (bs ! k)" "\<And>i. j \<le> i \<Longrightarrow> i < k \<Longrightarrow> \<not> flagged (bs ! i)"
      "m AND - m = push_bit (8 * k + 7) 1" "flags_from (k + 1) bs (m XOR (m AND - m))"
      "flags_from (k + 2) bs ((m XOR (m AND - m)) AND NOT (push_bit 8 (m AND - m)))"
      by (rule flags_from_low [OF less.prems(1) False]) blast
    define c where "c = m AND - m"
    define m' where "m' = m XOR c"
    define c8 where "c8 = push_bit 8 c"
    have l: "ext_loop (pre @ bs) (i + j) d s = ext_loop (pre @ bs) (i + k) d s"
      using k(1,2,4) by (intro plain) simp_all
    have fl: "q AND c \<noteq> 0 \<longleftrightarrow> bs ! k = ch_quote" "e AND c \<noteq> 0 \<longleftrightarrow> bs ! k = ch_bslash"
      "op AND c \<noteq> 0 \<longleftrightarrow> bs ! k = ch_lbrace \<or> bs ! k = ch_lbrack"
      unfolding c_def k(5) using assms(2-4) k(2) by (simp_all only: flags_and_bit)
    have tz: "i + TrailingZeros64 c div 8 + 1 = i + k + 1" unfolding c_def k(5) using k(2) by (simp add: TrailingZeros64_push del: push_bit_of_1)
    have c63: "c = push_bit 63 1 \<longleftrightarrow> k = 7" 
      using TrailingZeros64_push [of "8 * k + 7"] TrailingZeros64_push [of 63] k(2) unfolding c_def k(5) by (auto simp del: push_bit_of_1)
    have IH1: "ext_word q e op m' i (i + 8) d s = ext_loop (pre @ bs) (i + k + 1) d s" for d s
      
    proof -
      have "max 8 (k + 1) = 8" using k(2) by simp
      then show ?thesis using less.hyps [of "k + 1" m' d s] k(1,2,6) less.prems by (simp add: m'_def c_def add.assoc)
    qed
    have IH2: "ext_word q e op (m' AND NOT c8) i (if k = 7 then i + 8 + 1 else i + 8) d s = ext_loop (pre @ bs) (i + k + 2) d s" for d s
      
    proof -
      have "max 8 (k + 2) = (if k = 7 then 9 else 8)" using k(2) by auto
      then show ?thesis using less.hyps [of "k + 2" "m' AND NOT c8" d s] k(1,2,7) less.prems
        by (simp add: m'_def c_def c8_def ac_simps split: if_splits)
    qed
    have step: "ext_loop (pre @ bs) (i + k) d s = (case ext_step (bs ! k) (i + k) d s of Found e \<Rightarrow> Found e | More i d s \<Rightarrow> ext_loop (pre @ bs) i d s)"
      using k(2) assms(1) less.prems(3) b by (simp add: ext_loop.simps [of "pre @ bs" "i + k"])
    have mx: "max 8 j = 8" using k by simp
    show ?thesis
      unfolding l step mx unfolding ext_word.simps [of q e op m] Let_def c_def [symmetric] m'_def [symmetric] c8_def [symmetric] fl tz c63
      using False k(3) by (auto simp: ext_step_def IH1 IH2 flagged_def)
  qed
qed

lemma ext_words_eq: "ext_words b i d s = ext_loop b i d s"
proof (induction b i d s rule: ext_words.induct)
  case (1 b i d s)
  show ?case
  proof (cases "i + 8 \<le> length b")
    case True
    let ?bs = "take 8 (drop i b)"
    define w where "w = load64 b i"
    define f where "f = w OR lsb * 0x20"
    define q where "q = eqMask w ch_quote"
    define e where "e = eqMask w ch_bslash"
    define op where "op = eqMask f ch_lbrace"
    define c where "c = eqMask f ch_rbrace"
    have l: "length ?bs = 8" using True by simp
    have F: "flags (\<lambda>b. b = ch_quote) ?bs q" "flags (\<lambda>b. b = ch_bslash) ?bs e" "flags (\<lambda>b. b = ch_lbrace \<or> b = ch_lbrack) ?bs op"
      "flags (\<lambda>b. b = ch_rbrace \<or> b = ch_rbrack) ?bs c"
      using eqMask_flags [OF l] eqMask_fold_flags [OF l] by (simp_all add: q_def e_def op_def c_def f_def w_def load64_def)
    have m: "flags_from 0 ?bs (q OR e OR op OR c)"
      using F unfolding flags_def flags_from_def flagged_def bit_or_iff by blast
    have p: "take i b @ ?bs = take (i + 8) b" by (simp add: take_add)
    have W: "ext_word q e op (q OR e OR op OR c) i (i + 8) d s = ext_loop (take (i + 8) b) i d s"
      using ext_word_eq [OF l F(1,2,3) m, of "take i b" i d s] True p by simp
    have "ext_words b i d s = (case ext_loop (take (i + 8) b) i d s of Found e \<Rightarrow> Found e | More i d s \<Rightarrow> ext_words b i d s)"
      using True W unfolding ext_words.simps [of b i] Let_def
      by (simp add: w_def [symmetric] f_def [symmetric] q_def [symmetric] e_def [symmetric] op_def [symmetric] c_def [symmetric])
    also have "\<dots> = (case ext_loop (take (i + 8) b) i d s of Found e \<Rightarrow> Found e | More i d s \<Rightarrow> ext_loop b i d s)"
      using "1.IH" [OF True refl refl refl refl refl refl] W
      by (auto simp: w_def f_def q_def e_def op_def c_def split: extent_result.splits)
    also have "\<dots> = ext_loop b i d s" using ext_loop_split [of "take (i + 8) b" "drop (i + 8) b" i d s] unfolding append_take_drop_id by simp
    finally show ?thesis .
  qed (simp add: ext_words.simps [of b i])
qed

section \<open>Resumption\<close>

text \<open>
  What the scanner promises a caller that refills its buffer: a scan that has not ended can be
  continued over a longer buffer as if it had read that buffer from the start.
\<close>

fun refills :: "('s \<Rightarrow> bytes \<Rightarrow> bool \<Rightarrow> 's \<times> nat \<times> bool) \<Rightarrow> 's \<Rightarrow> bytes \<Rightarrow> bytes list \<Rightarrow> nat \<times> bool" where
  "refills scan s b [] = snd (scan s b True)"
| "refills scan s b (c # cs) =
     (case scan s b False of (s', e, ok) \<Rightarrow> if ok then (e, ok) else refills scan s' (b @ c) cs)"

locale resumable =
  fixes scan :: "'s \<Rightarrow> bytes \<Rightarrow> bool \<Rightarrow> 's \<times> nat \<times> bool" and ok_at :: "'s \<Rightarrow> bytes \<Rightarrow> bool"
  assumes grow: "ok_at s b \<Longrightarrow> ok_at s (b @ c)"
    and keep: "ok_at s b \<Longrightarrow> scan s b False = (s', e, False) \<Longrightarrow> ok_at s' b"
    and resume: "ok_at s b \<Longrightarrow> scan s b False = (s', e, False) \<Longrightarrow> snd (scan s' (b @ c) eof) = snd (scan s (b @ c) eof)"
    and final: "ok_at s b \<Longrightarrow> scan s b False = (s', e, True) \<Longrightarrow> snd (scan s (b @ c) eof) = (e, True)"
begin

lemma refills_eq: "ok_at s b \<Longrightarrow> refills scan s b cs = snd (scan s (b @ concat cs) True)"
proof (induction cs arbitrary: s b)
  case (Cons c cs)
  obtain s' e ok where r: "scan s b False = (s', e, ok)" by (rule prod_cases3)
  show ?case
  proof (cases ok)
    case True
    then show ?thesis using r final [OF Cons.prems, of s' e "c @ concat cs" True] by simp
  next
    case False
    then have "ok_at s' b" using keep [OF Cons.prems] r by simp
    then have "refills scan s' (b @ c) cs = snd (scan s' ((b @ c) @ concat cs) True)" by (rule Cons.IH [OF grow])
    moreover have "snd (scan s' (b @ c @ concat cs) True) = snd (scan s (b @ c @ concat cs) True)"
      using r False by (intro resume [OF Cons.prems]) simp
    ultimately show ?thesis using r False by simp
  qed
qed simp

end

lemma ext_loop_end: "ext_loop b i d s = More i' d' s' \<Longrightarrow> i \<le> length b + 1 \<Longrightarrow> length b \<le> i' \<and> i' \<le> length b + 1"
proof (induction b i d s rule: ext_loop.induct)
  case (1 b i d s)
  show ?case
  proof (cases "i < length b")
    case True
    then obtain j dj sj where j: "ext_step (b ! i) i d s = More j dj sj" "ext_loop b j dj sj = More i' d' s'"
      using "1.prems"(1) by (auto simp: ext_loop.simps [of b i] split: extent_result.splits)
    then have "j \<le> length b + 1" using True by (auto simp: ext_step_def split: if_splits)
    with j True show ?thesis by (intro "1.IH") simp_all
  qed (use "1.prems" in \<open>simp add: ext_loop.simps [of b i]\<close>)
qed

lemma find_from_append:
  "find_from P xs i < length xs \<Longrightarrow> find_from P (xs @ ys) i = find_from P xs i"
  "find_from P xs i = length xs \<Longrightarrow> i \<le> length xs \<Longrightarrow> find_from P (xs @ ys) i = find_from P (xs @ ys) (length xs)"
proof -
  assume a: "find_from P xs i < length xs"
  then have i: "i \<le> find_from P xs i" by (cases "i \<le> length xs") (simp_all add: find_from_ge)
  show "find_from P (xs @ ys) i = find_from P xs i"
  proof (rule find_from_eqI [OF i])
    show "P ((xs @ ys) ! find_from P xs i)" using a find_from_found [OF a] by (simp add: nth_append)
    fix k
    assume "i \<le> k" "k < find_from P xs i"
    then show "\<not> P ((xs @ ys) ! k)" using a find_from_before [of i k P xs] by (simp add: nth_append)
  qed (use a in simp)
next
  assume a: "find_from P xs i = length xs" "i \<le> length xs"
  show "find_from P (xs @ ys) i = find_from P (xs @ ys) (length xs)"
  proof (rule find_from_skip [OF a(2)])
    fix k
    assume "i \<le> k" "k < length xs"
    then show "\<not> P ((xs @ ys) ! k)" using a find_from_before [of i k P xs] by (simp add: nth_append)
  qed simp
qed

lemma scan_on_final:
  assumes "scan_on s i b False = (s', e, True)"
  shows "scan_on s i (b @ c) eof = (s, e, True)"
proof (cases "es_scalar s")
  case True
  then show ?thesis using assms find_from_append(1) [of "\<lambda>c. \<not> IsNonDelim c" b i c]
    by (auto simp: scan_on_def Let_def split: if_splits)
next
  case False
  define j where "j = (if es_esc s then i + 1 else i)"
  have "ext_loop b j (es_depth s) (es_inStr s) = Found e"
    using assms False by (auto simp: scan_on_def Let_def ext_words_eq j_def [symmetric] split: extent_result.splits)
  then have "ext_loop (b @ c) j (es_depth s) (es_inStr s) = Found e" by (simp add: ext_loop_split)
  then show ?thesis using False by (simp add: scan_on_def Let_def ext_words_eq j_def [symmetric])
qed

lemma scan_on_resume:
  assumes "scan_on s i b False = (s', e, False)" "i \<le> length b" "es_started s"
  shows "es_started s'" "es_Pos s' \<le> length b" "snd (scan_on s' (es_Pos s') (b @ c) eof) = snd (scan_on s i (b @ c) eof)"
proof -
  have "es_started s' \<and> es_Pos s' \<le> length b \<and> snd (scan_on s' (es_Pos s') (b @ c) eof) = snd (scan_on s i (b @ c) eof)"
  proof (cases "es_scalar s")
    case True
    then have e: "find_from (\<lambda>c. \<not> IsNonDelim c) b i = length b" "s' = s\<lparr>es_Pos := length b\<rparr>"
      using assms(1,2) le_neq_implies_less [OF find_from_le [of "\<lambda>c. \<not> IsNonDelim c" b i]]
      by (auto simp: scan_on_def Let_def max_def split: if_splits)
    show ?thesis using True e assms(2,3) find_from_append(2) [of "\<lambda>c. \<not> IsNonDelim c" b i c]
      by (auto simp: scan_on_def Let_def)
  next
    case False
    define j where "j = (if es_esc s then i + 1 else i)"
    obtain k d ins where k: "ext_loop b j (es_depth s) (es_inStr s) = More k d ins"
        "s' = s\<lparr>es_esc := length b < k, es_Pos := min k (length b), es_depth := d, es_inStr := ins\<rparr>"
      using assms(1) False by (auto simp: scan_on_def Let_def ext_words_eq j_def [symmetric] split: extent_result.splits)
    have "j \<le> length b + 1" using assms(2) by (simp add: j_def)
    then have "length b \<le> k" "k \<le> length b + 1" using ext_loop_end [OF k(1)] by simp_all
    then have "(if es_esc s' then es_Pos s' + 1 else es_Pos s') = k" by (auto simp: k(2))
    moreover have "ext_loop (b @ c) j (es_depth s) (es_inStr s) = ext_loop (b @ c) k d ins" by (simp add: ext_loop_split [of b c j] k(1))
    ultimately show ?thesis using False assms(3) unfolding scan_on_def Let_def ext_words_eq j_def [symmetric]
      by (simp add: k(2) split: extent_result.splits)
  qed
  then show "es_started s'" "es_Pos s' \<le> length b" "snd (scan_on s' (es_Pos s') (b @ c) eof) = snd (scan_on s i (b @ c) eof)" by blast+
qed

definition pos_ok :: "ExtentScanner \<Rightarrow> bytes \<Rightarrow> bool" where
  "pos_ok s b \<longleftrightarrow> es_Pos s \<le> length b"

lemma first_byte_started: "es_started (first_byte c s)"
  by (simp add: first_byte_def Let_def)

interpretation ext: resumable ExtentScan pos_ok
proof
  fix s s' :: ExtentScanner and b c :: bytes and e eof
  assume p: "pos_ok s b"
  then show "pos_ok s (b @ c)" by (simp add: pos_ok_def)
  let ?i = "es_Pos s"
  have step: "pos_ok s' b \<and> snd (ExtentScan s' (b @ c) eof) = snd (ExtentScan s (b @ c) eof)"
    if r: "ExtentScan s b False = (s', e, False)"
  proof (cases "es_started s")
    case True
    then have "scan_on s ?i b False = (s', e, False)" "?i \<le> length b" using r p by (simp_all add: ExtentScan_def pos_ok_def)
    from scan_on_resume [OF this True] show ?thesis using True by (simp add: ExtentScan_def pos_ok_def)
  next
    case False
    show ?thesis
    proof (cases "length b \<le> ?i")
      case True
      then show ?thesis using r p False by (simp add: ExtentScan_def)
    next
      case 1: False
      then have b: "(b @ c) ! ?i = b ! ?i" by (simp add: nth_append)
      have o: "scan_on (first_byte (b ! ?i) s) (?i + 1) b False = (s', e, False)" "b ! ?i \<notin> {ch_rbrace, ch_rbrack, ch_comma}"
        using r False 1 by (auto simp: ExtentScan_def Let_def split: if_splits)
      have "?i + 1 \<le> length b" using 1 by simp
      from scan_on_resume [OF o(1) this first_byte_started] show ?thesis using 1 False b o(2)
        by (simp add: ExtentScan_def Let_def pos_ok_def)
    qed
  qed
  show "ExtentScan s b False = (s', e, False) \<Longrightarrow> pos_ok s' b" using step by blast
  show "ExtentScan s b False = (s', e, False) \<Longrightarrow> snd (ExtentScan s' (b @ c) eof) = snd (ExtentScan s (b @ c) eof)" using step by blast
  assume r: "ExtentScan s b False = (s', e, True)"
  then have "es_started s \<or> ?i < length b" by (auto simp: ExtentScan_def Let_def split: if_splits)
  then show "snd (ExtentScan s (b @ c) eof) = (e, True)"
    using r scan_on_final [of _ _ b s' e c eof] by (auto simp: ExtentScan_def Let_def nth_append split: if_splits)
qed

section \<open>The end of a value\<close>

lemma ext_loop_in_string:
  assumes "i \<le> k" "k \<le> length b" "\<And>j. i \<le> j \<Longrightarrow> j < k \<Longrightarrow> \<not> is_stop (b ! j)"
  shows "ext_loop b i d True = ext_loop b k d True"
  using assms
proof (induction "k - i" arbitrary: i)
  case (Suc n)
  then have i: "i < length b" "\<not> is_stop (b ! i)" by auto
  then have "ext_loop b i d True = ext_loop b (i + 1) d True" by (simp add: ext_loop.simps [of b i] ext_step_def)
  also have "\<dots> = ext_loop b k d True" using Suc by (intro Suc.hyps) simp_all
  finally show ?case .
qed simp

lemma ext_loop_string:
  "StringEnd src i = (e, True) \<Longrightarrow> i \<le> length src \<Longrightarrow>
   ext_loop src i d True = (if d = 0 then Found (e + 1) else ext_loop src (e + 1) d False)"
proof (induction src i rule: StringEnd.induct)
  case (1 src i)
  define j where "j = QuoteOrEscape src i"
  have jf: "j = find_from is_stop src i" by (simp add: j_def QuoteOrEscape_eq)
  have S: "\<not> length src \<le> j" "if src ! j = ch_quote then e = j else StringEnd src (j + 2) = (e, True)"
    using "1.prems"(1) unfolding StringEnd.simps [of src i] Let_def j_def [symmetric] by (auto split: if_splits)
  have l: "ext_loop src i d True = ext_loop src j d True"
    using "1.prems"(2) find_from_before [of i _ is_stop src] by (intro ext_loop_in_string) (auto simp: jf find_from_ge)
  show ?case
  proof (cases "src ! j = ch_quote")
    case True
    then show ?thesis using S l by (simp add: ext_loop.simps [of src j] ext_step_def)
  next
    case False
    then have "src ! j = ch_bslash" using S(1) find_from_found [of is_stop src i] by (simp add: jf)
    then have "ext_loop src j d True = ext_loop src (j + 2) d True" using S(1) by (simp add: ext_loop.simps [of src j] ext_step_def)
    moreover have "j + 2 \<le> length src"
    proof (rule ccontr)
      assume "\<not> j + 2 \<le> length src"
      then have "QuoteOrEscape src (j + 2) = length src" by (simp add: QuoteOrEscape_eq)
      then have "StringEnd src (j + 2) = (length src, False)" unfolding StringEnd.simps [of src "j + 2"] by simp
      then show False using S(2) False by simp
    qed
    ultimately show ?thesis using l False S "1.IH" [OF j_def S(1) False] by simp
  qed
qed

lemma ext_loop_ws: "i \<le> length b \<Longrightarrow> ext_loop b i d False = ext_loop b (SkipWS b i) d False"
  by (rule ext_loop_plain)
    (auto simp: SkipWS_eq find_from_ge flagged_def dest!: find_from_before [rotated])

lemma plain_not_flagged: "plain_byte c \<Longrightarrow> \<not> flagged c"
  by (auto simp: plain_byte_def byteClass_def flagged_def)

lemma ext_loop_at:
  assumes "i < length b"
  shows "b ! i = ch_quote \<Longrightarrow> ext_loop b i d False = ext_loop b (i + 1) d True"
    "b ! i = ch_lbrack \<or> b ! i = ch_lbrace \<Longrightarrow> ext_loop b i d False = ext_loop b (i + 1) (d + 1) False"
    "b ! i = ch_rbrack \<or> b ! i = ch_rbrace \<Longrightarrow>
       ext_loop b i d False = (if d = 1 then Found (i + 1) else ext_loop b (i + 1) (d - 1) False)"
    "b ! i = ch_comma \<or> b ! i = ch_colon \<Longrightarrow> ext_loop b i d False = ext_loop b (i + 1) d False"
  using assms by (auto simp: ext_loop.simps [of b i] ext_step_def)

lemma ext_loop_key:
  assumes "o' < length src" "src ! o' = ch_quote" "ScanString src (o' + 1) = (k, True)"
  shows "0 < D \<Longrightarrow> ext_loop src o' D False = ext_loop src (k + 1) D False" "k + 1 \<le> length src"
proof -
  have s: "StringEnd src (o' + 1) = (k, True)" using assms(3) by (rule ScanString_StringEnd)
  show "ext_loop src o' D False = ext_loop src (k + 1) D False" if "0 < D"
    using that assms ext_loop_at(1) [of o' src D] ext_loop_string [OF s, of D] by simp
  show "k + 1 \<le> length src" using value_at_bounds(1) [OF value_at_elems_at_members_at.string [OF assms(1,2,3), of 0]] .
qed

lemma ext_loop_value:
  "value_at src d o' e \<Longrightarrow> 0 < D \<Longrightarrow> ext_loop src o' D False = ext_loop src e D False"
  "elems_at src d o' e \<Longrightarrow> 0 < D \<Longrightarrow> ext_loop src o' D False = ext_loop src e D False"
  "members_at src d o' e \<Longrightarrow> 0 < D \<Longrightarrow> ext_loop src o' D False = ext_loop src e D False"
proof (induction arbitrary: D and D and D rule: value_at_elems_at_members_at.inducts)
  case (string o' e d)
  then show ?case using ext_loop_key(1) by blast
next
  case (number o' e d)
  then show ?case using cut_plain [OF is_number_plain [OF number(3)] number(2)] plain_not_flagged by (intro ext_loop_plain) auto
next
  case (atom o' e d)
  then show ?case using cut_plain [OF literals_plain [OF atom(3)] atom(2)] plain_not_flagged by (intro ext_loop_plain) auto
next
  case (emptyArr o' p d)
  then show ?case using ext_loop_at(2) [of o' src D] ext_loop_ws [of "o' + 1" src "D + 1"] ext_loop_at(3) [of p src "D + 1"] by simp
next
  case (emptyObj o' p d)
  then show ?case using ext_loop_at(2) [of o' src D] ext_loop_ws [of "o' + 1" src "D + 1"] ext_loop_at(3) [of p src "D + 1"] by simp
next
  case (arr o' d e p)
  then show ?case using ext_loop_at(2) [of o' src D] ext_loop_ws [of "o' + 1" src "D + 1"] ext_loop_at(3) [of p src "D + 1"]
    ext_loop_ws [of e src "D + 1"] value_at_bounds(2) [OF arr(3)] arr(4) [of "D + 1"] by simp
next
  case (obj o' d e p)
  then show ?case using ext_loop_at(2) [of o' src D] ext_loop_ws [of "o' + 1" src "D + 1"] ext_loop_at(3) [of p src "D + 1"]
    ext_loop_ws [of e src "D + 1"] value_at_bounds(3) [OF obj(3)] obj(4) [of "D + 1"] by simp
next
  case (elem_more d o' e q e')
  then show ?case using ext_loop_ws [of e src D] ext_loop_at(4) [of q src D] ext_loop_ws [of "q + 1" src D]
    value_at_bounds(1) [OF elem_more(1)] by simp
next
  case (member o' k c d e)
  then show ?case using ext_loop_key(1) [of o' src k D] ext_loop_key(2) [of o' src k] ext_loop_ws [of "k + 1" src D] ext_loop_at(4) [of c src D] ext_loop_ws [of "c + 1" src D]
    by simp
next
  case (member_more o' k c d e q e')
  then show ?case using ext_loop_key(1) [of o' src k D] ext_loop_key(2) [of o' src k] ext_loop_ws [of "k + 1" src D] ext_loop_at(4) [of c src D] ext_loop_ws [of "c + 1" src D]
    ext_loop_ws [of e src D] ext_loop_at(4) [of q src D] ext_loop_ws [of "q + 1" src D] value_at_bounds(1) [OF member_more(7)] by simp
qed simp

lemma plain_nonDelim: "plain_byte c \<Longrightarrow> IsNonDelim c"
  by (auto simp: plain_byte_def byteClass_def IsNonDelim_iff)

definition fresh :: "nat \<Rightarrow> ExtentScanner" where
  "fresh o' = \<lparr>es_Pos = o', es_depth = 0, es_started = False, es_scalar = False, es_inStr = False, es_esc = False\<rparr>"

lemma fresh_container:
  assumes "o' < length src" "src ! o' = ch_lbrack \<or> src ! o' = ch_lbrace" "ext_loop src (o' + 1) 1 False = Found e"
  shows "snd (ExtentScan (fresh o') src eof) = (e, True)"
  using assms by (auto simp: ExtentScan_def fresh_def first_byte_def scan_on_def ext_words_eq Let_def)

lemma fresh_scalar:
  assumes "o' < e" "e \<le> length src" "list_all plain_byte (cut src o' e)" "\<not> IsNonDelim (At src e)" "e < length src \<or> eof"
  shows "snd (ExtentScan (fresh o') src eof) = (e, True)"
proof -
  have p: "plain_byte (src ! k)" if "o' \<le> k" "k < e" for k using cut_plain [OF assms(3,2)] that by blast
  have c: "src ! o' \<notin> {ch_rbrace, ch_rbrack, ch_comma, ch_quote, ch_lbrace, ch_lbrack}"
    using p [of o'] assms(1) by (auto simp: plain_byte_def byteClass_def)
  have "find_from (\<lambda>c. \<not> IsNonDelim c) src (o' + 1) = e"
    using assms p plain_nonDelim by (intro find_from_eqI) auto
  then show ?thesis using c assms(1,2,5)
    by (auto simp: ExtentScan_def fresh_def first_byte_def scan_on_def Let_def)
qed

lemma ExtentScan_value:
  assumes "value_at src d o' e"
    "At src o' \<in> {ch_quote, ch_lbrace, ch_lbrack} \<or> (\<not> IsNonDelim (At src e) \<and> (e < length src \<or> eof))"
  shows "snd (ExtentScan (fresh o') src eof) = (e, True)"
  using assms(1)
proof (cases rule: value_at.cases)
  case (string k)
  then have "StringEnd src (o' + 1) = (k, True)" by (intro ScanString_StringEnd)
  then have "ext_loop src (o' + 1) 0 True = Found (k + 1)" using string ext_loop_string [of src "o' + 1" k 0] by simp
  then show ?thesis using string by (auto simp: ExtentScan_def fresh_def first_byte_def scan_on_def ext_words_eq Let_def)
next
  case number
  have "At src o' \<notin> {ch_quote, ch_lbrace, ch_lbrack}"
    using number_at_first [OF number_nonempty [OF number(3)] number(2,3)] by (auto simp: IsDigit_iff)
  then show ?thesis using number assms(2) number_nonempty [OF number(3)] is_number_plain by (intro fresh_scalar) auto
next
  case atom
  have "At src o' \<notin> {ch_quote, ch_lbrace, ch_lbrack}"
    using literal_at_first [OF literal_nonempty [OF atom(3)] atom(2,3)] by auto
  then show ?thesis using atom assms(2) literal_nonempty [OF atom(3)] literals_plain by (intro fresh_scalar) auto
next
  case (emptyArr p)
  then show ?thesis using ext_loop_ws [of "o' + 1" src 1] ext_loop_at(3) [of p src 1] by (intro fresh_container) auto
next
  case (emptyObj p)
  then show ?thesis using ext_loop_ws [of "o' + 1" src 1] ext_loop_at(3) [of p src 1] by (intro fresh_container) auto
next
  case (arr d' k p)
  then show ?thesis using ext_loop_ws [of "o' + 1" src 1] ext_loop_at(3) [of p src 1] ext_loop_value(2) [OF arr(5), of 1]
    ext_loop_ws [of k src 1] value_at_bounds(2) [OF arr(5)] by (intro fresh_container) auto
next
  case (obj d' k p)
  then show ?thesis using ext_loop_ws [of "o' + 1" src 1] ext_loop_at(3) [of p src 1] ext_loop_value(3) [OF obj(5), of 1]
    ext_loop_ws [of k src 1] value_at_bounds(3) [OF obj(5)] by (intro fresh_container) auto
qed

section \<open>Claims\<close>

text \<open>
  Claim C25. The word walk of the extent scanner, masks, lowest-flag iteration and escape carry
  included, ends exactly as its byte loop does from the same offset, depth and string state.
\<close>

theorem ext_words_eq_bytes: "ext_words b i d ins = ext_loop b i d ins"
  by (rule ext_words_eq)

text \<open>
  Claim C24. A scan interrupted by refills reports what one scan of the whole input reports: feeding
  the scanner a buffer that grows chunk by chunk, until it finds an end or the input is over, gives
  the same offset and verdict as scanning all chunks at once.
\<close>

theorem ExtentScan_refills:
  assumes "es_Pos s \<le> length b"
  shows "refills ExtentScan s b cs = snd (ExtentScan s (b @ concat cs) True)"
  by (rule ext.refills_eq) (use assms in \<open>simp add: pos_ok_def\<close>)

theorem ExtentScan_refills_witness:
  "refills ExtentScan (fresh 0) (lit ''[\"a'' @ [ch_bslash]) [lit ''\"]'', lit ''\", 1'', lit ''], 2''] = (11, True)"
proof -
  have "es_Pos (fresh 0) \<le> length (lit ''[\"a'' @ [ch_bslash])" by (simp add: fresh_def)
  from ExtentScan_refills [OF this] have "refills ExtentScan (fresh 0) (lit ''[\"a'' @ [ch_bslash]) [lit ''\"]'', lit ''\", 1'', lit ''], 2''] =
    snd (ExtentScan (fresh 0) ((lit ''[\"a'' @ [ch_bslash]) @ concat [lit ''\"]'', lit ''\", 1'', lit ''], 2'']) True)" by blast
  also have "\<dots> = (11, True)" by code_simp
  finally show ?thesis .
qed

text \<open>
  Claim C23. On a value of the JSON grammar a fresh scanner finds its end: always for a string or a
  container, and for a number or literal that a delimiter follows, or that the input ends with.
\<close>

theorem ExtentScan_value_end:
  assumes "value_at src d o' e"
    "At src o' \<in> {ch_quote, ch_lbrace, ch_lbrack} \<or> (\<not> IsNonDelim (At src e) \<and> (e < length src \<or> eof))"
  shows "snd (ExtentScan (fresh o') src eof) = (e, True)"
  using assms by (rule ExtentScan_value)

theorem ExtentScan_value_end_witness: "snd (ExtentScan (fresh 2) (lit ''[ {} ,'') False) = (4, True)"
proof -
  have "SkipWS (lit ''[ {} ,'') 3 = 3" "length (lit ''[ {} ,'') = 6" "lit ''[ {} ,'' ! 2 = ch_lbrace" "lit ''[ {} ,'' ! 3 = ch_rbrace"
    "At (lit ''[ {} ,'') 2 = ch_lbrace" by code_simp+
  then have "value_at (lit ''[ {} ,'') 0 2 (3 + 1)" by (intro value_at_elems_at_members_at.emptyObj) simp_all
  from ExtentScan_value_end [OF this, of False] show ?thesis using \<open>At (lit ''[ {} ,'') 2 = ch_lbrace\<close> by simp
qed

end
