(* ===== verification/Locate.thy ===== *)
theory Locate
  imports Walk
begin

text \<open>
  The error locators of \<^verbatim>\<open>internal/gdec/locate.go\<close>, which run once a document has been refused and
  name the first offending byte. \<open>Locate\<close> is a push-down recognizer over the source; its result is
  \<open>None\<close> where a Go slice expression would panic, and else the three results of the Go function. The
  stack of expected closers has its top first. \<open>CheckAt\<close> is \<open>Check\<close> with a position.

  \<open>Locate\<close> reports nothing on exactly the JSON texts of any depth and never panics; \<open>CheckAt\<close> agrees
  with \<open>Check\<close> except for a byte at or above 0x80 right after a backslash.
\<close>

section \<open>The locators\<close>

datatype locate_state = LValue | LValueOrClose | LKey | LKeyOrClose | LColon | LAfter

function hex_stop :: "bytes \<Rightarrow> nat \<Rightarrow> nat \<Rightarrow> nat" where
  "hex_stop src lim k = (if k < lim \<and> k < length src \<and> hexVal (src ! k) \<noteq> None then hex_stop src lim (k + 1) else k)"
  by pat_completeness auto
termination by (relation "measure (\<lambda>(src, lim, k). lim - k)") auto

lemma DecodeRune_pos: "DecodeRune p = (r, sz) \<Longrightarrow> \<not> (r = RuneError \<and> sz \<le> 1) \<Longrightarrow> 0 < sz"
  by (auto simp: DecodeRune_def split: nat.splits if_splits)

text \<open>The policy loop of \<^verbatim>\<open>locateString\<close>: the first byte of the body the mode refuses.\<close>

function body_bad :: "bytes \<Rightarrow> ScanMode \<Rightarrow> nat \<Rightarrow> nat \<Rightarrow> nat option" where
  "body_bad src mode en k =
     (if k < en then
        let c = src ! k in
        if c < 0x20 \<and> mode \<noteq> ScanLax then Some k
        else if 0x80 \<le> c \<and> mode = ScanStrict then
          (case DecodeRune (cut src k en) of (r, sz) \<Rightarrow>
             if r = RuneError \<and> sz \<le> 1 then Some k else body_bad src mode en (k + sz))
        else body_bad src mode en (k + 1)
      else None)"
  by pat_completeness auto
termination
  by (relation "measure (\<lambda>(src, mode, en, k). en - k)") (use DecodeRune_pos [OF sym] in \<open>auto simp: diff_less_mono2\<close>)

declare hex_stop.simps [simp del] body_bad.simps [simp del]

definition locateString :: "bytes \<Rightarrow> nat \<Rightarrow> ScanMode \<Rightarrow> nat \<times> bool \<times> bool" where
  "locateString src i mode =
     (let body = i + 1 in
      case ScanString src body of (cl, ok) \<Rightarrow>
        if \<not> ok then
          (if length src \<le> cl then (length src, True, True)
           else
             let k = cl + 1;
                 k = (if At src k = ch_u then hex_stop src (cl + 6) (k + 1) else k) in
             (k, length src \<le> k, True))
        else case body_bad src mode cl body of
               Some k \<Rightarrow> (k, False, True)
             | None \<Rightarrow> (cl + 1, False, False))"

definition locateNumber :: "bytes \<Rightarrow> nat \<Rightarrow> nat \<times> bool" where
  "locateNumber src i =
     (let p = (if At src i = ch_minus then i + 1 else i); c = At src p in
      if c \<noteq> ch_0 \<and> \<not> IsDigit c then (min p (length src), True)
      else
        let p = (if c = ch_0 then p + 1 else digitsFrom src p); dot = (At src p = ch_dot) in
        if dot \<and> \<not> IsDigit (At src (p + 1)) then (min (p + 1) (length src), True)
        else
          let p = (if dot then digitsFrom src (p + 1) else p); c = At src p in
          if c = ch_e \<or> c = ch_E then
            let p = p + 1; p = (if At src p = ch_plus \<or> At src p = ch_minus then p + 1 else p) in
            if \<not> IsDigit (At src p) then (min p (length src), True) else (digitsFrom src p, False)
          else (p, False))"

fun lit_match :: "bytes \<Rightarrow> bytes \<Rightarrow> nat" where
  "lit_match (l # ls) (c # cs) = (if c = l then Suc (lit_match ls cs) else 0)"
| "lit_match _ _ = 0"

text \<open>
  A scalar token of the value state, at the non-blank offset \<open>i\<close>: the offset past it, or the result
  of a bad one.
\<close>

definition locateScalar :: "bytes \<Rightarrow> ScanMode \<Rightarrow> nat \<Rightarrow> (nat \<times> bool \<times> bool) + nat" where
  "locateScalar src mode i =
     (let c = src ! i in
      if c = ch_quote then
        (case locateString src i mode of (en, e, bad) \<Rightarrow> if bad then Inl (en, e, True) else Inr en)
      else if c = ch_t \<or> c = ch_f \<or> c = ch_n then
        (let l = (if c = ch_t then lit ''true'' else if c = ch_f then lit ''false'' else lit ''null'');
             k = lit_match l (drop i src) in
         if k < length l then Inl (i + k, length src \<le> i + k, True) else Inr (i + k))
      else if c = ch_minus \<or> IsDigit c then
        (case locateNumber src i of (en, bad) \<Rightarrow> if bad then Inl (en, length src \<le> en, True) else Inr en)
      else Inl (i, False, True))"

datatype locate_next = LDone "nat \<times> bool \<times> bool" | LPanic | LGo nat locate_state bytes

text \<open>One pass of the loop at the non-blank offset \<open>i\<close>.\<close>

definition locate_step :: "bytes \<Rightarrow> ScanMode \<Rightarrow> nat \<Rightarrow> locate_state \<Rightarrow> bytes \<Rightarrow> locate_next" where
  "locate_step src mode i st closers =
     (if length src \<le> i then
        (if st = LAfter \<and> closers = [] then LDone (0, False, False) else LDone (length src, True, True))
      else
        let c = src ! i in
        if (st = LValueOrClose \<and> c = ch_rbrack) \<or> (st = LKeyOrClose \<and> c = ch_rbrace) then
          (case closers of [] \<Rightarrow> LPanic | _ # closers \<Rightarrow> LGo (i + 1) LAfter closers)
        else if st = LValue \<or> st = LValueOrClose then
          (if c = ch_lbrace \<or> c = ch_lbrack then
             LGo (i + 1) (if c = ch_lbrack then LValueOrClose else LKeyOrClose) ((c + 2) # closers)
           else case locateScalar src mode i of Inl r \<Rightarrow> LDone r | Inr en \<Rightarrow> LGo en LAfter closers)
        else if st = LKey \<or> st = LKeyOrClose then
          (if c \<noteq> ch_quote then LDone (i, False, True)
           else case locateString src i mode of (en, e, bad) \<Rightarrow>
             if bad then LDone (en, e, True) else LGo en LColon closers)
        else if st = LColon then (if c \<noteq> ch_colon then LDone (i, False, True) else LGo (i + 1) LValue closers)
        else case closers of
               [] \<Rightarrow> LDone (i, False, True)
             | cl # rest \<Rightarrow>
                 if c = ch_comma then LGo (i + 1) (if cl = ch_rbrack then LValue else LKey) closers
                 else if c = cl then LGo (i + 1) LAfter rest
                 else LDone (i, False, True))"

lemma ScanString_ge: "i \<le> length src \<Longrightarrow> ScanString src i = (e, ok) \<Longrightarrow> i \<le> e \<and> e \<le> length src \<and> (ok \<longrightarrow> e < length src)"
proof -
  assume a: "i \<le> length src" "ScanString src i = (e, ok)"
  obtain bs k x o' where d: "decode_from src i = (bs, k, x, o')" by (rule prod_cases4)
  then show ?thesis using ScanString_eq [OF a(1) d] decode_from_bounds [OF a(1) d] a(2) by simp
qed

lemma locateString_next: "i < length src \<Longrightarrow> locateString src i mode = (en, e, False) \<Longrightarrow> i < en"
  using ScanString_ge [of "i + 1" src] by (auto simp: locateString_def Let_def split: if_splits option.splits prod.splits)

lemma digitsFrom_ge: "p \<le> digitsFrom src p"
proof (induction src p rule: digitsFrom.induct)
  case (1 src p)
  then show ?case by (subst digitsFrom.simps) auto
qed

lemma digitsFrom_gt: "IsDigit (At src p) \<Longrightarrow> p < digitsFrom src p"
proof -
  assume d: "IsDigit (At src p)"
  then have "p < length src" by (intro At_neq_space) (auto simp: IsDigit_iff)
  then show ?thesis using d digitsFrom_ge [of "p + 1" src] by (subst digitsFrom.simps) simp
qed

lemma locateNumber_next: "locateNumber src i = (en, False) \<Longrightarrow> i < en"
proof -
  define p where "p = (if At src i = ch_minus then i + 1 else i)"
  define p1 where "p1 = (if At src p = ch_0 then p + 1 else digitsFrom src p)"
  define p2 where "p2 = (if At src p1 = ch_dot then digitsFrom src (p1 + 1) else p1)"
  assume a: "locateNumber src i = (en, False)"
  then have g: "At src p = ch_0 \<or> IsDigit (At src p)" "p2 \<le> en"
    using digitsFrom_ge [of "p2 + 1" src] digitsFrom_ge [of "p2 + 2" src]
    unfolding locateNumber_def Let_def p_def [symmetric] p1_def [symmetric] p2_def [symmetric] by (auto split: if_splits)
  have "i \<le> p" "p < p1" "p1 \<le> p2"
    using g(1) digitsFrom_gt [of src p] digitsFrom_ge [of "p1 + 1" src] by (auto simp: p_def p1_def p2_def)
  then show "i < en" using g(2) by simp
qed

lemma locateScalar_next: "i < length src \<Longrightarrow> locateScalar src mode i = Inr en \<Longrightarrow> i < en"
  by (auto simp: locateScalar_def Let_def lit_def split: if_splits prod.splits dest: locateString_next locateNumber_next)

lemma locate_step_next:
  "locate_step src mode i st cs = LGo i' st' cs' \<Longrightarrow> i < i' \<and> i < length src"
  by (auto simp: locate_step_def Let_def split: if_splits list.splits sum.splits prod.splits
      dest!: locateString_next [rotated] locateScalar_next [rotated])

lemma SkipWS_ge: "i \<le> SkipWS src i"
proof (cases "i \<le> length src")
  case False
  then show ?thesis by (subst SkipWS.simps) simp
qed (simp add: SkipWS_eq find_from_ge)

function locate_loop :: "bytes \<Rightarrow> ScanMode \<Rightarrow> nat \<Rightarrow> locate_state \<Rightarrow> bytes \<Rightarrow> (nat \<times> bool \<times> bool) option" where
  "locate_loop src mode i st closers =
     (case locate_step src mode (SkipWS src i) st closers of
        LDone r \<Rightarrow> Some r
      | LPanic \<Rightarrow> None
      | LGo i st closers \<Rightarrow> locate_loop src mode i st closers)"
  by pat_completeness auto
termination
  by (relation "measure (\<lambda>(src, mode, i, st, cs). length src - i)")
    (auto dest!: locate_step_next intro: diff_less_mono2 le_less_trans [OF SkipWS_ge])

declare locate_loop.simps [simp del]

definition Locate :: "bytes \<Rightarrow> ScanMode \<Rightarrow> (nat \<times> bool \<times> bool) option" where
  "Locate src mode = locate_loop src mode 0 LValue []"

function checkAt_loop :: "bytes \<Rightarrow> ScanMode \<Rightarrow> nat \<Rightarrow> bool \<Rightarrow> nat \<times> bool \<times> bool" where
  "checkAt_loop src mode i q =
     (if i < length src then
        let c = src ! i in
        if c = ch_bslash then
          (if q \<and> mode \<noteq> ScanLax \<and> i + 1 < length src \<and> src ! (i + 1) < 0x20 then (i + 1, False, True)
           else checkAt_loop src mode (i + 2) q)
        else if c = ch_quote then checkAt_loop src mode (i + 1) (\<not> q)
        else if c < 0x20 \<and> q \<and> mode \<noteq> ScanLax then (i, False, True)
        else if 0x80 \<le> c \<and> mode = ScanStrict then
          (case DecodeRune (drop i src) of (r, sz) \<Rightarrow>
             if r = RuneError \<and> sz \<le> 1 then (i, False, True) else checkAt_loop src mode (i + sz) q)
        else checkAt_loop src mode (i + 1) q
      else if q then (length src, True, True) else (0, False, False))"
  by pat_completeness auto
termination
  by (relation "measure (\<lambda>(src, mode, i, q). length src - i)") (use DecodeRune_pos [OF sym] in \<open>auto simp: diff_less_mono2\<close>)

declare checkAt_loop.simps [simp del]

definition CheckAt :: "bytes \<Rightarrow> ScanMode \<Rightarrow> nat \<times> bool \<times> bool" where
  "CheckAt src mode = checkAt_loop src mode 0 False"

section \<open>Tokens\<close>

lemma body_bad_lax: "body_bad src ScanLax en k = None"
proof (induction "en - k" arbitrary: k)
  case (Suc n)
  then have "body_bad src ScanLax en (k + 1) = None" by simp
  then show ?case by (simp add: body_bad.simps [of src ScanLax en k])
qed (simp add: body_bad.simps)

lemma locateString_sound:
  "i < length src \<Longrightarrow> locateString src i mode = (en, e, False) \<Longrightarrow> 0 < en \<and> ScanString src (i + 1) = (en - 1, True)"
  by (auto simp: locateString_def Let_def split: if_splits option.splits prod.splits)

lemma locateString_complete: "ScanString src (i + 1) = (k, True) \<Longrightarrow> locateString src i ScanLax = (k + 1, False, False)"
  by (simp add: locateString_def body_bad_lax)

text \<open>\<open>locateNumber\<close> in the stages of \<open>number_len\<close>.\<close>

lemma locateNumber_sound:
  assumes "i \<le> length src" "locateNumber src i = (en, False)"
  shows "en \<le> length src" "is_number (cut src i en)"
proof -
  define m where "m = minus_len (drop i src)"
  define p where "p = i + m"
  define p1 where "p1 = (if At src p = ch_0 then p + 1 else digitsFrom src p)"
  have p: "(if At src i = ch_minus then i + 1 else i) = p" "p \<le> length src"
    using assms(1) minus_len_le [of "drop i src"] by (simp_all add: p_def m_def minus_len_def At_head split: if_splits)
  note L = assms(2) [unfolded locateNumber_def Let_def p(1) p1_def [symmetric]]
  have dig: "At src p = ch_0 \<or> IsDigit (At src p)" using L by (auto split: if_splits)
  then have p': "p < length src" by (intro At_neq_space) (auto simp: IsDigit_iff)
  define k where "k = (if At src p1 = ch_dot then digitsFrom src (p1 + 1) - p1 else 0)"
  have int: "p < p1" "p1 \<le> length src" "int_part (cut src p p1)"
  proof -
    have "p < p1 \<and> p1 \<le> length src \<and> int_part (cut src p p1)"
    proof (cases "At src p = ch_0")
      case True
      then show ?thesis using p' by (auto simp: p1_def cut_Cons int_part_def digits_def IsDigit_iff)
    next
      case False
      then have d: "IsDigit (src ! p)" using dig p' by simp
      let ?ds = "digit_run (drop p src)"
      have e: "p1 = p + length ?ds" using False digitsFrom_eq [OF p(2)] by (simp add: p1_def)
      have ds: "?ds = src ! p # digit_run (drop (p + 1) src)" using d p' by (simp add: digit_run_step)
      have c: "cut src p p1 = ?ds" unfolding e using cut_run [OF p(2)] .
      have "p1 \<le> length src" unfolding e using length_digit_run [of "drop p src"] p(2) by simp
      then show ?thesis using e ds c False p' digit_run_all [of "drop p src"] by (simp add: int_part_def digits_def)
    qed
    then show "p < p1" "p1 \<le> length src" "int_part (cut src p p1)" by blast+
  qed
  have dot: "At src p1 = ch_dot \<Longrightarrow> IsDigit (At src (p1 + 1))" using L dig by (auto split: if_splits)
  have fr: "frac_len (drop p1 src) = (k, True)"
  proof -
    have "At src p1 = ch_dot \<Longrightarrow> fraction_part src p1 = (digitsFrom src (p1 + 1), True)" using dot by (simp add: fraction_part_def)
    moreover have "At src p1 \<noteq> ch_dot \<Longrightarrow> fraction_part src p1 = (p1, True)" by (simp add: fraction_part_def)
    ultimately show ?thesis using fraction_part_eq [OF int(2)] by (auto simp: k_def split: prod.splits)
  qed
  have k: "p1 + k \<le> length src" "(if At src p1 = ch_dot then digitsFrom src (p1 + 1) else p1) = p1 + k"
    using frac_len_le [of "drop p1 src"] fr int(2) digitsFrom_ge [of "p1 + 1" src] by (auto simp: k_def)
  have "exponent_part src (p1 + k) = (en, True)"
    using L dig dot k(2) by (auto simp: exponent_part_def Let_def split: if_splits)
  then have ex: "exp_len (drop (p1 + k) src) = (en - (p1 + k), True)" "p1 + k \<le> en"
    using exponent_part_eq [OF k(1)] by (auto split: prod.splits)
  have "en - (p1 + k) \<le> length src - (p1 + k)" using exp_len_text [OF ex(1)] by simp
  then show en: "en \<le> length src" using k(1) by linarith
  have "cut src i en = cut src i p @ cut src p p1 @ cut src p1 (p1 + k) @ cut src (p1 + k) en"
    using int k ex(2) en by (simp add: cut_append p_def)
  moreover have "cut src i p = [] \<or> cut src i p = [ch_minus]"
    using assms(1) by (cases "drop i src") (auto simp: p_def m_def minus_len_def cut_def)
  moreover have "frac_text (cut src p1 (p1 + k))" using frac_len_text [OF fr] by (simp add: cut_def)
  moreover have "exp_text (cut src (p1 + k) en)" using exp_len_text [OF ex(1)] by (simp add: cut_def)
  ultimately show "is_number (cut src i en)" using is_numberI int(3) by simp
qed

lemma locateNumber_complete:
  assumes "i \<le> e" "e \<le> length src" "is_number (cut src i e)" "\<not> IsNonDelim (At src e)"
  shows "locateNumber src i = (e, False)"
proof -
  define d where "d = (if At src i = ch_minus then i + 1 else i)"
  define p where "p = digitsFrom src d"
  have V: "ValidNumber src i = (e, True)" using ValidNumber_iff [of i src e] assms by simp
  note U = V [unfolded ValidNumber_def Let_def d_def [symmetric] p_def [symmetric]]
  have nd: "p - d \<noteq> 0" "\<not> (At src d = ch_0 \<and> 1 < p - d)" using U by (auto split: if_splits)
  obtain q where q: "fraction_part src p = (q, True)" "exponent_part src q = (e, True)"
    using U nd by (auto split: prod.splits if_splits)
  have dig: "IsDigit (At src d)"
  proof (rule ccontr)
    assume "\<not> IsDigit (At src d)"
    then have "p = d" by (auto simp: p_def digitsFrom.simps [of src d])
    then show False using nd(1) by simp
  qed
  have "d \<le> p" by (simp add: p_def digitsFrom_ge)
  then have p: "(if At src d = ch_0 then d + 1 else digitsFrom src d) = p" using nd p_def by auto
  show ?thesis unfolding locateNumber_def Let_def d_def [symmetric] p
    using q dig by (auto simp: fraction_part_def exponent_part_def Let_def split: if_splits)
qed

lemma lit_match_all: "lit_match l xs \<le> length l" "lit_match l xs = length l \<longleftrightarrow> take (length l) xs = l"
proof -
  have "lit_match l xs \<le> length l \<and> (lit_match l xs = length l \<longleftrightarrow> take (length l) xs = l)"
    by (induction l xs rule: lit_match.induct) auto
  then show "lit_match l xs \<le> length l" "lit_match l xs = length l \<longleftrightarrow> take (length l) xs = l" by blast+
qed

lemma locateScalar_sound:
  assumes "i < length src" "locateScalar src mode i = Inr e"
  shows "value_at src d i e" "e \<le> length src"
proof -
  let ?c = "src ! i"
  have "value_at src d i e"
  proof (cases "?c = ch_quote")
    case True
    then have "\<exists>x. locateString src i mode = (e, x, False)"
      using assms(2) by (auto simp: locateScalar_def split: prod.splits if_splits)
    then show ?thesis using True assms(1) locateString_sound [OF assms(1)] value_at_elems_at_members_at.string [OF assms(1) True, of "e - 1"]
      by fastforce
  next
    case nq: False
    show ?thesis
    proof (cases "?c = ch_t \<or> ?c = ch_f \<or> ?c = ch_n")
      case True
      define l where "l = literal_of ?c"
      have k: "e = i + lit_match l (drop i src)" "\<not> lit_match l (drop i src) < length l"
        using assms(2) nq True by (auto simp: locateScalar_def Let_def literal_of_def l_def split: if_splits)
      then have m: "take (length l) (drop i src) = l" "e = i + length l" using lit_match_all [of l "drop i src"] by auto
      have "length l = length (take (length l) (drop i src))" using m(1) by simp
      then have "length l \<le> length src - i" by simp
      then have "e \<le> length src" using m(2) assms(1) by linarith
      then show ?thesis using m True literal_facts(1) [of l] by (intro value_at_elems_at_members_at.atom) (auto simp: cut_def l_def)
    next
      case False
      then have n: "locateNumber src i = (e, False)" using assms(2) nq by (auto simp: locateScalar_def split: prod.splits if_splits)
      then show ?thesis using assms(1) locateNumber_sound [of i src e] locateNumber_next [OF n]
        by (intro value_at_elems_at_members_at.number) auto
    qed
  qed
  then show "value_at src d i e" "e \<le> length src" using value_at_bounds(1) by blast+
qed

lemma value_at_depth:
  "value_at src d o' e \<Longrightarrow> d \<le> d' \<Longrightarrow> value_at src d' o' e"
  "elems_at src d o' e \<Longrightarrow> d \<le> d' \<Longrightarrow> elems_at src d' o' e"
  "members_at src d o' e \<Longrightarrow> d \<le> d' \<Longrightarrow> members_at src d' o' e"
proof (induction arbitrary: d' and d' and d' rule: value_at_elems_at_members_at.inducts)
  case (arr o' d e p)
  then obtain k where "d' = Suc k" "d \<le> k" by (cases d') auto
  then show ?case using value_at_elems_at_members_at.arr [OF arr(1,2) arr(4) [of k] arr(5,6,7)] by simp
next
  case (obj o' d e p)
  then obtain k where "d' = Suc k" "d \<le> k" by (cases d') auto
  then show ?case using value_at_elems_at_members_at.obj [OF obj(1,2) obj(4) [of k] obj(5,6,7)] by simp
qed (blast intro: value_at_elems_at_members_at.intros)+

section \<open>What the locator accepts is JSON\<close>

abbreviation passes_from :: "bytes \<Rightarrow> ScanMode \<Rightarrow> nat \<Rightarrow> locate_state \<Rightarrow> bytes \<Rightarrow> bool" where
  "passes_from src mode i st cs \<equiv> locate_loop src mode i st cs = Some (0, False, False)"

lemma passes_step:
  assumes "passes_from src mode i st cs"
  obtains (ended) "length src \<le> SkipWS src i" "st = LAfter" "cs = []"
  | (go) i' st' cs' where "SkipWS src i < length src" "locate_step src mode (SkipWS src i) st cs = LGo i' st' cs'"
      "SkipWS src i < i'" "passes_from src mode i' st' cs'"
proof (cases "locate_step src mode (SkipWS src i) st cs")
  case (LDone r)
  then have r: "r = (0, False, False)" using assms by (simp add: locate_loop.simps [of src mode i])
  have "length src \<le> SkipWS src i \<and> st = LAfter \<and> cs = []"
    using LDone unfolding r locate_step_def locateScalar_def
    by (auto simp: Let_def split: if_splits list.splits sum.splits prod.splits)
  then show ?thesis using ended by blast
next
  case LPanic
  then show ?thesis using assms by (simp add: locate_loop.simps [of src mode i])
next
  case (LGo i' st' cs')
  then show ?thesis using assms go locate_step_next [OF LGo] by (simp add: locate_loop.simps [of src mode i])
qed

text \<open>The rest of a container after an element, up to and past its closer.\<close>

definition closes :: "bool \<Rightarrow> bytes \<Rightarrow> ScanMode \<Rightarrow> nat \<Rightarrow> bytes \<Rightarrow> bool" where
  "closes isArr src mode i cs \<longleftrightarrow> (\<exists>p. p < length src \<and> src ! p = (if isArr then ch_rbrack else ch_rbrace) \<and>
     i \<le> p \<and> passes_from src mode (p + 1) LAfter cs \<and>
     (p = SkipWS src i \<or>
      (\<exists>d e. src ! SkipWS src i = ch_comma \<and> SkipWS src i < length src \<and> p = SkipWS src e \<and>
         (if isArr then elems_at src d (SkipWS src (SkipWS src i + 1)) e
          else members_at src d (SkipWS src (SkipWS src i + 1)) e))))"

definition value_then :: "bytes \<Rightarrow> ScanMode \<Rightarrow> nat \<Rightarrow> bytes \<Rightarrow> bool" where
  "value_then src mode i cs \<longleftrightarrow> (\<exists>d e. value_at src d (SkipWS src i) e \<and> i < e \<and> passes_from src mode e LAfter cs)"

definition members_then :: "bytes \<Rightarrow> ScanMode \<Rightarrow> nat \<Rightarrow> bytes \<Rightarrow> bool" where
  "members_then src mode i cs \<longleftrightarrow> (\<exists>d e p. members_at src d (SkipWS src i) e \<and> p = SkipWS src e \<and> p < length src \<and>
     src ! p = ch_rbrace \<and> i < p \<and> passes_from src mode (p + 1) LAfter cs)"

lemma elems_extend:
  assumes "value_at src d o' e" "p < length src" "src ! p = ch_rbrack"
    "p = SkipWS src e \<or> (\<exists>d' e'. src ! SkipWS src e = ch_comma \<and> SkipWS src e < length src \<and> p = SkipWS src e' \<and>
       elems_at src d' (SkipWS src (SkipWS src e + 1)) e')"
  shows "\<exists>d e. elems_at src d o' e \<and> p = SkipWS src e"
  using assms(4)
proof
  assume "p = SkipWS src e"
  then show ?thesis using value_at_elems_at_members_at.elem [OF assms(1)] by blast
next
  assume "\<exists>d' e'. src ! SkipWS src e = ch_comma \<and> SkipWS src e < length src \<and> p = SkipWS src e' \<and>
       elems_at src d' (SkipWS src (SkipWS src e + 1)) e'"
  then obtain d' e' where a: "src ! SkipWS src e = ch_comma" "SkipWS src e < length src" "p = SkipWS src e'"
      "elems_at src d' (SkipWS src (SkipWS src e + 1)) e'" by blast
  have "elems_at src (max d d') o' e'"
    using value_at_elems_at_members_at.elem_more [OF value_at_depth(1) [OF assms(1), of "max d d'"] refl a(2,1)]
      value_at_depth(2) [OF a(4), of "max d d'"] by simp
  then show ?thesis using a(3) by blast
qed

lemma members_extend:
  assumes "o' < length src" "src ! o' = ch_quote" "ScanString src (o' + 1) = (k, True)"
    "c = SkipWS src (k + 1)" "c < length src" "src ! c = ch_colon"
    "value_at src d (SkipWS src (c + 1)) e" "p < length src" "src ! p = ch_rbrace"
    "p = SkipWS src e \<or> (\<exists>d' e'. src ! SkipWS src e = ch_comma \<and> SkipWS src e < length src \<and> p = SkipWS src e' \<and>
       members_at src d' (SkipWS src (SkipWS src e + 1)) e')"
  shows "\<exists>d e. members_at src d o' e \<and> p = SkipWS src e"
  using assms(10)
proof
  assume "p = SkipWS src e"
  then show ?thesis using value_at_elems_at_members_at.member [OF assms(1-7)] by blast
next
  assume "\<exists>d' e'. src ! SkipWS src e = ch_comma \<and> SkipWS src e < length src \<and> p = SkipWS src e' \<and>
       members_at src d' (SkipWS src (SkipWS src e + 1)) e'"
  then obtain d' e' where a: "src ! SkipWS src e = ch_comma" "SkipWS src e < length src" "p = SkipWS src e'"
      "members_at src d' (SkipWS src (SkipWS src e + 1)) e'" by blast
  have "members_at src (max d d') o' e'"
    using value_at_elems_at_members_at.member_more [OF assms(1-6) value_at_depth(1) [OF assms(7), of "max d d'"] refl a(2,1)]
      value_at_depth(3) [OF a(4), of "max d d'"] by simp
  then show ?thesis using a(3) by blast
qed

lemma closer_byte: "ch_lbrack + 2 = ch_rbrack" "ch_lbrace + 2 = ch_rbrace"
  by simp_all

lemma open_or_close:
  assumes "passes_from src mode i (if isArr then LValueOrClose else LKeyOrClose) (cl # cs)"
  obtains (empty) "SkipWS src i < length src" "src ! SkipWS src i = (if isArr then ch_rbrack else ch_rbrace)"
      "passes_from src mode (SkipWS src i + 1) LAfter cs"
  | (more) "passes_from src mode i (if isArr then LValue else LKey) (cl # cs)"
proof (cases "SkipWS src i < length src \<and> src ! SkipWS src i = (if isArr then ch_rbrack else ch_rbrace)")
  case True
  then have "locate_step src mode (SkipWS src i) (if isArr then LValueOrClose else LKeyOrClose) (cl # cs) = LGo (SkipWS src i + 1) LAfter cs"
    by (cases isArr) (simp_all add: locate_step_def)
  then show ?thesis using assms empty True by (simp add: locate_loop.simps [of src mode i])
next
  case False
  then have "locate_step src mode (SkipWS src i) (if isArr then LValueOrClose else LKeyOrClose) (cl # cs) =
      locate_step src mode (SkipWS src i) (if isArr then LValue else LKey) (cl # cs)"
    by (cases isArr) (auto simp: locate_step_def Let_def)
  then show ?thesis using assms more by (simp add: locate_loop.simps [of src mode i])
qed

lemma locate_sound:
  "(passes_from src mode i LValue cs \<longrightarrow> value_then src mode i cs) \<and>
   (passes_from src mode i LAfter (ch_rbrack # cs) \<longrightarrow> closes True src mode i cs) \<and>
   (passes_from src mode i LAfter (ch_rbrace # cs) \<longrightarrow> closes False src mode i cs) \<and>
   (passes_from src mode i LKey (ch_rbrace # cs) \<longrightarrow> members_then src mode i cs)"
proof (induction "length src - i" arbitrary: i cs rule: less_induct)
  case less
  let ?o = "SkipWS src i"
  have io: "i \<le> ?o" by (rule SkipWS_ge)
  have IH: "passes_from src mode j LValue cs \<Longrightarrow> value_then src mode j cs"
      "passes_from src mode j LAfter (ch_rbrack # cs) \<Longrightarrow> closes True src mode j cs"
      "passes_from src mode j LAfter (ch_rbrace # cs) \<Longrightarrow> closes False src mode j cs"
      "passes_from src mode j LKey (ch_rbrace # cs) \<Longrightarrow> members_then src mode j cs" if "i < j" "?o < length src" for j cs
    using less [of j cs] that io by (simp_all add: diff_less_mono2)
  have elems: "\<exists>d e p. elems_at src d (SkipWS src j) e \<and> p = SkipWS src e \<and> p < length src \<and> src ! p = ch_rbrack \<and> j < p \<and>
      passes_from src mode (p + 1) LAfter cs"
    if j: "passes_from src mode j LValue (ch_rbrack # cs)" "i < j" "?o < length src" for j cs
  proof -
    obtain d e where v: "value_at src d (SkipWS src j) e" "j < e" "passes_from src mode e LAfter (ch_rbrack # cs)"
      using IH(1) [OF j(2,3,1)] by (auto simp: value_then_def)
    have ie: "i < e" using v(2) j(2) by simp
    then obtain p where p: "p < length src" "src ! p = ch_rbrack" "e \<le> p" "passes_from src mode (p + 1) LAfter cs"
        "p = SkipWS src e \<or> (\<exists>d' e'. src ! SkipWS src e = ch_comma \<and> SkipWS src e < length src \<and> p = SkipWS src e' \<and>
          elems_at src d' (SkipWS src (SkipWS src e + 1)) e')"
      using IH(2) [OF ie j(3) v(3)] by (auto simp: closes_def)
    then have "j < p" using v(2) by simp
    then show ?thesis using elems_extend [OF v(1) p(1,2,5)] p(1,2,4) by blast
  qed
  show ?case
  proof (intro conjI impI)
    assume "passes_from src mode i LValue cs"
    then show "value_then src mode i cs"
    proof (cases rule: passes_step)
      case (go i' st' cs')
      consider (arr) "src ! ?o = ch_lbrack" | (obj) "src ! ?o = ch_lbrace" | (scalar) "src ! ?o \<noteq> ch_lbrack" "src ! ?o \<noteq> ch_lbrace" by blast
      then show ?thesis
      proof cases
        case arr
        then have p: "passes_from src mode (?o + 1) (if True then LValueOrClose else LKeyOrClose) (ch_rbrack # cs)"
          using go by (simp add: locate_step_def)
        from p show ?thesis
        proof (cases rule: open_or_close)
          case empty
          then have "value_at src 0 ?o (SkipWS src (?o + 1) + 1)"
            using arr go(1) by (intro value_at_elems_at_members_at.emptyArr) auto
          moreover have "i < SkipWS src (?o + 1) + 1" using io SkipWS_ge [of "?o + 1" src] by simp
          ultimately show ?thesis using empty(3) unfolding value_then_def by blast
        next
          case more
          obtain d e p where e: "elems_at src d (SkipWS src (?o + 1)) e" "p = SkipWS src e" "p < length src" "src ! p = ch_rbrack"
              "?o + 1 < p" "passes_from src mode (p + 1) LAfter cs"
            using elems [of "?o + 1" cs] more go(1) io by auto
          then have "value_at src (Suc d) ?o (p + 1)" using arr go(1) by (intro value_at_elems_at_members_at.arr) auto
          moreover have "i < p + 1" using e(5) io by simp
          ultimately show ?thesis using e(6) unfolding value_then_def by blast
        qed
      next
        case obj
        then have p: "passes_from src mode (?o + 1) (if False then LValueOrClose else LKeyOrClose) (ch_rbrace # cs)"
          using go by (simp add: locate_step_def)
        from p show ?thesis
        proof (cases rule: open_or_close)
          case empty
          then have "value_at src 0 ?o (SkipWS src (?o + 1) + 1)"
            using obj go(1) by (intro value_at_elems_at_members_at.emptyObj) auto
          moreover have "i < SkipWS src (?o + 1) + 1" using io SkipWS_ge [of "?o + 1" src] by simp
          ultimately show ?thesis using empty(3) unfolding value_then_def by blast
        next
          case more
          then have "members_then src mode (?o + 1) cs" using IH(4) [of "?o + 1"] go(1) io by simp
          then obtain d e p where e: "members_at src d (SkipWS src (?o + 1)) e" "p = SkipWS src e" "p < length src" "src ! p = ch_rbrace"
              "?o + 1 < p" "passes_from src mode (p + 1) LAfter cs" by (auto simp: members_then_def)
          then have "value_at src (Suc d) ?o (p + 1)" using obj go(1) by (intro value_at_elems_at_members_at.obj) auto
          moreover have "i < p + 1" using e(5) io by simp
          ultimately show ?thesis using e(6) unfolding value_then_def by blast
        qed
      next
        case scalar
        then have "locateScalar src mode ?o = Inr i'" "st' = LAfter" "cs' = cs" using go(1,2) by (auto simp: locate_step_def split: sum.splits)
        moreover have "i < i'" using go(3) io by simp
        ultimately show ?thesis using locateScalar_sound(1) [OF go(1), of mode i'] go(4) unfolding value_then_def by blast
      qed
    qed simp
  next
    assume "passes_from src mode i LAfter (ch_rbrack # cs)"
    then show "closes True src mode i cs"
    proof (cases rule: passes_step)
      case (go i' st' cs')
      show ?thesis
      proof (cases "src ! ?o = ch_comma")
        case True
        then have "passes_from src mode (?o + 1) LValue (ch_rbrack # cs)" using go by (simp add: locate_step_def)
        then obtain d e p where e: "elems_at src d (SkipWS src (?o + 1)) e" "p = SkipWS src e" "p < length src" "src ! p = ch_rbrack"
              "?o + 1 < p" "passes_from src mode (p + 1) LAfter cs"
          using elems [of "?o + 1" cs] go(1) io by auto
        then show ?thesis using True go(1) io unfolding closes_def by (intro exI [of _ p]) auto
      next
        case False
        then have "src ! ?o = ch_rbrack" "passes_from src mode (?o + 1) LAfter cs" using go by (auto simp: locate_step_def split: if_splits)
        then show ?thesis using go(1) io unfolding closes_def by (intro exI [of _ ?o]) auto
      qed
    qed simp
  next
    assume "passes_from src mode i LAfter (ch_rbrace # cs)"
    then show "closes False src mode i cs"
    proof (cases rule: passes_step)
      case (go i' st' cs')
      show ?thesis
      proof (cases "src ! ?o = ch_comma")
        case True
        then have "passes_from src mode (?o + 1) LKey (ch_rbrace # cs)" using go by (simp add: locate_step_def)
        then have "members_then src mode (?o + 1) cs" using IH(4) [of "?o + 1"] go(1) io by simp
        then obtain d e p where e: "members_at src d (SkipWS src (?o + 1)) e" "p = SkipWS src e" "p < length src" "src ! p = ch_rbrace"
              "?o + 1 < p" "passes_from src mode (p + 1) LAfter cs" by (auto simp: members_then_def)
        then show ?thesis using True go(1) io unfolding closes_def by (intro exI [of _ p]) auto
      next
        case False
        then have "src ! ?o = ch_rbrace" "passes_from src mode (?o + 1) LAfter cs" using go by (auto simp: locate_step_def split: if_splits)
        then show ?thesis using go(1) io unfolding closes_def by (intro exI [of _ ?o]) auto
      qed
    qed simp
  next
    assume "passes_from src mode i LKey (ch_rbrace # cs)"
    then show "members_then src mode i cs"
    proof (cases rule: passes_step)
      case (go i' st' cs')
      have q: "src ! ?o = ch_quote" and "\<exists>x. locateString src ?o mode = (i', x, False)" and k: "st' = LColon" "cs' = ch_rbrace # cs"
        using go(1,2) by (auto simp: locate_step_def split: if_splits prod.splits)
      then obtain x where x: "locateString src ?o mode = (i', x, False)" by blast
      have str: "ScanString src (?o + 1) = (i' - 1, True)" "0 < i'" using locateString_sound [OF go(1) x] by simp_all
      from go(4) [unfolded k] show ?thesis
      proof (cases rule: passes_step)
        case go2: (go i2 st2 cs2)
        let ?c = "SkipWS src i'"
        have c: "src ! ?c = ch_colon" "i2 = ?c + 1" "st2 = LValue" "cs2 = ch_rbrace # cs"
          using go2(1,2) by (auto simp: locate_step_def split: if_splits)
        have ic: "i < ?c + 1" "i' \<le> ?c" using io go(3) SkipWS_ge [of i' src] by simp_all
        obtain d e where v: "value_at src d (SkipWS src (?c + 1)) e" "?c + 1 < e" "passes_from src mode e LAfter (ch_rbrace # cs)"
          using IH(1) [OF ic(1) go(1) go2(4) [unfolded c(2-4)]] unfolding value_then_def by blast
        have ie: "i < e" using v(2) ic by simp
        obtain p where p: "p < length src" "src ! p = ch_rbrace" "e \<le> p" "passes_from src mode (p + 1) LAfter cs"
            "p = SkipWS src e \<or> (\<exists>d' e'. src ! SkipWS src e = ch_comma \<and> SkipWS src e < length src \<and> p = SkipWS src e' \<and>
              members_at src d' (SkipWS src (SkipWS src e + 1)) e')"
          using IH(3) [OF ie go(1) v(3)] by (auto simp: closes_def)
        have "?c = SkipWS src (i' - 1 + 1)" using str(2) by simp
        from members_extend [OF go(1) q str(1) this go2(1) c(1) v(1) p(1,2,5)]
        obtain d' e' where "members_at src d' ?o e'" "p = SkipWS src e'" by blast
        moreover have "i < p" using p(3) ie by simp
        ultimately show ?thesis using p(1,2,4) unfolding members_then_def by blast
      qed simp
    qed simp
  qed
qed

section \<open>What is JSON the locator accepts\<close>

lemma delim_before_closer: "At src (SkipWS src e) \<in> {ch_comma, ch_rbrack, ch_rbrace} \<Longrightarrow> e \<le> length src \<Longrightarrow> \<not> IsNonDelim (At src e)"
proof (cases "e < length src \<and> is_ws (src ! e)")
  case True
  then show ?thesis by (auto simp: IsNonDelim_iff)
next
  case False
  assume "e \<le> length src" "At src (SkipWS src e) \<in> {ch_comma, ch_rbrack, ch_rbrace}"
  moreover from this have "SkipWS src e = e" using False by (cases "e = length src") (auto simp: SkipWS_eq)
  ultimately show ?thesis by (auto simp: IsNonDelim_iff)
qed

lemma delim_at_end:
  assumes "SkipWS src e = length src" "e \<le> length src"
  shows "\<not> IsNonDelim (At src e)"
proof (cases "e < length src \<and> \<not> is_ws (src ! e)")
  case True
  then show ?thesis using assms by (simp add: SkipWS_eq)
next
  case False
  then show ?thesis using assms(2) by (cases "e = length src") (auto simp: IsNonDelim_iff)
qed

lemma SkipWS_nonws: "i < length src \<Longrightarrow> \<not> is_ws (src ! i) \<Longrightarrow> SkipWS src i = i"
  by (simp add: SkipWS_eq)

lemma value_no_ws:
  assumes "value_at src d o' e"
  shows "o' < length src \<and> \<not> is_ws (src ! o')"
  using assms
proof (cases rule: value_at.cases)
  case number
  then have "At src o' = ch_minus \<or> IsDigit (At src o')" using number_at_first [OF number_nonempty] by blast
  moreover from this have "o' < length src" by (intro At_neq_space) (auto simp: IsDigit_iff)
  ultimately show ?thesis by (auto simp: IsDigit_iff)
next
  case atom
  then have "At src o' \<in> {ch_t, ch_f, ch_n}" using literal_at_first [OF literal_nonempty] by blast
  moreover from this have "o' < length src" by (intro At_neq_space) auto
  ultimately show ?thesis by auto
qed auto

lemma elems_no_ws: "elems_at src d o' e \<Longrightarrow> o' < length src"
  by (cases rule: elems_at.cases) (auto dest: value_no_ws)

lemma loop_go:
  assumes "SkipWS src i = o'" "locate_step src mode o' st cs = LGo i' st' cs'"
  shows "locate_loop src mode i st cs = locate_loop src mode i' st' cs'"
  using assms by (simp add: locate_loop.simps [of src mode i])

lemma loop_open_more:
  assumes "src ! SkipWS src i \<noteq> (if isArr then ch_rbrack else ch_rbrace)" "SkipWS src i < length src"
  shows "locate_loop src mode i (if isArr then LValueOrClose else LKeyOrClose) cs =
    locate_loop src mode i (if isArr then LValue else LKey) cs"
proof -
  have "locate_step src mode (SkipWS src i) (if isArr then LValueOrClose else LKeyOrClose) cs =
      locate_step src mode (SkipWS src i) (if isArr then LValue else LKey) cs"
    using assms by (cases isArr) (auto simp: locate_step_def Let_def)
  then show ?thesis by (simp add: locate_loop.simps [of src mode i])
qed

lemma locate_key:
  assumes "o' < length src" "src ! o' = ch_quote" "ScanString src (o' + 1) = (k, True)"
    "c = SkipWS src (k + 1)" "c < length src" "src ! c = ch_colon" "SkipWS src i = o'"
  shows "locate_loop src ScanLax i LKey cs = locate_loop src ScanLax (c + 1) LValue cs"
proof -
  have "locate_step src ScanLax o' LKey cs = LGo (k + 1) LColon cs"
    using assms(1,2) locateString_complete [OF assms(3)] by (simp add: locate_step_def)
  moreover have "locate_step src ScanLax c LColon cs = LGo (c + 1) LValue cs" using assms(5,6) by (simp add: locate_step_def)
  ultimately show ?thesis using loop_go [OF assms(7)] loop_go [OF assms(4) [symmetric]] by simp
qed

lemma locate_comma:
  assumes "q = SkipWS src e" "q < length src" "src ! q = ch_comma"
  shows "locate_loop src mode e LAfter (cl # cs) = locate_loop src mode (q + 1) (if cl = ch_rbrack then LValue else LKey) (cl # cs)"
  using assms by (intro loop_go [OF assms(1) [symmetric]]) (simp add: locate_step_def)

lemma locate_close:
  assumes "p = SkipWS src e" "p < length src" "src ! p = cl" "cl \<noteq> ch_comma"
  shows "locate_loop src mode e LAfter (cl # cs) = locate_loop src mode (p + 1) LAfter cs"
  using assms by (intro loop_go [OF assms(1) [symmetric]]) (simp add: locate_step_def)

lemma locateScalar_complete:
  "ScanString src (i + 1) = (k, True) \<Longrightarrow> i < length src \<Longrightarrow> src ! i = ch_quote \<Longrightarrow> locateScalar src ScanLax i = Inr (k + 1)"
  "i \<le> e \<Longrightarrow> e \<le> length src \<Longrightarrow> is_number (cut src i e) \<Longrightarrow> \<not> IsNonDelim (At src e) \<Longrightarrow> locateScalar src mode i = Inr e"
  "i \<le> e \<Longrightarrow> e \<le> length src \<Longrightarrow> cut src i e \<in> {lit ''true'', lit ''false'', lit ''null''} \<Longrightarrow> locateScalar src mode i = Inr e"
proof -
  show "ScanString src (i + 1) = (k, True) \<Longrightarrow> i < length src \<Longrightarrow> src ! i = ch_quote \<Longrightarrow> locateScalar src ScanLax i = Inr (k + 1)"
    by (simp add: locateScalar_def locateString_complete)
next
  assume a: "i \<le> e" "e \<le> length src" "is_number (cut src i e)" "\<not> IsNonDelim (At src e)"
  have f: "At src i = ch_minus \<or> IsDigit (At src i)" using number_at_first [OF number_nonempty [OF a(3)] a(2,3)] .
  then have "i < length src" by (intro At_neq_space) (auto simp: IsDigit_iff)
  then show "locateScalar src mode i = Inr e"
    using f locateNumber_complete [OF a] by (auto simp: locateScalar_def Let_def IsDigit_iff)
next
  assume a: "i \<le> e" "e \<le> length src" "cut src i e \<in> {lit ''true'', lit ''false'', lit ''null''}"
  have f: "At src i \<in> {ch_t, ch_f, ch_n}" using literal_at_first [OF literal_nonempty [OF a(3)] a(2,3)] .
  then have l: "i < length src" by (intro At_neq_space) auto
  have "hd (cut src i e) = src ! i" using cut_first [OF literal_nonempty [OF a(3)] a(2)] .
  then have c: "cut src i e = literal_of (src ! i)" using a(3) by (auto simp: literal_of_def lit_def)
  then have n: "e = i + length (literal_of (src ! i))" using a(1,2) by (metis add_diff_cancel_left' le_add_diff_inverse length_cut)
  have "take (length (literal_of (src ! i))) (drop i src) = literal_of (src ! i)"
    using c unfolding cut_def n by simp
  then have "lit_match (literal_of (src ! i)) (drop i src) = length (literal_of (src ! i))" using lit_match_all(2) by blast
  then show "locateScalar src mode i = Inr e" using f l n by (auto simp: locateScalar_def Let_def literal_of_def)
qed

lemma scalar_pass:
  assumes "locateScalar src mode o' = Inr e" "SkipWS src i = o'" "o' < length src" "src ! o' \<noteq> ch_lbrack" "src ! o' \<noteq> ch_lbrace"
  shows "locate_loop src mode i LValue cs = locate_loop src mode e LAfter cs"
  using assms by (intro loop_go [OF assms(2)]) (simp add: locate_step_def)

lemma open_pass:
  assumes "SkipWS src i = o'" "o' < length src" "src ! o' = (if isArr then ch_lbrack else ch_lbrace)"
  shows "locate_loop src mode i LValue cs =
    locate_loop src mode (o' + 1) (if isArr then LValueOrClose else LKeyOrClose) ((if isArr then ch_rbrack else ch_rbrace) # cs)"
  using assms by (intro loop_go [OF assms(1)]) (cases isArr, simp_all add: locate_step_def)

lemma empty_pass:
  assumes "SkipWS src i = p" "p < length src" "src ! p = (if isArr then ch_rbrack else ch_rbrace)"
  shows "locate_loop src mode i (if isArr then LValueOrClose else LKeyOrClose) (cl # cs) = locate_loop src mode (p + 1) LAfter cs"
  using assms by (intro loop_go [OF assms(1)]) (cases isArr, simp_all add: locate_step_def)

lemma locate_complete:
  "value_at src d o' e \<Longrightarrow> \<not> IsNonDelim (At src e) \<Longrightarrow> SkipWS src i = o' \<Longrightarrow>
     locate_loop src ScanLax i LValue cs = locate_loop src ScanLax e LAfter cs"
  "elems_at src d o' e \<Longrightarrow> \<not> IsNonDelim (At src e) \<Longrightarrow> SkipWS src i = o' \<Longrightarrow>
     locate_loop src ScanLax i LValue (ch_rbrack # cs) = locate_loop src ScanLax e LAfter (ch_rbrack # cs)"
  "members_at src d o' e \<Longrightarrow> \<not> IsNonDelim (At src e) \<Longrightarrow> SkipWS src i = o' \<Longrightarrow>
     locate_loop src ScanLax i LKey (ch_rbrace # cs) = locate_loop src ScanLax e LAfter (ch_rbrace # cs)"
proof (induction arbitrary: i cs and i cs and i cs rule: value_at_elems_at_members_at.inducts)
  case (string o' e d)
  then show ?case using locateScalar_complete(1) [OF string(3,1,2)] by (intro scalar_pass [of src _ o']) simp_all
next
  case (number o' e d)
  then have "At src o' = ch_minus \<or> IsDigit (At src o')" using number_at_first [OF number_nonempty] by blast
  moreover from this have "o' < length src" by (intro At_neq_space) (auto simp: IsDigit_iff)
  ultimately show ?case using locateScalar_complete(2) [OF number(1-4)] number by (intro scalar_pass [of src _ o']) (auto simp: IsDigit_iff)
next
  case (atom o' e d)
  then have "At src o' \<in> {ch_t, ch_f, ch_n}" using literal_at_first [OF literal_nonempty] by blast
  moreover from this have "o' < length src" by (intro At_neq_space) auto
  ultimately show ?case using locateScalar_complete(3) [OF atom(1,2,3)] atom by (intro scalar_pass [of src _ o']) auto
next
  case (emptyArr o' p d)
  then show ?case using open_pass [of src i o' True] empty_pass [of src "o' + 1" p True] by simp
next
  case (emptyObj o' p d)
  then show ?case using open_pass [of src i o' False] empty_pass [of src "o' + 1" p False] by simp
next
  case (arr o' d e p)
  have e: "\<not> IsNonDelim (At src e)" using arr(5-7) value_at_bounds(2) [OF arr(3)] by (intro delim_before_closer) auto
  have f: "SkipWS src (o' + 1) < length src" "src ! SkipWS src (o' + 1) \<noteq> ch_rbrack"
    using elems_first [OF arr(3)] elems_no_ws [OF arr(3)] by simp_all
  show ?case
    using open_pass [of src i o' True] loop_open_more [of src "o' + 1" True ScanLax] arr(1,2,9) f
      arr(4) [OF e refl, of cs] locate_close [OF arr(5-7)] by simp
next
  case (obj o' d e p)
  have e: "\<not> IsNonDelim (At src e)" using obj(5-7) value_at_bounds(3) [OF obj(3)] by (intro delim_before_closer) auto
  have f: "SkipWS src (o' + 1) < length src" "src ! SkipWS src (o' + 1) \<noteq> ch_rbrace"
    using obj(3) by (cases rule: members_at.cases; simp)+
  show ?case
    using open_pass [of src i o' False] loop_open_more [of src "o' + 1" False ScanLax] obj(1,2,9) f
      obj(4) [OF e refl, of cs] locate_close [OF obj(5-7)] by simp
next
  case (elem d o' e)
  then show ?case by blast
next
  case (elem_more d o' e q e')
  have e: "\<not> IsNonDelim (At src e)" using elem_more(3-5) value_at_bounds(1) [OF elem_more(1)] by (intro delim_before_closer) auto
  show ?case using elem_more(2) [OF e elem_more(9)] elem_more(7) [OF elem_more(8) refl] locate_comma [OF elem_more(3-5)] by simp
next
  case (member o' k c d e)
  then show ?case using locate_key [OF member(1-6,10)] member(8) [OF member(9) refl] by simp
next
  case (member_more o' k c d e q e')
  have e: "\<not> IsNonDelim (At src e)" using member_more(9-11) value_at_bounds(1) [OF member_more(7)] by (intro delim_before_closer) auto
  show ?case using locate_key [OF member_more(1-6,15)] member_more(8) [OF e refl] locate_comma [OF member_more(9-11)]
    member_more(13) [OF member_more(14) refl] by simp
qed

lemma Locate_iff:
  "Locate src mode = Some (0, False, False) \<Longrightarrow> \<exists>d. json_text src d"
  "json_text src d \<Longrightarrow> Locate src ScanLax = Some (0, False, False)"
proof -
  assume "Locate src mode = Some (0, False, False)"
  then have "value_then src mode 0 []" using locate_sound by (simp add: Locate_def)
  then obtain d e where v: "value_at src d (SkipWS src 0) e" "passes_from src mode e LAfter []" by (auto simp: value_then_def)
  from v(2) have "length src \<le> SkipWS src e"
    by (cases rule: passes_step) (auto simp: locate_step_def split: if_splits)
  then have "SkipWS src e = length src" using SkipWS_bounds [OF value_at_bounds(1) [OF v(1)]] by simp
  then show "\<exists>d. json_text src d" using v(1) by (auto simp: json_text_def)
next
  assume "json_text src d"
  then obtain e where e: "value_at src d (SkipWS src 0) e" "SkipWS src e = length src" by (auto simp: json_text_def)
  have "Locate src ScanLax = locate_loop src ScanLax e LAfter []"
    unfolding Locate_def using e(1) delim_at_end [OF e(2) value_at_bounds(1) [OF e(1)]] by (rule locate_complete(1)) simp
  then show "Locate src ScanLax = Some (0, False, False)" using e(2) by (simp add: locate_loop.simps [of src ScanLax e] locate_step_def)
qed

section \<open>The locator never panics and stays in bounds\<close>

definition located :: "bytes \<Rightarrow> nat \<times> bool \<times> bool \<Rightarrow> bool" where
  "located src r \<longleftrightarrow> (case r of (k, eof, ok) \<Rightarrow> if ok then k \<le> length src \<and> (eof \<longleftrightarrow> k = length src) else k = 0 \<and> \<not> eof)"

lemma hex_stop_bounds: "k \<le> length src \<Longrightarrow> hex_stop src lim k \<le> length src"
proof (induction src lim k rule: hex_stop.induct)
  case (1 src lim k)
  then show ?case by (subst hex_stop.simps) auto
qed

lemma body_bad_bounds: "body_bad src mode en k = Some j \<Longrightarrow> j < en"
proof (induction src mode en k rule: body_bad.induct)
  case (1 src mode en k)
  show ?case using "1.prems" "1.IH" unfolding body_bad.simps [of src mode en k]
    by (auto simp: Let_def split: if_splits prod.splits)
qed

lemma locateString_located:
  assumes "i < length src" "locateString src i mode = (en, e, True)"
  shows "located src (en, e, True)"
proof -
  obtain cl ok where c: "ScanString src (i + 1) = (cl, ok)" by fastforce
  have b: "i + 1 \<le> cl" "cl \<le> length src" "ok \<Longrightarrow> cl < length src" using ScanString_ge [OF _ c] assms(1) by auto
  show ?thesis
  proof (cases ok)
    case True
    then show ?thesis using assms(2) b(3) body_bad_bounds [of src mode cl "i + 1"]
      unfolding locateString_def Let_def c by (fastforce simp: located_def split: option.splits)
  next
    case False
    define k where "k = (if At src (cl + 1) = ch_u then hex_stop src (cl + 6) (cl + 2) else cl + 1)"
    have "k \<le> length src" if "cl < length src"
      using that hex_stop_bounds [of "cl + 2" src "cl + 6"] At_neq_space [of src "cl + 1"] by (auto simp: k_def)
    then show ?thesis using False assms(2) b(2)
      unfolding locateString_def Let_def c by (auto simp: located_def k_def split: if_splits)
  qed
qed

lemma locateNumber_bad: "locateNumber src i = (en, True) \<Longrightarrow> en \<le> length src"
  by (auto simp: locateNumber_def Let_def split: if_splits)

lemma locateScalar_located: "i < length src \<Longrightarrow> locateScalar src mode i = Inl r \<Longrightarrow> located src r"
proof -
  assume a: "i < length src" "locateScalar src mode i = Inl r"
  have k: "i + lit_match l (drop i src) \<le> length src" for l
  proof -
    have "lit_match l xs \<le> length xs" for xs by (induction l xs rule: lit_match.induct) auto
    from this [of "drop i src"] show ?thesis using a(1) by simp
  qed
  have n: "located src (en, length src \<le> en, True)" if "en \<le> length src" for en using that by (auto simp: located_def)
  consider (str) "src ! i = ch_quote" | (atom) "src ! i = ch_t \<or> src ! i = ch_f \<or> src ! i = ch_n"
    | (num) "src ! i = ch_minus \<or> IsDigit (src ! i)"
    | (other) "r = (i, False, True)"
    using a(2) by (auto simp: locateScalar_def Let_def split: if_splits)
  then show "located src r"
  proof cases
    case str
    obtain en e bad where l: "locateString src i mode = (en, e, bad)" by (rule prod_cases3)
    then show ?thesis using a str locateString_located [OF a(1), of mode en e] by (auto simp: locateScalar_def split: if_splits)
  next
    case atom
    then show ?thesis using a(2) n [OF k] by (auto simp: locateScalar_def Let_def split: if_splits)
  next
    case num
    obtain en bad where l: "locateNumber src i = (en, bad)" by fastforce
    then show ?thesis using a(2) num n [of en] locateNumber_bad [of src i en]
      by (auto simp: locateScalar_def Let_def IsDigit_iff split: if_splits)
  qed (use a(1) in \<open>simp add: located_def\<close>)
qed

lemma locate_step_located: "locate_step src mode i st cs = LDone r \<Longrightarrow> located src r"
proof -
  assume a: "locate_step src mode i st cs = LDone r"
  show "located src r"
  proof (cases "length src \<le> i")
    case True
    then show ?thesis using a by (auto simp: locate_step_def located_def split: if_splits)
  next
    case False
    then have i: "i < length src" by simp
    have here: "located src (i, False, True)" using i by (simp add: located_def)
    show ?thesis
      using a i here locateString_located [OF i, of mode] locateScalar_located [OF i, of mode]
      by (auto simp: locate_step_def Let_def split: if_splits list.splits sum.splits prod.splits)
  qed
qed

lemma locate_step_stack:
  "locate_step src mode i st cs = LPanic \<Longrightarrow> cs = []"
  "locate_step src mode i st cs = LGo i' st' cs' \<Longrightarrow> st' = LValueOrClose \<or> st' = LKeyOrClose \<Longrightarrow> cs' \<noteq> []"
  by (auto simp: locate_step_def Let_def split: if_splits list.splits sum.splits prod.splits)

lemma locate_step_panic: "locate_step src mode i st cs = LPanic \<Longrightarrow> st = LValueOrClose \<or> st = LKeyOrClose"
  by (auto simp: locate_step_def Let_def split: if_splits list.splits sum.splits prod.splits)

lemma locate_loop_safe:
  "st = LValueOrClose \<or> st = LKeyOrClose \<longrightarrow> cs \<noteq> [] \<Longrightarrow> \<exists>r. locate_loop src mode i st cs = Some r \<and> located src r"
proof (induction src mode i st cs rule: locate_loop.induct)
  case (1 src mode i st cs)
  show ?case
  proof (cases "locate_step src mode (SkipWS src i) st cs")
    case (LDone r)
    then show ?thesis using locate_step_located [OF LDone] by (simp add: locate_loop.simps [of src mode i])
  next
    case LPanic
    then show ?thesis using locate_step_stack(1) locate_step_panic "1.prems" by blast
  next
    case (LGo i' st' cs')
    then have "\<exists>r. locate_loop src mode i' st' cs' = Some r \<and> located src r"
      using "1.IH" [OF LGo] locate_step_stack(2) [OF LGo] by blast
    then show ?thesis using LGo by (simp add: locate_loop.simps [of src mode i])
  qed
qed

section \<open>CheckAt and Check\<close>

lemma DecodeRune_error:
  assumes "p \<noteq> []" "0x80 \<le> p ! 0" "DecodeRune p = (r, sz)"
  shows "r = RuneError \<and> sz \<le> 1 \<longleftrightarrow> utf8_size p = 0" "utf8_size p \<noteq> 0 \<Longrightarrow> sz = utf8_size p \<and> 2 \<le> sz"
proof -
  have n: "utf8_size p = 0 \<or> utf8_size p = 2 \<or> utf8_size p = 3 \<or> utf8_size p = 4"
    using assms(1,2) by (cases p) (auto simp: utf8_size_def utf8_first_def)
  then show "r = RuneError \<and> sz \<le> 1 \<longleftrightarrow> utf8_size p = 0" "utf8_size p \<noteq> 0 \<Longrightarrow> sz = utf8_size p \<and> 2 \<le> sz"
    using assms(1,3) by (auto simp: DecodeRune_def numeral_eq_Suc split: if_splits)
qed

lemma utf8_Valid_drop_ascii: "i < length src \<Longrightarrow> src ! i < 0x80 \<Longrightarrow> utf8_Valid (drop i src) = utf8_Valid (drop (i + 1) src)"
  by (subst utf8_Valid.simps) (simp add: Cons_nth_drop_Suc [symmetric])

lemma high_no_ctl: "\<not> c < 0x80 \<Longrightarrow> \<not> (c :: byte) < 0x20"
  by (simp add: word_less_nat_alt)

lemma str_run_high:
  assumes "i \<le> k" "k \<le> length src" "\<And>j. i \<le> j \<Longrightarrow> j < k \<Longrightarrow> \<not> src ! j < 0x80"
  shows "str_run q False (drop i src) = str_run q False (drop k src)"
proof -
  have d: "drop i src = cut src i k @ drop k src"
    using assms(1) append_take_drop_id [of "k - i" "drop i src"] by (simp add: cut_def)
  have h: "\<not> c < 0x80" if "c \<in> set (cut src i k)" for c using that assms by (auto simp: set_cut)
  have p: "\<forall>c \<in> set (cut src i k). \<not> is_stop c" using h by fastforce
  have n: "\<not> hasCtl (cut src i k)" unfolding hasCtl_def
  proof
    assume "list_ex (\<lambda>c. c < 0x20) (cut src i k)"
    then obtain c where "c \<in> set (cut src i k)" "c < 0x20" by (auto simp: list_ex_iff)
    then show False using h [of c] high_no_ctl [of c] by simp
  qed
  show ?thesis unfolding d using str_run_plain [OF p, of q "drop k src"] n by (simp add: prod_eq_iff)
qed

lemma checkAt_iff:
  assumes "mode = ScanStrict \<Longrightarrow> \<forall>k. k + 1 < length src \<and> src ! k = ch_bslash \<longrightarrow> src ! (k + 1) < 0x80"
  shows "\<not> snd (snd (checkAt_loop src mode i q)) \<longleftrightarrow>
    run_ok (mode \<noteq> ScanLax) (str_run q False (drop i src)) \<and> (mode = ScanStrict \<longrightarrow> utf8_Valid (drop i src))"
  using assms
proof (induction src mode i q rule: checkAt_loop.induct)
  case (1 src mode i q)
  note IH = "1.IH" [OF _ refl]
  note U = checkAt_loop.simps [of src mode i q]
  show ?case
  proof (cases "i < length src")
    case i: True
    let ?c = "src ! i"
    consider (bslash) "?c = ch_bslash" | (quote) "?c = ch_quote" | (high) "0x80 \<le> ?c" "mode = ScanStrict"
      | (other) "?c \<noteq> ch_bslash" "?c \<noteq> ch_quote" "\<not> (0x80 \<le> ?c \<and> mode = ScanStrict)" by blast
    then show ?thesis
    proof cases
      case bslash
      have u: "mode = ScanStrict \<Longrightarrow> utf8_Valid (drop i src) = utf8_Valid (drop (i + 2) src)"
      proof -
        assume m: "mode = ScanStrict"
        have "utf8_Valid (drop i src) = utf8_Valid (drop (i + 1) src)" using i bslash by (intro utf8_Valid_drop_ascii) simp_all
        also have "\<dots> = utf8_Valid (drop (i + 2) src)"
          using utf8_Valid_drop_ascii [of "i + 1" src] "1.prems" m bslash by (cases "i + 1 < length src") auto
        finally show ?thesis .
      qed
      show ?thesis
      proof (cases "q \<and> mode \<noteq> ScanLax \<and> i + 1 < length src \<and> src ! (i + 1) < 0x20")
        case True
        then show ?thesis using U i bslash str_run_bslash [OF i bslash, of q] by simp
      next
        case False
        then show ?thesis using U i bslash str_run_bslash [OF i bslash, of q] u IH(1) [OF i bslash False] "1.prems" by auto
      qed
    next
      case quote
      have "mode = ScanStrict \<Longrightarrow> utf8_Valid (drop i src) = utf8_Valid (drop (i + 1) src)" using i quote by (intro utf8_Valid_drop_ascii) simp_all
      then show ?thesis using U i quote str_run_quote [OF i quote, of q] IH(2) [OF i _ quote] "1.prems" by auto
    next
      case high
      then have c: "?c \<noteq> ch_bslash" "?c \<noteq> ch_quote" "\<not> ?c < 0x20" using high_no_ctl [of ?c] by (auto simp: not_less)
      obtain r sz where d: "DecodeRune (drop i src) = (r, sz)" by fastforce
      have ne: "drop i src \<noteq> []" "drop i src ! 0 = ?c" using i by simp_all
      note E = DecodeRune_error [OF ne(1) _ d, unfolded ne(2), OF high(1)]
      show ?thesis
      proof (cases "utf8_size (drop i src) = 0")
        case True
        then have "\<not> utf8_Valid (drop i src)" using ne(1) by (subst utf8_Valid.simps) simp
        then show ?thesis using U i c high d E(1) True by simp
      next
        case False
        have sz: "sz = utf8_size (drop i src)" "i + sz \<le> length src" using E(2) [OF False] utf8_size_le [of "drop i src"] i by simp_all
        have "str_run q False (drop i src) = str_run q False (drop (i + sz) src)"
        proof (rule str_run_high)
          fix j
          assume "i \<le> j" "j < i + sz"
          then show "\<not> src ! j < 0x80" using utf8_size_high [of "j - i" "drop i src"] sz high(1) i by (simp add: not_less)
        qed (use sz in simp_all)
        moreover have "utf8_Valid (drop i src) = utf8_Valid (drop (i + sz) src)"
          using ne(1) False by (subst utf8_Valid.simps) (simp add: sz(1) add.commute)
        ultimately show ?thesis
          using U i c high d E(1) False IH(3) [OF i c(1,2) _ _ d [symmetric]] "1.prems" by auto
      qed
    next
      case other
      have u: "mode = ScanStrict \<Longrightarrow> utf8_Valid (drop i src) = utf8_Valid (drop (i + 1) src)" using i other by (intro utf8_Valid_drop_ascii) (auto simp: not_le)
      have s: "str_run q False (drop i src) = (fst (str_run q False (drop (i + 1) src)), snd (str_run q False (drop (i + 1) src)) \<or> (q \<and> ?c < 0x20))"
        using i other by (simp add: Cons_nth_drop_Suc [symmetric] split: prod.splits)
      show ?thesis
      proof (cases "?c < 0x20 \<and> q \<and> mode \<noteq> ScanLax")
        case True
        then show ?thesis using U i other s by simp
      next
        case False
        then show ?thesis using U i other s u IH(4) [OF i other(1,2) False other(3)] "1.prems" by auto
      qed
    qed
  next
    case False
    then show ?thesis using U by simp
  qed
qed

section \<open>Claims\<close>



text \<open>
  Claim C27. \<open>Locate\<close> never pops an empty closer stack, and the position it reports lies in the document:
  an offset before the end, or the end itself exactly when \<open>eof\<close> is set.
\<close>

theorem Locate_safe:
  "\<exists>k eof bad. Locate src mode = Some (k, eof, bad) \<and>
     (if bad then k \<le> length src \<and> (eof \<longleftrightarrow> k = length src) else k = 0 \<and> \<not> eof)"
proof -
  obtain r where "Locate src mode = Some r" "located src r"
    using locate_loop_safe [of LValue "[]" src mode 0] unfolding Locate_def by blast
  then show ?thesis unfolding located_def by (cases r) auto
qed

text \<open>
  Claim C28. \<open>CheckAt\<close> reaches the verdict of \<open>Check\<close>: it reports nothing exactly when \<open>Check\<close> passes, in the
  strict mode for a document in which no byte at or above 0x80 follows a backslash.
\<close>

theorem CheckAt_verdict:
  assumes "mode = ScanStrict \<Longrightarrow> \<forall>k. k + 1 < length src \<and> src ! k = ch_bslash \<longrightarrow> src ! (k + 1) < 0x80"
  shows "\<not> snd (snd (CheckAt src mode)) \<longleftrightarrow> Check src mode"
  using checkAt_iff [of mode src 0 False, OF assms] Check_loop_run [of src "mode \<noteq> ScanLax" 0] by (auto simp: CheckAt_def Check_def)

theorem CheckAt_verdict_witness: "\<not> snd (snd (CheckAt [ch_quote, 0xC3, 0xA9, ch_quote] ScanStrict))"
proof -
  have "\<forall>k. k + 1 < length [ch_quote, 0xC3, 0xA9, ch_quote] \<and> [ch_quote, 0xC3, 0xA9, ch_quote] ! k = ch_bslash \<longrightarrow>
      [ch_quote, 0xC3, 0xA9, ch_quote] ! (k + 1) < 0x80"
    by (auto simp: less_Suc_eq nth_Cons')
  moreover have "Check [ch_quote, 0xC3, 0xA9, ch_quote] ScanStrict" by code_simp
  ultimately show ?thesis using CheckAt_verdict [of ScanStrict "[ch_quote, 0xC3, 0xA9, ch_quote]"] by blast
qed


end
