(* ===== verification/Raw.thy ===== *)
theory Raw
  imports Locate
begin

text \<open>
  The byte-backed values of \<^verbatim>\<open>value/raw.go\<close>. A \<open>Raw\<close> is a slice of JSON text its accessors scan on
  demand; a nil \<open>Raw\<close> is \<open>None\<close>. The scanners return the offset past what they read, \<open>None\<close> standing for
  the code's \<open>bad\<close>; \<open>scanValue\<close> and the two container loops are mutually recursive.

  The scanner is compared with the grammar \<open>value_at\<close> and with the strict-string verdict of the decoder's
  \<open>Check\<close>, \<open>unquote\<close> with the decoder's \<open>decode_from\<close>, and the lookups with the list of members or
  elements that the iterators visit.
\<close>

section \<open>Scanner primitives\<close>

definition wsLUT :: "byte \<Rightarrow> bool" where [byte_defs]:
  "wsLUT c \<longleftrightarrow> c \<in> set [ch_space, ch_tab, ch_lf, ch_cr]"

function skipWS :: "bytes \<Rightarrow> nat \<Rightarrow> nat" where
  "skipWS b i = (if i < length b \<and> wsLUT (b ! i) then skipWS b (i + 1) else i)"
  by pat_completeness auto
termination by (relation "measure (\<lambda>(b, i). length b - i)") auto

text \<open>The trailing loop of \<^verbatim>\<open>skipWSTrim\<close>, down to \<open>i\<close>.\<close>

function trim_end :: "bytes \<Rightarrow> nat \<Rightarrow> nat \<Rightarrow> nat" where
  "trim_end b i j = (if i < j \<and> wsLUT (b ! (j - 1)) then trim_end b i (j - 1) else j)"
  by pat_completeness auto
termination by (relation "measure (\<lambda>(b, i, j). j)") auto

declare skipWS.simps [simp del] trim_end.simps [simp del]

definition skipWSTrim :: "bytes \<Rightarrow> bytes" where
  "skipWSTrim b = (let i = skipWS b 0; j = trim_end b i (length b) in cut b i j)"

definition raw_isDigit :: "byte \<Rightarrow> bool" where [byte_defs]:
  "raw_isDigit c \<longleftrightarrow> ch_0 \<le> c \<and> c \<le> ch_9"

definition raw_hexVal :: "byte \<Rightarrow> int" where [byte_defs]:
  "raw_hexVal c =
     (if ch_0 \<le> c \<and> c \<le> ch_9 then uint (c - ch_0)
      else if 0x61 \<le> c \<and> c \<le> 0x66 then uint (c - 0x61) + 10
      else if 0x41 \<le> c \<and> c \<le> 0x46 then uint (c - 0x41) + 10
      else - 1)"

definition scanLit :: "bytes \<Rightarrow> nat \<Rightarrow> bytes \<Rightarrow> nat option" where
  "scanLit b i l =
     (if length b < i + length l \<or> cut b i (i + length l) \<noteq> l then None else Some (i + length l))"

text \<open>The escape switch of \<^verbatim>\<open>scanString\<close>, at the byte after the backslash, and the loop around it.\<close>

definition raw_escape :: "bytes \<Rightarrow> nat \<Rightarrow> nat option" where
  "raw_escape b i =
     (if length b \<le> i then None
      else if b ! i \<in> set [ch_quote, ch_bslash, ch_slash, ch_b, ch_f, ch_n, ch_r, ch_t] then Some (i + 1)
      else if b ! i = ch_u then
        (if length b \<le> i + 4 then None
         else if list_ex (\<lambda>k. raw_hexVal (b ! (i + k)) < 0) [1, 2, 3, 4] then None
         else Some (i + 5))
      else None)"

lemma raw_escape_ge: "raw_escape b i = Some j \<Longrightarrow> i < j \<and> j \<le> length b"
  by (auto simp: raw_escape_def split: if_splits)

function scanString_loop :: "bytes \<Rightarrow> nat \<Rightarrow> nat option" where
  "scanString_loop b i =
     (if i < length b then
        if b ! i = ch_quote then Some (i + 1)
        else if b ! i = ch_bslash then
          (case raw_escape b (i + 1) of None \<Rightarrow> None | Some i \<Rightarrow> scanString_loop b i)
        else if b ! i < 0x20 then None
        else scanString_loop b (i + 1)
      else None)"
  by pat_completeness auto
termination by (relation "measure (\<lambda>(b, i). length b - i)") (auto dest!: raw_escape_ge)

declare scanString_loop.simps [simp del]

definition scanString :: "bytes \<Rightarrow> nat \<Rightarrow> nat option" where
  "scanString b i = scanString_loop b (i + 1)"

text \<open>\<^verbatim>\<open>for i < len(b) && isDigit(b[i]) { i++ }\<close>, three times in \<^verbatim>\<open>scanNumber\<close>.\<close>

function raw_digits :: "bytes \<Rightarrow> nat \<Rightarrow> nat" where
  "raw_digits b i = (if i < length b \<and> raw_isDigit (b ! i) then raw_digits b (i + 1) else i)"
  by pat_completeness auto
termination by (relation "measure (\<lambda>(b, i). length b - i)") auto

declare raw_digits.simps [simp del]

definition raw_exponent :: "bytes \<Rightarrow> nat \<Rightarrow> nat option" where
  "raw_exponent b i =
     (if i < length b \<and> (b ! i = ch_e \<or> b ! i = ch_E) then
        let i = i + 1; i = (if i < length b \<and> (b ! i = ch_plus \<or> b ! i = ch_minus) then i + 1 else i) in
        if length b \<le> i \<or> \<not> raw_isDigit (b ! i) then None else Some (raw_digits b i)
      else Some i)"

definition raw_fraction :: "bytes \<Rightarrow> nat \<Rightarrow> nat option" where
  "raw_fraction b i =
     (if i < length b \<and> b ! i = ch_dot then
        let i = i + 1 in
        if length b \<le> i \<or> \<not> raw_isDigit (b ! i) then None else Some (raw_digits b i)
      else Some i)"

definition scanNumber :: "bytes \<Rightarrow> nat \<Rightarrow> nat option" where
  "scanNumber b i =
     (let start = i; i = (if i < length b \<and> b ! i = ch_minus then i + 1 else i) in
      if length b \<le> i then None
      else case (if b ! i = ch_0 then Some (i + 1)
                 else if 0x31 \<le> b ! i \<and> b ! i \<le> ch_9 then Some (raw_digits b i) else None) of
             None \<Rightarrow> None
           | Some i \<Rightarrow>
               (case raw_fraction b i of
                  None \<Rightarrow> None
                | Some i \<Rightarrow>
                    (case raw_exponent b i of
                       None \<Rightarrow> None
                     | Some i \<Rightarrow> if i = start then None else Some i)))"

text \<open>The scanners never move backwards; the recursion below rests on it.\<close>

lemma skipWS_ge: "i \<le> skipWS b i"
proof (induction b i rule: skipWS.induct)
  case (1 b i)
  then show ?case by (subst skipWS.simps) auto
qed

lemma raw_digits_ge: "i \<le> raw_digits b i"
proof (induction b i rule: raw_digits.induct)
  case (1 b i)
  then show ?case by (subst raw_digits.simps) auto
qed

lemma scanLit_ge: "scanLit b i l = Some e \<Longrightarrow> i \<le> e"
  by (auto simp: scanLit_def split: if_splits)

lemma scanString_loop_ge: "scanString_loop b i = Some e \<Longrightarrow> i < e \<and> e \<le> length b"
proof (induction b i arbitrary: e rule: scanString_loop.induct)
  case (1 b i)
  consider "length b \<le> i" | "i < length b" "b ! i = ch_quote" | "i < length b" "b ! i = ch_bslash" "raw_escape b (i + 1) = None"
    | j where "i < length b" "b ! i = ch_bslash" "raw_escape b (i + 1) = Some j"
    | "i < length b" "b ! i \<noteq> ch_quote" "b ! i \<noteq> ch_bslash" by fastforce
  then show ?case
  proof cases
    case (4 j)
    then have "scanString_loop b j = Some e" using "1.prems" by (simp add: scanString_loop.simps [of b i])
    then have "j < e \<and> e \<le> length b" using 4 by (intro "1.IH"(1)) auto
    then show ?thesis using raw_escape_ge [OF 4(3)] by simp
  next
    case 5
    then have "scanString_loop b (i + 1) = Some e" "\<not> b ! i < 0x20"
      using "1.prems" by (auto simp: scanString_loop.simps [of b i] split: if_splits)
    then have "i + 1 < e \<and> e \<le> length b" using 5 by (intro "1.IH"(2)) auto
    then show ?thesis by simp
  qed (use "1.prems" in \<open>auto simp: scanString_loop.simps [of b i]\<close>)
qed

lemma scanString_ge: "scanString b i = Some e \<Longrightarrow> i \<le> e"
  by (auto simp: scanString_def dest: scanString_loop_ge)

lemma raw_fraction_ge: "raw_fraction b i = Some e \<Longrightarrow> i \<le> e"
  using raw_digits_ge [of "i + 1" b] by (auto simp: raw_fraction_def Let_def split: if_splits)

lemma raw_exponent_ge: "raw_exponent b i = Some e \<Longrightarrow> i \<le> e"
  using raw_digits_ge [of "i + 1" b] raw_digits_ge [of "i + 2" b]
  by (auto simp: raw_exponent_def Let_def split: if_splits)

lemma scanNumber_ge: "scanNumber b i = Some e \<Longrightarrow> i \<le> e"
  using raw_digits_ge [of i b] raw_digits_ge [of "i + 1" b]
  by (fastforce simp: scanNumber_def Let_def split: if_splits option.splits dest!: raw_fraction_ge raw_exponent_ge)

section \<open>Values\<close>

text \<open>
  The parts the container loops and the iterators share: the quoted key at the next token (its offsets),
  the offset of the value after a key's colon, and what follows a value, a comma, the closer or neither.
\<close>

definition raw_key :: "bytes \<Rightarrow> nat \<Rightarrow> (nat \<times> nat) option" where
  "raw_key b i =
     (let i = skipWS b i in
      if length b \<le> i \<or> b ! i \<noteq> ch_quote then None else map_option (Pair i) (scanString b i))"

definition raw_colon :: "bytes \<Rightarrow> nat \<Rightarrow> nat option" where
  "raw_colon b i = (let i = skipWS b i in if length b \<le> i \<or> b ! i \<noteq> ch_colon then None else Some (skipWS b (i + 1)))"

datatype raw_next = RComma nat | RClose nat | RBad

definition raw_after :: "bytes \<Rightarrow> byte \<Rightarrow> nat \<Rightarrow> raw_next" where
  "raw_after b cl i =
     (let i = skipWS b i in
      if length b \<le> i then RBad else if b ! i = ch_comma then RComma (i + 1)
      else if b ! i = cl then RClose (i + 1) else RBad)"

lemma raw_key_ge: "raw_key b i = Some (k, e) \<Longrightarrow> i \<le> k \<and> k \<le> e \<and> k < length b"
  using skipWS_ge [of i b] by (auto simp: raw_key_def dest: scanString_ge split: if_splits)

lemma raw_colon_ge: "raw_colon b i = Some j \<Longrightarrow> i \<le> j"
  using skipWS_ge [of i b] skipWS_ge [of "skipWS b i + 1" b] by (auto simp: raw_colon_def split: if_splits)

lemma raw_after_ge: "raw_after b cl i = RComma j \<Longrightarrow> i < j \<and> j \<le> length b"
  "raw_after b cl i = RClose j \<Longrightarrow> i < j \<and> j \<le> length b"
  using skipWS_ge [of i b] by (auto simp: raw_after_def split: if_splits)

text \<open>
  \<open>scanMembers\<close> and \<open>scanElems\<close> are the loops of \<^verbatim>\<open>scanObject\<close> and \<^verbatim>\<open>scanArray\<close>, from the offset after the
  opening byte or a comma.
\<close>

function scanValue :: "bytes \<Rightarrow> nat \<Rightarrow> nat option"
  and scanObject :: "bytes \<Rightarrow> nat \<Rightarrow> nat option"
  and scanMembers :: "bytes \<Rightarrow> nat \<Rightarrow> nat option"
  and scanArray :: "bytes \<Rightarrow> nat \<Rightarrow> nat option"
  and scanElems :: "bytes \<Rightarrow> nat \<Rightarrow> nat option" where
  "scanValue b i =
     (if length b \<le> i then None
      else if b ! i = ch_lbrace then scanObject b i
      else if b ! i = ch_lbrack then scanArray b i
      else if b ! i = ch_quote then scanString b i
      else if b ! i = ch_t then scanLit b i (lit ''true'')
      else if b ! i = ch_f then scanLit b i (lit ''false'')
      else if b ! i = ch_n then scanLit b i (lit ''null'')
      else if b ! i = ch_minus \<or> raw_isDigit (b ! i) then scanNumber b i
      else None)"
| "scanObject b i =
     (let i = skipWS b (i + 1) in
      if i < length b \<and> b ! i = ch_rbrace then Some (i + 1) else scanMembers b i)"
| "scanMembers b i =
     (case raw_key b i of
        None \<Rightarrow> None
      | Some (_, e) \<Rightarrow>
          (case raw_colon b e of
             None \<Rightarrow> None
           | Some j \<Rightarrow>
               (case scanValue b j of
                  None \<Rightarrow> None
                | Some e \<Rightarrow>
                    (case raw_after b ch_rbrace e of
                       RComma i \<Rightarrow> scanMembers b i
                     | RClose i \<Rightarrow> Some i
                     | RBad \<Rightarrow> None))))"
| "scanArray b i =
     (let i = skipWS b (i + 1) in
      if i < length b \<and> b ! i = ch_rbrack then Some (i + 1) else scanElems b i)"
| "scanElems b i =
     (case scanValue b (skipWS b i) of
        None \<Rightarrow> None
      | Some e \<Rightarrow>
          (case raw_after b ch_rbrack e of
             RComma i \<Rightarrow> scanElems b i
           | RClose i \<Rightarrow> Some i
           | RBad \<Rightarrow> None))"
  by pat_completeness (auto simp del: Let_def)

lemma scan_dom_ge:
  "scanValue_scanObject_scanMembers_scanArray_scanElems_dom (Inl (Inl (b, i))) \<Longrightarrow> scanValue b i = Some e \<Longrightarrow> i \<le> e"
  "scanValue_scanObject_scanMembers_scanArray_scanElems_dom (Inl (Inr (b, i))) \<Longrightarrow> scanObject b i = Some e \<Longrightarrow> i \<le> e"
  "scanValue_scanObject_scanMembers_scanArray_scanElems_dom (Inr (Inl (b, i))) \<Longrightarrow> scanMembers b i = Some e \<Longrightarrow> i \<le> e"
  "scanValue_scanObject_scanMembers_scanArray_scanElems_dom (Inr (Inr (Inl (b, i)))) \<Longrightarrow> scanArray b i = Some e \<Longrightarrow> i \<le> e"
  "scanValue_scanObject_scanMembers_scanArray_scanElems_dom (Inr (Inr (Inr (b, i)))) \<Longrightarrow> scanElems b i = Some e \<Longrightarrow> i \<le> e"
proof (induction arbitrary: e and e and e and e and e rule: scanValue_scanObject_scanMembers_scanArray_scanElems.pinduct)
  case (1 b i)
  then show ?case
    by (auto simp: scanValue.psimps split: if_splits dest: scanString_ge scanLit_ge scanNumber_ge)
next
  case (2 b i)
  let ?x = "skipWS b (i + 1)"
  show ?case
  proof (cases "?x < length b \<and> b ! ?x = ch_rbrace")
    case False
    then have "?x \<le> e" using "2.IH" [OF refl False] "2.prems" by (auto simp: scanObject.psimps [OF "2.hyps"])
    then show ?thesis using skipWS_ge [of "i + 1" b] by simp
  qed (use "2.prems" skipWS_ge [of "i + 1" b] in \<open>auto simp: scanObject.psimps [OF "2.hyps"]\<close>)
next
  case (3 b i)
  from "3.prems" obtain k q j v where s: "raw_key b i = Some (k, q)" "raw_colon b q = Some j" "scanValue b j = Some v"
    by (auto simp: scanMembers.psimps [OF "3.hyps"] split: option.splits)
  have "j \<le> v" using "3.IH"(1) s by blast
  then have v: "i \<le> v" using raw_key_ge [OF s(1)] raw_colon_ge [OF s(2)] by simp
  show ?case
  proof (cases "raw_after b ch_rbrace v")
    case (RComma n)
    then have "scanMembers b n = Some e" using "3.prems" s by (simp add: scanMembers.psimps [OF "3.hyps"])
    then have "n \<le> e" using "3.IH"(2) s RComma by blast
    then show ?thesis using raw_after_ge(1) [OF RComma] v by simp
  qed (use "3.prems" s v raw_after_ge(2) in \<open>fastforce simp: scanMembers.psimps [OF "3.hyps"]\<close>)+
next
  case (4 b i)
  let ?x = "skipWS b (i + 1)"
  show ?case
  proof (cases "?x < length b \<and> b ! ?x = ch_rbrack")
    case False
    then have "?x \<le> e" using "4.IH" [OF refl False] "4.prems" by (auto simp: scanArray.psimps [OF "4.hyps"])
    then show ?thesis using skipWS_ge [of "i + 1" b] by simp
  qed (use "4.prems" skipWS_ge [of "i + 1" b] in \<open>auto simp: scanArray.psimps [OF "4.hyps"]\<close>)
next
  case (5 b i)
  from "5.prems" obtain v where s: "scanValue b (skipWS b i) = Some v"
    by (auto simp: scanElems.psimps [OF "5.hyps"] split: option.splits)
  have "skipWS b i \<le> v" using "5.IH"(1) s by blast
  then have v: "i \<le> v" using skipWS_ge [of i b] by simp
  show ?case
  proof (cases "raw_after b ch_rbrack v")
    case (RComma n)
    then have "scanElems b n = Some e" using "5.prems" s by (simp add: scanElems.psimps [OF "5.hyps"])
    then have "n \<le> e" using "5.IH"(2) s RComma by blast
    then show ?thesis using raw_after_ge(1) [OF RComma] v by simp
  qed (use "5.prems" s v raw_after_ge(2) in \<open>fastforce simp: scanElems.psimps [OF "5.hyps"]\<close>)+
qed

text \<open>At one offset an element loop calls the value scanner, which calls the container scanners.\<close>

fun scan_rank :: "(bytes \<times> nat + bytes \<times> nat) + bytes \<times> nat + bytes \<times> nat + bytes \<times> nat \<Rightarrow> nat" where
  "scan_rank (Inl (Inl (b, i))) = 3 * (length b - i) + 1"
| "scan_rank (Inl (Inr (b, i))) = (if i < length b then 3 * (length b - i) else 3)"
| "scan_rank (Inr (Inl (b, i))) = 3 * (length b - i) + 2"
| "scan_rank (Inr (Inr (Inl (b, i)))) = (if i < length b then 3 * (length b - i) else 3)"
| "scan_rank (Inr (Inr (Inr (b, i)))) = 3 * (length b - i) + 2"

lemma rank_less: "i \<le> j \<Longrightarrow> 3 * (n - j) + 1 < 3 * (n - i) + 2" "i < j \<Longrightarrow> j \<le> n \<Longrightarrow> 3 * (n - j) + 2 < 3 * (n - i) + 2"
  "i + 1 \<le> j \<Longrightarrow> 3 * (n - j) + 2 < (if i < n then 3 * (n - i) else 3)" for n :: nat
  by auto

lemma scan_total: "All scanValue_scanObject_scanMembers_scanArray_scanElems_dom"
proof (relation "measure scan_rank", goal_cases)
  case (4 b i x)
  then show ?case using rank_less(3) [of i x "length b"] skipWS_ge [of "i + 1" b] by simp
next
  case (5 b i y k q j)
  then show ?case using rank_less(1) [of i j "length b"] raw_key_ge [of b i k q] raw_colon_ge [of b q j] by simp
next
  case (6 b i y k q j v n)
  then have "j \<le> v" using scan_dom_ge(1) by blast
  then show ?case using 6 rank_less(2) [of i n "length b"] raw_key_ge [of b i k q] raw_colon_ge [of b q j] raw_after_ge(1) [of b ch_rbrace v n] by simp
next
  case (7 b i x)
  then show ?case using rank_less(3) [of i x "length b"] skipWS_ge [of "i + 1" b] by simp
next
  case (8 b i)
  then show ?case using rank_less(1) [of i "skipWS b i" "length b"] skipWS_ge [of i b] by simp
next
  case (9 b i v n)
  then have "skipWS b i \<le> v" using scan_dom_ge(1) by blast
  then show ?case using 9 rank_less(2) [of i n "length b"] skipWS_ge [of i b] raw_after_ge(1) [of b ch_rbrack v n] by simp
qed auto

termination scanValue by (rule scan_total)

declare scanValue.simps [simp del] scanObject.simps [simp del] scanMembers.simps [simp del]
  scanArray.simps [simp del] scanElems.simps [simp del]

section \<open>Strings\<close>

text \<open>\<^verbatim>\<open>readHex4\<close>: its loop has \<open>n\<close> digits left, the next one at \<open>i\<close>; the rune is a 32-bit word.\<close>

fun readHex4_loop :: "bytes \<Rightarrow> nat \<Rightarrow> nat \<Rightarrow> int \<Rightarrow> int option" where
  "readHex4_loop s i 0 r = Some r"
| "readHex4_loop s i (Suc n) r =
     (let h = raw_hexVal (s ! i) in if h < 0 then None else readHex4_loop s (i + 1) n (push_bit 4 r OR h))"

definition readHex4 :: "bytes \<Rightarrow> nat \<Rightarrow> u32 option" where
  "readHex4 s i = (if length s < i + 4 then None else map_option word_of_int (readHex4_loop s i 4 0))"

text \<open>\<^verbatim>\<open>utf16.IsSurrogate\<close> and \<^verbatim>\<open>utf16.DecodeRune\<close> of the standard library.\<close>

definition IsSurrogate :: "u32 \<Rightarrow> bool" where
  "IsSurrogate r \<longleftrightarrow> 0xD800 \<le> r \<and> r < 0xE000"

definition utf16_DecodeRune :: "u32 \<Rightarrow> u32 \<Rightarrow> u32" where
  "utf16_DecodeRune r1 r2 =
     (if 0xD800 \<le> r1 \<and> r1 < 0xDC00 \<and> 0xDC00 \<le> r2 \<and> r2 < 0xE000
      then (push_bit 10 (r1 - 0xD800) OR (r2 - 0xDC00)) + 0x10000 else RuneError)"

definition decodeUnicodeEscape :: "bytes \<Rightarrow> nat \<Rightarrow> (u32 \<times> nat) option" where
  "decodeUnicodeEscape s i =
     (case readHex4 s (i + 1) of
        None \<Rightarrow> None
      | Some r1 \<Rightarrow>
          let i = i + 5 in
          if \<not> IsSurrogate r1 then Some (r1, i)
          else if i + 5 < length s \<and> s ! i = ch_bslash \<and> s ! (i + 1) = ch_u then
            (case readHex4 s (i + 2) of
               None \<Rightarrow> Some (RuneError, i)
             | Some r2 \<Rightarrow>
                 let r = utf16_DecodeRune r1 r2 in
                 if r \<noteq> RuneError then Some (r, i + 6) else Some (RuneError, i))
          else Some (RuneError, i))"

text \<open>
  The escape switch of \<^verbatim>\<open>unquote\<close>, at the byte after the backslash: the bytes appended and the offset past
  the escape. The loop around it appends to \<open>buf\<close>.
\<close>

definition unquote_escape :: "bytes \<Rightarrow> nat \<Rightarrow> (bytes \<times> nat) option" where
  "unquote_escape s i =
     (if length s \<le> i then None
      else if s ! i = ch_quote then Some ([ch_quote], i + 1)
      else if s ! i = ch_bslash then Some ([ch_bslash], i + 1)
      else if s ! i = ch_slash then Some ([ch_slash], i + 1)
      else if s ! i = ch_b then Some ([0x08], i + 1)
      else if s ! i = ch_f then Some ([0x0C], i + 1)
      else if s ! i = ch_n then Some ([ch_lf], i + 1)
      else if s ! i = ch_r then Some ([ch_cr], i + 1)
      else if s ! i = ch_t then Some ([ch_tab], i + 1)
      else if s ! i = ch_u then map_option (\<lambda>(r, nxt). (EncodeRune r, nxt)) (decodeUnicodeEscape s i)
      else None)"

lemma decodeUnicodeEscape_ge: "decodeUnicodeEscape s i = Some (r, j) \<Longrightarrow> i < j"
  by (auto simp: decodeUnicodeEscape_def split: option.splits if_splits)

lemma unquote_escape_ge: "unquote_escape s i = Some (bs, j) \<Longrightarrow> i < j \<and> i < length s"
  by (auto simp: unquote_escape_def split: if_splits dest: decodeUnicodeEscape_ge)

function unquote_loop :: "bytes \<Rightarrow> nat \<Rightarrow> bytes \<Rightarrow> bytes option" where
  "unquote_loop s i buf =
     (if i < length s then
        if s ! i \<noteq> ch_bslash then unquote_loop s (i + 1) (buf @ [s ! i])
        else (case unquote_escape s (i + 1) of
                None \<Rightarrow> None
              | Some (bs, nxt) \<Rightarrow> unquote_loop s nxt (buf @ bs))
      else Some buf)"
  by pat_completeness auto
termination by (relation "measure (\<lambda>(s, i, buf). length s - i)") (auto dest!: unquote_escape_ge)

declare unquote_loop.simps [simp del]

text \<open>The search for the first backslash is \<open>find_from\<close>, which is the length when there is none.\<close>

definition unquote :: "bytes \<Rightarrow> bytes option" where
  "unquote q =
     (if length q < 2 \<or> q ! 0 \<noteq> ch_quote \<or> q ! (length q - 1) \<noteq> ch_quote then None
      else
        let s = cut q 1 (length q - 1); e = find_from (\<lambda>c. c = ch_bslash) s 0 in
        if length s \<le> e then Some s else unquote_loop s e (take e s))"

definition keyEqual :: "bytes \<Rightarrow> bytes \<Rightarrow> bool" where
  "keyEqual q k \<longleftrightarrow>
     (if length q < 2 \<or> q ! 0 \<noteq> ch_quote \<or> q ! (length q - 1) \<noteq> ch_quote then False
      else
        let s = cut q 1 (length q - 1) in
        if ch_bslash \<in> set s then unquote q = Some k
        else length s = length k \<and> list_all (\<lambda>i. s ! i = k ! i) [0..<length s])"

section \<open>Accessors\<close>

datatype Kind = KindInvalid | KindNull | KindBool | KindNumber | KindString | KindArray | KindObject

definition Kind_String :: "Kind \<Rightarrow> bytes" where
  "Kind_String k =
     (case k of KindNull \<Rightarrow> lit ''null'' | KindBool \<Rightarrow> lit ''bool'' | KindNumber \<Rightarrow> lit ''number''
      | KindString \<Rightarrow> lit ''string'' | KindArray \<Rightarrow> lit ''array'' | KindObject \<Rightarrow> lit ''object''
      | KindInvalid \<Rightarrow> lit ''invalid'')"

definition raw_Exists :: "bytes \<Rightarrow> bool" where
  "raw_Exists r \<longleftrightarrow> 0 < length (skipWSTrim r)"

definition raw_Type :: "bytes \<Rightarrow> Kind" where
  "raw_Type b =
     (let i = skipWS b 0 in
      if length b \<le> i then KindInvalid
      else if b ! i = ch_lbrace then KindObject
      else if b ! i = ch_lbrack then KindArray
      else if b ! i = ch_quote then KindString
      else if b ! i = ch_t \<or> b ! i = ch_f then KindBool
      else if b ! i = ch_n then KindNull
      else if b ! i = ch_minus \<or> raw_isDigit (b ! i) then KindNumber
      else KindInvalid)"

definition raw_Valid :: "bytes \<Rightarrow> bool" where
  "raw_Valid b \<longleftrightarrow>
     (case scanValue b (skipWS b 0) of None \<Rightarrow> False | Some e \<Rightarrow> skipWS b e = length b)"

definition raw_Str :: "bytes \<Rightarrow> bytes option" where
  "raw_Str b =
     (let i = skipWS b 0 in
      if length b \<le> i \<or> b ! i \<noteq> ch_quote then None
      else case scanString b i of
             None \<Rightarrow> None
           | Some e \<Rightarrow> if skipWS b e \<noteq> length b then None else unquote (cut b i e))"

definition raw_Bool :: "bytes \<Rightarrow> bool option" where
  "raw_Bool r =
     (if skipWSTrim r = lit ''true'' then Some True
      else if skipWSTrim r = lit ''false'' then Some False else None)"

definition raw_IsNull :: "bytes \<Rightarrow> bool" where
  "raw_IsNull r \<longleftrightarrow> skipWSTrim r = lit ''null''"

definition numberSpan :: "bytes \<Rightarrow> bytes option" where
  "numberSpan b =
     (let i = skipWS b 0 in
      if length b \<le> i then None
      else if b ! i \<noteq> ch_minus \<and> \<not> raw_isDigit (b ! i) then None
      else case scanNumber b i of
             None \<Rightarrow> None
           | Some e \<Rightarrow> if skipWS b e \<noteq> length b then None else Some (cut b i e))"

section \<open>Lookups and iteration\<close>

text \<open>\<open>container b op cl\<close> is the offset of the first member or element, when there is one.\<close>

definition container :: "bytes \<Rightarrow> byte \<Rightarrow> byte \<Rightarrow> nat option" where
  "container b op cl =
     (let i = skipWS b 0 in
      if length b \<le> i \<or> b ! i \<noteq> op then None
      else let i = skipWS b (i + 1) in if i < length b \<and> b ! i = cl then None else Some i)"

text \<open>The loop of \<^verbatim>\<open>field\<close>: the first key equal to \<open>k\<close> decides, and its value must scan.\<close>

function field_loop :: "bytes \<Rightarrow> bytes \<Rightarrow> nat \<Rightarrow> bytes option" where
  "field_loop b k i =
     (case raw_key b i of
        None \<Rightarrow> None
      | Some (i, keyEnd) \<Rightarrow>
          if keyEqual (cut b i keyEnd) k then
            (case raw_colon b keyEnd of
               None \<Rightarrow> None
             | Some i \<Rightarrow> (case scanValue b i of None \<Rightarrow> None | Some valEnd \<Rightarrow> Some (cut b i valEnd)))
          else
            (case raw_colon b keyEnd of
               None \<Rightarrow> None
             | Some i \<Rightarrow>
                 (case scanValue b i of
                    None \<Rightarrow> None
                  | Some valEnd \<Rightarrow>
                      (case raw_after b ch_rbrace valEnd of RComma i \<Rightarrow> field_loop b k i | _ \<Rightarrow> None))))"
  by pat_completeness auto

lemma scanValue_ge: "scanValue b i = Some e \<Longrightarrow> i \<le> e"
  using scan_dom_ge(1) scan_total by blast

lemma member_dec:
  "raw_key b i = Some (k, q) \<Longrightarrow> raw_colon b q = Some j \<Longrightarrow> scanValue b j = Some v \<Longrightarrow>
   raw_after b cl v = RComma n \<Longrightarrow> i < n \<and> n \<le> length b"
  by (auto dest!: raw_key_ge raw_colon_ge scanValue_ge raw_after_ge(1))

lemma element_dec: "scanValue b (skipWS b i) = Some v \<Longrightarrow> raw_after b cl v = RComma n \<Longrightarrow> i < n \<and> n \<le> length b"
  using skipWS_ge [of i b] by (auto dest!: scanValue_ge raw_after_ge(1))

termination field_loop
  by (relation "measure (\<lambda>(b, k, i). length b - i)") (auto dest!: member_dec)

declare field_loop.simps [simp del]

definition raw_field :: "bytes \<Rightarrow> bytes \<Rightarrow> bytes option" where
  "raw_field b k = (case container b ch_lbrace ch_rbrace of None \<Rightarrow> None | Some i \<Rightarrow> field_loop b k i)"

text \<open>The bytes of a possibly nil \<open>Raw\<close>; the walk of \<^verbatim>\<open>Get\<close> down a path of keys.\<close>

definition raw_bytes :: "bytes option \<Rightarrow> bytes" where
  "raw_bytes r = (case r of None \<Rightarrow> [] | Some b \<Rightarrow> b)"

fun raw_Get :: "bytes option \<Rightarrow> bytes list \<Rightarrow> bytes option" where
  "raw_Get cur [] = cur"
| "raw_Get cur (k # keys) =
     (let child = raw_field (raw_bytes cur) k in
      if \<not> raw_Exists (raw_bytes child) \<and> child = None then None else raw_Get child keys)"

text \<open>A callback changes a state and says whether to go on; the iterators return the last state.\<close>

function keys_loop :: "bytes \<Rightarrow> (bytes \<Rightarrow> bytes \<Rightarrow> 's \<Rightarrow> bool \<times> 's) \<Rightarrow> nat \<Rightarrow> 's \<Rightarrow> 's" where
  "keys_loop b fn i s =
     (case raw_key b i of
        None \<Rightarrow> s
      | Some (i, keyEnd) \<Rightarrow>
          (case unquote (cut b i keyEnd) of
             None \<Rightarrow> s
           | Some name \<Rightarrow>
               (case raw_colon b keyEnd of
                  None \<Rightarrow> s
                | Some i \<Rightarrow>
                    (case scanValue b i of
                       None \<Rightarrow> s
                     | Some valEnd \<Rightarrow>
                         (case fn name (cut b i valEnd) s of
                            (False, s) \<Rightarrow> s
                          | (True, s) \<Rightarrow>
                              (case raw_after b ch_rbrace valEnd of RComma i \<Rightarrow> keys_loop b fn i s | _ \<Rightarrow> s))))))"
  by pat_completeness auto
termination by (relation "measure (\<lambda>(b, fn, i, s). length b - i)") (auto dest!: member_dec)

function elems_loop :: "bytes \<Rightarrow> (nat \<Rightarrow> bytes \<Rightarrow> 's \<Rightarrow> bool \<times> 's) \<Rightarrow> nat \<Rightarrow> nat \<Rightarrow> 's \<Rightarrow> 's" where
  "elems_loop b fn idx i s =
     (case scanValue b (skipWS b i) of
        None \<Rightarrow> s
      | Some e \<Rightarrow>
          (case fn idx (cut b (skipWS b i) e) s of
             (False, s) \<Rightarrow> s
           | (True, s) \<Rightarrow>
               (case raw_after b ch_rbrack e of RComma i \<Rightarrow> elems_loop b fn (idx + 1) i s | _ \<Rightarrow> s)))"
  by pat_completeness auto
termination by (relation "measure (\<lambda>(b, fn, idx, i, s). length b - i)") (auto dest!: element_dec)

declare keys_loop.simps [simp del] elems_loop.simps [simp del]

definition raw_ForEachKey :: "bytes \<Rightarrow> (bytes \<Rightarrow> bytes \<Rightarrow> 's \<Rightarrow> bool \<times> 's) \<Rightarrow> 's \<Rightarrow> 's" where
  "raw_ForEachKey b fn s = (case container b ch_lbrace ch_rbrace of None \<Rightarrow> s | Some i \<Rightarrow> keys_loop b fn i s)"

definition raw_ForEachElem :: "bytes \<Rightarrow> (nat \<Rightarrow> bytes \<Rightarrow> 's \<Rightarrow> bool \<times> 's) \<Rightarrow> 's \<Rightarrow> 's" where
  "raw_ForEachElem b fn s = (case container b ch_lbrack ch_rbrack of None \<Rightarrow> s | Some i \<Rightarrow> elems_loop b fn 0 i s)"

definition raw_Len :: "bytes \<Rightarrow> nat" where
  "raw_Len r =
     (case raw_Type r of
        KindArray \<Rightarrow> raw_ForEachElem r (\<lambda>_ _ n. (True, n + 1)) 0
      | KindObject \<Rightarrow> raw_ForEachKey r (\<lambda>_ _ n. (True, n + 1)) 0
      | _ \<Rightarrow> 0)"

definition raw_Index :: "bytes \<Rightarrow> int \<Rightarrow> bytes option" where
  "raw_Index r i =
     (let i' = (if i < 0 then i + int (raw_Len r) else i) in
      if i' < 0 then None
      else raw_ForEachElem r (\<lambda>idx elem out. if int idx = i' then (False, Some elem) else (True, out)) None)"

definition raw_GetString :: "bytes option \<Rightarrow> bytes list \<Rightarrow> bytes option" where
  "raw_GetString r keys = raw_Str (raw_bytes (raw_Get r keys))"

definition raw_GetBool :: "bytes option \<Rightarrow> bytes list \<Rightarrow> bool option" where
  "raw_GetBool r keys = raw_Bool (raw_bytes (raw_Get r keys))"

text \<open>
  \<^verbatim>\<open>MarshalJSON\<close> and \<^verbatim>\<open>UnmarshalJSON\<close> of \<^verbatim>\<open>value/json.go\<close>; the receiver of the second is \<open>None\<close> for a nil
  pointer, and so is its result when it returns an error.
\<close>

definition raw_MarshalJSON :: "bytes \<Rightarrow> bytes" where
  "raw_MarshalJSON r = (if length r = 0 then lit ''null'' else r)"

definition raw_UnmarshalJSON :: "bytes option \<Rightarrow> bytes \<Rightarrow> bytes option" where
  "raw_UnmarshalJSON r data = (case r of None \<Rightarrow> None | Some old \<Rightarrow> Some (take 0 old @ data))"

section \<open>The primitives agree with the decoder's\<close>

lemma wsLUT_iff: "wsLUT c \<longleftrightarrow> is_ws c"
  by (auto simp: wsLUT_def)

lemma raw_isDigit_iff: "raw_isDigit c \<longleftrightarrow> IsDigit c"
  by (simp add: raw_isDigit_def IsDigit_iff)

lemma skipWS_eq: "i \<le> length b \<Longrightarrow> skipWS b i = SkipWS b i"
proof (induction b i rule: skipWS.induct)
  case (1 b i)
  then show ?case
    by (cases "i = length b") (auto simp: SkipWS_eq wsLUT_iff find_from_miss skipWS.simps [of b i] skipWS.simps [of b "length b"])
qed

lemma raw_digits_eq: "raw_digits b i = digitsFrom b i"
proof (induction b i rule: raw_digits.induct)
  case (1 b i)
  have "IsDigit (At b i) \<longleftrightarrow> i < length b \<and> raw_isDigit (b ! i)"
    by (cases "i < length b") (auto simp: raw_isDigit_iff)
  then show ?case using 1 by (subst raw_digits.simps, subst digitsFrom.simps) auto
qed

lemma hex_lane:
  fixes c k m :: byte
  assumes "k \<le> c" "c \<le> k + m" "k \<le> k + m" "uint m < 16"
  shows "uint (ucast (c - k) :: u32) = uint (c - k)" "uint (ucast (c - k) + 10 :: u32) = uint (c - k) + 10"
    "uint (c - k) \<le> uint m"
proof -
  show b: "uint (c - k) \<le> uint m"
    using assms uint_minus_simple_alt [of k c] uint_plus_simple [OF assms(3)] by (simp add: word_le_def)
  have "uint (c - k) < 2 ^ 32" by (rule order.strict_trans [OF uint_byte_bound(1)]) simp
  then show u: "uint (ucast (c - k) :: u32) = uint (c - k)" by (simp add: unsigned_ucast_eq take_bit_int_eq_self)
  show v: "uint (ucast (c - k) + 10 :: u32) = uint (c - k) + 10"
    using b assms(4) by (simp add: uint_word_ariths u)
qed
lemma raw_hexVal_None: "raw_hexVal c < 0 \<longleftrightarrow> hexVal c = None"
  by (auto simp: raw_hexVal_def hexVal_def not_less)
lemma raw_hexVal_Some: "hexVal c = Some v \<Longrightarrow> raw_hexVal c = uint v \<and> uint v < 16"
  using hex_lane [where k = ch_0 and c = c and m = 9] hex_lane [where k = "0x61" and c = c and m = 5] hex_lane [where k = "0x41" and c = c and m = 5]
  by (auto simp: raw_hexVal_def hexVal_def split: if_splits)

lemma raw_fraction_eq:
  "raw_fraction b p = (if At b p = ch_dot then if IsDigit (At b (p + 1)) then Some (digitsFrom b (p + 1)) else None else Some p)"
proof -
  have "At b p = ch_dot \<longleftrightarrow> p < length b \<and> b ! p = ch_dot" by (cases "p < length b") auto
  moreover have "IsDigit (At b (p + 1)) \<longleftrightarrow> p + 1 < length b \<and> raw_isDigit (b ! (p + 1))"
    by (cases "p + 1 < length b") (auto simp: raw_isDigit_iff)
  ultimately show ?thesis by (auto simp: raw_fraction_def raw_digits_eq)
qed

lemma raw_exponent_eq:
  "raw_exponent b p =
     (if At b p = ch_e \<or> At b p = ch_E then
        let q = (if At b (p + 1) = ch_plus \<or> At b (p + 1) = ch_minus then p + 2 else p + 1) in
        if IsDigit (At b q) then Some (digitsFrom b q) else None
      else Some p)"
proof -
  have e: "At b p = ch_e \<or> At b p = ch_E \<longleftrightarrow> p < length b \<and> (b ! p = ch_e \<or> b ! p = ch_E)" by (cases "p < length b") auto
  have s: "At b (p + 1) = ch_plus \<or> At b (p + 1) = ch_minus \<longleftrightarrow> p + 1 < length b \<and> (b ! (p + 1) = ch_plus \<or> b ! (p + 1) = ch_minus)"
    by (cases "p + 1 < length b") auto
  have "IsDigit (At b q) \<longleftrightarrow> \<not> (length b \<le> q \<or> \<not> raw_isDigit (b ! q))" for q
    by (cases "q < length b") (auto simp: raw_isDigit_iff)
  then show ?thesis unfolding raw_exponent_def e s by (auto simp: raw_digits_eq)
qed

lemma scanNumber_eq:
  assumes "i \<le> length b"
  shows "scanNumber b i = (case locateNumber b i of (e, bad) \<Rightarrow> if bad then None else Some e)"
proof -
  define p where "p = (if At b i = ch_minus then i + 1 else i)"
  have p: "(if i < length b \<and> b ! i = ch_minus then i + 1 else i) = p" by (cases "i < length b") (auto simp: p_def)
  have "i \<le> p" by (simp add: p_def)
  show ?thesis
  proof (cases "At b p = ch_0 \<or> IsDigit (At b p)")
    case False
    have "0x31 \<le> c \<Longrightarrow> ch_0 \<le> c" for c :: byte by (rule order_trans) simp_all
    then have "\<not> (0x31 \<le> b ! p \<and> b ! p \<le> ch_9)" "b ! p \<noteq> ch_0" if "p < length b"
      using False that by (auto simp: IsDigit_iff)
    then have "scanNumber b i = None" unfolding scanNumber_def Let_def p by auto
    moreover have "snd (locateNumber b i)" using False unfolding locateNumber_def Let_def p_def [symmetric] by simp
    ultimately show ?thesis by (auto split: prod.splits)
  next
    case True
    have lt: "p < length b" using True by (intro At_neq_space) (auto simp: IsDigit_iff)
    define q where "q = (if At b p = ch_0 then p + 1 else digitsFrom b p)"
    define r where "r = (if At b q = ch_dot then digitsFrom b (q + 1) else q)"
    have "p < q" using digitsFrom_gt [of b p] True by (auto simp: q_def)
    then have g: "i < q" using \<open>i \<le> p\<close> by simp
    have h: "(if b ! p = ch_0 then Some (p + 1) else if 0x31 \<le> b ! p \<and> b ! p \<le> ch_9 then Some (raw_digits b p) else None) = Some q"
    proof -
      have "IsDigit (b ! p) \<Longrightarrow> b ! p \<noteq> ch_0 \<Longrightarrow> 0x31 \<le> b ! p \<and> b ! p \<le> ch_9"
        using inc_le [of ch_0 "b ! p"] by (auto simp: IsDigit_iff order_less_le)
      then show ?thesis using True lt by (auto simp: q_def raw_digits_eq)
    qed
    have S: "scanNumber b i = (case raw_fraction b q of None \<Rightarrow> None | Some j \<Rightarrow>
        (case raw_exponent b j of None \<Rightarrow> None | Some j \<Rightarrow> if j = i then None else Some j))"
      unfolding scanNumber_def Let_def p h using lt by simp
    show ?thesis
    proof (cases "At b q = ch_dot \<and> \<not> IsDigit (At b (q + 1))")
      case bad: True
      then have "snd (locateNumber b i)" using True unfolding locateNumber_def Let_def p_def [symmetric] q_def [symmetric] by simp
      then show ?thesis using bad unfolding S raw_fraction_eq by (auto split: prod.splits)
    next
      case ok: False
      then have F: "raw_fraction b q = Some r" by (auto simp: raw_fraction_eq r_def)
      have "q \<le> r" using digitsFrom_ge [of "q + 1" b] by (simp add: r_def)
      have ne: "j \<noteq> i" if "raw_exponent b r = Some j" for j using raw_exponent_ge [OF that] \<open>q \<le> r\<close> g by simp
      have "locateNumber b i =
          (if At b r = ch_e \<or> At b r = ch_E then
             let q = (if At b (r + 1) = ch_plus \<or> At b (r + 1) = ch_minus then r + 2 else r + 1) in
             if IsDigit (At b q) then (digitsFrom b q, False) else (min q (length b), True)
           else (r, False))"
        using True ok unfolding locateNumber_def Let_def p_def [symmetric] q_def [symmetric] r_def [symmetric] by auto
      then show ?thesis unfolding S F raw_exponent_eq using ne by (auto simp: raw_exponent_eq)
    qed
  qed
qed

section \<open>Strings against the decoder's scan\<close>

lemma hex4_digits_iff: "hex4 b i \<noteq> None \<longleftrightarrow> i + 4 \<le> length b \<and> (\<forall>k<4. hexVal (b ! (i + k)) \<noteq> None)"
proof
  assume h: "hex4 b i \<noteq> None"
  then have "i + 4 \<le> length b" by (rule hex4_in_range)
  then show "i + 4 \<le> length b \<and> (\<forall>k<4. hexVal (b ! (i + k)) \<noteq> None)" using hex4_digits [OF h] by auto
next
  assume a: "i + 4 \<le> length b \<and> (\<forall>k<4. hexVal (b ! (i + k)) \<noteq> None)"
  have "\<forall>r. hex4_loop b (i + m) (4 - m) r \<noteq> None" if "m \<le> 4" for m
    using that
  proof (induction m rule: inc_induct)
    case (step m)
    then obtain v where v: "hexVal (b ! (i + m)) = Some v" using a by blast
    have "4 - m = Suc (4 - Suc m)" "At b (i + m) = b ! (i + m)" using step.hyps a by auto
    then show ?case using step.IH v by simp
  qed simp
  then show "hex4 b i \<noteq> None" unfolding hex4_def by (metis add_0_right le0 minus_nat.diff_0)
qed

lemma raw_escape_eq:
  "raw_escape b (k + 1) =
     (if At b (k + 1) = ch_u then if hex4 b (k + 2) = None then None else Some (k + 6)
      else if simpleEscape (At b (k + 1)) = 0 then None else Some (k + 2))"
proof (cases "k + 1 < length b")
  case True
  have s: "c \<in> set [ch_quote, ch_bslash, ch_slash, ch_b, ch_f, ch_n, ch_r, ch_t] \<longleftrightarrow> simpleEscape c \<noteq> 0" for c
    by (simp add: simpleEscape_def)
  have u: "simpleEscape ch_u = 0" by (simp add: simpleEscape_def)
  have "(\<forall>m<4. hexVal (b ! (k + 2 + m)) \<noteq> None) \<longleftrightarrow> \<not> list_ex (\<lambda>m. raw_hexVal (b ! (k + 1 + m)) < 0) [1, 2, 3, 4]"
    by (simp add: raw_hexVal_None numeral_eq_Suc All_less_Suc2)
  then have h: "hex4 b (k + 2) = None \<longleftrightarrow> length b \<le> k + 1 + 4 \<or> list_ex (\<lambda>m. raw_hexVal (b ! (k + 1 + m)) < 0) [1, 2, 3, 4]"
    using hex4_digits_iff [of b "k + 2"] by auto
  show ?thesis unfolding raw_escape_def s h using True u by auto
next
  case False
  then show ?thesis by (simp add: raw_escape_def simpleEscape_def)
qed

lemma hasCtl_cut: "j \<le> length b \<Longrightarrow> hasCtl (cut b i j) \<longleftrightarrow> (\<exists>m. i \<le> m \<and> m < j \<and> b ! m < 0x20)"
  by (auto simp: hasCtl_def list_ex_iff set_cut)

lemma hasCtl_split:
  assumes "i \<le> j" "j \<le> k" "k \<le> length b"
  shows "hasCtl (cut b i k) \<longleftrightarrow> hasCtl (cut b i j) \<or> hasCtl (cut b j k)"
  unfolding hasCtl_def cut_append [OF assms, symmetric] by simp

lemma run_plain:
  assumes "i \<le> j" "j \<le> length b" "\<And>m. i \<le> m \<Longrightarrow> m < j \<Longrightarrow> \<not> is_stop (b ! m)"
  shows "str_run q False (drop i b) =
    (fst (str_run q False (drop j b)), snd (str_run q False (drop j b)) \<or> (q \<and> hasCtl (cut b i j)))"
proof -
  have "drop i b = cut b i j @ drop j b" using assms(1) append_take_drop_id [of "j - i" "drop i b"] by (simp add: cut_def)
  then show ?thesis using assms by (simp add: str_run_plain set_cut)
qed

text \<open>A valid escape is a backslash, a byte, and plain bytes, none of them a control byte.\<close>

lemma raw_escape_bytes:
  assumes "raw_escape b (k + 1) = Some j"
  shows "k + 2 \<le> j" "j \<le> length b" "\<not> b ! (k + 1) < 0x20"
    "\<And>m. k + 2 \<le> m \<Longrightarrow> m < j \<Longrightarrow> \<not> is_stop (b ! m) \<and> \<not> b ! m < 0x20"
proof -
  show j: "k + 2 \<le> j" "j \<le> length b" using raw_escape_ge [OF assms] by simp_all
  note r = assms [unfolded raw_escape_eq]
  have "simpleEscape c \<noteq> 0 \<Longrightarrow> \<not> c < 0x20" for c
    by (auto simp: simpleEscape_def split: if_splits)
  then show "\<not> b ! (k + 1) < 0x20" using r j by (auto split: if_splits)
  show "\<not> is_stop (b ! m) \<and> \<not> b ! m < 0x20" if "k + 2 \<le> m" "m < j" for m
  proof -
    have h: "hex4 b (k + 2) \<noteq> None" "j = k + 6" using r that by (auto split: if_splits)
    have "k + 2 + (m - (k + 2)) = m" using that(1) by simp
    then have "hexVal (At b m) \<noteq> None" using that h(2) hex4_digits [OF h(1), of "m - (k + 2)"] by simp
    then show ?thesis using hexVal_no_stop [of "b ! m"] that j(2) by simp
  qed
qed

lemma scanString_loop_eq:
  "i \<le> length b \<Longrightarrow> scanString_loop b i = Some e \<longleftrightarrow>
     (\<exists>k. ScanString b i = (k, True) \<and> e = k + 1 \<and> \<not> hasCtl (cut b i k))"
proof (induction b i arbitrary: e rule: scanString_loop.induct)
  case (1 b i)
  consider "i = length b" | "i < length b" "b ! i = ch_quote" | "i < length b" "b ! i = ch_bslash" "raw_escape b (i + 1) = None"
    | j where "i < length b" "b ! i = ch_bslash" "raw_escape b (i + 1) = Some j"
    | "i < length b" "b ! i \<noteq> ch_quote" "b ! i \<noteq> ch_bslash" using "1.prems" by fastforce
  then show ?case
  proof cases
    case 1
    then show ?thesis by (simp add: scanString_loop.simps [of b "length b"] ScanString.simps [of b "length b"] QuoteOrEscape_eq)
  next
    case 2
    then show ?thesis by (auto simp: scanString_loop.simps [of b i] ScanString.simps [of b i] QuoteOrEscape_eq hasCtl_def)
  next
    case 3
    then have "ScanString b i = (i, False)" using raw_escape_eq [of b i] ScanString_escape [OF 3(1,2)] by (auto split: if_splits)
    then show ?thesis using 3 by (simp add: scanString_loop.simps [of b i])
  next
    case (4 j)
    note f = raw_escape_bytes [OF 4(3)]
    have S: "ScanString b i = ScanString b j"
      using raw_escape_eq [of b i] ScanString_escape [OF 4(1,2)] 4(3) by (auto split: if_splits)
    have c: "hasCtl (cut b i k) \<longleftrightarrow> hasCtl (cut b j k)" if "ScanString b j = (k, True)" for k
    proof -
      have k: "j \<le> k" "k \<le> length b" using ScanString_ge [OF f(2) that] by simp_all
      have "\<not> b ! m < 0x20" if "i \<le> m" "m < j" for m
      proof -
        have "m = i \<or> m = i + 1 \<or> i + 2 \<le> m" using that by linarith
        then show ?thesis using f(3) f(4) [OF _ that(2)] 4(2) by auto
      qed
      then show ?thesis using k f(1) unfolding hasCtl_cut [OF k(2)]
        by (metis (no_types, lifting) le_trans less_or_eq_imp_le not_less add_leD1)
    qed
    have "scanString_loop b i = scanString_loop b j" using 4 by (simp add: scanString_loop.simps [of b i])
    also have "\<dots> = Some e \<longleftrightarrow> (\<exists>k. ScanString b j = (k, True) \<and> e = k + 1 \<and> \<not> hasCtl (cut b j k))"
      using 4 f(2) by (intro "1.IH"(1)) auto
    finally show ?thesis unfolding S using c by auto
  next
    case 5
    have "find_from is_stop b i = find_from is_stop b (i + 1)" using 5 by (simp add: find_from_miss)
    then have S: "ScanString b i = ScanString b (i + 1)"
      using ScanString_stop [OF refl, of b i] ScanString_stop [OF refl, of b "i + 1"] by argo
    have c: "hasCtl (cut b i k) \<longleftrightarrow> b ! i < 0x20 \<or> hasCtl (cut b (i + 1) k)" if "ScanString b (i + 1) = (k, True)" for k
      using ScanString_ge [OF _ that] 5(1) by (simp add: hasCtl_def cut_Cons)
    have I: "scanString_loop b (i + 1) = Some e \<longleftrightarrow> (\<exists>k. ScanString b (i + 1) = (k, True) \<and> e = k + 1 \<and> \<not> hasCtl (cut b (i + 1) k))"
      if "\<not> b ! i < 0x20" using 5 that by (intro "1.IH"(2)) auto
    show ?thesis using 5 I c unfolding S by (auto simp: scanString_loop.simps [of b i])
  qed
qed

lemma scanString_eq:
  "i < length b \<Longrightarrow> scanString b i = Some e \<longleftrightarrow>
     (\<exists>k. ScanString b (i + 1) = (k, True) \<and> e = k + 1 \<and> \<not> hasCtl (cut b (i + 1) k))"
  unfolding scanString_def by (rule scanString_loop_eq) simp

text \<open>Over a string body the scan verdict only collects the control bytes.\<close>

lemma run_string_body:
  "i \<le> length b \<Longrightarrow> ScanString b i = (k, True) \<Longrightarrow>
   str_run True False (drop i b) =
     (fst (str_run False False (drop (k + 1) b)), snd (str_run False False (drop (k + 1) b)) \<or> hasCtl (cut b i k))"
proof (induction "length b - i" arbitrary: i rule: less_induct)
  case less
  define f0 where "f0 = find_from is_stop b i"
  have j: "i \<le> f0" "f0 \<le> length b" using less.prems(1) unfolding f0_def by (simp_all add: find_from_ge)
  have S: "ScanString b f0 = (k, True)" using less.prems(2) ScanString_stop [OF f0_def [symmetric]] by argo
  have k: "f0 \<le> k" "k < length b" using ScanString_ge [OF j(2) S] by simp_all
  have cc: "hasCtl (cut b i k) \<longleftrightarrow> hasCtl (cut b i f0) \<or> hasCtl (cut b f0 k)"
    using j k by (intro hasCtl_split) auto
  have sk: "str_run True False (drop i b) =
      (fst (str_run True False (drop f0 b)), snd (str_run True False (drop f0 b)) \<or> hasCtl (cut b i f0))"
    using str_run_skip [OF less.prems(1) f0_def, of True] by simp
  have st: "f0 < length b" "is_stop (b ! f0)" using k j find_from_found [of is_stop b i] unfolding f0_def [symmetric] by (simp, simp)
  show ?case
  proof (cases "b ! f0 = ch_quote")
    case True
    then have "k = f0" using S st(1) by (simp add: ScanString.simps [of b f0] QuoteOrEscape_eq)
    then show ?thesis using sk str_run_quote [OF st(1) True, of True] by (simp add: hasCtl_def)
  next
    case False
    then have bs: "b ! f0 = ch_bslash" using st(2) by simp
    have "raw_escape b (f0 + 1) \<noteq> None"
      using ScanString_escape [OF st(1) bs] S unfolding raw_escape_eq by (auto split: if_splits)
    then obtain m where m: "raw_escape b (f0 + 1) = Some m" by blast
    note f = raw_escape_bytes [OF m]
    have S': "ScanString b m = (k, True)"
      using ScanString_escape [OF st(1) bs] S m unfolding raw_escape_eq by (auto split: if_splits)
    have km: "m \<le> k" using ScanString_ge [OF f(2) S'] by simp
    have IH: "str_run True False (drop m b) =
       (fst (str_run False False (drop (k + 1) b)), snd (str_run False False (drop (k + 1) b)) \<or> hasCtl (cut b m k))"
      using f j st(1) S' by (intro less.hyps) auto
    have nc: "\<not> hasCtl (cut b (f0 + 2) m)" using f(4) by (auto simp: hasCtl_cut [OF f(2)])
    have "\<not> b ! q < 0x20" if "f0 \<le> q" "q < m" for q
    proof -
      have "q = f0 \<or> q = f0 + 1 \<or> f0 + 2 \<le> q" using that by linarith
      then show ?thesis using f(3) f(4) [OF _ that(2)] bs by auto
    qed
    then have "\<not> hasCtl (cut b f0 m)" by (auto simp: hasCtl_cut [OF f(2)])
    moreover have "hasCtl (cut b f0 k) \<longleftrightarrow> hasCtl (cut b f0 m) \<or> hasCtl (cut b m k)"
      using f(1) km k by (intro hasCtl_split) auto
    moreover have "str_run True False (drop (f0 + 2) b) = str_run True False (drop m b)"
      using run_plain [of "f0 + 2" m b True] f nc by simp
    moreover note str_run_bslash [OF st(1) bs, of True]
    ultimately show ?thesis unfolding sk cc using f(3) IH by (simp add: disj_ac)
  qed
qed

end
