(* ===== verification/Raw_Valid.thy ===== *)
theory Raw_Valid
  imports Raw
begin

text \<open>
  What the scanner of \<^verbatim>\<open>value/raw.go\<close> accepts: exactly the texts of the grammar \<open>value_at\<close> whose strings
  hold no raw control byte, the verdict of the decoder's \<open>Check\<close> under \<open>ScanCtl\<close>. The control bytes are
  followed with the scan state \<open>run_from\<close>, which a scanned value leaves unchanged.
\<close>

section \<open>Valid is the grammar with clean strings\<close>

abbreviation run_from :: "bytes \<Rightarrow> nat \<Rightarrow> bool \<times> bool" where
  "run_from b i \<equiv> str_run False False (drop i b)"

lemma run_string:
  assumes "i < length b" "b ! i = ch_quote" "ScanString b (i + 1) = (k, True)"
  shows "run_from b i = (fst (run_from b (k + 1)), snd (run_from b (k + 1)) \<or> hasCtl (cut b (i + 1) k))"
  using str_run_quote [OF assms(1,2), of False] run_string_body [OF _ assms(3)] assms(1) by simp

lemma run_quiet: "i \<le> j \<Longrightarrow> j \<le> length b \<Longrightarrow> (\<And>m. i \<le> m \<Longrightarrow> m < j \<Longrightarrow> \<not> is_stop (b ! m)) \<Longrightarrow> run_from b i = run_from b j"
  by (simp add: run_plain [of i j b False])

lemma run_cut: "i \<le> j \<Longrightarrow> j \<le> length b \<Longrightarrow> list_all plain_byte (cut b i j) \<Longrightarrow> run_from b i = run_from b j"
  using cut_plain [of b i j] by (intro run_quiet) (auto simp: plain_byte_def)

lemma run_byte: "i < length b \<Longrightarrow> \<not> is_stop (b ! i) \<Longrightarrow> run_from b i = run_from b (i + 1)"
proof (rule run_quiet)
  show "\<not> is_stop (b ! m)" if "\<not> is_stop (b ! i)" "i \<le> m" "m < i + 1" for m
    using that by (cases "m = i") auto
qed auto

lemma run_ws: "i \<le> length b \<Longrightarrow> run_from b (SkipWS b i) = run_from b i"
proof (rule sym, rule run_quiet)
  show "\<not> is_stop (b ! m)" if "i \<le> length b" "i \<le> m" "m < SkipWS b i" for m
    using find_from_before [of i m "\<lambda>c. \<not> is_ws c" b] that by (auto simp: SkipWS_eq)
qed (use SkipWS_bounds [of i b] in simp_all)

text \<open>What the container loops read around a value.\<close>

lemma raw_key_Some:
  "i \<le> length b \<Longrightarrow> raw_key b i = Some (k, e) \<Longrightarrow>
   k = SkipWS b i \<and> k < length b \<and> b ! k = ch_quote \<and> (\<exists>q. ScanString b (k + 1) = (q, True) \<and> e = q + 1 \<and> q < length b) \<and>
   e \<le> length b \<and> run_from b i = run_from b e"
proof -
  assume a: "i \<le> length b" "raw_key b i = Some (k, e)"
  then have k: "k = SkipWS b i" "k < length b" "b ! k = ch_quote" "scanString b k = Some e"
    by (auto simp: raw_key_def skipWS_eq split: if_splits)
  then obtain q where q: "ScanString b (k + 1) = (q, True)" "e = q + 1" "\<not> hasCtl (cut b (k + 1) q)"
    using scanString_eq by blast
  then show ?thesis using k run_string [OF k(2,3) q(1)] run_ws [OF a(1)] ScanString_ge [OF _ q(1)] by simp
qed

lemma raw_colon_Some:
  "i \<le> length b \<Longrightarrow> raw_colon b i = Some j \<Longrightarrow>
   \<exists>c. c = SkipWS b i \<and> c < length b \<and> b ! c = ch_colon \<and> j = SkipWS b (c + 1) \<and> j \<le> length b \<and> run_from b i = run_from b j"
  using run_ws [of i b] run_byte [of "SkipWS b i" b] run_ws [of "SkipWS b i + 1" b] SkipWS_bounds [of "SkipWS b i + 1" b]
  by (auto simp: raw_colon_def skipWS_eq split: if_splits)

lemma raw_after_iff:
  assumes "i \<le> length b" "cl = ch_rbrace \<or> cl = ch_rbrack"
  shows "raw_after b cl i = RComma j \<longleftrightarrow> SkipWS b i < length b \<and> b ! SkipWS b i = ch_comma \<and> j = SkipWS b i + 1"
    "raw_after b cl i = RClose j \<longleftrightarrow> SkipWS b i < length b \<and> b ! SkipWS b i = cl \<and> j = SkipWS b i + 1"
  using assms by (auto simp: raw_after_def skipWS_eq)

lemma run_after:
  assumes "i \<le> length b" "SkipWS b i < length b" "\<not> is_stop (b ! SkipWS b i)"
  shows "run_from b i = run_from b (SkipWS b i + 1)"
  using run_byte [OF assms(2,3)] run_ws [OF assms(1)] by simp

lemma elems_at_depth: "value_at b d i e \<Longrightarrow> elems_at b d' j e' \<Longrightarrow> value_at b (max d d') i e \<and> elems_at b (max d d') j e'"
  and members_at_depth: "value_at b d i e \<Longrightarrow> members_at b d' j e' \<Longrightarrow> value_at b (max d d') i e \<and> members_at b (max d d') j e'"
  by (auto intro: value_at_depth)

definition scanned_elems :: "bytes \<Rightarrow> nat \<Rightarrow> nat \<Rightarrow> bool" where
  "scanned_elems b i e \<longleftrightarrow> (\<exists>d m. elems_at b d (SkipWS b i) m \<and> SkipWS b m < length b \<and>
     b ! SkipWS b m = ch_rbrack \<and> e = SkipWS b m + 1 \<and> run_from b i = run_from b e)"

definition scanned_members :: "bytes \<Rightarrow> nat \<Rightarrow> nat \<Rightarrow> bool" where
  "scanned_members b i e \<longleftrightarrow> (\<exists>d m. members_at b d (SkipWS b i) m \<and> SkipWS b m < length b \<and>
     b ! SkipWS b m = ch_rbrace \<and> e = SkipWS b m + 1 \<and> run_from b i = run_from b e)"

definition scanned_value :: "bytes \<Rightarrow> nat \<Rightarrow> nat \<Rightarrow> bool" where
  "scanned_value b i e \<longleftrightarrow> (\<exists>d. value_at b d i e) \<and> run_from b i = run_from b e"

lemma scanned_container:
  "i < length b \<Longrightarrow> b ! i = ch_lbrack \<Longrightarrow> scanned_elems b (SkipWS b (i + 1)) e \<Longrightarrow> scanned_value b i e"
  "i < length b \<Longrightarrow> b ! i = ch_lbrace \<Longrightarrow> scanned_members b (SkipWS b (i + 1)) e \<Longrightarrow> scanned_value b i e"
  "i < length b \<Longrightarrow> b ! i = ch_lbrack \<Longrightarrow> p = SkipWS b (i + 1) \<Longrightarrow> p < length b \<Longrightarrow> b ! p = ch_rbrack \<Longrightarrow> scanned_value b i (p + 1)"
  "i < length b \<Longrightarrow> b ! i = ch_lbrace \<Longrightarrow> p = SkipWS b (i + 1) \<Longrightarrow> p < length b \<Longrightarrow> b ! p = ch_rbrace \<Longrightarrow> scanned_value b i (p + 1)"
proof -
  have idem: "SkipWS b (SkipWS b j) = SkipWS b j" if "j \<le> length b" for j
    using that SkipWS_bounds [OF that] by (simp add: SkipWS_eq find_from_idem)
  have r: "run_from b i = run_from b (SkipWS b (i + 1))" if "i < length b" "\<not> is_stop (b ! i)"
    using run_byte [OF that] run_ws [of "i + 1" b] that(1) by simp
  show "i < length b \<Longrightarrow> b ! i = ch_lbrack \<Longrightarrow> scanned_elems b (SkipWS b (i + 1)) e \<Longrightarrow> scanned_value b i e"
    using r idem [of "i + 1"] value_at_elems_at_members_at.arr [of i b]
    by (fastforce simp: scanned_elems_def scanned_value_def)
  show "i < length b \<Longrightarrow> b ! i = ch_lbrace \<Longrightarrow> scanned_members b (SkipWS b (i + 1)) e \<Longrightarrow> scanned_value b i e"
    using r idem [of "i + 1"] value_at_elems_at_members_at.obj [of i b]
    by (fastforce simp: scanned_members_def scanned_value_def)
  show "i < length b \<Longrightarrow> b ! i = ch_lbrack \<Longrightarrow> p = SkipWS b (i + 1) \<Longrightarrow> p < length b \<Longrightarrow> b ! p = ch_rbrack \<Longrightarrow> scanned_value b i (p + 1)"
    using r run_byte [of p b] value_at_elems_at_members_at.emptyArr [of i b p] by (auto simp: scanned_value_def)
  show "i < length b \<Longrightarrow> b ! i = ch_lbrace \<Longrightarrow> p = SkipWS b (i + 1) \<Longrightarrow> p < length b \<Longrightarrow> b ! p = ch_rbrace \<Longrightarrow> scanned_value b i (p + 1)"
    using r run_byte [of p b] value_at_elems_at_members_at.emptyObj [of i b p] by (auto simp: scanned_value_def)
qed

lemma SkipWS_le: "i \<le> length b \<Longrightarrow> SkipWS b i \<le> length b"
  using SkipWS_bounds [of i b] by simp

lemma scanned_scalars:
  "i < length b \<Longrightarrow> b ! i = ch_quote \<Longrightarrow> scanString b i = Some e \<Longrightarrow> scanned_value b i e"
  "i \<le> length b \<Longrightarrow> scanNumber b i = Some e \<Longrightarrow> scanned_value b i e"
  "l \<in> {lit ''true'', lit ''false'', lit ''null''} \<Longrightarrow> scanLit b i l = Some e \<Longrightarrow> scanned_value b i e"
proof -
  assume a: "i < length b" "b ! i = ch_quote" "scanString b i = Some e"
  then obtain k where k: "ScanString b (i + 1) = (k, True)" "e = k + 1" "\<not> hasCtl (cut b (i + 1) k)"
    using scanString_eq by blast
  then show "scanned_value b i e"
    using value_at_elems_at_members_at.string [OF a(1,2) k(1)] run_string [OF a(1,2) k(1)] by (auto simp: scanned_value_def)
next
  assume a: "i \<le> length b" "scanNumber b i = Some e"
  then have n: "locateNumber b i = (e, False)" by (auto simp: scanNumber_eq split: prod.splits if_splits)
  note f = locateNumber_sound [OF a(1) n] locateNumber_next [OF n]
  have "list_all plain_byte (cut b i e)" using is_number_plain f(2) by blast
  then show "scanned_value b i e"
    using f value_at_elems_at_members_at.number [of i e b] run_cut [of i e b] by (auto simp: scanned_value_def)
next
  assume a: "l \<in> {lit ''true'', lit ''false'', lit ''null''}" "scanLit b i l = Some e"
  then have f: "i \<le> e" "e \<le> length b" "cut b i e = l" by (auto simp: scanLit_def split: if_splits)
  have "list_all plain_byte (cut b i e)" using literals_plain a(1) f(3) by blast
  then show "scanned_value b i e"
    using f a(1) value_at_elems_at_members_at.atom [of i e b] run_cut [of i e b] by (auto simp: scanned_value_def)
qed

lemma scanned_lits:
  "scanLit b i (lit ''true'') = Some e \<Longrightarrow> scanned_value b i e"
  "scanLit b i (lit ''false'') = Some e \<Longrightarrow> scanned_value b i e"
  "scanLit b i (lit ''null'') = Some e \<Longrightarrow> scanned_value b i e"
  by (rule scanned_scalars(3); blast)+

lemma scanned_value_bounds: "scanned_value b i e \<Longrightarrow> e \<le> length b"
  by (auto simp: scanned_value_def dest: value_at_bounds(1))

lemma scanned_elem:
  assumes "i \<le> length b" "scanned_value b (SkipWS b i) v" "SkipWS b v < length b"
  shows "b ! SkipWS b v = ch_rbrack \<Longrightarrow> scanned_elems b i (SkipWS b v + 1)"
    "b ! SkipWS b v = ch_comma \<Longrightarrow> scanned_elems b (SkipWS b v + 1) e \<Longrightarrow> scanned_elems b i e"
proof -
  obtain d where d: "value_at b d (SkipWS b i) v" "run_from b (SkipWS b i) = run_from b v"
    using assms(2) by (auto simp: scanned_value_def)
  have r: "run_from b i = run_from b (SkipWS b v + 1)" if "\<not> is_stop (b ! SkipWS b v)"
    using run_ws [OF assms(1)] d(2) run_after [OF value_at_bounds(1) [OF d(1)] assms(3) that] by simp
  show "scanned_elems b i (SkipWS b v + 1)" if "b ! SkipWS b v = ch_rbrack"
    using that assms(3) r value_at_elems_at_members_at.elem [OF d(1)] by (auto simp: scanned_elems_def)
  assume c: "b ! SkipWS b v = ch_comma" "scanned_elems b (SkipWS b v + 1) e"
  then obtain d' m where m: "elems_at b d' (SkipWS b (SkipWS b v + 1)) m" "SkipWS b m < length b" "b ! SkipWS b m = ch_rbrack"
      "e = SkipWS b m + 1" "run_from b (SkipWS b v + 1) = run_from b e" by (auto simp: scanned_elems_def)
  have "elems_at b (max d d') (SkipWS b i) m"
    using elems_at_depth [OF d(1) m(1)] value_at_elems_at_members_at.elem_more [OF _ refl assms(3) c(1)] by blast
  then show "scanned_elems b i e" using m r c(1) by (auto simp: scanned_elems_def)
qed

lemma scanned_member:
  assumes "i \<le> length b" "raw_key b i = Some (k, q)" "raw_colon b q = Some j" "scanned_value b j v" "SkipWS b v < length b"
  shows "b ! SkipWS b v = ch_rbrace \<Longrightarrow> scanned_members b i (SkipWS b v + 1)"
    "b ! SkipWS b v = ch_comma \<Longrightarrow> scanned_members b (SkipWS b v + 1) e \<Longrightarrow> scanned_members b i e"
proof -
  obtain d where d: "value_at b d j v" "run_from b j = run_from b v"
    using assms(4) by (auto simp: scanned_value_def)
  obtain s where s: "k = SkipWS b i" "k < length b" "b ! k = ch_quote" "ScanString b (k + 1) = (s, True)" "q = s + 1"
      "q \<le> length b" "run_from b i = run_from b q" using raw_key_Some [OF assms(1,2)] by blast
  obtain c where c: "c = SkipWS b q" "c < length b" "b ! c = ch_colon" "j = SkipWS b (c + 1)" "run_from b q = run_from b j"
    using raw_colon_Some [OF s(6) assms(3)] by blast
  note key = s(2,3,4) c(1) [unfolded s(5)] c(2,3)
  have r: "run_from b i = run_from b (SkipWS b v + 1)" if "\<not> is_stop (b ! SkipWS b v)"
    using s(7) c(5) d(2) run_after [OF value_at_bounds(1) [OF d(1)] assms(5) that] by simp
  show "scanned_members b i (SkipWS b v + 1)" if "b ! SkipWS b v = ch_rbrace"
    using that assms(5) r value_at_elems_at_members_at.member [OF key d(1) [unfolded c(4)]] s(1) by (auto simp: scanned_members_def)
  assume cm: "b ! SkipWS b v = ch_comma" "scanned_members b (SkipWS b v + 1) e"
  then obtain d' m where m: "members_at b d' (SkipWS b (SkipWS b v + 1)) m" "SkipWS b m < length b" "b ! SkipWS b m = ch_rbrace"
      "e = SkipWS b m + 1" "run_from b (SkipWS b v + 1) = run_from b e" by (auto simp: scanned_members_def)
  have "members_at b (max d d') (SkipWS b i) m"
    using members_at_depth [OF d(1) m(1)] value_at_elems_at_members_at.member_more [OF key _ refl assms(5) cm(1)]
    unfolding s(1) c(4) by blast
  then show "scanned_members b i e" using m r cm(1) by (auto simp: scanned_members_def)
qed

lemma scan_sound:
  "scanValue b i = Some e \<Longrightarrow> scanned_value b i e"
  "i < length b \<Longrightarrow> b ! i = ch_lbrace \<Longrightarrow> scanObject b i = Some e \<Longrightarrow> scanned_value b i e"
  "i \<le> length b \<Longrightarrow> scanMembers b i = Some e \<Longrightarrow> scanned_members b i e"
  "i < length b \<Longrightarrow> b ! i = ch_lbrack \<Longrightarrow> scanArray b i = Some e \<Longrightarrow> scanned_value b i e"
  "i \<le> length b \<Longrightarrow> scanElems b i = Some e \<Longrightarrow> scanned_elems b i e"
proof (induction b i and b i and b i and b i and b i arbitrary: e and e and e and e and e
    rule: scanValue_scanObject_scanMembers_scanArray_scanElems.induct)
  case (1 b i)
  note P = "1.prems" [unfolded scanValue.simps [of b i]]
  have l: "i < length b" using P by (simp split: if_split_asm)
  consider "b ! i = ch_lbrace" "scanObject b i = Some e" | "b ! i = ch_lbrack" "scanArray b i = Some e"
    | "b ! i = ch_quote" "scanString b i = Some e" | "scanLit b i (lit ''true'') = Some e"
    | "scanLit b i (lit ''false'') = Some e" | "scanLit b i (lit ''null'') = Some e" | "scanNumber b i = Some e"
    using P by (simp split: if_split_asm)
  then show ?case
  proof cases
    case 1
    then show ?thesis using "1.IH"(1) l by simp
  next
    case 2
    then show ?thesis using "1.IH"(2) l by simp
  next
    case 3
    then show ?thesis using scanned_scalars(1) l by blast
  next
    case 7
    then show ?thesis using scanned_scalars(2) l by simp
  qed (rule scanned_lits; assumption)+
next
  case (2 b i)
  let ?x = "skipWS b (i + 1)"
  have x: "?x = SkipWS b (i + 1)" "?x \<le> length b" using "2.prems"(1) SkipWS_le [of "i + 1" b] by (simp_all add: skipWS_eq)
  show ?case
  proof (cases "?x < length b \<and> b ! ?x = ch_rbrace")
    case True
    then show ?thesis using "2.prems" x(1) scanned_container(4) [OF "2.prems"(1,2) x(1)] by (simp add: scanObject.simps [of b i])
  next
    case False
    then have "scanned_members b ?x e" using "2.IH" [OF refl False x(2)] "2.prems" by (auto simp: scanObject.simps [of b i])
    then show ?thesis using scanned_container(2) [OF "2.prems"(1,2)] x(1) by simp
  qed
next
  case (3 b i)
  from "3.prems" obtain k q j v where s: "raw_key b i = Some (k, q)" "raw_colon b q = Some j" "scanValue b j = Some v"
    by (auto simp: scanMembers.simps [of b i] split: option.splits)
  have v: "scanned_value b j v" by (rule "3.IH"(1) [OF s(1) refl s(2,3)])
  note vb = scanned_value_bounds [OF v]
  show ?case
  proof (cases "raw_after b ch_rbrace v")
    case (RComma n)
    then have "scanMembers b n = Some e" using "3.prems" s by (simp add: scanMembers.simps [of b i])
    then have N: "scanned_members b n e" using "3.IH"(2) [OF s(1) refl s(2,3) RComma] raw_after_ge(1) [OF RComma] by simp
    have "SkipWS b v < length b" "b ! SkipWS b v = ch_comma" "n = SkipWS b v + 1" using RComma raw_after_iff(1) [OF vb] by simp_all
    then show ?thesis using scanned_member(2) [OF "3.prems"(1) s(1,2) v] N by simp
  next
    case (RClose n)
    then have "e = n" using "3.prems" s by (simp add: scanMembers.simps [of b i])
    moreover have "SkipWS b v < length b" "b ! SkipWS b v = ch_rbrace" "n = SkipWS b v + 1" using RClose raw_after_iff(2) [OF vb] by simp_all
    ultimately show ?thesis using scanned_member(1) [OF "3.prems"(1) s(1,2) v] by simp
  next
    case RBad
    then show ?thesis using "3.prems" s by (simp add: scanMembers.simps [of b i])
  qed
next
  case (4 b i)
  let ?x = "skipWS b (i + 1)"
  have x: "?x = SkipWS b (i + 1)" "?x \<le> length b" using "4.prems"(1) SkipWS_le [of "i + 1" b] by (simp_all add: skipWS_eq)
  show ?case
  proof (cases "?x < length b \<and> b ! ?x = ch_rbrack")
    case True
    then show ?thesis using "4.prems" x(1) scanned_container(3) [OF "4.prems"(1,2) x(1)] by (simp add: scanArray.simps [of b i])
  next
    case False
    then have "scanned_elems b ?x e" using "4.IH" [OF refl False x(2)] "4.prems" by (auto simp: scanArray.simps [of b i])
    then show ?thesis using scanned_container(1) [OF "4.prems"(1,2)] x(1) by simp
  qed
next
  case (5 b i)
  from "5.prems" obtain v where s: "scanValue b (skipWS b i) = Some v"
    by (auto simp: scanElems.simps [of b i] split: option.splits)
  have v: "scanned_value b (SkipWS b i) v" using "5.IH"(1) [OF s] "5.prems"(1) by (simp add: skipWS_eq)
  note vb = scanned_value_bounds [OF v]
  show ?case
  proof (cases "raw_after b ch_rbrack v")
    case (RComma n)
    then have "scanElems b n = Some e" using "5.prems" s by (simp add: scanElems.simps [of b i])
    then have N: "scanned_elems b n e" using "5.IH"(2) [OF s RComma] raw_after_ge(1) [OF RComma] by simp
    have "SkipWS b v < length b" "b ! SkipWS b v = ch_comma" "n = SkipWS b v + 1" using RComma raw_after_iff(1) [OF vb] by simp_all
    then show ?thesis using scanned_elem(2) [OF "5.prems"(1) v] N by simp
  next
    case (RClose n)
    then have "e = n" using "5.prems" s by (simp add: scanElems.simps [of b i])
    moreover have "SkipWS b v < length b" "b ! SkipWS b v = ch_rbrack" "n = SkipWS b v + 1" using RClose raw_after_iff(2) [OF vb] by simp_all
    ultimately show ?thesis using scanned_elem(1) [OF "5.prems"(1) v] by simp
  next
    case RBad
    then show ?thesis using "5.prems" s by (simp add: scanElems.simps [of b i])
  qed
qed

text \<open>Conversely the scan verdict of the rest only gets worse across a value, so a clean text stays clean.\<close>

definition no_worse :: "bool \<times> bool \<Rightarrow> bool \<times> bool \<Rightarrow> bool" where
  "no_worse r s \<longleftrightarrow> fst r = fst s \<and> (snd r \<longrightarrow> snd s)"

lemma no_worse_trans: "no_worse r s \<Longrightarrow> no_worse s t \<Longrightarrow> no_worse r t"
  by (simp add: no_worse_def)

lemma no_worse_byte:
  "p = SkipWS b e \<Longrightarrow> e \<le> length b \<Longrightarrow> p < length b \<Longrightarrow> \<not> is_stop (b ! p) \<Longrightarrow> no_worse (run_from b (p + 1)) (run_from b e)"
  using run_after [of e b] by (simp add: no_worse_def)

lemma no_worse_next:
  "p < length b \<Longrightarrow> \<not> is_stop (b ! p) \<Longrightarrow> no_worse (run_from b (SkipWS b (p + 1))) (run_from b p)"
  using run_byte [of p b] run_ws [of "p + 1" b] by (simp add: no_worse_def)

lemma no_worse_string:
  "i < length b \<Longrightarrow> b ! i = ch_quote \<Longrightarrow> ScanString b (i + 1) = (k, True) \<Longrightarrow> no_worse (run_from b (k + 1)) (run_from b i)"
  using run_string by (simp add: no_worse_def)

lemma no_worse_comma:
  assumes "no_worse (run_from b e) r" "e \<le> length b" "q = SkipWS b e" "q < length b" "\<not> is_stop (b ! q)"
  shows "no_worse (run_from b (SkipWS b (q + 1))) r"
  using no_worse_trans [OF no_worse_next [OF assms(4,5)]] assms(1) run_ws [OF assms(2)] assms(3) by simp

lemma no_worse_key:
  assumes "o' < length b" "b ! o' = ch_quote" "ScanString b (o' + 1) = (k, True)" "c = SkipWS b (k + 1)" "c < length b" "b ! c = ch_colon"
  shows "no_worse (run_from b (SkipWS b (c + 1))) (run_from b o')"
  using no_worse_comma [OF no_worse_string [OF assms(1-3)] _ assms(4,5)] ScanString_ge [OF _ assms(3)] assms(1,6) by simp

lemma value_run:
  "value_at b d o' e \<Longrightarrow> no_worse (run_from b e) (run_from b o')"
  "elems_at b d o' e \<Longrightarrow> no_worse (run_from b e) (run_from b o')"
  "members_at b d o' e \<Longrightarrow> no_worse (run_from b e) (run_from b o')"
proof (induction rule: value_at_elems_at_members_at.inducts)
  case (string o' e d)
  then show ?case by (rule no_worse_string)
next
  case (number o' e d)
  then show ?case using run_cut [OF number(1,2)] is_number_plain by (simp add: no_worse_def)
next
  case (atom o' e d)
  then show ?case using run_cut [OF atom(1,2)] literals_plain by (simp add: no_worse_def)
next
  case (emptyArr o' p d)
  then show ?case using no_worse_byte [OF emptyArr(3)] run_byte [of o' b] by simp
next
  case (emptyObj o' p d)
  then show ?case using no_worse_byte [OF emptyObj(3)] run_byte [of o' b] by simp
next
  case (arr o' d e p)
  then show ?case using no_worse_trans [OF no_worse_trans [OF no_worse_byte [OF arr(5)] arr(4)] no_worse_next [of o' b]]
      value_at_bounds(2) [OF arr(3)] by simp
next
  case (obj o' d e p)
  then show ?case using no_worse_trans [OF no_worse_trans [OF no_worse_byte [OF obj(5)] obj(4)] no_worse_next [of o' b]]
      value_at_bounds(3) [OF obj(3)] by simp
next
  case (elem_more d o' e q e')
  then show ?case using no_worse_trans [OF elem_more(7) no_worse_comma [OF elem_more(2) _ elem_more(3)]] value_at_bounds(1) [OF elem_more(1)] by simp
next
  case (member o' k c d e)
  then show ?case using no_worse_trans [OF member(8) no_worse_key [OF member(1-6)]] by simp
next
  case (member_more o' k c d e q e')
  have "no_worse (run_from b e) (run_from b o')" using no_worse_trans [OF member_more(8) no_worse_key [OF member_more(1-6)]] .
  then show ?case using no_worse_trans [OF member_more(13) no_worse_comma [OF _ _ member_more(9)]] member_more(10,11)
      value_at_bounds(1) [OF member_more(7)] by simp
qed simp

lemma clean_less: "\<not> snd s \<Longrightarrow> no_worse r s \<Longrightarrow> \<not> snd r"
  by (simp add: no_worse_def)

lemma scanNumber_complete:
  assumes "i \<le> e" "e \<le> length b" "is_number (cut b i e)" "\<not> IsNonDelim (At b e)"
  shows "scanValue b i = Some e"
proof -
  have f: "At b i = ch_minus \<or> IsDigit (At b i)" using number_at_first [OF number_nonempty [OF assms(3)] assms(2,3)] .
  then have l: "i < length b" by (intro At_neq_space) (auto simp: IsDigit_iff)
  have "scanNumber b i = Some e" using locateNumber_complete [OF assms] l by (simp add: scanNumber_eq)
  then show ?thesis using f l by (auto simp: scanValue.simps [of b i] raw_isDigit_iff IsDigit_iff)
qed

lemma scanLit_complete:
  assumes "i \<le> e" "e \<le> length b" "cut b i e \<in> {lit ''true'', lit ''false'', lit ''null''}"
  shows "scanValue b i = Some e"
proof -
  have f: "At b i \<in> {ch_t, ch_f, ch_n}" using literal_at_first [OF literal_nonempty [OF assms(3)] assms(2,3)] .
  then have l: "i < length b" by (intro At_neq_space) auto
  have "hd (cut b i e) = b ! i" using cut_first [OF literal_nonempty [OF assms(3)] assms(2)] .
  then have c: "cut b i e = literal_of (b ! i)" using assms(3) by (auto simp: literal_of_def lit_def)
  then have n: "e = i + length (literal_of (b ! i))" using assms(1,2) by (metis add_diff_cancel_left' le_add_diff_inverse length_cut)
  have "scanLit b i (literal_of (b ! i)) = Some e" using c assms(2) unfolding n scanLit_def by simp
  then show ?thesis using f l by (auto simp: scanValue.simps [of b i] literal_of_def)
qed

lemma raw_key_complete:
  assumes "SkipWS b i = o'" "i \<le> length b" "o' < length b" "b ! o' = ch_quote" "ScanString b (o' + 1) = (k, True)"
    "\<not> snd (run_from b o')"
  shows "raw_key b i = Some (o', k + 1)"
proof -
  have "\<not> hasCtl (cut b (o' + 1) k)" using assms(6) run_string [OF assms(3-5)] by simp
  then have "scanString b o' = Some (k + 1)" using scanString_eq [OF assms(3)] assms(5) by blast
  then show ?thesis using assms by (simp add: raw_key_def skipWS_eq)
qed

lemma raw_colon_complete:
  "c = SkipWS b i \<Longrightarrow> i \<le> length b \<Longrightarrow> c < length b \<Longrightarrow> b ! c = ch_colon \<Longrightarrow> raw_colon b i = Some (SkipWS b (c + 1))"
  by (simp add: raw_colon_def skipWS_eq)

lemma delim_before: "e \<le> length b \<Longrightarrow> q = SkipWS b e \<Longrightarrow> q < length b \<Longrightarrow> b ! q \<in> {ch_comma, ch_rbrack, ch_rbrace} \<Longrightarrow> \<not> IsNonDelim (At b e)"
  by (rule delim_before_closer) simp_all

text \<open>A clean member: its key, colon and value are read.\<close>

lemma member_read:
  assumes "SkipWS b i = o'" "i \<le> length b" "o' < length b" "b ! o' = ch_quote" "ScanString b (o' + 1) = (k, True)"
    "c = SkipWS b (k + 1)" "c < length b" "b ! c = ch_colon" "\<not> snd (run_from b o')"
    "\<not> snd (run_from b (SkipWS b (c + 1))) \<Longrightarrow> scanValue b (SkipWS b (c + 1)) = Some e"
  shows "raw_key b i = Some (o', k + 1)" "raw_colon b (k + 1) = Some (SkipWS b (c + 1))" "scanValue b (SkipWS b (c + 1)) = Some e"
proof -
  show "raw_key b i = Some (o', k + 1)" by (rule raw_key_complete [OF assms(1-5,9)])
  show "raw_colon b (k + 1) = Some (SkipWS b (c + 1))"
    using raw_colon_complete [OF assms(6) _ assms(7,8)] ScanString_ge [OF _ assms(5)] assms(3) by simp
  show "scanValue b (SkipWS b (c + 1)) = Some e"
    using assms(10) clean_less [OF assms(9) no_worse_key [OF assms(3-8)]] by simp
qed

lemma scan_complete:
  "value_at b d o' e \<Longrightarrow> \<not> IsNonDelim (At b e) \<Longrightarrow> \<not> snd (run_from b o') \<Longrightarrow> scanValue b o' = Some e"
  "elems_at b d o' e \<Longrightarrow> SkipWS b e < length b \<Longrightarrow> b ! SkipWS b e = ch_rbrack \<Longrightarrow> \<not> snd (run_from b o') \<Longrightarrow>
     i \<le> length b \<Longrightarrow> SkipWS b i = o' \<Longrightarrow> scanElems b i = Some (SkipWS b e + 1)"
  "members_at b d o' e \<Longrightarrow> SkipWS b e < length b \<Longrightarrow> b ! SkipWS b e = ch_rbrace \<Longrightarrow> \<not> snd (run_from b o') \<Longrightarrow>
     i \<le> length b \<Longrightarrow> SkipWS b i = o' \<Longrightarrow> scanMembers b i = Some (SkipWS b e + 1)"
proof (induction arbitrary: i and i and i rule: value_at_elems_at_members_at.inducts)
  case (string o' e d)
  have "\<not> hasCtl (cut b (o' + 1) e)" using string(5) run_string [OF string(1-3)] by simp
  then have "scanString b o' = Some (e + 1)" using scanString_eq [OF string(1)] string(3) by blast
  then show ?case using string by (simp add: scanValue.simps [of b o'])
next
  case (number o' e d)
  then show ?case by (intro scanNumber_complete)
next
  case (atom o' e d)
  then show ?case by (intro scanLit_complete)
next
  case (emptyArr o' p d)
  then show ?case by (simp add: scanValue.simps [of b o'] scanArray.simps [of b o'] skipWS_eq)
next
  case (emptyObj o' p d)
  then show ?case by (simp add: scanValue.simps [of b o'] scanObject.simps [of b o'] skipWS_eq)
next
  case (arr o' d e p)
  let ?x = "SkipWS b (o' + 1)"
  have f: "b ! ?x \<noteq> ch_rbrack" "?x < length b" using elems_first [OF arr(3)] elems_no_ws [OF arr(3)] by simp_all
  have idem: "SkipWS b ?x = ?x" "?x \<le> length b" using f(2) arr(1) by (simp_all add: SkipWS_eq find_from_idem)
  have "\<not> snd (run_from b ?x)" using clean_less [OF arr(9) no_worse_next [of o' b]] arr(1,2) by simp
  then have "scanElems b ?x = Some (p + 1)" using arr(4) [OF _ _ _ idem(2,1)] arr(5-7) by simp
  then show ?case using arr(1,2) f by (simp add: scanValue.simps [of b o'] scanArray.simps [of b o'] skipWS_eq)
next
  case (obj o' d e p)
  let ?x = "SkipWS b (o' + 1)"
  have f: "b ! ?x \<noteq> ch_rbrace" "?x < length b" using obj(3) by (cases rule: members_at.cases; simp)+
  have idem: "SkipWS b ?x = ?x" "?x \<le> length b" using f(2) obj(1) by (simp_all add: SkipWS_eq find_from_idem)
  have "\<not> snd (run_from b ?x)" using clean_less [OF obj(9) no_worse_next [of o' b]] obj(1,2) by simp
  then have "scanMembers b ?x = Some (p + 1)" using obj(4) [OF _ _ _ idem(2,1)] obj(5-7) by simp
  then show ?case using obj(1,2) f by (simp add: scanValue.simps [of b o'] scanObject.simps [of b o'] skipWS_eq)
next
  case (elem d o' e)
  note eb = value_at_bounds(1) [OF elem(1)]
  have "scanValue b o' = Some e" using elem(2) delim_before [OF eb refl elem(3)] elem(4,5) by simp
  moreover have "raw_after b ch_rbrack e = RClose (SkipWS b e + 1)" using raw_after_iff(2) [OF eb] elem(3,4) by simp
  ultimately show ?case using elem(6,7) by (simp add: scanElems.simps [of b i] skipWS_eq)
next
  case (elem_more d o' e q e')
  note eb = value_at_bounds(1) [OF elem_more(1)]
  have "scanValue b o' = Some e" using elem_more(2) delim_before [OF eb elem_more(3,4)] elem_more(5,10) by simp
  moreover have "raw_after b ch_rbrack e = RComma (q + 1)" using raw_after_iff(1) [OF eb] elem_more(3-5) by simp
  moreover have "\<not> snd (run_from b (SkipWS b (q + 1)))"
    using clean_less [OF elem_more(10) no_worse_comma [OF value_run(1) [OF elem_more(1)] eb elem_more(3,4)]] elem_more(5) by simp
  then have "scanElems b (q + 1) = Some (SkipWS b e' + 1)" using elem_more(7) [OF elem_more(8,9)] elem_more(4) by simp
  ultimately show ?case using elem_more(11,12) by (simp add: scanElems.simps [of b i] skipWS_eq)
next
  case (member o' k c d e)
  note eb = value_at_bounds(1) [OF member(7)]
  have v: "\<not> snd (run_from b (SkipWS b (c + 1))) \<Longrightarrow> scanValue b (SkipWS b (c + 1)) = Some e"
    using member(8) delim_before [OF eb refl member(9)] member(10) by simp
  note r = member_read [OF member(13,12,1-6,11) v]
  have "raw_after b ch_rbrace e = RClose (SkipWS b e + 1)" using raw_after_iff(2) [OF eb] member(9,10) by simp
  then show ?case using r by (simp add: scanMembers.simps [of b i])
next
  case (member_more o' k c d e q e')
  note eb = value_at_bounds(1) [OF member_more(7)]
  have v: "\<not> snd (run_from b (SkipWS b (c + 1))) \<Longrightarrow> scanValue b (SkipWS b (c + 1)) = Some e"
    using member_more(8) delim_before [OF eb member_more(9,10)] member_more(11) by simp
  note r = member_read [OF member_more(18,17,1-6,16) v]
  have nw: "no_worse (run_from b e) (run_from b o')"
    using no_worse_trans [OF value_run(1) [OF member_more(7)] no_worse_key [OF member_more(1-6)]] .
  have "raw_after b ch_rbrace e = RComma (q + 1)" using raw_after_iff(1) [OF eb] member_more(9-11) by simp
  moreover have "\<not> snd (run_from b (SkipWS b (q + 1)))"
    using clean_less [OF member_more(16) no_worse_comma [OF nw eb member_more(9,10)]] member_more(11) by simp
  then have "scanMembers b (q + 1) = Some (SkipWS b e' + 1)" using member_more(13) [OF member_more(14,15)] member_more(10) by simp
  ultimately show ?case using r by (simp add: scanMembers.simps [of b i])
qed

lemma raw_Valid_iff: "raw_Valid b \<longleftrightarrow> (\<exists>d. json_text b d) \<and> Check b ScanCtl"
proof
  assume "raw_Valid b"
  then obtain e where e: "scanValue b (SkipWS b 0) = Some e" "skipWS b e = length b"
    by (auto simp: raw_Valid_def skipWS_eq split: option.splits)
  then obtain d where d: "value_at b d (SkipWS b 0) e" "run_from b (SkipWS b 0) = run_from b e"
    using scan_sound(1) unfolding scanned_value_def by blast
  note eb = value_at_bounds(1) [OF d(1)]
  have "run_from b 0 = run_from b (length b)" using d(2) run_ws [of 0 b] run_ws [OF eb] e(2) skipWS_eq [OF eb] by simp
  then have "Check b ScanCtl" using Check_loop_run [of b True 0] by (simp add: Check_def)
  then show "(\<exists>d. json_text b d) \<and> Check b ScanCtl" using d(1) e(2) skipWS_eq [OF eb] by (auto simp: json_text_def)
next
  assume "(\<exists>d. json_text b d) \<and> Check b ScanCtl"
  then obtain d e where e: "value_at b d (SkipWS b 0) e" "SkipWS b e = length b" "Check b ScanCtl" by (auto simp: json_text_def)
  note eb = value_at_bounds(1) [OF e(1)]
  have "\<not> snd (run_from b 0)" using e(3) Check_loop_run [of b True 0] by (simp add: Check_def)
  then have "\<not> snd (run_from b (SkipWS b 0))" using run_ws [of 0 b] by simp
  then have "scanValue b (SkipWS b 0) = Some e" by (rule scan_complete(1) [OF e(1) delim_at_end [OF e(2) eb]])
  then show "raw_Valid b" using e(2) skipWS_eq [OF eb] by (simp add: raw_Valid_def skipWS_eq)
qed

end
