(* ===== verification/Raw_Lookup.thy ===== *)
theory Raw_Lookup
  imports Raw_Valid
begin

text \<open>
  The accessors of \<^verbatim>\<open>value/raw.go\<close>. \<open>unquote\<close> is a second string decoder; on every string the scanner
  accepts it yields the bytes of \<open>decode_from\<close>. The iterators are an instance of the locale \<open>visits\<close>, a
  traversal of a fixed list that the callback may stop; the lookups are then read off the list.
\<close>

section \<open>unquote decodes\<close>

lemma hex4_step:
  fixes r v :: u32
  assumes "uint r < 16 ^ n" "n \<le> 6" "uint v < 16"
  shows "uint (push_bit 4 r OR v) = push_bit 4 (uint r) OR uint v" "uint (push_bit 4 r OR v) < 16 ^ Suc n"
proof -
  have "(16 :: int) ^ n \<le> 16 ^ 6" using assms(2) by (intro power_increasing) simp_all
  then have "uint r < 16 ^ 6" using assms(1) by linarith
  then have u: "uint (push_bit 4 r) = push_bit 4 (uint r)"
    by (simp add: push_bit_eq_mult uint_word_ariths)
  have b: "\<not> bit (push_bit 4 (uint r)) m \<or> \<not> bit (uint v) m" for m
  proof (cases "m < 4")
    case False
    have "uint v = take_bit 4 (uint v)" using assms(3) by (simp add: take_bit_int_eq_self)
    then have "\<not> bit (uint v) m" using False by (metis bit_take_bit_iff)
    then show ?thesis by simp
  qed (simp add: bit_push_bit_iff)
  show e: "uint (push_bit 4 r OR v) = push_bit 4 (uint r) OR uint v" by (simp add: uint_or u)
  have "push_bit 4 (uint r) OR uint v = push_bit 4 (uint r) + uint v" using b by (simp add: disjunctive_add)
  then have "uint (push_bit 4 r OR v) = uint r * 16 + uint v" unfolding e by (simp add: push_bit_eq_mult)
  then show "uint (push_bit 4 r OR v) < 16 ^ Suc n" using assms(1,3) by (simp only: power_Suc)
qed

lemma readHex4_loop_eq:
  assumes "m + n \<le> length b" "w \<le> m" "m + n \<le> k" "k \<le> length b" "n \<le> 4" "uint r < 16 ^ (4 - n)"
  shows "readHex4_loop (cut b w k) (m - w) n (uint r) = map_option uint (hex4_loop b m n r)"
  using assms
proof (induction n arbitrary: m r)
  case (Suc n)
  have s: "cut b w k ! (m - w) = b ! m" using Suc.prems by (simp add: nth_cut)
  show ?case
  proof (cases "hexVal (b ! m)")
    case None
    then have "raw_hexVal (b ! m) < 0" using raw_hexVal_None by blast
    then show ?thesis using None s Suc.prems by simp
  next
    case (Some v)
    note h = raw_hexVal_Some [OF Some]
    have n4: "4 - n = Suc (4 - Suc n)" using Suc.prems(5) by simp
    have q: "uint (push_bit 4 r OR v) < 16 ^ (4 - n)"
      unfolding n4 by (rule hex4_step(2) [OF Suc.prems(6) _ conjunct2 [OF h]]) simp
    have "readHex4_loop (cut b w k) (m + 1 - w) n (uint (push_bit 4 r OR v)) = map_option uint (hex4_loop b (m + 1) n (push_bit 4 r OR v))"
      using Suc.prems q by (intro Suc.IH) simp_all
    moreover have "m + 1 - w = Suc (m - w)" using Suc.prems(2) by simp
    ultimately show ?thesis using Some s h Suc.prems hex4_step(1) [OF Suc.prems(6) _ conjunct2 [OF h]] by simp
  qed
qed simp

lemma readHex4_cut:
  assumes "w \<le> m" "k \<le> length b"
  shows "m + 4 \<le> k \<Longrightarrow> readHex4 (cut b w k) (m - w) = hex4 b m" "k < m + 4 \<Longrightarrow> readHex4 (cut b w k) (m - w) = None"
proof -
  show "readHex4 (cut b w k) (m - w) = hex4 b m" if "m + 4 \<le> k"
  proof -
    have "\<not> length (cut b w k) < m - w + 4" using that assms by simp
    then have "readHex4 (cut b w k) (m - w) = map_option word_of_int (readHex4_loop (cut b w k) (m - w) 4 (uint (0 :: u32)))"
      unfolding readHex4_def by simp
    also have "\<dots> = hex4 b m"
      unfolding hex4_def using that assms by (subst readHex4_loop_eq) (simp_all add: option.map_comp comp_def option.map_ident)
    finally show ?thesis .
  qed
  show "readHex4 (cut b w k) (m - w) = None" if "k < m + 4"
  proof -
    have "length (cut b w k) < m - w + 4" using that assms(1) unfolding length_cut [OF assms(2)] by linarith
    then show ?thesis by (simp only: readHex4_def if_True)
  qed
qed

lemma pair_bits:
  fixes h l :: u32
  assumes "uint h < 1024" "uint l < 1024"
  shows "push_bit 10 h OR l = push_bit 10 h + l" "push_bit 10 h + l + 0x10000 \<noteq> RuneError"
proof -
  have u: "uint (push_bit 10 h) = uint h * 1024" using assms(1) by (simp add: push_bit_eq_mult uint_word_ariths)
  have "\<not> bit (push_bit 10 h) m \<or> \<not> bit l m" for m
  proof (cases "m < 10")
    case False
    have "uint l = take_bit 10 (uint l)" using assms(2) by (simp add: take_bit_int_eq_self)
    then have "\<not> bit (uint l) m" using False by (metis bit_take_bit_iff)
    then show ?thesis by (auto simp: bit_uint_iff bit_push_bit_iff)
  qed (simp add: bit_push_bit_iff)
  then show "push_bit 10 h OR l = push_bit 10 h + l" by (simp add: disjunctive_add)
  have "uint (push_bit 10 h + l) = uint h * 1024 + uint l" using assms by (simp add: uint_word_ariths u)
  then have "uint (push_bit 10 h + l + 0x10000) = uint h * 1024 + uint l + 0x10000" using assms by (simp add: uint_word_ariths)
  moreover have "uint RuneError = 0xFFFD" by (simp add: RuneError_def)
  ultimately have "uint (push_bit 10 h + l + 0x10000) \<noteq> uint RuneError" using uint_ge_0 [of h] uint_ge_0 [of l] by linarith
  then show "push_bit 10 h + l + 0x10000 \<noteq> RuneError" by metis
qed

lemma surrogate_pair:
  fixes r1 r2 :: u32
  assumes "0xD800 \<le> r1" "r1 < 0xDC00" "0xDC00 \<le> r2" "r2 < 0xE000"
  shows "utf16_DecodeRune r1 r2 = push_bit 10 (r1 - 0xD800) + (r2 - 0xDC00) + 0x10000" "utf16_DecodeRune r1 r2 \<noteq> RuneError"
proof -
  have h: "uint (r1 - 0xD800) < 1024" and l: "uint (r2 - 0xDC00) < 1024"
    using assms uint_minus_simple_alt [of "0xD800" r1] uint_minus_simple_alt [of "0xDC00" r2] by (simp_all add: word_less_def word_le_def)
  have "utf16_DecodeRune r1 r2 = (push_bit 10 (r1 - 0xD800) OR (r2 - 0xDC00)) + 0x10000"
    unfolding utf16_DecodeRune_def using assms by presburger
  then show "utf16_DecodeRune r1 r2 = push_bit 10 (r1 - 0xD800) + (r2 - 0xDC00) + 0x10000" "utf16_DecodeRune r1 r2 \<noteq> RuneError"
    using pair_bits [OF h l] by presburger+
qed

lemma no_pair: "\<not> (0xD800 \<le> r1 \<and> r1 < 0xDC00 \<and> 0xDC00 \<le> r2 \<and> r2 < 0xE000) \<Longrightarrow> utf16_DecodeRune r1 r2 = RuneError"
  by (auto simp: utf16_DecodeRune_def)

lemma surrogate_bounds:
  fixes r :: u32
  shows "r \<le> 0xDBFF \<longleftrightarrow> r < 0xDC00" "r \<le> 0xDFFF \<longleftrightarrow> r < 0xE000"
  by (auto simp: word_le_def word_less_def)

text \<open>An escape inside a string body that the decoder reads, at the same place in the slice.\<close>

lemma decodeUnicodeEscape_cut:
  assumes "k \<le> length b" "w \<le> j" "escape_at b j = Some (nxt, bs)" "nxt \<le> k" "At b (j + 1) = ch_u"
  shows "\<exists>r. decodeUnicodeEscape (cut b w k) (j + 1 - w) = Some (r, nxt - w) \<and> bs = EncodeRune r"
proof -
  let ?s = "cut b w k"
  obtain r where r: "hex4 b (j + 2) = Some r" using assms(3,5) by (auto simp: escape_at_def split: option.splits)
  have b6: "j + 6 \<le> nxt" using assms(3,5) r by (auto simp: escape_at_def split: if_splits option.splits)
  have d: "j + 1 - w + 1 = j + 2 - w" "j + 1 - w + 5 = j + 6 - w" using assms(2) by simp_all
  have R: "readHex4 ?s (j + 2 - w) = Some r" using readHex4_cut(1) [of w "j + 2" k b] assms b6 r by simp
  have L: "j + 6 - w + 5 < length ?s \<longleftrightarrow> j + 12 \<le> k" using assms(1,2) by auto
  have at: "?s ! (m - w) = At b m" if "w \<le> m" "m < k" for m
    using that assms(1) by (simp add: nth_cut)
  have D: "decodeUnicodeEscape ?s (j + 1 - w) =
      (if \<not> IsSurrogate r then Some (r, j + 6 - w)
       else if j + 12 \<le> k \<and> At b (j + 6) = ch_bslash \<and> At b (j + 7) = ch_u then
         (case hex4 b (j + 8) of
            None \<Rightarrow> Some (RuneError, j + 6 - w)
          | Some r2 \<Rightarrow> if utf16_DecodeRune r r2 \<noteq> RuneError then Some (utf16_DecodeRune r r2, j + 12 - w) else Some (RuneError, j + 6 - w))
       else Some (RuneError, j + 6 - w))"
  proof (cases "j + 12 \<le> k")
    case True
    have i7: "j + 6 - w + 1 = j + 7 - w" using assms(2) by simp
    have i8: "j + 6 - w + 2 = j + 8 - w" using assms(2) by simp
    have e: "?s ! (j + 6 - w) = At b (j + 6)" "?s ! (j + 6 - w + 1) = At b (j + 7)" "j + 6 - w + 6 = j + 12 - w"
      using at [of "j + 6"] at [of "j + 7"] True assms(2) unfolding i7 by simp_all
    have h: "readHex4 ?s (j + 6 - w + 2) = hex4 b (j + 8)"
      using readHex4_cut(1) [of w "j + 8" k b] True assms(1,2) unfolding i8 by simp
    show ?thesis unfolding decodeUnicodeEscape_def d R Let_def option.case L e h using True by simp
  next
    case False
    then show ?thesis unfolding decodeUnicodeEscape_def d R Let_def option.case L by simp
  qed
  note E = assms(3) [unfolded escape_at_def Let_def assms(5) r option.case surrogate_bounds]
  show ?thesis
  proof (cases "0xD800 \<le> r \<and> r < 0xDC00")
    case hi: True
    then have sur: "IsSurrogate r" by (auto simp: IsSurrogate_def intro: less_trans)
    show ?thesis
    proof (cases "\<exists>lo. At b (j + 6) = ch_bslash \<and> At b (j + 7) = ch_u \<and> hex4 b (j + 8) = Some lo \<and> 0xDC00 \<le> lo \<and> lo < 0xE000")
      case True
      then obtain lo where lo: "At b (j + 6) = ch_bslash" "At b (j + 7) = ch_u" "hex4 b (j + 8) = Some lo" "0xDC00 \<le> lo" "lo < 0xE000" by blast
      note p = surrogate_pair [OF conjunct1 [OF hi] conjunct2 [OF hi] lo(4,5)]
      have n: "nxt = j + 12" "bs = EncodeRune (push_bit 10 (r - 0xD800) + (lo - 0xDC00) + 0x10000)"
        using E hi lo by simp_all
      then show ?thesis unfolding D using sur lo p assms(4) by simp
    next
      case False
      then have n: "nxt = j + 6" "bs = EncodeRune RuneError"
        using E hi by (auto split: if_splits option.splits)
      have "utf16_DecodeRune r lo = RuneError" if "At b (j + 6) = ch_bslash" "At b (j + 7) = ch_u" "hex4 b (j + 8) = Some lo" for lo
        using False that by (intro no_pair) blast
      then show ?thesis unfolding D n using sur by (auto split: option.splits)
    qed
  next
    case no_hi: False
    then have "utf16_DecodeRune r lo = RuneError" for lo by (intro no_pair) blast
    then have D': "decodeUnicodeEscape ?s (j + 1 - w) = (if \<not> IsSurrogate r then Some (r, j + 6 - w) else Some (RuneError, j + 6 - w))"
      unfolding D by (simp split: option.splits)
    have lo: "0xD800 \<le> r" if "0xDC00 \<le> r" by (rule order_trans [OF _ that]) simp
    have "IsSurrogate r \<longleftrightarrow> 0xDC00 \<le> r \<and> r < 0xE000"
      using no_hi lo unfolding IsSurrogate_def by (auto simp: not_less)
    then show ?thesis unfolding D' using E no_hi by (auto split: if_splits)
  qed
qed

lemma unquote_escape_cut:
  assumes "k \<le> length b" "w \<le> j" "escape_at b j = Some (nxt, bs)" "nxt \<le> k"
  shows "unquote_escape (cut b w k) (j + 1 - w) = Some (bs, nxt - w)"
proof -
  let ?s = "cut b w k"
  have b2: "j + 2 \<le> nxt" using escape_at_bounds(1) [OF assms(3)] .
  have l: "j + 1 - w < length ?s" "j + 1 < length b" using b2 assms by simp_all
  have c: "?s ! (j + 1 - w) = At b (j + 1)" using nth_cut [of k b "j + 1 - w" w] assms(1,2,4) b2 by simp
  have ne: "\<not> length ?s \<le> j + 1 - w" using l by simp
  show ?thesis
  proof (cases "At b (j + 1) = ch_u")
    case True
    then show ?thesis using decodeUnicodeEscape_cut [OF assms True] unfolding unquote_escape_def c True using ne by auto
  next
    case False
    then have m: "simpleEscape (At b (j + 1)) \<noteq> 0" "nxt = j + 2" "bs = [simpleEscape (At b (j + 1))]"
      using assms(3) by (auto simp: escape_at_def split: if_splits)
    have d: "j + 1 - w + 1 = j + 2 - w" using assms(2) by simp
    show ?thesis unfolding unquote_escape_def c d m(2,3) using ne m(1) False by (auto simp: simpleEscape_def split: if_splits)
  qed
qed

lemma unquote_loop_plain:
  "i \<le> j \<Longrightarrow> j \<le> length s \<Longrightarrow> (\<And>m. i \<le> m \<Longrightarrow> m < j \<Longrightarrow> s ! m \<noteq> ch_bslash) \<Longrightarrow> unquote_loop s i buf = unquote_loop s j (buf @ cut s i j)"
proof (induction "j - i" arbitrary: i buf)
  case (Suc n)
  have "i < length s" "s ! i \<noteq> ch_bslash" using Suc.hyps(2) Suc.prems by simp_all
  then have "unquote_loop s i buf = unquote_loop s (i + 1) (buf @ [s ! i])" by (simp add: unquote_loop.simps [of s i])
  also have "\<dots> = unquote_loop s j ((buf @ [s ! i]) @ cut s (i + 1) j)" using Suc.hyps(2) Suc.prems by (intro Suc.hyps(1)) simp_all
  also have "(buf @ [s ! i]) @ cut s (i + 1) j = buf @ cut s i j" using Suc.hyps(2) Suc.prems(2) by (simp add: cut_Cons)
  finally show ?case .
qed simp

lemma unquote_loop_end: "length s \<le> i \<Longrightarrow> unquote_loop s i buf = Some buf"
  by (subst unquote_loop.simps) simp

lemma cut_cut: "w \<le> i \<Longrightarrow> j \<le> k \<Longrightarrow> cut (cut b w k) (i - w) (j - w) = cut b i j"
  by (cases "i \<le> j") (simp_all add: cut_def min_def drop_take)

lemma unquote_loop_decodes:
  "w \<le> i \<Longrightarrow> i \<le> length b \<Longrightarrow> decode_from b i = (bs, k, x, True) \<Longrightarrow> unquote_loop (cut b w k) (i - w) buf = Some (buf @ bs)"
proof (induction "length b - i" arbitrary: i bs x buf rule: less_induct)
  case less
  note bd = decode_from_bounds [OF less.prems(2,3)]
  have plain: "unquote_loop (cut b w k) (i - w) buf = unquote_loop (cut b w k) (j - w) (buf @ cut b i j)"
    if "j = find_from is_stop b i" "j \<le> k" for j
  proof -
    have "cut b w k ! m \<noteq> ch_bslash" if m: "i - w \<le> m" "m < j - w" for m
    proof -
      have "\<not> is_stop (b ! (w + m))" using m less.prems(1) \<open>j = find_from is_stop b i\<close> by (intro find_from_before [of i]) simp_all
      then show ?thesis using m \<open>j \<le> k\<close> bd by (simp add: nth_cut)
    qed
    then show ?thesis
      using that bd find_from_ge [OF less.prems(2), of is_stop] cut_cut [OF less.prems(1) that(2), of b]
      by (subst unquote_loop_plain [of "i - w" "j - w"]) simp_all
  qed
  from less.prems(2) show ?case
  proof (cases rule: decode_from_cases)
    case (close j)
    then have "bs = cut b i j" "k = j" using less.prems(3) by simp_all
    then show ?thesis using plain [OF close(1)] bd unquote_loop_end [of "cut b w j" "j - w" "buf @ cut b i j"] by simp
  next
    case (escape j nxt b' r e x' ok)
    then have e: "bs = cut b i j @ b' @ r" "k = e" "ok" using less.prems(3) by simp_all
    have wj: "w \<le> j" "j < k" using escape(2,7,9) e(2) less.prems(1) by simp_all
    have nk: "nxt \<le> k" using escape e by simp
    have "unquote_loop (cut b w k) (j - w) (buf @ cut b i j) = unquote_loop (cut b w k) (nxt - w) (buf @ cut b i j @ b')"
    proof -
      have "cut b w k ! (j - w) = ch_bslash" "j - w < length (cut b w k)" using wj bd escape(4) by (simp_all add: nth_cut)
      moreover have "j - w + 1 = j + 1 - w" using wj(1) by simp
      ultimately show ?thesis
        using unquote_escape_cut [OF _ wj(1) escape(5) nk] bd by (simp add: unquote_loop.simps [of _ "j - w"])
    qed
    also have "\<dots> = Some ((buf @ cut b i j @ b') @ r)"
      using escape e wj less.prems(1) by (intro less.hyps) simp_all
    finally show ?thesis using plain [OF escape(1)] wj(2) e(1) by simp
  qed (use less.prems(3) in auto)
qed

text \<open>The prefix without a backslash is copied before the loop starts.\<close>

lemma unquote_body:
  assumes "2 \<le> length q" "q ! 0 = ch_quote" "q ! (length q - 1) = ch_quote"
  shows "unquote q = unquote_loop (cut q 1 (length q - 1)) 0 []"
proof -
  let ?s = "cut q 1 (length q - 1)"
  define e where "e = find_from (\<lambda>c. c = ch_bslash) ?s 0"
  have el: "e \<le> length ?s" unfolding e_def by (rule find_from_le)
  have "?s ! m \<noteq> ch_bslash" if "m < e" for m using find_from_before [of 0 m "\<lambda>c. c = ch_bslash" ?s] that by (simp add: e_def)
  then have p: "unquote_loop ?s 0 [] = unquote_loop ?s e (take e ?s)"
    using unquote_loop_plain [of 0 e ?s "[]"] el by (simp add: cut_def)
  show ?thesis
  proof (cases "length ?s \<le> e")
    case True
    then have "unquote_loop ?s e (take e ?s) = Some ?s" using unquote_loop_end [OF True] by (simp only: take_all)
    then show ?thesis using p True assms by (simp add: unquote_def e_def)
  next
    case False
    then show ?thesis using p assms by (simp add: unquote_def e_def)
  qed
qed

lemma unquote_scanned:
  assumes "i < length b" "b ! i = ch_quote" "scanString b i = Some e"
  obtains bs x where "decode_from b (i + 1) = (bs, e - 1, x, True)" "unquote (cut b i e) = Some bs"
proof -
  obtain k where k: "ScanString b (i + 1) = (k, True)" "e = k + 1" using assms(3) scanString_eq [OF assms(1)] by blast
  obtain bs k' x ok where d': "decode_from b (i + 1) = (bs, k', x, ok)" by (rule prod_cases4)
  have i1: "i + 1 \<le> length b" using assms(1) by simp
  have d: "decode_from b (i + 1) = (bs, k, x, True)" using ScanString_eq [OF i1 d'] d' k(1) by simp
  note bd = decode_from_bounds [OF i1 d]
  have e: "e \<le> length b" "i + 2 \<le> e" using bd k(2) by simp_all
  have s: "cut (cut b i e) 1 (length (cut b i e) - 1) = cut b (i + 1) k"
    using cut_cut [of i "i + 1" k e b] e k(2) by simp
  have "unquote (cut b i e) = unquote_loop (cut b (i + 1) k) 0 []"
    unfolding s [symmetric]
  proof (rule unquote_body)
    have l: "length (cut b i e) = e - i" using e(1) by simp
    show "2 \<le> length (cut b i e)" unfolding l using e(2) by linarith
    show "cut b i e ! 0 = ch_quote" using nth_cut [of e b 0 i] e assms(2) by simp
    have "i + (e - i - 1) = k" "e - i - 1 < e - i" using e(2) k(2) by simp_all
    then show "cut b i e ! (length (cut b i e) - 1) = ch_quote" using nth_cut [OF e(1), of "e - i - 1" i] bd unfolding l by simp
  qed
  also have "\<dots> = Some bs" using unquote_loop_decodes [OF order_refl i1 d, of "[]"] by simp
  finally show ?thesis using that d k(2) by simp
qed

section \<open>Traversals\<close>

text \<open>A traversal calls its callback on the items of a list, in order, until the callback says stop.\<close>

fun until :: "('a \<Rightarrow> 's \<Rightarrow> bool \<times> 's) \<Rightarrow> 'a list \<Rightarrow> 's \<Rightarrow> 's" where
  "until f [] s = s"
| "until f (x # xs) s = (case f x s of (go, s) \<Rightarrow> if go then until f xs s else s)"

locale visits =
  fixes each :: "('a \<Rightarrow> 's \<Rightarrow> bool \<times> 's) \<Rightarrow> 's \<Rightarrow> 's"
    and visited :: "'a list"
  assumes each_until: "each f s = until f visited s"
begin

lemma each_all: "each (\<lambda>x s. (True, g x s)) s = fold g visited s"
proof -
  have "until (\<lambda>x s. (True, g x s)) xs s = fold g xs s" for xs by (induction xs arbitrary: s) simp_all
  then show ?thesis by (simp add: each_until)
qed

lemma each_count: "each (\<lambda>x s. (True, h s)) s = (h ^^ length visited) s"
proof -
  have "fold (\<lambda>x s. h s) xs s = (h ^^ length xs) s" for xs :: "'a list" by (induction xs arbitrary: s) (simp_all add: funpow_swap1)
  then show ?thesis by (simp add: each_all)
qed

lemma each_find:
  "each (\<lambda>x s. if P x then (False, h x) else (True, s)) s = (case find P visited of None \<Rightarrow> s | Some x \<Rightarrow> h x)"
proof -
  have "until (\<lambda>x s. if P x then (False, h x) else (True, s)) xs s = (case find P xs of None \<Rightarrow> s | Some x \<Rightarrow> h x)" for xs
    by (induction xs) auto
  then show ?thesis by (simp add: each_until)
qed

end

text \<open>The members and the elements a document offers from an offset on, as far as they can be read.\<close>

function raw_members :: "bytes \<Rightarrow> nat \<Rightarrow> (bytes \<times> bytes) list" where
  "raw_members b i =
     (case raw_key b i of
        None \<Rightarrow> []
      | Some (i, keyEnd) \<Rightarrow>
          (case (unquote (cut b i keyEnd), raw_colon b keyEnd) of
             (Some name, Some i) \<Rightarrow>
               (case scanValue b i of
                  None \<Rightarrow> []
                | Some valEnd \<Rightarrow>
                    (name, cut b i valEnd) #
                    (case raw_after b ch_rbrace valEnd of RComma i \<Rightarrow> raw_members b i | _ \<Rightarrow> []))
           | _ \<Rightarrow> []))"
  by pat_completeness auto
termination by (relation "measure (\<lambda>(b, i). length b - i)") (auto dest!: member_dec)

function raw_elements :: "bytes \<Rightarrow> nat \<Rightarrow> bytes list" where
  "raw_elements b i =
     (case scanValue b (skipWS b i) of
        None \<Rightarrow> []
      | Some e \<Rightarrow>
          cut b (skipWS b i) e #
          (case raw_after b ch_rbrack e of RComma i \<Rightarrow> raw_elements b i | _ \<Rightarrow> []))"
  by pat_completeness auto
termination by (relation "measure (\<lambda>(b, i). length b - i)") (auto dest!: element_dec)

declare raw_members.simps [simp del] raw_elements.simps [simp del]

definition members_of :: "bytes \<Rightarrow> (bytes \<times> bytes) list" where
  "members_of b = (case container b ch_lbrace ch_rbrace of None \<Rightarrow> [] | Some i \<Rightarrow> raw_members b i)"

definition elements_of :: "bytes \<Rightarrow> bytes list" where
  "elements_of b = (case container b ch_lbrack ch_rbrack of None \<Rightarrow> [] | Some i \<Rightarrow> raw_elements b i)"

lemma keys_loop_until: "keys_loop b fn i s = until (\<lambda>(k, v). fn k v) (raw_members b i) s"
proof (induction b fn i s rule: keys_loop.induct)
  case (1 b fn i s)
  show ?case
  proof (cases "\<exists>k q name j v. raw_key b i = Some (k, q) \<and> unquote (cut b k q) = Some name \<and> raw_colon b q = Some j \<and> scanValue b j = Some v")
    case True
    then obtain k q name j v where r: "raw_key b i = Some (k, q)" "unquote (cut b k q) = Some name" "raw_colon b q = Some j" "scanValue b j = Some v" by blast
    obtain go s' where g: "fn name (cut b j v) s = (go, s')" by fastforce
    have I: "keys_loop b fn n s' = until (\<lambda>(k, v). fn k v) (raw_members b n) s'" if "go" "raw_after b ch_rbrace v = RComma n" for n
      using that g by (intro "1.IH" [OF r(1) refl r(2,3,4)]) simp_all
    show ?thesis
      unfolding keys_loop.simps [of b fn i s] raw_members.simps [of b i] r option.case prod.case
      using g I by (auto split: raw_next.splits)
  next
    case False
    then show ?thesis
      unfolding keys_loop.simps [of b fn i s] raw_members.simps [of b i] by (auto split: option.splits)
  qed
qed

lemma elems_loop_until: "elems_loop b fn idx i s = until (\<lambda>(k, v). fn k v) (List.enumerate idx (raw_elements b i)) s"
proof (induction b fn idx i s rule: elems_loop.induct)
  case (1 b fn idx i s)
  show ?case
  proof (cases "scanValue b (skipWS b i)")
    case (Some v)
    obtain go s' where g: "fn idx (cut b (skipWS b i) v) s = (go, s')" by fastforce
    have I: "elems_loop b fn (idx + 1) n s' = until (\<lambda>(k, v). fn k v) (List.enumerate (idx + 1) (raw_elements b n)) s'"
      if "go" "raw_after b ch_rbrack v = RComma n" for n
      using that g by (intro "1.IH" [OF Some]) simp_all
    show ?thesis
      unfolding elems_loop.simps [of b fn idx i s] raw_elements.simps [of b i] Some option.case
      using g I by (auto split: raw_next.splits)
  qed (simp add: elems_loop.simps [of b fn idx i s] raw_elements.simps [of b i])
qed

interpretation raw_keys: visits "\<lambda>f. raw_ForEachKey b (\<lambda>k v. f (k, v))" "members_of b" for b
  by unfold_locales (simp add: raw_ForEachKey_def members_of_def keys_loop_until split: option.split)

interpretation raw_elems: visits "\<lambda>f. raw_ForEachElem b (\<lambda>k v. f (k, v))" "List.enumerate 0 (elements_of b)" for b
  by unfold_locales (simp add: raw_ForEachElem_def elements_of_def elems_loop_until split: option.split)

section \<open>Lookups\<close>

lemma keyEqual_eq:
  assumes "raw_key b i = Some (k, q)"
  shows "unquote (cut b k q) \<noteq> None" "keyEqual (cut b k q) name \<longleftrightarrow> unquote (cut b k q) = Some name"
proof -
  have k: "k < length b" "b ! k = ch_quote" "scanString b k = Some q" using assms by (auto simp: raw_key_def split: if_splits)
  obtain bs x where u: "decode_from b (k + 1) = (bs, q - 1, x, True)" "unquote (cut b k q) = Some bs" by (rule unquote_scanned [OF k])
  show "unquote (cut b k q) \<noteq> None" using u by simp
  define c where "c = cut b k q"
  define t where "t = cut c 1 (length c - 1)"
  have "keyEqual c name \<longleftrightarrow> unquote c = Some name"
  proof (cases "length c < 2 \<or> c ! 0 \<noteq> ch_quote \<or> c ! (length c - 1) \<noteq> ch_quote")
    case True
    then have "unquote c = None" by (simp only: unquote_def if_True)
    then show ?thesis using u(2) by (simp add: c_def)
  next
    case no: False
    note K = keyEqual_def [of c name, unfolded Let_def t_def [symmetric], unfolded if_not_P [OF no]]
    note U = unquote_def [of c, unfolded Let_def t_def [symmetric], unfolded if_not_P [OF no]]
    show ?thesis
    proof (cases "ch_bslash \<in> set t")
      case True
      then show ?thesis unfolding K by simp
    next
      case False
      have "find_from (\<lambda>c. c = ch_bslash) t 0 = length t"
      proof (rule ccontr)
        assume "find_from (\<lambda>c. c = ch_bslash) t 0 \<noteq> length t"
        then have l: "find_from (\<lambda>c. c = ch_bslash) t 0 < length t" using find_from_le [of "\<lambda>c. c = ch_bslash" t 0] by linarith
        then have "t ! find_from (\<lambda>c. c = ch_bslash) t 0 = ch_bslash" by (rule find_from_found)
        then show False using False nth_mem [OF l] by simp
      qed
      then have "unquote c = Some t" unfolding U by simp
      moreover have "keyEqual c name \<longleftrightarrow> t = name"
        unfolding K if_not_P [OF False] list_all_iff set_upt by (metis atLeastLessThan_iff le0 nth_equalityI)
      ultimately show ?thesis by simp
    qed
  qed
  then show "keyEqual (cut b k q) name \<longleftrightarrow> unquote (cut b k q) = Some name" by (simp only: c_def)
qed

lemma field_loop_find: "field_loop b name i = map_of (raw_members b i) name"
proof (induction b name i rule: field_loop.induct)
  case (1 b name i)
  show ?case
  proof (cases "raw_key b i")
    case None
    then show ?thesis by (simp add: field_loop.simps [of b name i] raw_members.simps [of b i])
  next
    case (Some kq)
    then obtain k q where r: "raw_key b i = Some (k, q)" by (cases kq) simp
    note e = keyEqual_eq [OF r]
    obtain n where n: "unquote (cut b k q) = Some n" using e(1) by blast
    show ?thesis
    proof (cases "\<exists>j v. raw_colon b q = Some j \<and> scanValue b j = Some v")
      case True
      then obtain j v where jv: "raw_colon b q = Some j" "scanValue b j = Some v" by blast
      have I: "field_loop b name m = map_of (raw_members b m) name" if "n \<noteq> name" "raw_after b ch_rbrace v = RComma m" for m
        using that e(2) n by (intro "1.IH" [OF r refl _ jv]) simp_all
      show ?thesis
        unfolding field_loop.simps [of b name i] raw_members.simps [of b i] r option.case prod.case e(2) n jv
        using I by (auto split: raw_next.splits)
    next
      case False
      then show ?thesis unfolding field_loop.simps [of b name i] raw_members.simps [of b i] r option.case prod.case n
        by (auto split: option.splits)
    qed
  qed
qed

lemma raw_field_find: "raw_field b name = map_of (members_of b) name"
  by (simp add: raw_field_def members_of_def field_loop_find split: option.split)

lemma raw_Len_length: "raw_Len b = (case raw_Type b of KindArray \<Rightarrow> length (elements_of b) | KindObject \<Rightarrow> length (members_of b) | _ \<Rightarrow> 0)"
proof -
  have "(Suc ^^ n) 0 = n" for n by (induction n) simp_all
  then have "raw_ForEachElem b (\<lambda>_ _ n. (True, Suc n)) 0 = length (elements_of b)" "raw_ForEachKey b (\<lambda>_ _ n. (True, Suc n)) 0 = length (members_of b)"
    using raw_elems.each_count [of b Suc 0] raw_keys.each_count [of b Suc 0] by simp_all
  then show ?thesis by (simp add: raw_Len_def split: Kind.split)
qed

lemma find_enumerate: "find (\<lambda>x. fst x = i) (List.enumerate n xs) = (if n \<le> i \<and> i < n + length xs then Some (i, xs ! (i - n)) else None)"
proof (induction xs arbitrary: n)
  case (Cons x xs)
  then show ?case by (cases "n = i") (auto simp: nth_Cons' Suc_diff_Suc)
qed simp

lemma raw_Index_nth:
  "raw_Index b i =
    (let j = (if i < 0 then i + int (raw_Len b) else i) in
     if 0 \<le> j \<and> nat j < length (elements_of b) then Some (elements_of b ! nat j) else None)"
proof -
  define j where "j = (if i < 0 then i + int (raw_Len b) else i)"
  have I: "raw_Index b i = (if j < 0 then None else raw_ForEachElem b (\<lambda>idx v out. if int idx = j then (False, Some v) else (True, out)) None)"
    unfolding raw_Index_def Let_def j_def by simp
  show ?thesis
  proof (cases "j < 0")
    case False
    then have "int idx = j \<longleftrightarrow> idx = nat j" for idx by auto
    then have "raw_Index b i = raw_ForEachElem b (\<lambda>idx v out. if idx = nat j then (False, Some v) else (True, out)) None"
      using I False by simp
    also have "\<dots> = (case find (\<lambda>x. fst x = nat j) (List.enumerate 0 (elements_of b)) of None \<Rightarrow> None | Some x \<Rightarrow> Some (snd x))"
      using raw_elems.each_find [of b "\<lambda>x. fst x = nat j" "\<lambda>x. Some (snd x)" None] by (simp only: fst_conv snd_conv)
    finally show ?thesis using False by (simp add: find_enumerate flip: j_def)
  qed (simp add: I flip: j_def)
qed

text \<open>The visited items, collected by a callback.\<close>

lemma collect_keys: "raw_ForEachKey b (\<lambda>k v acc. (True, (k, v) # acc)) [] = rev (members_of b)"
  using raw_keys.each_all [of b "\<lambda>x acc. x # acc" "[]"] by (simp add: fold_Cons_rev)

lemma fold_enumerate: "fold (\<lambda>(k, v) acc. v # acc) (List.enumerate n xs) acc = rev xs @ acc"
  by (induction xs arbitrary: n acc) simp_all

lemma collect_elems: "raw_ForEachElem b (\<lambda>_ v acc. (True, v # acc)) [] = rev (elements_of b)"
  using raw_elems.each_all [of b "\<lambda>(k, v) acc. v # acc" "[]"] by (simp add: fold_enumerate)

lemma elements_kind: "elements_of b \<noteq> [] \<Longrightarrow> raw_Type b = KindArray"
  by (auto simp: elements_of_def container_def raw_Type_def split: option.splits if_splits)

lemma raw_Str_iff:
  "raw_Str b = Some bs \<longleftrightarrow>
     raw_Valid b \<and> raw_Type b = KindString \<and> (\<exists>e x. decode_from b (skipWS b 0 + 1) = (bs, e, x, True))"
proof (cases "skipWS b 0 < length b \<and> b ! skipWS b 0 = ch_quote")
  case True
  let ?i = "skipWS b 0"
  have t: "raw_Type b = KindString" using True by (simp add: raw_Type_def)
  have v: "raw_Valid b \<longleftrightarrow> (case scanString b ?i of None \<Rightarrow> False | Some e \<Rightarrow> skipWS b e = length b)"
    using True by (simp add: raw_Valid_def scanValue.simps [of b ?i])
  show ?thesis
  proof (cases "scanString b ?i")
    case (Some e)
    obtain cs x where d: "decode_from b (?i + 1) = (cs, e - 1, x, True)" "unquote (cut b ?i e) = Some cs"
      using unquote_scanned [OF _ _ Some] True by blast
    then show ?thesis using Some True t v by (auto simp: raw_Str_def)
  qed (use True t v in \<open>simp add: raw_Str_def\<close>)
next
  case False
  then show ?thesis by (auto simp: raw_Str_def raw_Type_def)
qed

section \<open>Claims\<close>

text \<open>
  Claim C33. \<open>Valid\<close> of a byte-backed value, a recursive scanner over raw bytes, accepts exactly the texts
  the grammar derives whose strings hold no raw control byte, that is whose quotes pass the decoder's
  word-at-a-time \<open>Check\<close> under \<open>ScanCtl\<close>; nesting is not limited.
\<close>

theorem raw_Valid_grammar: "raw_Valid b \<longleftrightarrow> (\<exists>d. json_text b d) \<and> Check b ScanCtl"
  by (rule raw_Valid_iff)

text \<open>
  Claim C34. \<open>Str\<close> returns a string exactly on the valid texts of kind string, and then the bytes are the
  ones the decoder's string lexer produces for the same body, escapes and surrogate pairs included: the
  two independent unescapers of the library agree.
\<close>

theorem raw_Str_decodes:
  "raw_Str b = Some bs \<longleftrightarrow>
     raw_Valid b \<and> raw_Type b = KindString \<and> (\<exists>e x. decode_from b (skipWS b 0 + 1) = (bs, e, x, True))"
  by (rule raw_Str_iff)

text \<open>
  Claim C35. \<open>field\<close>, which compares raw keys without decoding them, finds the value of the first member
  with that decoded key among the members \<open>ForEachKey\<close> visits, on every input, also one that breaks off in
  a syntax error; \<open>Len\<close> counts the visited members or elements and is 0 for every other kind.
\<close>

theorem raw_field_first:
  "raw_field b name = map_of (rev (raw_ForEachKey b (\<lambda>k v acc. (True, (k, v) # acc)) [])) name \<and>
   raw_Len b = (case raw_Type b of
       KindArray \<Rightarrow> length (raw_ForEachElem b (\<lambda>_ v acc. (True, v # acc)) [])
     | KindObject \<Rightarrow> length (raw_ForEachKey b (\<lambda>k v acc. (True, (k, v) # acc)) [])
     | _ \<Rightarrow> 0)"
  by (simp add: raw_field_find collect_keys collect_elems raw_Len_length split: Kind.split)

text \<open>
  \<open>Index\<close> returns the element at the position, counted from the end when negative, of the list
  of elements \<open>ForEachElem\<close> visits, and nil for a position outside it or a value that is no array.
\<close>

theorem raw_Index_element:
  "raw_Index b i =
    (let xs = rev (raw_ForEachElem b (\<lambda>_ v acc. (True, v # acc)) []); j = (if i < 0 then i + int (length xs) else i) in
     if 0 \<le> j \<and> nat j < length xs then Some (xs ! nat j) else None)"
proof (cases "elements_of b = []")
  case True
  then show ?thesis by (simp add: raw_Index_nth collect_elems)
next
  case False
  then have "raw_Len b = length (elements_of b)" using elements_kind by (simp add: raw_Len_length)
  then show ?thesis by (simp only: raw_Index_nth collect_elems rev_rev_ident Let_def)
qed

end
