(* ===== verification/TapeValue.thy ===== *)
theory TapeValue
  imports Raw_Lookup Float64 "HOL-Library.Monad_Syntax"
begin

text \<open>
  The tape-backed values: the descriptors of \<^verbatim>\<open>internal/valueabi/value.go\<close> and the accessors of
  \<^verbatim>\<open>value/value.go\<close>. A descriptor selects one value of a tape; the accessors read the tape and the arenas
  without bounds checks, so every read here is an option, \<open>None\<close> standing for a read outside the
  buffer. The loops of the accessors follow offsets found on the tape and may not end on a malformed
  one; they are partial functions, whose \<open>None\<close> also stands for that.
\<close>

section \<open>Descriptors\<close>

definition TagStrRaw :: byte where "TagStrRaw = 0x52"
definition TagStrFree :: byte where "TagStrFree = 0x53"
definition TagInt64 :: byte where "TagInt64 = 0x6C"
definition TagUint64 :: byte where "TagUint64 = 0x75"
definition TagDouble :: byte where "TagDouble = 0x64"
definition TagNumRaw :: byte where "TagNumRaw = 0x44"

lemmas tag_defs = TagStrRaw_def TagStrFree_def TagInt64_def TagUint64_def TagDouble_def TagNumRaw_def

definition SeamMask :: u64 where "SeamMask = 0x7FFFFFFF"
definition PayloadMask :: u64 where "PayloadMask = 0x00FFFFFFFFFFFFFF"
definition ViewShiftMask :: u32 where "ViewShiftMask = 0x1F"
definition ModeCountAtClose :: u32 where "ModeCountAtClose = push_bit 8 1"

record Doc =
  doc_tape :: "u64 list"
  doc_arena :: bytes
  doc_src :: bytes
  doc_zc :: bool

record Descriptor =
  dsc_doc :: "Doc option"
  dsc_base :: nat
  dsc_tidx :: nat
  dsc_end :: nat
  dsc_mode :: u32

definition HasTape :: "Descriptor \<Rightarrow> bool" where
  "HasTape d \<longleftrightarrow> (case dsc_doc d of None \<Rightarrow> False | Some c \<Rightarrow> 0 < length (doc_tape c))"

definition WordAt :: "Descriptor \<Rightarrow> nat \<Rightarrow> u64 option" where
  "WordAt d i =
     (case dsc_doc d of
        None \<Rightarrow> None
      | Some c \<Rightarrow> if dsc_base d + i < length (doc_tape c) then Some (doc_tape c ! (dsc_base d + i)) else None)"

definition TagAt :: "Descriptor \<Rightarrow> nat \<Rightarrow> byte option" where
  "TagAt d i = map_option (\<lambda>w. ucast (drop_bit 56 w)) (WordAt d i)"

definition PayloadAt :: "Descriptor \<Rightarrow> nat \<Rightarrow> u64 option" where
  "PayloadAt d i = map_option (\<lambda>w. w AND PayloadMask) (WordAt d i)"

definition IsSeam :: "u64 \<Rightarrow> bool" where
  "IsSeam w \<longleftrightarrow> sint w < 0"

definition IsStringTag :: "byte \<Rightarrow> bool" where
  "IsStringTag c \<longleftrightarrow> c = ch_quote \<or> c = TagStrRaw \<or> c = TagStrFree"

definition ContainerEnd :: "Descriptor \<Rightarrow> nat \<Rightarrow> nat option" where
  "ContainerEnd d i = map_option (\<lambda>w. unat (w AND 0xFFFFFFFF)) (WordAt d i)"

definition count24 :: "u64 \<Rightarrow> nat" where
  "count24 w = unat (drop_bit 32 w AND 0xFFFFFF)"

definition ContainerCount :: "Descriptor \<Rightarrow> nat \<Rightarrow> nat option" where
  "ContainerCount d i =
     (if dsc_mode d AND ModeCountAtClose \<noteq> 0 \<and> i = 0 then do {
        cl \<leftarrow> ContainerEnd d i;
        w \<leftarrow> WordAt d cl;
        Some (count24 w)
      } else map_option count24 (WordAt d i))"

definition seam_distance :: "Descriptor \<Rightarrow> u64 \<Rightarrow> nat" where
  "seam_distance d w =
     (let shift = unat (dsc_mode d AND ViewShiftMask); n = unat (drop_bit shift w AND SeamMask) in
      if n = 0 then 1 else n)"

lemma seam_distance_pos: "0 < seam_distance d w"
  by (simp add: seam_distance_def)

lemma WordAt_range: "WordAt d i = Some w \<Longrightarrow> \<exists>c. dsc_doc d = Some c \<and> dsc_base d + i < length (doc_tape c)"
  by (auto simp: WordAt_def split: option.splits if_splits)

function SkipSeams :: "Descriptor \<Rightarrow> nat \<Rightarrow> nat option" where
  "SkipSeams d i =
     (case WordAt d i of
        None \<Rightarrow> None
      | Some w \<Rightarrow> if IsSeam w then SkipSeams d (i + seam_distance d w) else Some i)"
  by pat_completeness auto
termination
proof (relation "measure (\<lambda>(d, i). case dsc_doc d of None \<Rightarrow> 0 | Some c \<Rightarrow> length (doc_tape c) - (dsc_base d + i))", goal_cases)
  case (2 d i w)
  obtain c where "dsc_doc d = Some c" "dsc_base d + i < length (doc_tape c)" using WordAt_range [OF 2(1)] by blast
  then show ?case using seam_distance_pos [of d w] by simp
qed simp

declare SkipSeams.simps [simp del]

definition ValueEnd :: "Descriptor \<Rightarrow> nat \<Rightarrow> nat option" where
  "ValueEnd d i = do {
     t \<leftarrow> TagAt d i;
     if t = ch_lbrack \<or> t = ch_lbrace then map_option (\<lambda>e. e + 1) (ContainerEnd d i)
     else if t = TagInt64 \<or> t = TagUint64 \<or> t = TagDouble then Some (i + 2)
     else Some (i + 1)
   }"

definition Skip :: "Descriptor \<Rightarrow> nat \<Rightarrow> nat option" where
  "Skip d i = do { i \<leftarrow> SkipSeams d i; e \<leftarrow> ValueEnd d i; SkipSeams d e }"

definition Extent :: "Descriptor \<Rightarrow> (nat \<times> nat) option" where
  "Extent d =
     (if \<not> HasTape d then Some (0, 0)
      else do { root \<leftarrow> SkipSeams d (dsc_tidx d); e \<leftarrow> ValueEnd d root; Some (root, e) })"

text \<open>Strings: the offset and length packed in a word, and the bytes they name.\<close>

definition span :: "Descriptor \<Rightarrow> nat \<Rightarrow> (nat \<times> nat) option" where
  "span d i = map_option (\<lambda>p. (unat (p AND 0xFFFFFFFF), unat (drop_bit 32 p AND 0xFFFFFF))) (PayloadAt d i)"

definition arenaRange :: "bytes \<Rightarrow> nat \<Rightarrow> nat \<Rightarrow> bytes option" where
  "arenaRange arena p n = (if p + n \<le> length arena then Some (cut arena p (p + n)) else None)"

definition StringAt :: "Descriptor \<Rightarrow> nat \<Rightarrow> bytes option" where
  "StringAt d i = do { c \<leftarrow> dsc_doc d; (p, n) \<leftarrow> span d i; arenaRange (doc_arena c) p n }"

definition NumRawAt :: "Descriptor \<Rightarrow> nat \<Rightarrow> bytes option" where
  "NumRawAt d i = StringAt d i"

definition RawStringAt :: "Descriptor \<Rightarrow> nat \<Rightarrow> bytes option" where
  "RawStringAt d i = do { c \<leftarrow> dsc_doc d; (p, n) \<leftarrow> span d i; arenaRange (doc_src c) p n }"

definition ScalarStringAt :: "Descriptor \<Rightarrow> nat \<Rightarrow> bytes option" where
  "ScalarStringAt d i = do { t \<leftarrow> TagAt d i; if t = TagStrRaw then RawStringAt d i else StringAt d i }"

text \<open>Numbers are the word after the tag; as \<^verbatim>\<open>int64\<close>, \<^verbatim>\<open>uint64\<close> or \<^verbatim>\<open>float64\<close> it is the same 64 bits.\<close>

definition Int64At :: "Descriptor \<Rightarrow> nat \<Rightarrow> int option" where
  "Int64At d i = map_option sint (WordAt d (i + 1))"

definition Uint64At :: "Descriptor \<Rightarrow> nat \<Rightarrow> u64 option" where
  "Uint64At d i = WordAt d (i + 1)"

definition DoubleAt :: "Descriptor \<Rightarrow> nat \<Rightarrow> u64 option" where
  "DoubleAt d i = WordAt d (i + 1)"

section \<open>Accessors\<close>

definition tagToKind :: "byte \<Rightarrow> Kind" where
  "tagToKind t =
     (if IsStringTag t then KindString
      else if t = ch_n then KindNull
      else if t = ch_t \<or> t = ch_f then KindBool
      else if t = TagInt64 \<or> t = TagUint64 \<or> t = TagDouble \<or> t = TagNumRaw then KindNumber
      else if t = ch_lbrack then KindArray
      else if t = ch_lbrace then KindObject
      else KindInvalid)"

definition Value_Exists :: "Descriptor \<Rightarrow> bool" where
  "Value_Exists v \<longleftrightarrow> HasTape v"

definition Value_Valid :: "Descriptor \<Rightarrow> bool" where
  "Value_Valid v \<longleftrightarrow> HasTape v"

definition Value_Type :: "Descriptor \<Rightarrow> Kind option" where
  "Value_Type v = (if \<not> HasTape v then Some KindInvalid else map_option tagToKind (TagAt v (dsc_tidx v)))"

definition Value_Len :: "Descriptor \<Rightarrow> nat option" where
  "Value_Len v =
     (if \<not> HasTape v then Some 0
      else do {
        let i = dsc_tidx v;
        t \<leftarrow> TagAt v i;
        if t = ch_lbrack \<or> t = ch_lbrace then ContainerCount v i else Some 0
      })"

text \<open>The second result of the Go accessor is the inner option.\<close>

definition Value_Str :: "Descriptor \<Rightarrow> bytes option option" where
  "Value_Str v =
     (if \<not> HasTape v then Some None
      else do {
        let i = dsc_tidx v;
        t \<leftarrow> TagAt v i;
        if \<not> IsStringTag t then Some None else map_option Some (ScalarStringAt v i)
      })"

definition Value_Bool :: "Descriptor \<Rightarrow> bool option option" where
  "Value_Bool v =
     (if \<not> HasTape v then Some None
      else do {
        t \<leftarrow> TagAt v (dsc_tidx v);
        Some (if t = ch_t then Some True else if t = ch_f then Some False else None)
      })"

definition Value_IsNull :: "Descriptor \<Rightarrow> bool option" where
  "Value_IsNull v = (if \<not> HasTape v then Some False else map_option (\<lambda>t. t = ch_n) (TagAt v (dsc_tidx v)))"

definition child :: "Descriptor \<Rightarrow> nat \<Rightarrow> Descriptor" where
  "child v i = v\<lparr>dsc_tidx := i\<rparr>"

text \<open>The zero \<^verbatim>\<open>Value\<close>.\<close>

definition no_value :: Descriptor where
  "no_value = \<lparr>dsc_doc = None, dsc_base = 0, dsc_tidx = 0, dsc_end = 0, dsc_mode = 0\<rparr>"

partial_function (option) field_scan :: "Descriptor \<Rightarrow> bytes \<Rightarrow> nat \<Rightarrow> nat \<Rightarrow> Descriptor option option" where
  "field_scan v name en cur =
     (if cur < en then do {
        k \<leftarrow> ScalarStringAt v cur;
        if k = name then Some (Some (child v (cur + 1)))
        else do { cur \<leftarrow> Skip v (cur + 1); field_scan v name en cur }
      } else Some None)"

definition Value_field :: "Descriptor \<Rightarrow> bytes \<Rightarrow> Descriptor option option" where
  "Value_field v name = do {
     let i = dsc_tidx v;
     t \<leftarrow> TagAt v i;
     if t \<noteq> ch_lbrace then Some None
     else do { en \<leftarrow> ContainerEnd v i; cur \<leftarrow> SkipSeams v (i + 1); field_scan v name en cur }
   }"

fun Value_Get :: "Descriptor \<Rightarrow> bytes list \<Rightarrow> Descriptor option" where
  "Value_Get cur [] = Some cur"
| "Value_Get cur (k # keys) =
     (if \<not> HasTape cur then Some no_value
      else do {
        r \<leftarrow> Value_field cur k;
        (case r of None \<Rightarrow> Some no_value | Some nxt \<Rightarrow> Value_Get nxt keys)
      })"

partial_function (option) index_scan :: "Descriptor \<Rightarrow> int \<Rightarrow> nat \<Rightarrow> int \<Rightarrow> nat \<Rightarrow> Descriptor option" where
  "index_scan v i en index cur =
     (if cur < en then
        (if index = i then Some (child v cur)
         else do { cur \<leftarrow> Skip v cur; index_scan v i en (index + 1) cur })
      else Some no_value)"

definition Value_Index :: "Descriptor \<Rightarrow> int \<Rightarrow> Descriptor option" where
  "Value_Index v i =
     (if \<not> HasTape v then Some no_value
      else do {
        i \<leftarrow> (if i < 0 then map_option (\<lambda>n. i + int n) (Value_Len v) else Some i);
        if i < 0 then Some no_value
        else do {
          let root = dsc_tidx v;
          t \<leftarrow> TagAt v root;
          if t \<noteq> ch_lbrack then Some no_value
          else do { en \<leftarrow> ContainerEnd v root; cur \<leftarrow> SkipSeams v (root + 1); index_scan v i en 0 cur }
        }
      })"

partial_function (option) each_member :: "Descriptor \<Rightarrow> (bytes \<Rightarrow> Descriptor \<Rightarrow> 's \<Rightarrow> bool \<times> 's) \<Rightarrow> nat \<Rightarrow> nat \<Rightarrow> 's \<Rightarrow> 's option" where
  "each_member v fn en cur s =
     (if cur < en then do {
        k \<leftarrow> ScalarStringAt v cur;
        let i = cur + 1;
        (case fn k (child v i) s of
           (go, s) \<Rightarrow> if \<not> go then Some s else do { cur \<leftarrow> Skip v i; each_member v fn en cur s })
      } else Some s)"

definition Value_ForEachKey :: "Descriptor \<Rightarrow> (bytes \<Rightarrow> Descriptor \<Rightarrow> 's \<Rightarrow> bool \<times> 's) \<Rightarrow> 's \<Rightarrow> 's option" where
  "Value_ForEachKey v fn s =
     (if \<not> HasTape v then Some s
      else do {
        let root = dsc_tidx v;
        t \<leftarrow> TagAt v root;
        if t \<noteq> ch_lbrace then Some s
        else do { en \<leftarrow> ContainerEnd v root; cur \<leftarrow> SkipSeams v (root + 1); each_member v fn en cur s }
      })"

partial_function (option) each_elem :: "Descriptor \<Rightarrow> (nat \<Rightarrow> Descriptor \<Rightarrow> 's \<Rightarrow> bool \<times> 's) \<Rightarrow> nat \<Rightarrow> nat \<Rightarrow> nat \<Rightarrow> 's \<Rightarrow> 's option" where
  "each_elem v fn en index cur s =
     (if cur < en then
        (case fn index (child v cur) s of
           (go, s) \<Rightarrow> if \<not> go then Some s else do { cur \<leftarrow> Skip v cur; each_elem v fn en (index + 1) cur s })
      else Some s)"

definition Value_ForEachElem :: "Descriptor \<Rightarrow> (nat \<Rightarrow> Descriptor \<Rightarrow> 's \<Rightarrow> bool \<times> 's) \<Rightarrow> 's \<Rightarrow> 's option" where
  "Value_ForEachElem v fn s =
     (if \<not> HasTape v then Some s
      else do {
        let root = dsc_tidx v;
        t \<leftarrow> TagAt v root;
        if t \<noteq> ch_lbrack then Some s
        else do { en \<leftarrow> ContainerEnd v root; cur \<leftarrow> SkipSeams v (root + 1); each_elem v fn en 0 cur s }
      })"

definition Value_GetString :: "Descriptor \<Rightarrow> bytes list \<Rightarrow> bytes option option" where
  "Value_GetString v keys = do { cur \<leftarrow> Value_Get v keys; Value_Str cur }"

definition Value_GetBool :: "Descriptor \<Rightarrow> bytes list \<Rightarrow> bool option option" where
  "Value_GetBool v keys = do { cur \<leftarrow> Value_Get v keys; Value_Bool cur }"

section \<open>The value a tape holds\<close>

text \<open>
  \<open>stores d i v\<close>: the words at \<open>i\<close> hold the JSON tree \<open>v\<close>, in the seam view of \<open>d\<close>. A string keeps its
  tag, a number its 64 bits or its digits; the count of a container saturates at 24 bits.
\<close>

datatype node =
    NNull | NBool bool | NInt u64 | NUint u64 | NDouble u64 | NNum bytes | NStr byte bytes
  | NArr "node list" | NObj "(bytes \<times> node) list"

definition inside :: "Descriptor \<Rightarrow> nat \<Rightarrow> (nat \<times> nat) option" where
  "inside d i = do { en \<leftarrow> ContainerEnd d i; cur \<leftarrow> SkipSeams d (i + 1); Some (en, cur) }"

fun stores :: "Descriptor \<Rightarrow> nat \<Rightarrow> node \<Rightarrow> bool"
  and stores_elems :: "Descriptor \<Rightarrow> nat \<Rightarrow> nat \<Rightarrow> node list \<Rightarrow> bool"
  and stores_members :: "Descriptor \<Rightarrow> nat \<Rightarrow> nat \<Rightarrow> (bytes \<times> node) list \<Rightarrow> bool" where
  "stores d i NNull \<longleftrightarrow> TagAt d i = Some ch_n"
| "stores d i (NBool b) \<longleftrightarrow> TagAt d i = Some (if b then ch_t else ch_f)"
| "stores d i (NInt w) \<longleftrightarrow> TagAt d i = Some TagInt64 \<and> WordAt d (i + 1) = Some w"
| "stores d i (NUint w) \<longleftrightarrow> TagAt d i = Some TagUint64 \<and> WordAt d (i + 1) = Some w"
| "stores d i (NDouble w) \<longleftrightarrow> TagAt d i = Some TagDouble \<and> WordAt d (i + 1) = Some w"
| "stores d i (NNum t) \<longleftrightarrow> TagAt d i = Some TagNumRaw \<and> NumRawAt d i = Some t"
| "stores d i (NStr t s) \<longleftrightarrow> IsStringTag t \<and> TagAt d i = Some t \<and> ScalarStringAt d i = Some s"
| "stores d i (NArr xs) \<longleftrightarrow> TagAt d i = Some ch_lbrack \<and> ContainerCount d i = Some (min (length xs) 0xFFFFFF) \<and>
     (case inside d i of None \<Rightarrow> False | Some (en, cur) \<Rightarrow> stores_elems d en cur xs)"
| "stores d i (NObj ms) \<longleftrightarrow> TagAt d i = Some ch_lbrace \<and> ContainerCount d i = Some (min (length ms) 0xFFFFFF) \<and>
     (case inside d i of None \<Rightarrow> False | Some (en, cur) \<Rightarrow> stores_members d en cur ms)"
| "stores_elems d en cur [] \<longleftrightarrow> en \<le> cur"
| "stores_elems d en cur (x # xs) \<longleftrightarrow> cur < en \<and> stores d cur x \<and>
     (case Skip d cur of None \<Rightarrow> False | Some c \<Rightarrow> stores_elems d en c xs)"
| "stores_members d en cur [] \<longleftrightarrow> en \<le> cur"
| "stores_members d en cur ((k, x) # ms) \<longleftrightarrow> cur < en \<and> ScalarStringAt d cur = Some k \<and> stores d (cur + 1) x \<and>
     (case Skip d (cur + 1) of None \<Rightarrow> False | Some c \<Rightarrow> stores_members d en c ms)"

fun node_kind :: "node \<Rightarrow> Kind" where
  "node_kind NNull = KindNull"
| "node_kind (NBool b) = KindBool"
| "node_kind (NStr t s) = KindString"
| "node_kind (NArr xs) = KindArray"
| "node_kind (NObj ms) = KindObject"
| "node_kind _ = KindNumber"

fun node_get :: "node \<Rightarrow> bytes list \<Rightarrow> node option" where
  "node_get v [] = Some v"
| "node_get (NObj ms) (k # keys) = (case map_of ms k of None \<Rightarrow> None | Some v \<Rightarrow> node_get v keys)"
| "node_get _ (k # keys) = None"

section \<open>Children see the same words\<close>

lemma child_fields [simp]: "dsc_doc (child d j) = dsc_doc d" "dsc_tidx (child d j) = j" "dsc_mode (child d j) = dsc_mode d"
  "dsc_base (child d j) = dsc_base d" "child (child d j) i = child d i" "HasTape (child d j) = HasTape d"
  by (simp_all add: child_def HasTape_def)

lemma WordAt_child [simp]: "WordAt (child d j) i = WordAt d i"
  unfolding WordAt_def child_fields ..

lemma seam_distance_child [simp]: "seam_distance (child d j) = seam_distance d"
  by (simp add: seam_distance_def fun_eq_iff)

lemma TagAt_child [simp]: "TagAt (child d j) i = TagAt d i"
  by (simp add: TagAt_def)

lemma ContainerEnd_child [simp]: "ContainerEnd (child d j) i = ContainerEnd d i"
  by (simp add: ContainerEnd_def)

lemma ContainerCount_child [simp]: "ContainerCount (child d j) i = ContainerCount d i"
  by (simp add: ContainerCount_def)

lemma SkipSeams_child [simp]: "SkipSeams (child d j) i = SkipSeams d i"
proof (induction d i rule: SkipSeams.induct)
  case (1 d i)
  then show ?case by (simp add: SkipSeams.simps [of _ i] split: option.split)
qed

lemma ValueEnd_child [simp]: "ValueEnd (child d j) i = ValueEnd d i"
  by (simp add: ValueEnd_def cong: if_cong)

lemma Skip_child [simp]: "Skip (child d j) i = Skip d i"
  by (simp add: Skip_def)

lemma ScalarStringAt_child [simp]: "ScalarStringAt (child d j) i = ScalarStringAt d i" "NumRawAt (child d j) i = NumRawAt d i"
  by (simp_all add: ScalarStringAt_def NumRawAt_def RawStringAt_def StringAt_def span_def PayloadAt_def cong: if_cong)

lemma inside_child [simp]: "inside (child d j) i = inside d i"
  by (simp add: inside_def)

lemma stores_child [simp]:
  "stores (child d j) i v = stores d i v"
  "stores_elems (child d j) en cur xs = stores_elems d en cur xs"
  "stores_members (child d j) en cur ms = stores_members d en cur ms"
  by (induction d i v and d en cur xs and d en cur ms rule: stores_stores_elems_stores_members.induct)
    (auto split: option.splits)

lemma IsStringTag_cases: "IsStringTag ch_quote" "IsStringTag TagStrRaw" "IsStringTag TagStrFree"
  "\<not> IsStringTag ch_n" "\<not> IsStringTag ch_t" "\<not> IsStringTag ch_f" "\<not> IsStringTag TagInt64" "\<not> IsStringTag TagUint64"
  "\<not> IsStringTag TagDouble" "\<not> IsStringTag TagNumRaw" "\<not> IsStringTag ch_lbrack" "\<not> IsStringTag ch_lbrace"
  by (simp_all add: IsStringTag_def tag_defs)

section \<open>The accessors read the tree\<close>

abbreviation stores_value :: "Descriptor \<Rightarrow> node \<Rightarrow> bool" where
  "stores_value d v \<equiv> HasTape d \<and> stores d (dsc_tidx d) v"

lemma Type_stored: "stores_value d v \<Longrightarrow> Value_Type d = Some (node_kind v)"
  by (cases v) (auto simp: Value_Type_def tagToKind_def IsStringTag_cases, simp_all add: tag_defs)

lemma Len_stored: "stores_value d v \<Longrightarrow>
    Value_Len d = Some (case v of NArr xs \<Rightarrow> min (length xs) 0xFFFFFF | NObj ms \<Rightarrow> min (length ms) 0xFFFFFF | _ \<Rightarrow> 0)"
  by (cases v) (auto simp: Value_Len_def IsStringTag_def tag_defs)

lemma Str_stored: "stores_value d v \<Longrightarrow> Value_Str d = Some (case v of NStr t s \<Rightarrow> Some s | _ \<Rightarrow> None)"
  by (cases v) (auto simp: Value_Str_def IsStringTag_def tag_defs)

lemma Bool_stored: "stores_value d v \<Longrightarrow> Value_Bool d = Some (case v of NBool b \<Rightarrow> Some b | _ \<Rightarrow> None)"
  by (cases v) (auto simp: Value_Bool_def IsStringTag_def tag_defs)

lemma IsNull_stored: "stores_value d v \<Longrightarrow> Value_IsNull d = Some (v = NNull)"
  by (cases v) (auto simp: Value_IsNull_def IsStringTag_def tag_defs)

lemma field_scan_stored:
  "stores_members d en cur ms \<Longrightarrow>
   (case map_of ms name of
      None \<Rightarrow> field_scan d name en cur = Some None
    | Some x \<Rightarrow> \<exists>j. field_scan d name en cur = Some (Some (child d j)) \<and> stores d j x)"
proof (induction ms arbitrary: cur)
  case Nil
  then show ?case by (simp add: field_scan.simps [of d name en cur])
next
  case (Cons m ms)
  obtain k x where m: "m = (k, x)" by fastforce
  obtain c where c: "cur < en" "ScalarStringAt d cur = Some k" "stores d (cur + 1) x" "Skip d (cur + 1) = Some c" "stores_members d en c ms"
    using Cons.prems unfolding m by (auto split: option.splits)
  show ?case
  proof (cases "k = name")
    case True
    then show ?thesis using c m by (auto simp: field_scan.simps [of d name en cur])
  next
    case False
    then have "field_scan d name en cur = field_scan d name en c" using c by (simp add: field_scan.simps [of d name en cur])
    then show ?thesis using Cons.IH [OF c(5)] False m by (simp cong: option.case_cong)
  qed
qed

lemma field_stored:
  assumes "stores_value d (NObj ms)"
  shows "case map_of ms name of
      None \<Rightarrow> Value_field d name = Some None
    | Some x \<Rightarrow> \<exists>j. Value_field d name = Some (Some (child d j)) \<and> stores d j x"
proof -
  obtain en cur where i: "ContainerEnd d (dsc_tidx d) = Some en" "SkipSeams d (dsc_tidx d + 1) = Some cur" "stores_members d en cur ms"
    using assms by (auto simp: inside_def bind_eq_Some_conv split: option.splits)
  then have "Value_field d name = field_scan d name en cur" using assms by (simp add: Value_field_def)
  then show ?thesis using field_scan_stored [OF i(3), of name] by (simp cong: option.case_cong)
qed

lemma field_no_object: "stores_value d v \<Longrightarrow> (\<And>ms. v \<noteq> NObj ms) \<Longrightarrow> Value_field d name = Some None"
  by (cases v) (auto simp: Value_field_def IsStringTag_def tag_defs)

lemma Get_stored:
  "stores_value d v \<Longrightarrow>
   (case node_get v keys of None \<Rightarrow> Value_Get d keys = Some no_value
    | Some u \<Rightarrow> \<exists>c. Value_Get d keys = Some c \<and> stores_value c u)"
proof (induction v keys arbitrary: d rule: node_get.induct)
  case (2 ms k keys)
  show ?case
  proof (cases "map_of ms k")
    case None
    then show ?thesis using field_stored [OF "2.prems", of k] "2.prems" by simp
  next
    case (Some x)
    then obtain j where j: "Value_field d k = Some (Some (child d j))" "stores d j x"
      using field_stored [OF "2.prems", of k] by auto
    then show ?thesis using "2.IH" [OF Some, of "child d j"] "2.prems" Some by (simp cong: option.case_cong)
  qed
qed (use field_no_object in \<open>auto simp del: stores.simps\<close>)

lemma inside_stored:
  assumes "stores_value d (NArr xs)"
  obtains en cur where "TagAt d (dsc_tidx d) = Some ch_lbrack" "ContainerEnd d (dsc_tidx d) = Some en"
    "SkipSeams d (dsc_tidx d + 1) = Some cur" "stores_elems d en cur xs" "ContainerCount d (dsc_tidx d) = Some (min (length xs) 0xFFFFFF)"
  using assms by (auto simp: inside_def bind_eq_Some_conv split: option.splits)

lemma index_scan_stored:
  "stores_elems d en cur xs \<Longrightarrow>
   (if k \<le> i \<and> nat (i - k) < length xs then \<exists>j. index_scan d i en k cur = Some (child d j) \<and> stores d j (xs ! nat (i - k))
    else index_scan d i en k cur = Some no_value)"
proof (induction xs arbitrary: cur k)
  case Nil
  then show ?case by (simp add: index_scan.simps [of d i en k cur])
next
  case (Cons x xs)
  obtain c where c: "cur < en" "stores d cur x" "Skip d cur = Some c" "stores_elems d en c xs"
    using Cons.prems by (auto split: option.splits)
  show ?case
  proof (cases "k = i")
    case True
    then show ?thesis using c by (auto simp: index_scan.simps [of d i en i cur])
  next
    case False
    then have r: "index_scan d i en k cur = index_scan d i en (k + 1) c" using c by (simp add: index_scan.simps [of d i en k cur])
    have n: "nat (i - k) = Suc (nat (i - (k + 1)))" if "k + 1 \<le> i" using that by simp
    have e: "k \<le> i \<and> nat (i - k) < length (x # xs) \<longleftrightarrow> k + 1 \<le> i \<and> nat (i - (k + 1)) < length xs" using False by auto
    show ?thesis unfolding e r using Cons.IH [OF c(4), of "k + 1"] n by auto
  qed
qed

lemma Index_stored:
  assumes "stores_value d (NArr xs)" "0 \<le> i \<or> length xs \<le> 0xFFFFFF"
  shows "let j = (if i < 0 then i + int (length xs) else i) in
     if 0 \<le> j \<and> nat j < length xs then \<exists>c. Value_Index d i = Some c \<and> stores_value c (xs ! nat j)
     else Value_Index d i = Some no_value"
proof -
  obtain en cur where f: "TagAt d (dsc_tidx d) = Some ch_lbrack" "ContainerEnd d (dsc_tidx d) = Some en"
    "SkipSeams d (dsc_tidx d + 1) = Some cur" "stores_elems d en cur xs" "ContainerCount d (dsc_tidx d) = Some (min (length xs) 0xFFFFFF)"
    by (rule inside_stored [OF assms(1)])
  define j where "j = (if i < 0 then i + int (length xs) else i)"
  have t: "HasTape d" using assms(1) by simp
  have len: "i < 0 \<Longrightarrow> Value_Len d = Some (length xs)" using f t assms(2) by (auto simp: Value_Len_def)
  have I: "Value_Index d i = (if j < 0 then Some no_value else index_scan d j en 0 cur)"
    using f(1-3) t len by (auto simp: Value_Index_def j_def)
  show ?thesis unfolding Let_def j_def [symmetric]
    using index_scan_stored [OF f(4), of 0 j] t by (auto simp: I)
qed

text \<open>The descriptors the iterators hand out, in order.\<close>

fun elem_children :: "Descriptor \<Rightarrow> nat \<Rightarrow> node list \<Rightarrow> Descriptor list" where
  "elem_children d cur [] = []"
| "elem_children d cur (x # xs) =
     child d cur # (case Skip d cur of None \<Rightarrow> [] | Some c \<Rightarrow> elem_children d c xs)"

fun member_children :: "Descriptor \<Rightarrow> nat \<Rightarrow> (bytes \<times> node) list \<Rightarrow> (bytes \<times> Descriptor) list" where
  "member_children d cur [] = []"
| "member_children d cur ((k, x) # ms) =
     (k, child d (cur + 1)) # (case Skip d (cur + 1) of None \<Rightarrow> [] | Some c \<Rightarrow> member_children d c ms)"

lemma elem_children_stored:
  "stores_elems d en cur xs \<Longrightarrow> HasTape d \<Longrightarrow> list_all2 stores_value (elem_children d cur xs) xs"
  by (induction xs arbitrary: cur) (auto split: option.splits)

lemma member_children_stored:
  "stores_members d en cur ms \<Longrightarrow> HasTape d \<Longrightarrow> list_all2 (\<lambda>(k, c) (k', x). k = k' \<and> stores_value c x) (member_children d cur ms) ms"
  by (induction ms arbitrary: cur) (auto split: option.splits)

lemma each_elem_until:
  "stores_elems d en cur xs \<Longrightarrow>
   each_elem d fn en k cur s = Some (until (\<lambda>(k, c). fn k c) (List.enumerate k (elem_children d cur xs)) s)"
proof (induction xs arbitrary: cur k s)
  case Nil
  then show ?case by (simp add: each_elem.simps [of d fn en k cur s])
next
  case (Cons x xs)
  obtain c where c: "cur < en" "Skip d cur = Some c" "stores_elems d en c xs" using Cons.prems by (auto split: option.splits)
  obtain go s' where g: "fn k (child d cur) s = (go, s')" by fastforce
  show ?case using c(1,2) g Cons.IH [OF c(3), of "k + 1" s'] by (simp add: each_elem.simps [of d fn en k cur s])
qed

lemma each_member_until:
  "stores_members d en cur ms \<Longrightarrow>
   each_member d fn en cur s = Some (until (\<lambda>(k, c). fn k c) (member_children d cur ms) s)"
proof (induction ms arbitrary: cur s)
  case Nil
  then show ?case by (simp add: each_member.simps [of d fn en cur s])
next
  case (Cons m ms)
  obtain k x where m: "m = (k, x)" by fastforce
  obtain c where c: "cur < en" "ScalarStringAt d cur = Some k" "Skip d (cur + 1) = Some c" "stores_members d en c ms"
    using Cons.prems unfolding m by (auto split: option.splits)
  obtain go s' where g: "fn k (child d (cur + 1)) s = (go, s')" by fastforce
  show ?case using c(1-3) g Cons.IH [OF c(4), of s'] m by (simp add: each_member.simps [of d fn en cur s])
qed

lemma ForEachElem_stored:
  assumes "stores_value d (NArr xs)"
  shows "\<exists>cs. list_all2 stores_value cs xs \<and>
     (\<forall>(fn :: nat \<Rightarrow> Descriptor \<Rightarrow> 's \<Rightarrow> bool \<times> 's) s.
        Value_ForEachElem d fn s = Some (until (\<lambda>(k, c). fn k c) (List.enumerate 0 cs) s))"
proof -
  obtain en cur where f: "TagAt d (dsc_tidx d) = Some ch_lbrack" "ContainerEnd d (dsc_tidx d) = Some en"
    "SkipSeams d (dsc_tidx d + 1) = Some cur" "stores_elems d en cur xs"
    by (rule inside_stored [OF assms])
  have "Value_ForEachElem d fn s = Some (until (\<lambda>(k, c). fn k c) (List.enumerate 0 (elem_children d cur xs)) s)"
    for fn :: "nat \<Rightarrow> Descriptor \<Rightarrow> 's \<Rightarrow> bool \<times> 's" and s
    using f(1-3) assms each_elem_until [OF f(4), of fn 0 s] by (simp add: Value_ForEachElem_def)
  then show ?thesis using elem_children_stored [OF f(4)] assms by blast
qed

lemma ForEachKey_stored:
  assumes "stores_value d (NObj ms)"
  shows "\<exists>cs. list_all2 (\<lambda>(k, c) (k', x). k = k' \<and> stores_value c x) cs ms \<and>
     (\<forall>(fn :: bytes \<Rightarrow> Descriptor \<Rightarrow> 's \<Rightarrow> bool \<times> 's) s. Value_ForEachKey d fn s = Some (until (\<lambda>(k, c). fn k c) cs s))"
proof -
  obtain en cur where f: "ContainerEnd d (dsc_tidx d) = Some en" "SkipSeams d (dsc_tidx d + 1) = Some cur" "stores_members d en cur ms"
    using assms by (auto simp: inside_def bind_eq_Some_conv split: option.splits)
  have "Value_ForEachKey d fn s = Some (until (\<lambda>(k, c). fn k c) (member_children d cur ms) s)"
    for fn :: "bytes \<Rightarrow> Descriptor \<Rightarrow> 's \<Rightarrow> bool \<times> 's" and s
    using f(1,2) assms each_member_until [OF f(3), of fn s] by (simp add: Value_ForEachKey_def)
  then show ?thesis using member_children_stored [OF f(3)] assms by blast
qed

section \<open>Claims\<close>

text \<open>
  Claim C36. \<open>Get\<close> on a tape that holds a tree follows the path of keys as the tree does, the first of
  equal keys winning: it never reads outside the buffers and always ends, and yields a value holding the
  node at the end of the path, or the zero value when a key is missing or a level is no object.
\<close>

theorem Value_Get_path:
  assumes "stores_value d v"
  shows "case node_get v keys of None \<Rightarrow> Value_Get d keys = Some no_value
    | Some u \<Rightarrow> \<exists>c. Value_Get d keys = Some c \<and> stores_value c u"
  by (rule Get_stored [OF assms])

definition pair_doc :: Descriptor where
  "pair_doc = \<lparr>dsc_doc = Some \<lparr>doc_tape = [0x7B00000100000005, 0x2200000100000000, 0x5B00000100000004, 0x7400000000000000,
     0x5D00000000000002, 0x7D00000000000000],
     doc_arena = lit ''k'' @ [0], doc_src = [], doc_zc = False\<rparr>, dsc_base = 0, dsc_tidx = 0, dsc_end = 6, dsc_mode = 0\<rparr>"

lemma pair_words:
  "WordAt pair_doc 0 = Some 0x7B00000100000005" "WordAt pair_doc 1 = Some 0x2200000100000000"
  "WordAt pair_doc 2 = Some 0x5B00000100000004" "WordAt pair_doc 3 = Some 0x7400000000000000"
  "WordAt pair_doc 4 = Some 0x5D00000000000002" "WordAt pair_doc 5 = Some 0x7D00000000000000"
  "dsc_mode pair_doc = 0" "dsc_tidx pair_doc = 0" "HasTape pair_doc"
  by (simp_all add: WordAt_def pair_doc_def HasTape_def)

lemma pair_skip: "i \<in> {1, 2, 3, 4, 5} \<Longrightarrow> SkipSeams pair_doc i = Some i"
  by (elim insertE emptyE) (simp_all add: SkipSeams.simps [of pair_doc] pair_words [simplified] IsSeam_def)

lemmas pair_eval = pair_words [simplified] pair_skip TagAt_def ContainerEnd_def ContainerCount_def count24_def inside_def ValueEnd_def Skip_def
  ModeCountAtClose_def tag_defs

lemma pair_elem_stored: "stores_value (child pair_doc 2) (NArr [NBool True])"
  by (simp add: pair_eval)

lemma pair_key: "ScalarStringAt pair_doc 1 = Some (lit ''k'')"
proof -
  have "map_option doc_arena (dsc_doc pair_doc) = Some (lit ''k'' @ [0])" by (simp add: pair_doc_def)
  then show ?thesis
    by (auto simp: ScalarStringAt_def StringAt_def span_def PayloadAt_def PayloadMask_def arenaRange_def pair_eval lit_def cut_def)
qed

lemma pair_doc_stored: "stores_value pair_doc (NObj [(lit ''k'', NArr [NBool True])])"
  using pair_key by (simp add: pair_eval numeral_2_eq_2 [symmetric])

theorem Value_Get_path_witness:
  "\<exists>c. Value_Get pair_doc [lit ''k''] = Some c \<and> stores_value c (NArr [NBool True])"
  using Value_Get_path [OF pair_doc_stored, of "[lit ''k'']"] by simp

text \<open>
  Claim C37. \<open>Index\<close> on an array of a tape returns a value holding the element at the position, from the
  end when negative, and the zero value for a position outside the array; a negative position needs the
  count, which saturates at 24 bits.
\<close>

theorem Value_Index_element:
  assumes "stores_value d (NArr xs)" "0 \<le> i \<or> length xs \<le> 0xFFFFFF"
  shows "let j = (if i < 0 then i + int (length xs) else i) in
     if 0 \<le> j \<and> nat j < length xs then \<exists>c. Value_Index d i = Some c \<and> stores_value c (xs ! nat j)
     else Value_Index d i = Some no_value"
  by (rule Index_stored [OF assms])

theorem Value_Index_element_witness:
  "\<exists>c. Value_Index (child pair_doc 2) (- 1) = Some c \<and> stores_value c (NBool True)"
proof -
  note s = pair_elem_stored
  show ?thesis using Value_Index_element [OF s, of "- 1"] by simp
qed

text \<open>
  The iterator over the elements of a tape array calls back once per element in order, with the
  positions counted from 0 and values that hold the elements, until the callback stops it.
\<close>

theorem Value_ForEachElem_visits:
  assumes "stores_value d (NArr xs)"
  shows "\<exists>cs. list_all2 stores_value cs xs \<and>
     (\<forall>(fn :: nat \<Rightarrow> Descriptor \<Rightarrow> 's \<Rightarrow> bool \<times> 's) s.
        Value_ForEachElem d fn s = Some (until (\<lambda>(k, c). fn k c) (List.enumerate 0 cs) s))"
  by (rule ForEachElem_stored [OF assms])

theorem Value_ForEachElem_visits_witness:
  "\<exists>c. stores_value c (NBool True) \<and>
     (\<forall>fn (s :: nat). Value_ForEachElem (child pair_doc 2) fn s = Some (until (\<lambda>(k, c). fn k c) [(0, c)] s))"
proof -
  obtain cs where c: "list_all2 stores_value cs [NBool True]"
    "\<forall>fn (s :: nat). Value_ForEachElem (child pair_doc 2) fn s = Some (until (\<lambda>(k, c). fn k c) (List.enumerate 0 cs) s)"
    using Value_ForEachElem_visits [OF pair_elem_stored, where 's = nat] by blast
  then obtain c where "cs = [c]" "stores_value c (NBool True)" by (auto simp: list_all2_Cons2)
  then show ?thesis using c(2) by auto
qed

text \<open>
  The iterator over the members of a tape object calls back once per member in document order
  with its decoded key and a value that holds its node, duplicates included.
\<close>

theorem Value_ForEachKey_visits:
  assumes "stores_value d (NObj ms)"
  shows "\<exists>cs. list_all2 (\<lambda>(k, c) (k', x). k = k' \<and> stores_value c x) cs ms \<and>
     (\<forall>(fn :: bytes \<Rightarrow> Descriptor \<Rightarrow> 's \<Rightarrow> bool \<times> 's) s. Value_ForEachKey d fn s = Some (until (\<lambda>(k, c). fn k c) cs s))"
  by (rule ForEachKey_stored [OF assms])

theorem Value_ForEachKey_visits_witness:
  "\<exists>c. stores_value c (NArr [NBool True]) \<and>
     (\<forall>fn (s :: nat). Value_ForEachKey pair_doc fn s = Some (until (\<lambda>(k, c). fn k c) [(lit ''k'', c)] s))"
proof -
  obtain cs where c: "list_all2 (\<lambda>(k, c) (k', x). k = k' \<and> stores_value c x) cs [(lit ''k'', NArr [NBool True])]"
    "\<forall>fn (s :: nat). Value_ForEachKey pair_doc fn s = Some (until (\<lambda>(k, c). fn k c) cs s)"
    using Value_ForEachKey_visits [OF pair_doc_stored, where 's = nat] by blast
  then obtain c where "cs = [(lit ''k'', c)]" "stores_value c (NArr [NBool True])" by (auto simp: list_all2_Cons2 simp del: stores.simps)
  then show ?thesis using c(2) by auto
qed

text \<open>
  Claim C38. \<open>Type\<close>, \<open>Len\<close>, \<open>Str\<close>, \<open>Bool\<close> and \<open>IsNull\<close> of a tape-backed value report its node, without a read
  outside the buffers: the kind, the member count capped at 24 bits, the decoded string of any of the
  three string tags, and nothing for a value of another kind.
\<close>

theorem Value_scalars:
  assumes "stores_value d v"
  shows "Value_Type d = Some (node_kind v) \<and>
     Value_Len d = Some (case v of NArr xs \<Rightarrow> min (length xs) 0xFFFFFF | NObj ms \<Rightarrow> min (length ms) 0xFFFFFF | _ \<Rightarrow> 0) \<and>
     Value_Str d = Some (case v of NStr t s \<Rightarrow> Some s | _ \<Rightarrow> None) \<and>
     Value_Bool d = Some (case v of NBool b \<Rightarrow> Some b | _ \<Rightarrow> None) \<and>
     Value_IsNull d = Some (v = NNull)"
  by (intro conjI Type_stored [OF assms] Len_stored [OF assms] Str_stored [OF assms] Bool_stored [OF assms] IsNull_stored [OF assms])

theorem Value_scalars_witness: "Value_Len (child pair_doc 2) = Some 1"
proof -
  note s = pair_elem_stored
  show ?thesis using Value_scalars [OF s] by simp
qed

end
