(* ===== verification/Serialize.thy ===== *)
theory Serialize
  imports TapeValue
begin

text \<open>
  The JSON text of a tape-backed value, \<^verbatim>\<open>value/serialize.go\<close>. The walk is recursive on the tape and has
  fuel, whose lack is \<open>None\<close> like a read outside the buffers; on a tape that holds a tree any fuel above
  the size of the tree is enough. \<^verbatim>\<open>strconv.AppendFloat\<close>, the shortest decimal of a double, is the
  parameter \<open>ff\<close> from the 64 bits to the text; nothing is assumed of it.
\<close>

section \<open>The walk\<close>

definition hexChar :: "byte \<Rightarrow> byte" where
  "hexChar n = (if n < 10 then ch_0 + n else 0x61 - 10 + n)"

definition json_byte :: "byte \<Rightarrow> bytes" where
  "json_byte c =
     (if c = ch_quote then [ch_bslash, ch_quote]
      else if c = ch_bslash then [ch_bslash, ch_bslash]
      else if c = 0x08 then [ch_bslash, ch_b]
      else if c = 0x0C then [ch_bslash, ch_f]
      else if c = ch_lf then [ch_bslash, ch_n]
      else if c = ch_cr then [ch_bslash, ch_r]
      else if c = ch_tab then [ch_bslash, ch_t]
      else if c < 0x20 then [ch_bslash, ch_u, ch_0, ch_0, hexChar (drop_bit 4 c), hexChar (c AND 0x0F)]
      else [c])"

definition appendJSONString :: "bytes \<Rightarrow> bytes \<Rightarrow> bytes" where
  "appendJSONString dst src = foldl (\<lambda>dst c. dst @ json_byte c) (dst @ [ch_quote]) src @ [ch_quote]"

text \<open>\<^verbatim>\<open>strconv.AppendInt\<close> and \<^verbatim>\<open>AppendUint\<close> in base 10.\<close>

fun dec_digits :: "nat \<Rightarrow> bytes" where
  "dec_digits n = (if n < 10 then [word_of_nat (48 + n)] else dec_digits (n div 10) @ [word_of_nat (48 + n mod 10)])"

declare dec_digits.simps [simp del]

definition AppendUint :: "bytes \<Rightarrow> u64 \<Rightarrow> bytes" where
  "AppendUint dst u = dst @ dec_digits (unat u)"

definition AppendInt :: "bytes \<Rightarrow> int \<Rightarrow> bytes" where
  "AppendInt dst i = dst @ (if i < 0 then ch_minus # dec_digits (nat (- i)) else dec_digits (nat i))"

text \<open>The cases of the walk other than the containers, by the tag \<open>t\<close> at \<open>i\<close>; an unknown tag prints nothing.\<close>

definition append_scalar :: "(u64 \<Rightarrow> bytes) \<Rightarrow> bytes \<Rightarrow> Descriptor \<Rightarrow> nat \<Rightarrow> byte \<Rightarrow> bytes option" where
  "append_scalar ff buf d i t =
     (if t = ch_n then Some (buf @ lit ''null'')
      else if t = ch_t then Some (buf @ lit ''true'')
      else if t = ch_f then Some (buf @ lit ''false'')
      else if t = TagInt64 then map_option (AppendInt buf) (Int64At d i)
      else if t = TagUint64 then map_option (AppendUint buf) (Uint64At d i)
      else if t = TagDouble then map_option (\<lambda>w. buf @ ff w) (DoubleAt d i)
      else if t = TagNumRaw then map_option (\<lambda>s. buf @ s) (NumRawAt d i)
      else if t = TagStrRaw \<or> t = TagStrFree then
        map_option (\<lambda>s. buf @ [ch_quote] @ s @ [ch_quote]) (ScalarStringAt d i)
      else if t = ch_quote then map_option (appendJSONString buf) (ScalarStringAt d i)
      else Some buf)"

definition sep :: "bool \<Rightarrow> bytes" where
  "sep first = (if first then [] else [ch_comma])"

text \<open>\<open>n\<close> is the fuel; the loops over elements and members count as calls.\<close>

fun appendTapeJSON :: "(u64 \<Rightarrow> bytes) \<Rightarrow> nat \<Rightarrow> bytes \<Rightarrow> Descriptor \<Rightarrow> nat \<Rightarrow> bytes option"
  and append_elems :: "(u64 \<Rightarrow> bytes) \<Rightarrow> nat \<Rightarrow> bytes \<Rightarrow> Descriptor \<Rightarrow> nat \<Rightarrow> nat \<Rightarrow> bool \<Rightarrow> bytes option"
  and append_members :: "(u64 \<Rightarrow> bytes) \<Rightarrow> nat \<Rightarrow> bytes \<Rightarrow> Descriptor \<Rightarrow> nat \<Rightarrow> nat \<Rightarrow> bool \<Rightarrow> bytes option" where
  "appendTapeJSON ff 0 buf d i = None"
| "appendTapeJSON ff (Suc n) buf d i =
     (case TagAt d i of
        None \<Rightarrow> None
      | Some t \<Rightarrow>
          if t = ch_lbrack then
            (case (ContainerEnd d i, SkipSeams d (i + 1)) of
               (Some en, Some cur) \<Rightarrow>
                 map_option (\<lambda>buf. buf @ [ch_rbrack]) (append_elems ff n (buf @ [ch_lbrack]) d en cur True)
             | _ \<Rightarrow> None)
          else if t = ch_lbrace then
            (case (ContainerEnd d i, SkipSeams d (i + 1)) of
               (Some en, Some cur) \<Rightarrow>
                 map_option (\<lambda>buf. buf @ [ch_rbrace]) (append_members ff n (buf @ [ch_lbrace]) d en cur True)
             | _ \<Rightarrow> None)
          else append_scalar ff buf d i t)"
| "append_elems ff 0 buf d en cur first = None"
| "append_elems ff (Suc n) buf d en cur first =
     (if cur < en then
        (case appendTapeJSON ff n (buf @ sep first) d cur of
           None \<Rightarrow> None
         | Some buf \<Rightarrow> (case Skip d cur of None \<Rightarrow> None | Some c \<Rightarrow> append_elems ff n buf d en c False))
      else Some buf)"
| "append_members ff 0 buf d en cur first = None"
| "append_members ff (Suc n) buf d en cur first =
     (if cur < en then
        (case ScalarStringAt d cur of
           None \<Rightarrow> None
         | Some k \<Rightarrow>
             (case appendTapeJSON ff n (appendJSONString (buf @ sep first) k @ [ch_colon]) d (cur + 1) of
                None \<Rightarrow> None
              | Some buf \<Rightarrow> (case Skip d (cur + 1) of None \<Rightarrow> None | Some c \<Rightarrow> append_members ff n buf d en c False)))
      else Some buf)"

definition tapeToJSON :: "(u64 \<Rightarrow> bytes) \<Rightarrow> nat \<Rightarrow> Descriptor \<Rightarrow> bytes option" where
  "tapeToJSON ff n v = appendTapeJSON ff n [] v (dsc_tidx v)"

definition Value_String :: "(u64 \<Rightarrow> bytes) \<Rightarrow> nat \<Rightarrow> Descriptor \<Rightarrow> bytes option" where
  "Value_String ff n v = (if \<not> HasTape v then Some [] else tapeToJSON ff n v)"

definition Value_MarshalJSON :: "(u64 \<Rightarrow> bytes) \<Rightarrow> nat \<Rightarrow> Descriptor \<Rightarrow> bytes option" where
  "Value_MarshalJSON ff n v = (if \<not> HasTape v then Some (lit ''null'') else tapeToJSON ff n v)"

section \<open>The printed tree\<close>

definition json_string :: "bytes \<Rightarrow> bytes" where
  "json_string s = [ch_quote] @ concat (map json_byte s) @ [ch_quote]"

lemma appendJSONString_eq: "appendJSONString dst s = dst @ json_string s"
proof -
  have "foldl (\<lambda>dst c. dst @ json_byte c) d s = d @ concat (map json_byte s)" for d
    by (induction s arbitrary: d) simp_all
  then show ?thesis by (simp add: appendJSONString_def json_string_def)
qed

fun node_json :: "(u64 \<Rightarrow> bytes) \<Rightarrow> node \<Rightarrow> bytes"
  and elems_json :: "(u64 \<Rightarrow> bytes) \<Rightarrow> bool \<Rightarrow> node list \<Rightarrow> bytes"
  and members_json :: "(u64 \<Rightarrow> bytes) \<Rightarrow> bool \<Rightarrow> (bytes \<times> node) list \<Rightarrow> bytes" where
  "node_json ff NNull = lit ''null''"
| "node_json ff (NBool b) = (if b then lit ''true'' else lit ''false'')"
| "node_json ff (NInt w) = AppendInt [] (sint w)"
| "node_json ff (NUint w) = AppendUint [] w"
| "node_json ff (NDouble w) = ff w"
| "node_json ff (NNum t) = t"
| "node_json ff (NStr t s) = (if t = ch_quote then json_string s else [ch_quote] @ s @ [ch_quote])"
| "node_json ff (NArr xs) = [ch_lbrack] @ elems_json ff True xs @ [ch_rbrack]"
| "node_json ff (NObj ms) = [ch_lbrace] @ members_json ff True ms @ [ch_rbrace]"
| "elems_json ff first [] = []"
| "elems_json ff first (x # xs) = sep first @ node_json ff x @ elems_json ff False xs"
| "members_json ff first [] = []"
| "members_json ff first ((k, x) # ms) = sep first @ json_string k @ [ch_colon] @ node_json ff x @ members_json ff False ms"

text \<open>The calls the walk nests: the fuel it needs.\<close>

fun fuel :: "node \<Rightarrow> nat" and elems_fuel :: "node list \<Rightarrow> nat" and members_fuel :: "(bytes \<times> node) list \<Rightarrow> nat" where
  "fuel (NArr xs) = Suc (elems_fuel xs)"
| "fuel (NObj ms) = Suc (members_fuel ms)"
| "fuel _ = 1"
| "elems_fuel [] = 1"
| "elems_fuel (x # xs) = Suc (max (fuel x) (elems_fuel xs))"
| "members_fuel [] = 1"
| "members_fuel ((k, x) # ms) = Suc (max (fuel x) (members_fuel ms))"

lemma tag_distinct [simp]:
  "TagInt64 \<noteq> ch_n" "TagInt64 \<noteq> ch_t" "TagInt64 \<noteq> ch_f"
  "TagUint64 \<noteq> ch_n" "TagUint64 \<noteq> ch_t" "TagUint64 \<noteq> ch_f" "TagUint64 \<noteq> TagInt64"
  "TagDouble \<noteq> ch_n" "TagDouble \<noteq> ch_t" "TagDouble \<noteq> ch_f" "TagDouble \<noteq> TagInt64" "TagDouble \<noteq> TagUint64"
  "TagNumRaw \<noteq> ch_n" "TagNumRaw \<noteq> ch_t" "TagNumRaw \<noteq> ch_f" "TagNumRaw \<noteq> TagInt64" "TagNumRaw \<noteq> TagUint64" "TagNumRaw \<noteq> TagDouble"
  "ch_lbrack \<noteq> TagInt64" "ch_lbrack \<noteq> TagUint64" "ch_lbrack \<noteq> TagDouble" "ch_lbrack \<noteq> TagNumRaw" "ch_lbrack \<noteq> TagStrRaw" "ch_lbrack \<noteq> TagStrFree"
  "ch_lbrace \<noteq> TagInt64" "ch_lbrace \<noteq> TagUint64" "ch_lbrace \<noteq> TagDouble" "ch_lbrace \<noteq> TagNumRaw" "ch_lbrace \<noteq> TagStrRaw" "ch_lbrace \<noteq> TagStrFree"
  by (simp_all add: tag_defs)

lemmas tag_distinct_sym [simp] = tag_distinct [symmetric]

lemma string_tag_distinct:
  "IsStringTag t \<Longrightarrow> t \<noteq> ch_n \<and> t \<noteq> ch_t \<and> t \<noteq> ch_f \<and> t \<noteq> TagInt64 \<and> t \<noteq> TagUint64 \<and> t \<noteq> TagDouble \<and> t \<noteq> TagNumRaw \<and>
     t \<noteq> ch_lbrack \<and> t \<noteq> ch_lbrace \<and> (t \<noteq> ch_quote \<longleftrightarrow> t = TagStrRaw \<or> t = TagStrFree)"
  by (auto simp: IsStringTag_def tag_defs)

lemma append_stored:
  "stores d i v \<Longrightarrow> fuel v \<le> n \<Longrightarrow> appendTapeJSON ff n buf d i = Some (buf @ node_json ff v)"
  "stores_elems d en cur xs \<Longrightarrow> elems_fuel xs \<le> n \<Longrightarrow> append_elems ff n buf d en cur first = Some (buf @ elems_json ff first xs)"
  "stores_members d en cur ms \<Longrightarrow> members_fuel ms \<le> n \<Longrightarrow> append_members ff n buf d en cur first = Some (buf @ members_json ff first ms)"
proof (induction d i v and d en cur xs and d en cur ms arbitrary: n buf and n buf first and n buf first
    rule: stores_stores_elems_stores_members.induct)
  case (3 d i w)
  then show ?case by (cases n) (simp_all add: append_scalar_def Int64At_def AppendInt_def)
next
  case (4 d i w)
  then show ?case by (cases n) (simp_all add: append_scalar_def Uint64At_def AppendUint_def)
next
  case (5 d i w)
  then show ?case by (cases n) (simp_all add: append_scalar_def DoubleAt_def)
next
  case (7 d i t s)
  then show ?case using string_tag_distinct [of t] by (cases n) (auto simp: append_scalar_def appendJSONString_eq)
next
  case (8 d i xs)
  obtain en cur where s: "ContainerEnd d i = Some en" "SkipSeams d (i + 1) = Some cur" "stores_elems d en cur xs"
    using "8.prems"(1) by (auto simp: inside_def bind_eq_Some_conv split: option.splits)
  obtain m where m: "n = Suc m" "elems_fuel xs \<le> m" using "8.prems"(2) by (cases n) simp_all
  have "inside d i = Some (en, cur)" using s by (simp add: inside_def)
  then have "append_elems ff m (buf @ [ch_lbrack]) d en cur True = Some ((buf @ [ch_lbrack]) @ elems_json ff True xs)"
    using "8.IH" s(3) m(2) by blast
  then show ?case using "8.prems"(1) m(1) s by simp
next
  case (9 d i ms)
  obtain en cur where s: "ContainerEnd d i = Some en" "SkipSeams d (i + 1) = Some cur" "stores_members d en cur ms"
    using "9.prems"(1) by (auto simp: inside_def bind_eq_Some_conv split: option.splits)
  obtain m where m: "n = Suc m" "members_fuel ms \<le> m" using "9.prems"(2) by (cases n) simp_all
  have "inside d i = Some (en, cur)" using s by (simp add: inside_def)
  then have "append_members ff m (buf @ [ch_lbrace]) d en cur True = Some ((buf @ [ch_lbrace]) @ members_json ff True ms)"
    using "9.IH" s(3) m(2) by blast
  then show ?case using "9.prems"(1) m(1) s by simp
next
  case (10 d en cur)
  then show ?case by (cases n) simp_all
next
  case (11 d en cur x xs)
  obtain c where c: "cur < en" "stores d cur x" "Skip d cur = Some c" "stores_elems d en c xs" using "11.prems"(1) by (auto split: option.splits)
  obtain m where m: "n = Suc m" "fuel x \<le> m" "elems_fuel xs \<le> m" using "11.prems"(2) by (cases n) simp_all
  show ?case unfolding m(1) using c "11.IH"(1) [OF c(2) m(2)] "11.IH"(2) [OF c(3,4) m(3)] by (simp add: sep_def)
next
  case (12 d en cur)
  then show ?case by (cases n) simp_all
next
  case (13 d en cur k x ms)
  obtain c where c: "cur < en" "ScalarStringAt d cur = Some k" "stores d (cur + 1) x" "Skip d (cur + 1) = Some c" "stores_members d en c ms"
    using "13.prems"(1) by (auto split: option.splits)
  obtain m where m: "n = Suc m" "fuel x \<le> m" "members_fuel ms \<le> m" using "13.prems"(2) by (cases n) simp_all
  show ?case unfolding m(1) using c "13.IH"(1) [OF c(3) m(2)] "13.IH"(2) [OF c(4,5) m(3)] by (simp add: sep_def appendJSONString_eq)
qed (case_tac n; auto simp: append_scalar_def)+

section \<open>Strings decode to what was printed\<close>

lemma decode_plain:
  assumes "i < length b" "\<not> is_stop (b ! i)" "decode_from b (i + 1) = (bs, e, x, ok)"
  shows "decode_from b i = (b ! i # bs, e, x, ok)"
proof -
  have f: "find_from is_stop b i = find_from is_stop b (i + 1)" using assms(1,2) by (simp add: find_from_miss)
  have g: "i + 1 \<le> find_from is_stop b (i + 1)" using assms(1) by (intro find_from_ge) simp
  have c: "cut b i j = b ! i # cut b (i + 1) j" if "j = find_from is_stop b (i + 1)" for j
    using cut_Cons [of i j b] g that by simp
  show ?thesis using assms(3) unfolding decode_from.simps [of b i] decode_from.simps [of b "i + 1"] f Let_def c [OF refl]
    by (auto split: if_splits option.splits prod.splits)
qed

lemma decode_escape:
  assumes "i < length b" "b ! i = ch_bslash" "escape_at b i = Some (nxt, m)" "decode_from b nxt = (bs, e, x, ok)"
  shows "decode_from b i = (m @ bs, e, True, ok)"
  using assms by (simp add: decode_from.simps [of b i])

lemma decode_close: "i < length b \<Longrightarrow> b ! i = ch_quote \<Longrightarrow> decode_from b i = ([], i, False, True)"
  by (simp add: decode_from.simps [of b i])

lemma hexChar_decided:
  "list_all (\<lambda>n. hexVal (hexChar n) = Some (ucast n)) [0, 1, 2, 3, 4, 5, 6, 7, 8, 9, 10, 11, 12, 13, 14, 15]"
  by code_simp

lemma nibble_cases: "uint (n :: byte) < 16 \<Longrightarrow> n \<in> set [0, 1, 2, 3, 4, 5, 6, 7, 8, 9, 10, 11, 12, 13, 14, 15]"
proof -
  assume "uint n < 16"
  then have "uint n \<in> set [0, 1, 2, 3, 4, 5, 6, 7, 8, 9, 10, 11, 12, 13, 14, 15]" using uint_ge_0 [of n] unfolding set_simps insert_iff empty_iff by presburger
  then have "(word_of_int (uint n) :: byte) \<in> word_of_int ` set [0, 1, 2, 3, 4, 5, 6, 7, 8, 9, 10, 11, 12, 13, 14, 15]" by (rule imageI)
  then show ?thesis by simp
qed

lemma hexVal_hexChar: "uint n < 16 \<Longrightarrow> hexVal (hexChar n) = Some (ucast n)"
  using hexChar_decided nibble_cases [of n] unfolding list_all_iff by blast

lemma nibbles:
  fixes c :: byte
  shows "uint (drop_bit 4 c) < 16" "uint (c AND 0x0F) < 16" "push_bit 4 (ucast (drop_bit 4 c)) OR ucast (c AND 0x0F) = (ucast c :: u32)"
proof -
  have "uint c div 16 < 16" using uint_byte_bound(1) [of c] by presburger
  then show "uint (drop_bit 4 c) < 16" by (simp add: drop_bit_eq_div uint_div)
  show "uint (c AND 0x0F) < 16" using AND_upper2 [of "uint (0x0F :: byte)" "uint c"] by (simp add: uint_and)
  show "push_bit 4 (ucast (drop_bit 4 c)) OR ucast (c AND 0x0F) = (ucast c :: u32)"
  proof -
    have f: "c AND 0x0F = take_bit 4 c" by (simp add: take_bit_eq_mask mask_eq_exp_minus_1)
    show ?thesis unfolding f
    proof (rule bit_word_eqI)
      show "bit (push_bit 4 (ucast (drop_bit 4 c)) OR ucast (take_bit 4 c) :: u32) n = bit (ucast c :: u32) n" if "n < LENGTH(32)" for n
        using that by (cases "n < 4") (auto simp: bit_simps)
    qed
  qed
qed

lemma hexChar_ctl:
  obtains u v where "hexVal (hexChar (drop_bit 4 c)) = Some u" "hexVal (hexChar (c AND 0x0F)) = Some v" "push_bit 4 u OR v = (ucast c :: u32)"
  using hexVal_hexChar [OF nibbles(1)] hexVal_hexChar [OF nibbles(2)] nibbles(3) by blast

lemma hex4_ctl:
  assumes "c < 0x20" "At b i = ch_0" "At b (i + 1) = ch_0" "At b (i + 2) = hexChar (drop_bit 4 c)" "At b (i + 3) = hexChar (c AND 0x0F)"
  shows "hex4 b i = Some (ucast c)"
proof -
  obtain u v where h: "hexVal (hexChar (drop_bit 4 c)) = Some u" "hexVal (hexChar (c AND 0x0F)) = Some v" "push_bit 4 u OR v = (ucast c :: u32)"
    by (rule hexChar_ctl)
  have z: "hexVal ch_0 = Some 0" by (simp add: hexVal_def)
  have n: "hex4 b i = hex4_loop b i (Suc (Suc (Suc (Suc 0)))) 0" by (simp add: hex4_def numeral_eq_Suc)
  have i: "i + 1 + 1 = i + 2" "i + 2 + 1 = i + 3" by simp_all
  show ?thesis unfolding n hex4_loop.simps i assms(2-5) z h(1,2) option.case using h(3) by simp
qed

lemma escape_ctl: "c < 0x20 \<Longrightarrow> At b (i + 1) = ch_u \<Longrightarrow> hex4 b (i + 2) = Some (ucast c) \<Longrightarrow> escape_at b i = Some (i + 6, [c])"
proof -
  assume a: "c < 0x20" "At b (i + 1) = ch_u" "hex4 b (i + 2) = Some (ucast c)"
  have u: "uint (ucast c :: u32) = uint c"
  proof -
    have "uint c < 2 ^ 32" by (rule order.strict_trans [OF uint_byte_bound(1)]) simp
    then show ?thesis by (simp add: unsigned_ucast_eq take_bit_int_eq_self)
  qed
  have l: "uint c < 32" using a(1) by (simp add: word_less_def)
  have r: "\<not> 0xD800 \<le> (ucast c :: u32)" "\<not> 0xDC00 \<le> (ucast c :: u32)" "(ucast c :: u32) \<le> 0x7F"
    using l by (simp_all add: word_le_def u)
  have "ucast (ucast c :: u32) = c" by (simp add: ucast_up_ucast_id is_up)
  then show ?thesis using a(2,3) r by (simp add: escape_at_def EncodeRune_def)
qed

text \<open>One printed byte, in front of what decodes to \<open>bs\<close>.\<close>

lemma decode_json_byte:
  assumes "b = pre @ json_byte c @ rest" "decode_from b (length pre + length (json_byte c)) = (bs, e, x, ok)"
  shows "\<exists>x. decode_from b (length pre) = (c # bs, e, x, ok)"
proof -
  let ?i = "length pre"
  have at: "At b (?i + k) = (json_byte c @ rest) ! k" if "k < length (json_byte c)" for k
    using that unfolding assms(1) by (simp add: nth_append)
  have l: "?i < length b" and l1: "?i + length (json_byte c) \<le> length b" by (auto simp: assms(1) json_byte_def)
  have b0: "b ! ?i = (json_byte c) ! 0" using at [of 0] l by (auto simp: json_byte_def nth_append split: if_splits)
  consider (simple) m where "json_byte c = [ch_bslash, m]" "simpleEscape m = c" "m \<noteq> ch_u" "c \<noteq> 0"
    | (ctl) "json_byte c = [ch_bslash, ch_u, ch_0, ch_0, hexChar (drop_bit 4 c), hexChar (c AND 0x0F)]" "c < 0x20"
    | (plain) "json_byte c = [c]" "\<not> is_stop c"
  proof -
    have "\<exists>m. json_byte c = [ch_bslash, m] \<and> simpleEscape m = c \<and> m \<noteq> ch_u \<and> c \<noteq> 0"
      if "c \<in> {ch_quote, ch_bslash, 0x08, 0x0C, ch_lf, ch_cr, ch_tab}"
      using that by (elim insertE emptyE) (simp_all add: json_byte_def simpleEscape_def)
    moreover have "json_byte c = [ch_bslash, ch_u, ch_0, ch_0, hexChar (drop_bit 4 c), hexChar (c AND 0x0F)] \<and> c < 0x20
        \<or> json_byte c = [c] \<and> \<not> is_stop c" if "c \<notin> {ch_quote, ch_bslash, 0x08, 0x0C, ch_lf, ch_cr, ch_tab}"
      using that by (cases "c < 0x20") (simp_all add: json_byte_def)
    ultimately show thesis using simple ctl plain by blast
  qed
  then show ?thesis
  proof cases
    case simple
    have "At b (?i + 1) = m" using at [of 1] simple(1) by simp
    then have "escape_at b ?i = Some (?i + 2, [c])" using simple by (simp add: escape_at_def)
    then show ?thesis using decode_escape [OF l _ _ assms(2)] b0 simple(1) by auto
  next
    case ctl
    have a: "At b (?i + 1) = ch_u" "At b (?i + 2) = ch_0" "At b (?i + 3) = ch_0" "At b (?i + 4) = hexChar (drop_bit 4 c)" "At b (?i + 5) = hexChar (c AND 0x0F)"
      using at [of 1] at [of 2] at [of 3] at [of 4] at [of 5] ctl(1) by simp_all
    have e: "?i + 2 + 1 = ?i + 3" "?i + 2 + 2 = ?i + 4" "?i + 2 + 3 = ?i + 5" by simp_all
    have "hex4 b (?i + 2) = Some (ucast c)" by (rule hex4_ctl [OF ctl(2)]) (simp_all only: e a)
    then have "escape_at b ?i = Some (?i + 6, [c])" by (rule escape_ctl [OF ctl(2) a(1)])
    then show ?thesis using decode_escape [OF l _ _ assms(2)] b0 ctl(1) by auto
  next
    case plain
    then show ?thesis using decode_plain [OF l, of bs e x ok] assms(2) b0 by auto
  qed
qed

lemma decode_json_body:
  "b = pre @ concat (map json_byte s) @ [ch_quote] @ rest \<Longrightarrow>
   \<exists>x. decode_from b (length pre) = (s, length pre + length (concat (map json_byte s)), x, True)"
proof (induction s arbitrary: pre)
  case Nil
  then have "decode_from b (length pre) = ([], length pre, False, True)" by (intro decode_close) simp_all
  then show ?case by auto
next
  case (Cons c s)
  have "b = (pre @ json_byte c) @ concat (map json_byte s) @ [ch_quote] @ rest" using Cons.prems by simp
  from Cons.IH [OF this] obtain x where x: "decode_from b (length pre + length (json_byte c)) =
     (s, length pre + length (json_byte c) + length (concat (map json_byte s)), x, True)" by auto
  show ?case using decode_json_byte [OF _ x, of "concat (map json_byte s) @ [ch_quote] @ rest"] Cons.prems by (simp add: add.assoc)
qed

lemma json_byte_clean: "d \<in> set (json_byte c) \<Longrightarrow> \<not> d < 0x20"
proof (cases "c < 0x20")
  case True
  obtain u v where h: "hexVal (hexChar (drop_bit 4 c)) = Some u" "hexVal (hexChar (c AND 0x0F)) = Some v" by (rule hexChar_ctl)
  from h have "\<not> hexChar (drop_bit 4 c) < 0x20" "\<not> hexChar (c AND 0x0F) < 0x20" using hexVal_no_stop by blast+
  then show "d \<in> set (json_byte c) \<Longrightarrow> \<not> d < 0x20" by (auto simp: json_byte_def split: if_splits)
qed (auto simp: json_byte_def split: if_splits)

lemma json_string_decodes:
  assumes "drop i b = json_string s @ rest"
  shows "\<exists>x. decode_from b (i + 1) = (s, i + length (json_string s) - 1, x, True)"
proof -
  have "i < length b" using assms by (cases "i < length b") (auto simp: json_string_def)
  then have "b = (take i b @ [ch_quote]) @ concat (map json_byte s) @ [ch_quote] @ rest" "length (take i b @ [ch_quote]) = i + 1"
    using append_take_drop_id [of i b] assms by (simp_all add: json_string_def)
  then show ?thesis using decode_json_body [of b "take i b @ [ch_quote]" s rest] by (simp add: json_string_def)
qed

lemma drop_append_at: "drop i b = s @ rest \<Longrightarrow> drop (i + length s) b = rest"
proof -
  have "drop (i + length s) b = drop (length s) (drop i b)" by (simp add: add.commute)
  then show "drop i b = s @ rest \<Longrightarrow> drop (i + length s) b = rest" by simp
qed

lemma json_string_scans:
  assumes "drop i b = json_string s @ rest"
  shows "scanString b i = Some (i + length (json_string s))" "i < length b" "b ! i = ch_quote"
proof -
  obtain x where x: "decode_from b (i + 1) = (s, i + length (json_string s) - 1, x, True)" using json_string_decodes [OF assms] by blast
  show l: "i < length b" using assms by (cases "i < length b") (auto simp: json_string_def)
  show "b ! i = ch_quote" using hd_drop_conv_nth [OF l] assms by (simp add: json_string_def)
  let ?k = "i + length (json_string s) - 1"
  have S: "ScanString b (i + 1) = (?k, True)" using ScanString_eq [OF _ x] l by simp
  have "cut b (i + 1) ?k = concat (map json_byte s)"
    using drop_append_at [of i b "[ch_quote]"] assms by (simp add: cut_def json_string_def)
  then have "\<not> hasCtl (cut b (i + 1) ?k)" using json_byte_clean by (auto simp: hasCtl_def list_ex_iff)
  then show "scanString b i = Some (i + length (json_string s))"
    using S scanString_eq [OF l, of "i + length (json_string s)"] by (simp add: json_string_def)
qed

lemma json_string_Str: "raw_Str (json_string s) = Some s"
proof -
  obtain x where x: "decode_from (json_string s) 1 = (s, length (json_string s) - 1, x, True)" using json_string_decodes [of 0 "json_string s" s "[]"] by auto
  have q: "json_string s \<noteq> []" "json_string s ! 0 = ch_quote" by (simp_all add: json_string_def)
  then have w: "skipWS (json_string s) 0 = 0" by (simp add: skipWS.simps [of _ 0] wsLUT_iff)
  have e: "skipWS (json_string s) (length (json_string s)) = length (json_string s)" by (simp add: skipWS.simps)
  have "raw_Valid (json_string s)"
    using q w e json_string_scans(1) [of 0 "json_string s" s "[]"] by (simp add: raw_Valid_def scanValue.simps [of _ 0])
  moreover have "raw_Type (json_string s) = KindString" using q w by (simp add: raw_Type_def)
  ultimately show ?thesis using x by (simp add: raw_Str_iff w)
qed

section \<open>What is printed is JSON\<close>

text \<open>A tree prints well when its number texts are numbers and its unescaped strings need no escape.\<close>

fun printable :: "(u64 \<Rightarrow> bytes) \<Rightarrow> node \<Rightarrow> bool"
  and printable_elems :: "(u64 \<Rightarrow> bytes) \<Rightarrow> node list \<Rightarrow> bool"
  and printable_members :: "(u64 \<Rightarrow> bytes) \<Rightarrow> (bytes \<times> node) list \<Rightarrow> bool" where
  "printable ff (NDouble w) \<longleftrightarrow> is_number (ff w)"
| "printable ff (NNum t) \<longleftrightarrow> is_number t"
| "printable ff (NStr t s) \<longleftrightarrow> t = ch_quote \<or> list_all (\<lambda>c. \<not> is_stop c \<and> \<not> c < 0x20) s"
| "printable ff (NArr xs) \<longleftrightarrow> printable_elems ff xs"
| "printable ff (NObj ms) \<longleftrightarrow> printable_members ff ms"
| "printable ff _ \<longleftrightarrow> True"
| "printable_elems ff [] \<longleftrightarrow> True"
| "printable_elems ff (x # xs) \<longleftrightarrow> printable ff x \<and> printable_elems ff xs"
| "printable_members ff [] \<longleftrightarrow> True"
| "printable_members ff ((k, x) # ms) \<longleftrightarrow> printable ff x \<and> printable_members ff ms"

text \<open>The text \<open>t\<close> is read as one value wherever it is followed by a delimiter or nothing.\<close>

definition scans_as_value :: "bytes \<Rightarrow> bool" where
  "scans_as_value t \<longleftrightarrow>
     (\<forall>b i rest. drop i b = t @ rest \<longrightarrow> \<not> IsNonDelim (head_byte rest) \<longrightarrow> scanValue b i = Some (i + length t))"

lemma scans_bounds:
  assumes "scanValue b i = Some e"
  shows "skipWS b i = i" "b ! i \<noteq> ch_rbrack" "i < length b"
proof -
  obtain d where "value_at b d i e" using scan_sound(1) [OF assms] by (auto simp: scanned_value_def)
  then have v: "i < length b \<and> \<not> is_ws (b ! i)" by (rule value_no_ws)
  then show "i < length b" "skipWS b i = i" by (simp_all add: skipWS.simps [of b i] wsLUT_iff)
  show "b ! i \<noteq> ch_rbrack" using assms v by (auto simp: scanValue.simps [of b i] raw_isDigit_def)
qed

lemma drop_cut: "drop i b = s @ rest \<Longrightarrow> i \<le> length b \<Longrightarrow> cut b i (i + length s) = s \<and> i + length s \<le> length b"
  by (metis add_diff_cancel_left' append_eq_conv_conj cut_def length_append length_drop le_add1 le_add_diff_inverse nat_add_left_cancel_le)

lemma drop_hd: "drop i b = c # rest \<Longrightarrow> i < length b \<and> b ! i = c"
  by (metis hd_drop_conv_nth drop_all list.discI list.sel(1) not_less)

lemma number_scans: "is_number t \<Longrightarrow> scans_as_value t"
  unfolding scans_as_value_def
proof (intro allI impI)
  fix b i rest assume n: "is_number t" and d: "drop i b = t @ rest" "\<not> IsNonDelim (head_byte rest)"
  have "t \<noteq> []" using number_first [OF n] by blast
  then have l: "i \<le> length b" using d(1) by (cases "i \<le> length b") auto
  have "At b (i + length t) = head_byte rest" using drop_append_at [OF d(1)] by (simp add: At_head)
  then show "scanValue b i = Some (i + length t)" using drop_cut [OF d(1) l] n d(2) by (intro scanNumber_complete) simp_all
qed

lemma literal_scans: "t \<in> {lit ''true'', lit ''false'', lit ''null''} \<Longrightarrow> scans_as_value t"
  unfolding scans_as_value_def
proof (intro allI impI)
  fix b i rest assume n: "t \<in> {lit ''true'', lit ''false'', lit ''null''}" and d: "drop i b = t @ rest"
  have "t \<noteq> []" using n by (auto simp: lit_def)
  then have l: "i \<le> length b" using d(1) by (cases "i \<le> length b") auto
  show "scanValue b i = Some (i + length t)" using drop_cut [OF d(1) l] n by (intro scanLit_complete) simp_all
qed

lemma json_string_scans_as_value: "scans_as_value (json_string s)"
  unfolding scans_as_value_def
proof (intro allI impI)
  fix b i rest assume d: "drop i b = json_string s @ rest"
  show "scanValue b i = Some (i + length (json_string s))" using json_string_scans [OF d] by (simp add: scanValue.simps [of b i])
qed

lemma plain_string_scans: "list_all (\<lambda>c. \<not> is_stop c \<and> \<not> c < 0x20) s \<Longrightarrow> scans_as_value ([ch_quote] @ s @ [ch_quote])"
proof -
  assume a: "list_all (\<lambda>c. \<not> is_stop c \<and> \<not> c < 0x20) s"
  have "concat (map json_byte s) = s" using a by (induction s) (auto simp: json_byte_def)
  then show ?thesis using json_string_scans_as_value [of s] by (simp add: json_string_def)
qed

text \<open>The elements and members of a container, and what follows each of them.\<close>

lemma elems_tail: "elems_json ff False (x # xs) = ch_comma # elems_json ff True (x # xs)"
  "members_json ff False (m # ms) = ch_comma # members_json ff True (m # ms)"
  by (cases m; simp add: sep_def)+

lemma after_byte:
  "drop e b = c # rest \<Longrightarrow> \<not> is_ws c \<Longrightarrow> raw_after b cl e = (if c = ch_comma then RComma (e + 1) else if c = cl then RClose (e + 1) else RBad)"
  using drop_hd [of e b c rest] by (simp add: raw_after_def skipWS.simps [of b e] wsLUT_iff)

lemma elems_scan:
  "(\<And>x. x \<in> set xs \<Longrightarrow> scans_as_value (node_json ff x)) \<Longrightarrow> xs \<noteq> [] \<Longrightarrow>
   drop i b = elems_json ff True xs @ ch_rbrack # rest \<Longrightarrow>
   scanElems b i = Some (i + length (elems_json ff True xs) + 1) \<and> skipWS b i = i \<and> b ! i \<noteq> ch_rbrack"
proof (induction xs arbitrary: i)
  case (Cons x xs)
  define tail where "tail = elems_json ff False xs @ ch_rbrack # rest"
  have d: "drop i b = node_json ff x @ tail" using Cons.prems(3) by (simp add: sep_def tail_def)
  have h: "head_byte tail = (if xs = [] then ch_rbrack else ch_comma)" by (cases xs) (simp_all add: tail_def sep_def)
  then have nd: "\<not> IsNonDelim (head_byte tail)" by (simp add: IsNonDelim_iff)
  define e where "e = i + length (node_json ff x)"
  have v: "scanValue b i = Some e" using Cons.prems(1) d nd unfolding scans_as_value_def e_def by simp
  note sb = scans_bounds [OF v]
  have t: "drop e b = tail" unfolding e_def by (rule drop_append_at [OF d])
  show ?case
  proof (cases xs)
    case Nil
    have "drop e b = ch_rbrack # rest" using t by (simp add: tail_def Nil)
    then have "raw_after b ch_rbrack e = RClose (e + 1)" by (simp add: after_byte)
    then show ?thesis using sb v by (simp add: scanElems.simps [of b i] e_def Nil sep_def)
  next
    case (Cons y ys)
    have t': "drop e b = ch_comma # elems_json ff True xs @ ch_rbrack # rest" using t unfolding tail_def Cons elems_tail by simp
    then have a: "raw_after b ch_rbrack e = RComma (e + 1)" by (simp add: after_byte)
    have "drop (e + 1) b = elems_json ff True xs @ ch_rbrack # rest" using drop_append_at [of e b "[ch_comma]"] t' by simp
    then have "scanElems b (e + 1) = Some (e + 1 + length (elems_json ff True xs) + 1)"
      using Cons.IH Cons.prems(1) Cons by simp
    moreover have "length (elems_json ff True (x # xs)) = length (node_json ff x) + 1 + length (elems_json ff True xs)"
      using Cons elems_tail(1) [of ff y ys] by (simp add: sep_def)
    ultimately show ?thesis using sb v a by (simp add: scanElems.simps [of b i] e_def)
  qed
qed simp

lemma members_scan:
  "(\<And>k x. (k, x) \<in> set ms \<Longrightarrow> scans_as_value (node_json ff x)) \<Longrightarrow> ms \<noteq> [] \<Longrightarrow>
   drop i b = members_json ff True ms @ ch_rbrace # rest \<Longrightarrow>
   scanMembers b i = Some (i + length (members_json ff True ms) + 1) \<and> skipWS b i = i \<and> b ! i \<noteq> ch_rbrace"
proof (induction ms arbitrary: i)
  case (Cons m ms)
  obtain k x where m: "m = (k, x)" by fastforce
  define tail where "tail = members_json ff False ms @ ch_rbrace # rest"
  have d: "drop i b = json_string k @ ch_colon # node_json ff x @ tail" using Cons.prems(3) by (simp add: sep_def tail_def m)
  note ks = json_string_scans [OF d]
  have w: "skipWS b i = i" using ks by (simp add: skipWS.simps [of b i] wsLUT_iff)
  define q where "q = i + length (json_string k)"
  have key: "raw_key b i = Some (i, q)" using ks w by (simp add: raw_key_def q_def)
  have dq: "drop q b = ch_colon # node_json ff x @ tail" unfolding q_def by (rule drop_append_at [OF d])
  have dj: "drop (q + 1) b = node_json ff x @ tail" using drop_append_at [of q b "[ch_colon]"] dq by simp
  have h: "head_byte tail = (if ms = [] then ch_rbrace else ch_comma)"
  proof (cases ms)
    case (Cons y ys)
    show ?thesis unfolding tail_def Cons elems_tail(2) by simp
  qed (simp add: tail_def)
  then have nd: "\<not> IsNonDelim (head_byte tail)" by (simp add: IsNonDelim_iff)
  define e where "e = q + 1 + length (node_json ff x)"
  have v: "scanValue b (q + 1) = Some e" using Cons.prems(1) [of k x] dj nd m unfolding scans_as_value_def e_def by simp
  have col: "raw_colon b q = Some (q + 1)"
    using drop_hd [OF dq] scans_bounds(1) [OF v] by (simp add: raw_colon_def skipWS.simps [of b q] wsLUT_iff)
  have t: "drop e b = tail" unfolding e_def by (rule drop_append_at [OF dj])
  show ?case
  proof (cases ms)
    case Nil
    have "drop e b = ch_rbrace # rest" using t by (simp add: tail_def Nil)
    then have "raw_after b ch_rbrace e = RClose (e + 1)" by (simp add: after_byte)
    then show ?thesis using key col v w ks(3) by (simp add: scanMembers.simps [of b i] e_def q_def Nil m sep_def)
  next
    case (Cons y ys)
    have t': "drop e b = ch_comma # members_json ff True ms @ ch_rbrace # rest" using t unfolding tail_def Cons elems_tail(2) by simp
    then have a: "raw_after b ch_rbrace e = RComma (e + 1)" by (simp add: after_byte)
    have "drop (e + 1) b = members_json ff True ms @ ch_rbrace # rest" using drop_append_at [of e b "[ch_comma]"] t' by simp
    then have "scanMembers b (e + 1) = Some (e + 1 + length (members_json ff True ms) + 1)"
      using Cons.IH [of "e + 1"] Cons.prems(1) Cons by (metis list.distinct(1) list.set_intros(2))
    moreover have "length (members_json ff True (m # ms)) = length (json_string k) + 1 + length (node_json ff x) + 1 + length (members_json ff True ms)"
      using Cons elems_tail(2) [of ff y ys] by (simp add: sep_def m)
    ultimately show ?thesis using key col v w ks(3) a by (simp add: scanMembers.simps [of b i] e_def q_def)
  qed
qed simp

lemma array_scans:
  assumes "\<And>x. x \<in> set xs \<Longrightarrow> scans_as_value (node_json ff x)"
  shows "scans_as_value (node_json ff (NArr xs))"
  unfolding scans_as_value_def
proof (intro allI impI)
  fix b i rest assume "drop i b = node_json ff (NArr xs) @ rest"
  then have d: "drop i b = ch_lbrack # elems_json ff True xs @ ch_rbrack # rest" by simp
  note h = drop_hd [OF d]
  have n: "drop (i + 1) b = elems_json ff True xs @ ch_rbrack # rest" using drop_append_at [of i b "[ch_lbrack]"] d by simp
  show "scanValue b i = Some (i + length (node_json ff (NArr xs)))"
  proof (cases "xs = []")
    case True
    then have "drop (i + 1) b = ch_rbrack # rest" using n by simp
    then have "i + 1 < length b \<and> b ! (i + 1) = ch_rbrack" by (rule drop_hd)
    then show ?thesis using h True by (simp add: scanValue.simps [of b i] scanArray.simps [of b i] skipWS.simps [of b "Suc i"] wsLUT_iff)
  next
    case False
    have "scanElems b (i + 1) = Some (i + 1 + length (elems_json ff True xs) + 1) \<and> skipWS b (i + 1) = i + 1 \<and> b ! (i + 1) \<noteq> ch_rbrack"
      by (rule elems_scan [OF assms False n])
    then show ?thesis using h by (simp add: scanValue.simps [of b i] scanArray.simps [of b i])
  qed
qed

lemma object_scans:
  assumes "\<And>k x. (k, x) \<in> set ms \<Longrightarrow> scans_as_value (node_json ff x)"
  shows "scans_as_value (node_json ff (NObj ms))"
  unfolding scans_as_value_def
proof (intro allI impI)
  fix b i rest assume "drop i b = node_json ff (NObj ms) @ rest"
  then have d: "drop i b = ch_lbrace # members_json ff True ms @ ch_rbrace # rest" by simp
  note h = drop_hd [OF d]
  have n: "drop (i + 1) b = members_json ff True ms @ ch_rbrace # rest" using drop_append_at [of i b "[ch_lbrace]"] d by simp
  show "scanValue b i = Some (i + length (node_json ff (NObj ms)))"
  proof (cases "ms = []")
    case True
    then have "drop (i + 1) b = ch_rbrace # rest" using n by simp
    then have "i + 1 < length b \<and> b ! (i + 1) = ch_rbrace" by (rule drop_hd)
    then show ?thesis using h True by (simp add: scanValue.simps [of b i] scanObject.simps [of b i] skipWS.simps [of b "Suc i"] wsLUT_iff)
  next
    case False
    have "scanMembers b (i + 1) = Some (i + 1 + length (members_json ff True ms) + 1) \<and> skipWS b (i + 1) = i + 1 \<and> b ! (i + 1) \<noteq> ch_rbrace"
      by (rule members_scan [OF assms False n])
    then show ?thesis using h by (simp add: scanValue.simps [of b i] scanObject.simps [of b i])
  qed
qed

text \<open>Decimal integers are JSON numbers.\<close>

lemma digit_word: "n < 10 \<Longrightarrow> IsDigit (word_of_nat (48 + n)) \<and> (n \<noteq> 0 \<longrightarrow> word_of_nat (48 + n) \<noteq> ch_0)"
proof -
  assume "n < 10"
  then have "n \<in> {0, 1, 2, 3, 4, 5, 6, 7, 8, 9}" by auto
  then show ?thesis by (auto simp: IsDigit_def)
qed

lemma dec_digits_form: "dec_digits n \<noteq> [] \<and> list_all IsDigit (dec_digits n) \<and> (n \<noteq> 0 \<longrightarrow> hd (dec_digits n) \<noteq> ch_0) \<and> (n < 10 \<longrightarrow> length (dec_digits n) = 1)"
proof (induction n rule: dec_digits.induct)
  case (1 n)
  show ?case
  proof (cases "n < 10")
    case True
    then show ?thesis using digit_word [OF True] by (simp add: dec_digits.simps [of n])
  next
    case False
    then have "n div 10 \<noteq> 0" by simp
    then show ?thesis using False "1.IH" digit_word [of "n mod 10"] by (simp add: dec_digits.simps [of n] hd_append)
  qed
qed

lemma int_part_digits: "int_part (dec_digits n)"
  using dec_digits_form [of n] by (cases "dec_digits n") (auto simp: int_part_def digits_def)

lemma dec_number: "is_number (dec_digits n)" "is_number (ch_minus # dec_digits n)"
  using is_numberI [of "[]" "dec_digits n" "[]" "[]"] is_numberI [of "[ch_minus]" "dec_digits n" "[]" "[]"] int_part_digits
  by (auto simp: frac_text_def exp_text_def)

lemma printable_set:
  "printable_elems ff xs \<Longrightarrow> x \<in> set xs \<Longrightarrow> printable ff x"
  "printable_members ff ms \<Longrightarrow> (k, x) \<in> set ms \<Longrightarrow> printable ff x"
  by (induction xs) (auto, induction ms, auto)

lemma node_scans: "printable ff v \<Longrightarrow> scans_as_value (node_json ff v)"
proof (induction v)
  case (NArr xs)
  then show ?case using printable_set(1) [of ff xs] by (intro array_scans) simp
next
  case (NObj ms)
  have "scans_as_value (node_json ff x)" if "(k, x) \<in> set ms" for k x
    using NObj.IH [OF that, of x] printable_set(2) [of ff ms k x] NObj.prems that by simp
  then show ?case by (rule object_scans)
qed (auto simp: number_scans literal_scans dec_number AppendInt_def AppendUint_def json_string_scans_as_value intro: plain_string_scans [simplified])

lemma node_json_Valid: "printable ff v \<Longrightarrow> raw_Valid (node_json ff v)"
proof -
  assume "printable ff v"
  then have v: "scanValue (node_json ff v) 0 = Some (length (node_json ff v))"
    using node_scans [of ff v] unfolding scans_as_value_def by (force simp: IsNonDelim_iff)
  then show ?thesis using scans_bounds(1) [OF v] by (simp add: raw_Valid_def skipWS.simps [of _ "length _"])
qed

lemma plain_json_string: "printable ff (NStr t s) \<Longrightarrow> node_json ff (NStr t s) = json_string s"
proof -
  assume "printable ff (NStr t s)"
  then have "t = ch_quote \<or> list_all (\<lambda>c. \<not> is_stop c \<and> \<not> c < 0x20) s" by simp
  moreover have "concat (map json_byte s) = s" if "list_all (\<lambda>c. \<not> is_stop c \<and> \<not> c < 0x20) s"
    using that by (induction s) (auto simp: json_byte_def)
  ultimately show ?thesis by (auto simp: json_string_def)
qed

lemma tapeToJSON_stored: "stores_value d v \<Longrightarrow> fuel v \<le> n \<Longrightarrow> tapeToJSON ff n d = Some (node_json ff v)"
  using append_stored(1) [of d "dsc_tidx d" v n ff "[]"] by (simp add: tapeToJSON_def)

lemma Marshal_stored: "stores_value d v \<Longrightarrow> fuel v \<le> n \<Longrightarrow> Value_MarshalJSON ff n d = Some (node_json ff v)"
  by (simp add: Value_MarshalJSON_def tapeToJSON_stored)

section \<open>Claims\<close>

text \<open>
  Claim C39. \<open>appendJSONString\<close> is inverted by both string decoders of the library: whatever bytes it is
  given, and whatever follows, the decoder's lexer reads back those bytes and stops at the closing
  quote, and \<open>Str\<close> of a byte-backed value returns them.
\<close>

theorem appendJSONString_roundtrip:
  "raw_Str (appendJSONString [] s) = Some s \<and>
   (\<exists>x. decode_from (appendJSONString [] s @ rest) 1 = (s, length (appendJSONString [] s) - 1, x, True))"
  using json_string_Str [of s] json_string_decodes [of 0 "json_string s @ rest" s rest] by (simp add: appendJSONString_eq)



text \<open>
  A string survives the way from a tape over JSON text to a byte-backed value: \<open>Str\<close> of the
  tape-backed value and \<open>Str\<close> of its marshalled text return the same bytes.
\<close>

theorem marshalled_string:
  assumes "stores_value d (NStr t s)" "printable ff (NStr t s)" "0 < n"
  shows "Value_Str d = Some (Some s) \<and> (\<exists>b. Value_MarshalJSON ff n d = Some b \<and> raw_Str b = Some s)"
proof -
  have "Value_Str d = Some (Some s)" using assms(1) by (simp add: Value_Str_def)
  moreover have "Value_MarshalJSON ff n d = Some (json_string s)"
    using Marshal_stored [OF assms(1), of n ff] plain_json_string [OF assms(2)] assms(3) by simp
  ultimately show ?thesis using json_string_Str by blast
qed

lemma pair_key_stored: "stores_value (child pair_doc 1) (NStr ch_quote (lit ''k''))"
  using pair_key by (simp add: pair_eval IsStringTag_def)

theorem marshalled_string_witness:
  "Value_Str (child pair_doc 1) = Some (Some (lit ''k'')) \<and>
   (\<exists>b. Value_MarshalJSON (\<lambda>_. []) 1 (child pair_doc 1) = Some b \<and> raw_Str b = Some (lit ''k''))"
  using marshalled_string [OF pair_key_stored, of "\<lambda>_. []" 1] by simp

end
