(* ===== verification/Num_Node.thy ===== *)
theory Num_Node
  imports Walk TapeValue
begin

text \<open>
  The node the tape keeps of a number text: \<open>num_node\<close> decides from the digits whether it is an
  \<^verbatim>\<open>int64\<close>, a \<^verbatim>\<open>uint64\<close>, a double or the text itself, in unbounded arithmetic. It is the specification of
  \<^verbatim>\<open>visitNumber\<close> in \<^verbatim>\<open>internal/gdec/tape.go\<close>.
\<close>

section \<open>The specification\<close>

text \<open>A decimal text holds an integer when nothing but digits follows its sign.\<close>

definition integer_text :: "bytes \<Rightarrow> bool" where
  "integer_text t \<longleftrightarrow> list_all IsDigit (drop (minus_len t) t)"

definition zero_or_dot :: "byte \<Rightarrow> bool" where
  "zero_or_dot c \<longleftrightarrow> c = ch_0 \<or> c = ch_dot"

definition mantissa :: "bytes \<Rightarrow> bytes" where
  "mantissa t = takeWhile (\<lambda>c. IsDigit c \<or> c = ch_dot) (drop (minus_len t) t)"

text \<open>The bytes of the mantissa from its first significant digit on, a decimal point among them included.\<close>

definition significant :: "bytes \<Rightarrow> nat" where
  "significant t = length (dropWhile zero_or_dot (mantissa t))"

definition int_node :: "bytes \<Rightarrow> int \<Rightarrow> node" where
  "int_node t v =
     (if - (2 ^ 63) \<le> v \<and> v < 2 ^ 63 then NInt (word_of_int v)
      else if 0 \<le> v \<and> v < 2 ^ 64 then NUint (word_of_int v)
      else NNum t)"

definition num_node :: "bytes \<Rightarrow> node" where
  "num_node t =
     (case dec_text t of (neg, m, e) \<Rightarrow>
        if integer_text t then int_node t (if neg then - m else m)
        else if 19 < significant t \<or> (308 < e \<and> m \<noteq> 0) then NNum t
        else NDouble (ParseFloat t))"

lemma dec_int_snoc: "dec_int (ds @ [c]) = 10 * dec_int ds + uint (c - 0x30)"
  by (simp add: dec_int_def)

lemma dec_val_snoc: "dec_val (ds @ [c]) = 10 * dec_val ds + unat (c - 0x30)"
  by (induction ds) (auto simp: algebra_simps)

lemma dec_int_val: "dec_int ds = int (dec_val ds)"
proof (induction ds rule: rev_induct)
  case Nil
  then show ?case by (simp add: dec_int_def)
next
  case (snoc c ds)
  then show ?case by (simp add: dec_int_snoc dec_val_snoc)
qed

lemma filter_digits: "list_all IsDigit ds \<Longrightarrow> filter (\<lambda>c. c \<noteq> ch_dot) ds = ds"
  by (induction ds) (auto simp: IsDigit_iff)

text \<open>The parts of a number text, as \<open>is_number\<close> splits it, and what the definitions above make of them.\<close>

definition num_parts :: "bytes \<Rightarrow> bytes \<Rightarrow> bytes \<Rightarrow> bytes \<Rightarrow> bytes \<Rightarrow> bool" where
  "num_parts t s i f x \<longleftrightarrow> t = s @ i @ f @ x \<and> (s = [] \<or> s = [ch_minus]) \<and> int_part i \<and> frac_text f \<and> exp_text x"

lemma is_number_parts: "is_number t \<longleftrightarrow> (\<exists>s i f x. num_parts t s i f x)"
  by (simp add: is_number_def num_parts_def)

lemma int_part_head: "int_part i \<Longrightarrow> i \<noteq> [] \<and> IsDigit (hd i) \<and> list_all IsDigit i"
  by (cases i) (auto simp: int_part_def digits_def)

lemma minus_len_parts: "s = [] \<or> s = [ch_minus] \<Longrightarrow> int_part i \<Longrightarrow> minus_len (s @ i @ ys) = length s"
  using int_part_head [of i] by (cases i) (auto simp: minus_len_def IsDigit_iff)

lemma exp_text_head: "exp_text x \<Longrightarrow> x = [] \<or> hd x = ch_e \<or> hd x = ch_E"
  by (auto simp: exp_text_def)

lemma head_exp_tail:
  assumes "exp_text x" "\<not> IsNonDelim (head_byte ys)"
  shows "\<not> IsDigit (head_byte (x @ ys))" "head_byte (x @ ys) \<noteq> ch_dot" "\<not> zero_or_dot (head_byte (x @ ys))"
    "head_byte (x @ ys) = ch_e \<or> head_byte (x @ ys) = ch_E \<longleftrightarrow> x \<noteq> []"
  using exp_text_head [OF assms(1)] delim_no_number [OF assms(2)]
  by (cases x; auto simp: IsDigit_iff zero_or_dot_def)+

lemma frac_text_digits: "frac_text f \<Longrightarrow> \<exists>ds. list_all IsDigit ds \<and> filter (\<lambda>c. c \<noteq> ch_dot) f = ds \<and>
    (f = [] \<and> ds = [] \<or> f = ch_dot # ds \<and> ds \<noteq> [])"
  by (auto simp: frac_text_def digits_def filter_digits)

lemma takeWhile_parts: "list_all P xs \<Longrightarrow> \<not> P (head_byte ys) \<Longrightarrow> takeWhile P (xs @ ys) = xs"
  by (cases ys) (auto simp: list_all_iff takeWhile_append)

lemma no_nondelim_space [simp]: "\<not> IsNonDelim 0x20"
  by (simp add: IsNonDelim_iff)

definition exp_val :: "bytes \<Rightarrow> int" where
  "exp_val x = (let e = int (dec_val (digit_run (drop (sign_len (tl x)) (tl x)))) in if head_byte (tl x) = ch_minus then - e else e)"

lemma frac_tail:
  assumes "frac_text f" "exp_text x" "\<not> IsNonDelim (head_byte ys)"
  shows "\<not> IsDigit (head_byte (f @ x @ ys))" "list_all IsDigit (tl f)" "f = [] \<or> f = ch_dot # tl f \<and> tl f \<noteq> []"
  using assms head_exp_tail(1) [OF assms(2,3)] by (auto simp: frac_text_def digits_def IsDigit_iff)

lemma dec_text_parts:
  assumes "num_parts t s i f x"
  shows "dec_text t = (s = [ch_minus], int (dec_val (i @ tl f)), exp_val x - int (length (tl f)))"
proof -
  note p = assms [unfolded num_parts_def]
  have i: "list_all IsDigit i" "i \<noteq> []" using p int_part_head [of i] by auto
  note f = frac_tail [of f x "[]", simplified]
  have m: "minus_len t = length s" using p minus_len_parts [of s i "f @ x"] by simp
  have neg: "head_byte t = ch_minus \<longleftrightarrow> s = [ch_minus]" using m p by (auto simp: minus_len_def split: if_splits)
  have d1: "digit_run (i @ f @ x) = i" using i f(1) p by (intro digit_run_append) auto
  have x: "\<not> IsDigit (head_byte x)" "head_byte x \<noteq> ch_dot" "head_byte x = ch_e \<or> head_byte x = ch_E \<longleftrightarrow> x \<noteq> []"
    using head_exp_tail [of x "[]"] p by auto
  have d2: "digit_run (tl f @ x) = tl f" using x f(2) p by (intro digit_run_append) auto
  have tx: "(if x \<noteq> [] then tl x else []) = tl x" by simp
  have h: "head_byte (f @ x) = ch_dot \<longleftrightarrow> f \<noteq> []" using f(3) p x(2) by (cases f) auto
  show ?thesis
  proof (cases "f = []")
    case True
    then show ?thesis using p m neg d1 x tx h unfolding dec_text_def Let_def by (simp add: exp_val_def dec_int_val Let_def)
  next
    case False
    then have "f = ch_dot # tl f" using f(3) p by simp
    then obtain fd where fd: "f = ch_dot # fd" by blast
    show ?thesis using p m neg d1 d2 x tx h unfolding dec_text_def Let_def fd by (simp add: exp_val_def dec_int_val Let_def)
  qed
qed

lemma mantissa_parts:
  assumes "num_parts t s i f x"
  shows "mantissa t = i @ f" "integer_text t \<longleftrightarrow> f = [] \<and> x = []"
proof -
  note p = assms [unfolded num_parts_def]
  have i: "list_all IsDigit i" "i \<noteq> []" using p int_part_head [of i] by auto
  note f = frac_tail [of f x "[]", simplified]
  have m: "minus_len t = length s" using p minus_len_parts [of s i "f @ x"] by simp
  have x: "\<not> IsDigit (head_byte x)" "head_byte x \<noteq> ch_dot" using head_exp_tail [of x "[]"] p by auto
  have "takeWhile (\<lambda>c. IsDigit c \<or> c = ch_dot) ((i @ f) @ x) = i @ f"
  proof (rule takeWhile_parts)
    show "list_all (\<lambda>c. IsDigit c \<or> c = ch_dot) (i @ f)" using i f(2,3) p by (cases f) (auto simp: list_all_iff)
  qed (use x in simp)
  then show "mantissa t = i @ f" using m p by (simp add: mantissa_def)
  have "f = [] \<or> \<not> list_all IsDigit f" using f(3) p by (cases f) (auto simp: IsDigit_iff)
  moreover have "x = [] \<or> \<not> list_all IsDigit x" using x(1) by (cases x) auto
  ultimately show "integer_text t \<longleftrightarrow> f = [] \<and> x = []" using m p i by (auto simp: integer_text_def)
qed

text \<open>A mantissa of at most 19 significant bytes is below \<open>10\<^sup>1\<^sup>9\<close>.\<close>

lemma dec_val_zeros: "list_all IsDigit (filter (\<lambda>c. c \<noteq> ch_dot) m) \<Longrightarrow>
    dec_val (filter (\<lambda>c. c \<noteq> ch_dot) m) = dec_val (filter (\<lambda>c. c \<noteq> ch_dot) (dropWhile zero_or_dot m))"
  by (induction m) (auto simp: zero_or_dot_def)

lemma significant_bound:
  assumes "num_parts t s i f x"
  shows "dec_val (i @ tl f) < 10 ^ significant t"
proof -
  note p = assms [unfolded num_parts_def]
  have i: "list_all IsDigit i" "list_all IsDigit (tl f)" using p int_part_head [of i] frac_tail(2) [of f x "[]"] by auto
  have m: "filter (\<lambda>c. c \<noteq> ch_dot) (mantissa t) = i @ tl f"
    using mantissa_parts(1) [OF assms] frac_tail(3) [of f x "[]"] p i by (cases f) (auto simp: filter_digits)
  let ?d = "dropWhile zero_or_dot (mantissa t)"
  have "dec_val (i @ tl f) = dec_val (filter (\<lambda>c. c \<noteq> ch_dot) ?d)" using dec_val_zeros [of "mantissa t"] m i by simp
  also have "\<dots> < 10 ^ length (filter (\<lambda>c. c \<noteq> ch_dot) ?d)"
  proof (rule dec_val_less)
    have "set (filter (\<lambda>c. c \<noteq> ch_dot) ?d) \<subseteq> set (i @ tl f)" unfolding m [symmetric] by (auto dest: set_dropWhileD)
    then show "list_all IsDigit (filter (\<lambda>c. c \<noteq> ch_dot) ?d)" using i by (auto simp: list_all_iff)
  qed
  also have "\<dots> \<le> 10 ^ significant t" by (intro power_increasing) (simp_all add: significant_def length_filter_le)
  finally show ?thesis .
qed

end
