(* ===== verification/Number_Visit.thy ===== *)
theory Number_Visit
  imports Num_Node
begin

text \<open>
  What \<open>visitNumber\<close> of \<^verbatim>\<open>internal/gdec/tape.go\<close> makes of a number text: the words of \<open>num_node\<close>. The
  64-bit magnitude it accumulates wraps beyond 19 digits and the exponent is clamped at 18 digits;
  the lemmas show that neither is visible in the result.
\<close>

section \<open>The digits and the exponent\<close>

lemma at_digits_eq:
  "p \<le> length src \<Longrightarrow> at_digits src p v =
     (let ds = digit_run (drop p src) in (p + length ds, v * 10 ^ length ds + word_of_nat (dec_val ds)))"
proof (induction src p v rule: at_digits.induct)
  case (1 src p v)
  note unf = at_digits.simps [of src p v]
  show ?case
  proof (cases "p < length src \<and> IsDigit (src ! p)")
    case True
    then have d: "IsDigit (At src p)" "At src p = src ! p" by simp_all
    have e: "word_of_nat (unat (src ! p - 0x30)) = (ucast (src ! p - 0x30) :: u64)"
      by (rule of_nat_unat)
    have "at_digits src (p + 1) (10 * v + ucast (At src p - 0x30)) =
        (let ds = digit_run (drop (p + 1) src) in
          (p + 1 + length ds, (10 * v + ucast (At src p - 0x30)) * 10 ^ length ds + word_of_nat (dec_val ds)))"
      using True d by (intro "1.IH") auto
    then show ?thesis using True d unf digit_run_step [of p src] e
      by (simp add: Let_def algebra_simps)
  next
    case False
    then have "\<not> IsDigit (At src p)" using "1.prems" by (cases "p < length src") auto
    then show ?thesis using unf digit_run_stop [OF False] by simp
  qed
qed

lemma skip_zeros_eq:
  "s \<le> length src \<Longrightarrow> skip_zeros P src s = s + length (takeWhile P (drop s src))"
proof (induction P src s rule: skip_zeros.induct)
  case (1 P src s)
  note unf = skip_zeros.simps [of P src s]
  show ?case
  proof (cases "s < length src")
    case True
    then have d: "drop s src = src ! s # drop (s + 1) src" by (rule drop_nth)
    show ?thesis
    proof (cases "P (src ! s)")
      case p: True
      then have "skip_zeros P src (s + 1) = s + 1 + length (takeWhile P (drop (s + 1) src))" using True by (intro "1.IH") auto
      then show ?thesis using unf True p d by simp
    qed (use True unf d in simp)
  qed (use "1.prems" unf in simp)
qed

lemma dec_val_strip: "list_all IsDigit ds \<Longrightarrow> dec_val ds = dec_val (dropWhile (\<lambda>c. c = ch_0) ds)"
  by (induction ds) auto

lemma dec_val_ge: "ds \<noteq> [] \<Longrightarrow> list_all IsDigit ds \<Longrightarrow> hd ds \<noteq> ch_0 \<Longrightarrow> 10 ^ (length ds - 1) \<le> dec_val ds"
proof (cases ds)
  case (Cons c cs)
  assume "list_all IsDigit ds" "hd ds \<noteq> ch_0"
  then have "IsDigit c" "c \<noteq> ch_0" using Cons by auto
  then have "c - 0x30 \<noteq> 0" by auto
  then have "1 \<le> unat (c - 0x30)" by (simp add: unat_gt_0 Suc_leI)
  then have "1 * 10 ^ length cs \<le> unat (c - 0x30) * 10 ^ length cs" by (rule mult_right_mono) simp
  then have "10 ^ length cs \<le> unat (c - 0x30) * 10 ^ length cs" by (simp only: mult_1)
  then have "10 ^ length cs \<le> unat (c - 0x30) * 10 ^ length cs + dec_val cs" by (rule trans_le_add1)
  then show ?thesis unfolding Cons by simp
qed simp

text \<open>An exponent out of the range of a double stays out of it, on the same side, when it is clamped.\<close>

definition exp_class :: "int \<Rightarrow> int \<Rightarrow> bool" where
  "exp_class a b \<longleftrightarrow> a = b \<or> (308 < a \<and> 308 < b) \<or> (a < - 342 \<and> b < - 342)"

lemma parseExponent_value:
  assumes "drop p src = tl x @ ys" "p \<le> length src" "exp_text x" "x \<noteq> []" "\<not> IsNonDelim (head_byte ys)" "\<bar>e0\<bar> < 2 ^ 31"
  shows "\<exists>e. parseExponent src p e0 = ((p + length (tl x), e), True) \<and> exp_class e (exp_val x + e0)"
proof -
  obtain c s ds where x: "x = c # s @ ds" "s = [] \<or> s = [ch_plus] \<or> s = [ch_minus]" "digits ds"
    using assms(3,4) by (auto simp: exp_text_def)
  have ds: "list_all IsDigit ds" "ds \<noteq> []" "IsDigit (head_byte ds)" using x(3) by (cases ds; auto simp: digits_def)+
  have hd: "head_byte (drop p src) = (if s = [] then head_byte ds else hd s)" using assms(1) x(1,2) ds(2) by (cases ds) auto
  have neg: "At src p = ch_minus \<longleftrightarrow> s = [ch_minus]" "At src p = ch_plus \<longleftrightarrow> s = [ch_plus]"
    using hd x(2) ds(3) by (auto simp: At_head IsDigit_iff)
  let ?se = "p + length s"
  have "drop ?se src = drop (length s) (drop p src)" by (simp add: add.commute)
  then have se: "drop ?se src = ds @ ys" using assms(1) x(1) by simp
  have sel: "?se + length ds + length ys = length src"
    using arg_cong [OF assms(1), of length] assms(2) x(1) by simp
  have run: "digit_run (drop ?se src) = ds"
    using ds(1) delim_no_number [OF assms(5)] unfolding se by (intro digit_run_append) auto
  have ad: "at_digits src ?se 0 = (?se + length ds, word_of_nat (dec_val ds))"
    using at_digits_eq [of ?se src 0] run sel by simp
  let ?strip = "dropWhile (\<lambda>c. c = ch_0) ds"
  have skip: "?se + length ds - skip_zeros (\<lambda>c. c = ch_0) src ?se = length ?strip"
  proof -
    have "head_byte ys \<noteq> ch_0" using assms(5) by (auto simp: IsNonDelim_iff)
    then have "takeWhile (\<lambda>c. c = ch_0) (ds @ ys) = takeWhile (\<lambda>c. c = ch_0) ds"
      by (induction ds) (cases ys; auto)+
    then have "skip_zeros (\<lambda>c. c = ch_0) src ?se = ?se + length (takeWhile (\<lambda>c. c = ch_0) ds)"
      using skip_zeros_eq [of ?se src "\<lambda>c. c = ch_0"] sel se by simp
    moreover have "length ds = length (takeWhile (\<lambda>c. c = ch_0) ds) + length ?strip"
      by (metis length_append takeWhile_dropWhile_id)
    ultimately show ?thesis by simp
  qed
  have st: "list_all IsDigit ?strip" "?strip \<noteq> [] \<Longrightarrow> hd ?strip \<noteq> ch_0" "length ?strip \<le> length ds"
    using ds(1) hd_dropWhile [of "\<lambda>c. c = ch_0" ds] by (auto simp: list_all_iff length_dropWhile_le dest: set_dropWhileD)
  have v: "dec_val ds = dec_val ?strip" by (rule dec_val_strip [OF ds(1)])
  let ?big = "?se + 18 < ?se + length ds \<and> skip_zeros (\<lambda>c. c = ch_0) src ?se + 18 < ?se + length ds"
  have big: "?big \<longleftrightarrow> 18 < length ?strip" using skip st(3) by auto
  let ?en = "if ?big then 999999999999999999 else word_of_nat (dec_val ds) :: u64"
  have ev: "exp_val x = (if s = [ch_minus] then - int (dec_val ds) else int (dec_val ds))"
  proof -
    have "sign_len (s @ ds) = length s" using x(2) ds(2,3) by (cases ds) (auto simp: sign_len_def IsDigit_iff)
    moreover have "digit_run ds = ds" using ds(1) digit_run_append [of ds "[]"] by simp
    moreover have "head_byte (s @ ds) = ch_minus \<longleftrightarrow> s = [ch_minus]" using x(2) ds(2,3) by (cases ds) (auto simp: IsDigit_iff)
    ultimately show ?thesis unfolding x(1) exp_val_def by simp
  qed
  have en: "sint ?en = int (dec_val ds) \<or> (sint ?en = 999999999999999999 \<and> 10 ^ 18 \<le> int (dec_val ds))"
  proof (cases ?big)
    case True
    then have "18 < length ?strip" using big by simp
    then have n: "?strip \<noteq> []" by (metis list.size(3) not_less_zero)
    have "(10 :: nat) ^ 18 \<le> 10 ^ (length ?strip - 1)" using \<open>18 < length ?strip\<close> by (intro power_increasing) linarith+
    also have "\<dots> \<le> dec_val ?strip" by (rule dec_val_ge [OF n st(1) st(2) [OF n]])
    finally have "10 ^ 18 \<le> dec_val ds" using v by simp
    then have "(10 :: int) ^ 18 \<le> int (dec_val ds)" by (metis of_nat_le_iff of_nat_numeral of_nat_power)
    then show ?thesis using True by simp
  next
    case False
    then have l: "length ?strip \<le> 18" unfolding big by (rule leI)
    have "dec_val ds < 10 ^ length ?strip" using dec_val_less [OF st(1)] v by simp
    also have "\<dots> \<le> 10 ^ 18" using l by (intro power_increasing) auto
    finally have b: "dec_val ds < 2 ^ 63" by simp
    have "sint (word_of_nat (dec_val ds) :: u64) = int (dec_val ds)"
      using b by (simp add: signed_of_nat signed_take_bit_int_eq_self)
    then show ?thesis by (simp only: False if_False simp_thms)
  qed
  have pe: "parseExponent src p e0 = ((?se + length ds, if s = [ch_minus] then e0 - sint ?en else e0 + sint ?en), True)"
    using neg ad ds(2) x(2) unfolding parseExponent_def Let_def by auto
  have "exp_class (if s = [ch_minus] then e0 - sint ?en else e0 + sint ?en) (exp_val x + e0)"
    using en assms(6) ev by (auto simp: exp_class_def)
  then show ?thesis using pe x(1) by (intro exI [of _ "if s = [ch_minus] then e0 - sint ?en else e0 + sint ?en"]) (simp add: algebra_simps)
qed

section \<open>Doubles too small to round up\<close>

lemma bit_len_gt: "2 ^ j \<le> n \<Longrightarrow> j < bit_len n"
proof (induction j arbitrary: n)
  case 0
  then show ?case by (subst bit_len.simps) simp
next
  case (Suc j)
  have n: "0 < n" by (rule less_le_trans [OF _ Suc.prems]) simp
  have "2 ^ j \<le> n div 2" using Suc.prems by simp
  then show ?case using Suc.IH [of "n div 2"] n by (subst bit_len.simps) simp
qed

lemma bit_len_le: "n < 2 ^ j \<Longrightarrow> bit_len n \<le> j"
proof (induction j arbitrary: n)
  case 0
  then show ?case by (subst bit_len.simps) simp
next
  case (Suc j)
  have "n div 2 < 2 ^ j" using Suc.prems by simp
  then show ?case using Suc.IH [of "n div 2"] by (subst bit_len.simps) simp
qed

lemma big_powers: "2 ^ 1139 \<le> (10 :: int) ^ 343" "(10 :: int) ^ 19 < 2 ^ 64" "(10 :: int) ^ 19 * 2 ^ 1075 < 10 ^ 343"
  by simp_all

lemma round64_tiny:
  assumes "0 < m" "m < 10 ^ 19" "342 < k"
  shows "round64 neg m (10 ^ k) = (if neg then push_bit 63 1 else 0)"
proof -
  have d: "(10 :: int) ^ 343 \<le> 10 ^ k" using assms(3) by (intro power_increasing) auto
  have "m < 2 ^ 64" using assms(2) big_powers(2) by linarith
  then have "bit_len m \<le> 64" by (rule bit_len_le)
  moreover have "1139 < bit_len (10 ^ k)" by (rule bit_len_gt) (rule order_trans [OF big_powers(1) d])
  ultimately have e: "max (exponent2 m (10 ^ k)) (- 1022) = - 1022"
    by (auto simp: exponent2_def Let_def max_def)
  have "m * 2 ^ 1075 < 10 ^ 19 * 2 ^ 1075" by (rule mult_strict_right_mono [OF assms(2)]) simp
  then have "m * 2 ^ 1075 < 10 ^ k" by (rule less_le_trans [OF less_trans [OF _ big_powers(3)] d])
  moreover have "m * 2 ^ 1075 = 2 * (m * 2 ^ 1074)" by simp
  ultimately have q: "2 * (m * 2 ^ 1074) < 10 ^ k" by (simp only:)
  have z: "0 \<le> m * 2 ^ 1074" using assms(1) by simp
  then have z': "m * 2 ^ 1074 < 10 ^ k" using q by linarith
  have "m * 2 ^ 1074 div 10 ^ k = 0 \<and> m * 2 ^ 1074 mod 10 ^ k = m * 2 ^ 1074"
    using div_pos_pos_trivial [OF z z'] mod_pos_pos_trivial [OF z z'] by (rule conjI)
  then have "round_even (m * 2 ^ 1074) (10 ^ k) = 0" using q by (simp only: round_even_def Let_def) simp
  then show ?thesis unfolding round64_def Let_def e by (simp add: inf_bits_def)
qed

section \<open>The branches of a number\<close>

text \<open>A number text \<open>t\<close> with parts \<open>s\<close>, \<open>i\<close>, \<open>f\<close> and \<open>x\<close> stands at \<open>o'\<close>, followed by a delimiter or the end.\<close>

definition number_token :: "input \<Rightarrow> nat \<Rightarrow> bytes \<Rightarrow> bytes \<Rightarrow> bytes \<Rightarrow> bytes \<Rightarrow> bytes \<Rightarrow> bytes \<Rightarrow> bool" where
  "number_token inp o' t s i f x ys \<longleftrightarrow> drop o' (in_src inp) = t @ ys \<and> o' \<le> length (in_src inp) \<and>
     length (in_src inp) < 2 ^ 31 \<and> num_parts t s i f x \<and> \<not> IsNonDelim (head_byte ys)"

lemma text_at:
  "number_token inp o' t s i f x ys \<Longrightarrow> drop o' (in_src inp) = t @ ys"
  "number_token inp o' t s i f x ys \<Longrightarrow> o' \<le> length (in_src inp)"
  "number_token inp o' t s i f x ys \<Longrightarrow> length (in_src inp) < 2 ^ 31"
  by (simp_all add: number_token_def)

lemma delim:
  "number_token inp o' t s i f x ys \<Longrightarrow> \<not> IsNonDelim (head_byte ys)"
  by (simp add: number_token_def)

lemma parts_text:
  "number_token inp o' t s i f x ys \<Longrightarrow> t = s @ i @ f @ x"
  "number_token inp o' t s i f x ys \<Longrightarrow> s = [] \<or> s = [ch_minus]"
  "number_token inp o' t s i f x ys \<Longrightarrow> int_part i"
  "number_token inp o' t s i f x ys \<Longrightarrow> frac_text f"
  "number_token inp o' t s i f x ys \<Longrightarrow> exp_text x"
  by (simp_all add: number_token_def num_parts_def)

lemma end_le:
  assumes T: "number_token inp o' t s i f x ys"
  shows "o' + length t \<le> length (in_src inp)"
  using arg_cong [OF text_at(1) [OF T], of length] text_at(2) [OF T] by simp

lemma drop_parts:
  assumes T: "number_token inp o' t s i f x ys"
  shows "drop (o' + length s) (in_src inp) = i @ f @ x @ ys"
  "drop (o' + length s + length i) (in_src inp) = f @ x @ ys"
  "drop (o' + length s + length i + length f) (in_src inp) = x @ ys"
  "drop (o' + length t) (in_src inp) = ys"
proof -
  have d: "drop (o' + n) (in_src inp) = drop n (t @ ys)" for n by (metis text_at(1) [OF T] add.commute drop_drop)
  show "drop (o' + length s) (in_src inp) = i @ f @ x @ ys" "drop (o' + length s + length i) (in_src inp) = f @ x @ ys"
    "drop (o' + length s + length i + length f) (in_src inp) = x @ ys" "drop (o' + length t) (in_src inp) = ys"
    unfolding add.assoc d by (simp_all add: parts_text(1) [OF T])
qed

lemma sign_at:
  assumes T: "number_token inp o' t s i f x ys"
  shows "At (in_src inp) o' = ch_minus \<longleftrightarrow> s = [ch_minus]"
  using text_at(1) [OF T] parts_text [OF T] int_part_head [OF parts_text(3) [OF T]] by (cases i) (auto simp: At_head IsDigit_iff)

lemma frac_at:
  assumes T: "number_token inp o' t s i f x ys"
  shows "At (in_src inp) (o' + length s + length i) = ch_dot \<longleftrightarrow> f \<noteq> []"
  using frac_tail(3) [OF parts_text(4) [OF T] parts_text(5) [OF T] delim [OF T]] head_exp_tail(2) [OF parts_text(5) [OF T] delim [OF T]] drop_parts(2) [OF T]
  by (cases f) (auto simp: At_head)

lemma exp_at:
  assumes T: "number_token inp o' t s i f x ys"
  shows "At (in_src inp) (o' + length s + length i + length f) = ch_e \<or> At (in_src inp) (o' + length s + length i + length f) = ch_E \<longleftrightarrow> x \<noteq> []"
  using head_exp_tail(4) [OF parts_text(5) [OF T] delim [OF T]] drop_parts(3) [OF T] by (simp add: At_head)

lemma int_digits:
  assumes T: "number_token inp o' t s i f x ys"
  shows "at_digits (in_src inp) (o' + length s) 0 = (o' + length s + length i, word_of_nat (dec_val i))"
proof -
  have "digit_run (drop (o' + length s) (in_src inp)) = i"
    unfolding drop_parts [OF T] using int_part_head [OF parts_text(3) [OF T]] frac_tail(1) [OF parts_text(4) [OF T] parts_text(5) [OF T] delim [OF T]] by (intro digit_run_append) auto
  moreover have "o' + length s \<le> length (in_src inp)" using end_le [OF T] parts_text(1) [OF T] by simp
  ultimately show ?thesis using at_digits_eq [of "o' + length s" "in_src inp" 0] by simp
qed

lemma frac_digits:
  assumes T: "number_token inp o' t s i f x ys" and a: "f \<noteq> []"
  shows "at_digits (in_src inp) (o' + length s + length i + 1) (word_of_nat (dec_val i)) =
    (o' + length s + length i + length f, word_of_nat (dec_val (i @ tl f)))"
proof -
  note f = frac_tail(2,3) [OF parts_text(4) [OF T] parts_text(5) [OF T] delim [OF T]]
  have "drop (o' + length s + length i + 1) (in_src inp) = tl (f @ x @ ys)"
    unfolding drop_parts(2) [OF T, symmetric] tl_drop_Suc by simp
  also have "\<dots> = tl f @ x @ ys" using a by simp
  finally have "digit_run (drop (o' + length s + length i + 1) (in_src inp)) = tl f"
    using f(1) head_exp_tail(1) [OF parts_text(5) [OF T] delim [OF T]] by (simp add: digit_run_append)
  moreover have "o' + length s + length i + 1 \<le> length (in_src inp)" using end_le [OF T] parts_text(1) [OF T] a by (cases f) auto
  moreover have "length f = Suc (length (tl f))" using a by (cases f) auto
  ultimately show ?thesis
    using at_digits_eq [of "o' + length s + length i + 1" "in_src inp" "word_of_nat (dec_val i)"] by (simp add: dec_val_append)
qed

lemma int_shape:
  assumes T: "number_token inp o' t s i f x ys"
  shows "i \<noteq> []" "\<not> (At (in_src inp) (o' + length s) = ch_0 \<and> 1 < length i)"
  using parts_text(3) [OF T] drop_parts(1) [OF T] by (cases i; auto simp: int_part_def digits_def At_head)+

lemma visit_integer:
  assumes T: "number_token inp o' t s i f x ys" and a: "f = []" "x = []"
  shows "visitNumber inp o' w = integer_number inp o' (o' + length t) (length i) (word_of_nat (dec_val i)) (s = [ch_minus]) w"
proof -
  have sd: "(if (s = [ch_minus]) then o' + 1 else o') = o' + length s" using parts_text(2) [OF T] by auto
  have hd: "\<not> (length i = 0 \<or> (At (in_src inp) (o' + length s) = ch_0 \<and> 1 < length i))" using int_shape [OF T] by simp
  have nf: "At (in_src inp) (o' + length s + length i) \<noteq> ch_dot" using frac_at [OF T] a by simp
  have nx: "\<not> (At (in_src inp) (o' + length s + length i) = ch_e \<or> At (in_src inp) (o' + length s + length i) = ch_E)"
    using exp_at [OF T] a by simp
  have pl: "o' + length s + length i = o' + length t" using parts_text(1) [OF T] a by simp
  show ?thesis
    unfolding visitNumber_def Let_def sign_at [OF T] sd int_digits [OF T] prod.case diff_add_inverse
    using hd nf nx pl by (simp only: if_False prod.case simp_thms)
qed

lemma visit_real:
  assumes T: "number_token inp o' t s i f x ys" and a: "f \<noteq> [] \<or> x \<noteq> []"
  obtains e where "visitNumber inp o' w =
      real_number inp o' (o' + length s) (o' + length t) (length (i @ f)) (word_of_nat (dec_val (i @ tl f))) e (s = [ch_minus]) w"
    "exp_class e (exp_val x - int (length (tl f)))"
proof -
  let ?src = "in_src inp" and ?p = "o' + length s + length i"
  have sd: "(if (s = [ch_minus]) then o' + 1 else o') = o' + length s" using parts_text(2) [OF T] by auto
  note f = frac_tail(2,3) [OF parts_text(4) [OF T] parts_text(5) [OF T] delim [OF T]]
  define e0 where "e0 = - int (length (tl f))"
  have e0: "\<bar>e0\<bar> < 2 ^ 31" using end_le [OF T] text_at(3) [OF T] parts_text(1) [OF T] by (cases f) (auto simp: e0_def)
  have mid: "(if At ?src ?p = ch_dot then at_digits ?src (?p + 1) (word_of_nat (dec_val i)) else (?p, word_of_nat (dec_val i))) =
      (?p + length f, word_of_nat (dec_val (i @ tl f)))"
    using frac_at [OF T] frac_digits [OF T] by (cases "f = []") simp_all
  have ex: "(if At ?src ?p = ch_dot then int (?p + 1) - int (?p + length f) else 0) = e0"
    using frac_at [OF T] by (cases f) (simp_all add: e0_def)
  have dc: "(if At ?src ?p = ch_dot then ?p + length f - (o' + length s) else length i) = length (i @ f)"
    using frac_at [OF T] by (cases "f = []") simp_all
  have nf: "\<not> (At ?src ?p = ch_dot \<and> ?p + length f = ?p + 1)" using frac_at [OF T] f(2) by (cases f) auto
  have hd: "\<not> (length i = 0 \<or> (At ?src (o' + length s) = ch_0 \<and> 1 < length i))" using int_shape [OF T] by simp
  show thesis
  proof (cases "x = []")
    case True
    then have nx: "\<not> (At ?src (?p + length f) = ch_e \<or> At ?src (?p + length f) = ch_E)" using exp_at [OF T] by blast
    have pl: "?p + length f = o' + length t" using parts_text(1) [OF T] True by simp
    have dot: "At ?src ?p = ch_dot" using a True frac_at [OF T] by blast
    have "visitNumber inp o' w = real_number inp o' (o' + length s) (o' + length t) (length (i @ f)) (word_of_nat (dec_val (i @ tl f))) e0 (s = [ch_minus]) w"
      unfolding visitNumber_def Let_def sign_at [OF T] sd int_digits [OF T] prod.case diff_add_inverse mid
      using hd nf nx ex dc dot pl by (simp only: if_False if_True prod.case simp_thms)
    moreover have "exp_class e0 (exp_val x - int (length (tl f)))"
      using True by (simp add: exp_class_def e0_def exp_val_def sign_len_def digit_run_def)
    ultimately show thesis by (rule that)
  next
    case False
    then have nx: "At ?src (?p + length f) = ch_e \<or> At ?src (?p + length f) = ch_E" using exp_at [OF T] by blast
    have "drop (?p + length f + 1) ?src = tl (x @ ys)" unfolding drop_parts(3) [OF T, symmetric] tl_drop_Suc by simp
    then have d: "drop (?p + length f + 1) ?src = tl x @ ys" using False by simp
    have l: "?p + length f + 1 \<le> length ?src" using end_le [OF T] parts_text(1) [OF T] False by (cases x) auto
    obtain e where e: "parseExponent ?src (?p + length f + 1) e0 = ((?p + length f + 1 + length (tl x), e), True)"
        "exp_class e (exp_val x + e0)"
      using parseExponent_value [OF d l parts_text(5) [OF T] False delim [OF T] e0] by blast
    have pl: "?p + length f + 1 + length (tl x) = o' + length t" using parts_text(1) [OF T] False by (cases x) simp_all
    have "visitNumber inp o' w = real_number inp o' (o' + length s) (o' + length t) (length (i @ f)) (word_of_nat (dec_val (i @ tl f))) e (s = [ch_minus]) w"
      unfolding visitNumber_def Let_def sign_at [OF T] sd int_digits [OF T] prod.case diff_add_inverse mid
      using hd nf nx ex dc e(1) pl by (simp only: if_False if_True prod.case simp_thms)
    then show thesis using e(2) by (intro that) (simp_all add: e0_def)
  qed
qed

section \<open>Which node the branches choose\<close>

lemma int_value_bounds:
  assumes "int_part i"
  shows "dec_val i < 10 ^ length i" "1 < length i \<Longrightarrow> 10 ^ (length i - 1) \<le> dec_val i"
  using dec_val_less [of i] dec_val_ge [of i] int_part_head [OF assms] assms by (auto simp: int_part_def)

lemma twenty_digits:
  assumes "int_part i" "length i = 20"
  shows "hd i = 0x31 \<Longrightarrow> dec_val i < 2 * 10 ^ 19" "hd i \<noteq> 0x31 \<Longrightarrow> 2 * 10 ^ 19 \<le> dec_val i"
proof -
  obtain c cs where i: "i = c # cs" "length cs = 19" using assms(2) by (cases i) auto
  have d: "IsDigit c" "list_all IsDigit cs" "c \<noteq> ch_0" using assms i int_part_head [of i] by (auto simp: int_part_def)
  have v: "dec_val i = unat (c - 0x30) * 10 ^ 19 + dec_val cs" using i by simp
  have cs: "dec_val cs < 10 ^ 19" using dec_val_less [OF d(2)] i(2) by simp
  show "hd i = 0x31 \<Longrightarrow> dec_val i < 2 * 10 ^ 19" using v cs i(1) by simp
  have "c = 0x31 \<or> 2 \<le> unat (c - 0x30)"
  proof -
    have "\<not> (c - 0x30 \<le> 1)" if "c \<noteq> 0x31"
      using d(1,3) that unfolding IsDigit_iff by unat_arith
    then show ?thesis by (cases "c = 0x31") (simp_all add: word_le_nat_alt)
  qed
  then show "2 * 10 ^ 19 \<le> dec_val i" if "hd i \<noteq> 0x31"
    using v that i(1) mult_right_mono [of 2 "unat (c - 0x30)" "10 ^ 19"] by simp
qed

lemma dec_pows: "(10 :: nat) ^ 18 < 2 ^ 63" "(2 :: nat) ^ 64 < 2 * 10 ^ 19" "2 ^ 63 < (10 :: nat) ^ 19" "2 * (10 :: nat) ^ 19 < 2 ^ 64 + 2 ^ 63"
  "(10 :: nat) ^ 19 < 2 ^ 64"
  by simp_all

lemma unat_dec: "unat (word_of_nat v :: u64) = v mod 2 ^ 64"
  by (simp add: unat_of_nat)

text \<open>The tests on the digit count and the wrapped magnitude decide the range of the value.\<close>

definition int_class :: "bool \<Rightarrow> bytes \<Rightarrow> nat" where
  "int_class neg i =
     (let w = word_of_nat (dec_val i) :: u64; longest = (if neg then 19 else 20); dc = length i in
      if longest < dc then 0
      else if dc = longest \<and> neg \<and> 0x8000000000000000 < w then 0
      else if dc = longest \<and> \<not> neg \<and> (hd i \<noteq> 0x31 \<or> w \<le> 0x7FFFFFFFFFFFFFFF) then 0
      else if 0x7FFFFFFFFFFFFFFF < w \<and> \<not> neg then 1 else 2)"

lemma long_value:
  assumes "int_part i" "k < length i" "0 < k"
  shows "10 ^ k \<le> dec_val i"
proof -
  have "(10 :: nat) ^ k \<le> 10 ^ (length i - 1)" using assms(2) by (intro power_increasing) auto
  also have "\<dots> \<le> dec_val i" using int_value_bounds(2) [OF assms(1)] assms(2,3) by simp
  finally show ?thesis .
qed

lemma short_value:
  assumes "int_part i" "length i \<le> k"
  shows "dec_val i < 10 ^ k"
proof -
  have "(10 :: nat) ^ length i \<le> 10 ^ k" using assms(2) by (intro power_increasing) auto
  then show ?thesis using int_value_bounds(1) [OF assms(1)] by linarith
qed

lemma int_class_neg:
  assumes "int_part i"
  shows "int_class True i = (if dec_val i \<le> 2 ^ 63 then 2 else 0)"
proof (cases "length i \<le> 19")
  case True
  have u: "unat (word_of_nat (dec_val i) :: u64) = dec_val i"
    using fits_19 [OF True] int_part_head [OF assms] by simp
  have w: "0x8000000000000000 < (word_of_nat (dec_val i) :: u64) \<longleftrightarrow> 2 ^ 63 < dec_val i"
    unfolding word_less_nat_alt u by simp
  have "length i \<noteq> 19 \<Longrightarrow> dec_val i \<le> 2 ^ 63" using short_value [OF assms, of 18] True dec_pows(1) by simp
  then show ?thesis using True w by (auto simp: int_class_def Let_def)
next
  case False
  then have "10 ^ 19 \<le> dec_val i" using long_value [OF assms, of 19] by simp
  then have "2 ^ 63 < dec_val i" using dec_pows(3) by linarith
  then show ?thesis using False by (simp add: int_class_def)
qed

lemma int_class_pos:
  assumes "int_part i"
  shows "int_class False i = (if dec_val i < 2 ^ 63 then 2 else if dec_val i < 2 ^ 64 then 1 else 0)"
proof -
  let ?w = "word_of_nat (dec_val i) :: u64"
  have w: "0x7FFFFFFFFFFFFFFF < ?w \<longleftrightarrow> 2 ^ 63 \<le> dec_val i mod 2 ^ 64" "?w \<le> 0x7FFFFFFFFFFFFFFF \<longleftrightarrow> dec_val i mod 2 ^ 64 < 2 ^ 63"
    unfolding word_less_nat_alt word_le_nat_alt unat_dec by auto
  consider "length i \<le> 19" | "length i = 20" | "20 < length i" by linarith
  then show ?thesis
  proof cases
    case 1
    then have "dec_val i < 2 ^ 64" using short_value [OF assms 1] dec_pows(5) by linarith
    then show ?thesis using 1 w by (auto simp: int_class_def Let_def)
  next
    case 2
    have lo: "2 ^ 63 \<le> dec_val i" using long_value [OF assms, of 19] 2 dec_pows(3) by simp
    show ?thesis
    proof (cases "hd i = 0x31")
      case True
      note hi = twenty_digits(1) [OF assms 2 True]
      show ?thesis
      proof (cases "dec_val i < 2 ^ 64")
        case False
        then have "dec_val i mod 2 ^ 64 = dec_val i - 2 ^ 64" using hi dec_pows(4) by (simp add: mod_if)
        then have "dec_val i mod 2 ^ 64 < 2 ^ 63" using hi dec_pows(4) False by linarith
        then show ?thesis using 2 w lo False by (simp add: int_class_def)
      qed (use 2 True w lo in \<open>simp add: int_class_def\<close>)
    next
      case False
      then have "2 ^ 64 \<le> dec_val i" using twenty_digits(2) [OF assms 2] dec_pows(2) by linarith
      then show ?thesis using 2 False by (simp add: int_class_def)
    qed
  next
    case 3
    then have "10 ^ 20 \<le> dec_val i" using long_value [OF assms, of 20] by simp
    then have "2 ^ 64 \<le> dec_val i" by simp
    then show ?thesis using 3 by (simp add: int_class_def)
  qed
qed

end
