(* ===== verification/Visit.thy ===== *)
theory Visit
  imports Number_Visit
begin

text \<open>
  What one visit of the tape walker writes. \<open>appended\<close> relates the walker before and after it by the
  tape words and arena bytes added; the lemmas give them for a number, a string and a literal, in the
  room the caller provides.
\<close>

section \<open>What a visit appends\<close>

text \<open>The walker has gone on from \<open>w\<close> to \<open>w'\<close> by the tape words \<open>ws\<close> and the arena bytes \<open>as\<close>.\<close>

definition appended :: "walker \<Rightarrow> walker \<Rightarrow> u64 list \<Rightarrow> bytes \<Rightarrow> bool" where
  "appended w w' ws as \<longleftrightarrow>
     (\<exists>T T'. tape w = Some T \<and> tape w' = Some T' \<and> length T' = length T \<and> tp w' = tp w + length ws \<and> tp w' \<le> length T \<and>
        take (tp w') T' = take (tp w) T @ ws) \<and>
     length (str w') = length (str w) \<and> sp w' = sp w + length as \<and> sp w' \<le> length (str w) \<and>
     take (sp w') (str w') = take (sp w) (str w) @ as"

definition room :: "nat \<Rightarrow> walker \<Rightarrow> bool" where
  "room k w \<longleftrightarrow> (\<exists>T. tape w = Some T \<and> tp w + k \<le> length T)"

lemma appended_refl: "room 0 w \<Longrightarrow> sp w \<le> length (str w) \<Longrightarrow> appended w w [] []"
  by (auto simp: appended_def room_def)

lemma appended_trans: "appended w w1 ws as \<Longrightarrow> appended w1 w2 vs bs \<Longrightarrow> appended w w2 (ws @ vs) (as @ bs)"
  unfolding appended_def by force

lemma appended_fields:
  assumes "appended w w' ws as"
  shows "tp w' = tp w + length ws" "sp w' = sp w + length as" "length (str w') = length (str w)" "sp w' \<le> length (str w')"
    "map_option length (tape w') = map_option length (tape w)" "tape w' \<noteq> None"
  using assms by (auto simp: appended_def)

lemma appended_room: "appended w w' ws as \<Longrightarrow> room (length ws + k) w \<Longrightarrow> room k w'"
  by (auto simp: appended_def room_def)

lemma take_update: "n < length T \<Longrightarrow> take (Suc n) (T[n := x]) = take n T @ [x]"
  by (simp add: take_Suc_conv_app_nth)

lemma put_appended:
  assumes "room 1 w" "sp w \<le> length (str w)"
  obtains w' where "put x w = Ok w'" "appended w w' [x] []" "str w' = str w"
proof -
  obtain T where T: "tape w = Some T" "tp w < length T" using assms(1) by (auto simp: room_def)
  then show thesis using assms(2) take_update [OF T(2), of x] by (intro that [of "w\<lparr>tape := Some (T[tp w := x]), tp := tp w + 1\<rparr>"]) (auto simp: put_def appended_def)
qed

lemma put_put_appended:
  assumes "room 2 w" "sp w \<le> length (str w)"
  obtains w' where "Tape.bind (put x w) (put y) = Ok w'" "appended w w' [x, y] []"
proof -
  have r1: "room 1 w" using assms(1) by (auto simp: room_def)
  obtain w1 where w1: "put x w = Ok w1" "appended w w1 [x] []" by (rule put_appended [OF r1 assms(2)])
  have r: "room 1 w1" using appended_room [OF w1(2), of 1] assms(1) by (simp add: numeral_2_eq_2)
  obtain w2 where w2: "put y w1 = Ok w2" "appended w1 w2 [y] []" by (rule put_appended [OF r appended_fields(4) [OF w1(2)]])
  show thesis using w1(1) w2(1) appended_trans [OF w1(2) w2(2)] by (intro that) simp_all
qed

text \<open>The word of a tag, an arena or source position and a length.\<close>

definition mk_word :: "u64 \<Rightarrow> nat \<Rightarrow> nat \<Rightarrow> u64" where
  "mk_word tag p n = tag OR word_of_nat p OR push_bit 32 (word_of_nat n)"

lemma put_text_appended:
  assumes "room 1 w" "take (sp w + n + 1) (str w) = take (sp w) (str w) @ as" "length as = n + 1" "sp w + n + 1 \<le> length (str w)"
  obtains w' where "put_text tag n w = Ok w'" "appended w w' [mk_word tag (sp w) n] as"
proof -
  have s: "sp w \<le> length (str w)" using assms(4) by simp
  obtain w1 where w1: "put (mk_word tag (sp w) n) w = Ok w1" "appended w w1 [mk_word tag (sp w) n] []" "str w1 = str w"
    by (rule put_appended [OF assms(1) s])
  show thesis
    by (rule that [of "w1\<lparr>sp := sp w1 + (n + 1)\<rparr>"]) (use w1 assms in \<open>auto simp: put_text_def mk_word_def appended_def\<close>)
qed

lemma appended_str: "appended (w\<lparr>str := S\<rparr>) w' ws as \<Longrightarrow> length S = length (str w) \<Longrightarrow> take (sp w) S = take (sp w) (str w) \<Longrightarrow>
    appended w w' ws as"
  by (auto simp: appended_def)

lemma storeText_appended:
  assumes "room 1 w" "from \<le> to" "to \<le> length (in_src inp)" "to - from \<le> maxSpan" "sp w + (to - from) + 1 \<le> length (str w)" "sp w < 2 ^ 32"
  obtains w' where "storeText inp tag from to w = Ok w'"
    "appended w w' [mk_word tag (sp w) (to - from)] (cut (in_src inp) from to @ [0])"
proof -
  let ?c = "cut (in_src inp) from to" and ?n = "to - from" and ?S = "str w"
  have c: "length ?c = ?n" using assms(3) by simp
  let ?d = "take (sp w) ?S @ ?c @ drop (sp w + ?n) ?S"
  have cp: "copy_at ?S (sp w) ?c = Some (?d, ?n)" using assms(5) c by (simp add: copy_at_def min_def)
  have ld: "length ?d = length ?S" using assms(5) c by simp
  define S where "S = take (sp w) ?S @ ?c @ [0] @ drop (sp w + ?n + 1) ?d"
  have "take (sp w + ?n) ?d = take (sp w) ?S @ ?c" using assms(5) c by simp
  then have pt: "put_at ?d (sp w + ?n) [0] = Some S" using assms(5) ld by (simp add: put_at_def S_def)
  let ?w = "w\<lparr>str := S\<rparr>"
  have l: "length (take (sp w) ?S) = sp w" using assms(5) by simp
  have le: "length S = length ?S" unfolding S_def length_append length_drop ld using assms(5) c l by simp
  have t1: "take (sp w + ?n + 1) S = take (sp w) ?S @ (?c @ [0])" "take (sp w) S = take (sp w) ?S"
    unfolding S_def using c l by (simp_all add: take_append)
  have r: "room 1 ?w" using assms(1) by (simp add: room_def)
  obtain w' where w': "put_text tag ?n ?w = Ok w'" "appended ?w w' [mk_word tag (sp ?w) ?n] (?c @ [0])"
    by (rule put_text_appended [OF r, of ?n "?c @ [0]" tag]) (use t1 le c assms(5) in simp_all)
  have "appended w w' [mk_word tag (sp w) ?n] (?c @ [0])" using appended_str [OF w'(2) le t1(2)] by simp
  moreover have "storeText inp tag from to w = Ok w'" using assms(4,6) cp pt w'(1) by (simp add: storeText_def Let_def)
  ultimately show thesis by (intro that)
qed


section \<open>A number on the tape\<close>

fun num_enc :: "nat \<Rightarrow> bytes \<Rightarrow> node \<Rightarrow> u64 list \<times> bytes" where
  "num_enc p t (NInt w) = ([tagInt64, w], [])"
| "num_enc p t (NUint w) = ([tagUint64, w], [])"
| "num_enc p t (NDouble w) = ([mk_word tagDouble p (length t), w], t @ [0])"
| "num_enc p t v = ([mk_word tagNumRaw p (length t)], t @ [0])"

text \<open>A number kept as text or with its text must fit the 24 bits of a length.\<close>

fun num_fits :: "bytes \<Rightarrow> node \<Rightarrow> bool" where
  "num_fits t (NInt w) \<longleftrightarrow> True"
| "num_fits t (NUint w) \<longleftrightarrow> True"
| "num_fits t v \<longleftrightarrow> length t \<le> maxSpan"

lemma token_end:
  assumes "number_token inp o' t s i f x ys"
  shows "\<not> IsNonDelim (At (in_src inp) (o' + length t))" "cut (in_src inp) o' (o' + length t) = t"
  using delim [OF assms] drop_parts(4) [OF assms] text_at(1) [OF assms] by (simp_all add: At_head cut_def)

lemma store_raw:
  assumes T: "number_token inp o' t s i f x ys"
    and w: "room 1 w" "sp w + length t + 1 \<le> length (str w)" "sp w < 2 ^ 32" "length t \<le> maxSpan"
  obtains w' where "storeText inp tag o' (o' + length t) w = Ok w'" "appended w w' [mk_word tag (sp w) (length t)] (t @ [0])"
proof -
  obtain w' where "storeText inp tag o' (o' + length t) w = Ok w'"
      "appended w w' [mk_word tag (sp w) (o' + length t - o')] (cut (in_src inp) o' (o' + length t) @ [0])"
    by (rule storeText_appended [of w o' "o' + length t" inp tag]) (use w end_le [OF T] in simp_all)
  then show thesis using token_end(2) [OF T] by (intro that) simp_all
qed

lemma visit_integer_appended:
  assumes T: "number_token inp o' t s i f x ys" and a: "f = []" "x = []"
    and w: "room 2 w" "sp w + length t + 1 \<le> length (str w)" "sp w < 2 ^ 32" "num_fits t (num_node t)"
  obtains w' ws as where "visitNumber inp o' w = Ok w'" "num_enc (sp w) t (num_node t) = (ws, as)" "appended w w' ws as"
proof -
  let ?neg = "s = [ch_minus]" and ?v = "dec_val i"
  note P = parts_text [OF T] and ip = parts_text(3) [OF T]
  have np: "num_parts t s i f x" using T by (simp add: number_token_def)
  have r1: "room 1 w" using w(1) by (auto simp: room_def)
  have sw: "sp w \<le> length (str w)" using w(2) by simp
  have nd: "num_node t = int_node t (if ?neg then - int ?v else int ?v)"
    using dec_text_parts [OF np] mantissa_parts(2) [OF np] a by (simp add: num_node_def)
  have hdi: "At (in_src inp) o' = hd i" if "\<not> ?neg"
    using text_at(1) [OF T] P(1,2) that int_part_head [OF ip] by (cases i) (auto simp: At_head)
  have vis: "visitNumber inp o' w = (if int_class ?neg i = 0 then storeText inp tagNumRaw o' (o' + length t) w
      else if int_class ?neg i = 1 then Tape.bind (put tagUint64 w) (put (word_of_nat ?v))
      else Tape.bind (put tagInt64 w) (put (if ?neg then NOT (word_of_nat ?v) + 1 else word_of_nat ?v)))"
    unfolding visit_integer [OF T a] integer_number_def int_class_def Let_def
    using token_end(1) [OF T] hdi by (cases ?neg) (simp, auto)
  have cl: "num_node t = (if int_class ?neg i = 0 then NNum t else if int_class ?neg i = 1 then NUint (word_of_nat ?v)
      else NInt (if ?neg then NOT (word_of_nat ?v) + 1 else word_of_nat ?v))"
  proof (cases ?neg)
    case True
    have n: "NOT (word_of_nat ?v) + 1 = (word_of_int (- int ?v) :: u64)" by (simp add: minus_eq_not_plus_1 [symmetric])
    have "- (2 ^ 63) \<le> - int ?v \<longleftrightarrow> ?v \<le> 2 ^ 63" using of_nat_le_iff [of ?v "2 ^ 63", where 'a = int] by simp
    then show ?thesis using int_class_neg [OF ip] True n unfolding nd int_node_def by auto
  next
    case False
    have "int ?v < 2 ^ 63 \<longleftrightarrow> ?v < 2 ^ 63" "int ?v < 2 ^ 64 \<longleftrightarrow> ?v < 2 ^ 64" by simp_all
    then show ?thesis using int_class_pos [OF ip] False unfolding nd int_node_def by simp
  qed
  consider "int_class ?neg i = 0" | "int_class ?neg i = 1" | "int_class ?neg i \<noteq> 0" "int_class ?neg i \<noteq> 1" by blast
  then show thesis
  proof cases
    case 1
    then have v: "num_node t = NNum t" using cl by simp
    have f: "length t \<le> maxSpan" using w(4) v by simp
    obtain w' where "storeText inp tagNumRaw o' (o' + length t) w = Ok w'" "appended w w' [mk_word tagNumRaw (sp w) (length t)] (t @ [0])"
      by (rule store_raw [OF T r1 w(2,3) f])
    then show thesis using vis v 1 by (intro that) simp_all
  next
    case 2
    obtain w' where "Tape.bind (put tagUint64 w) (put (word_of_nat ?v)) = Ok w'" "appended w w' [tagUint64, word_of_nat ?v] []"
      by (rule put_put_appended [OF w(1) sw])
    then show thesis using vis cl 2 by (intro that) simp_all
  next
    case 3
    obtain w' where "Tape.bind (put tagInt64 w) (put (if ?neg then NOT (word_of_nat ?v) + 1 else word_of_nat ?v)) = Ok w'"
        "appended w w' [tagInt64, if ?neg then NOT (word_of_nat ?v) + 1 else word_of_nat ?v] []"
      by (rule put_put_appended [OF w(1) sw])
    then show thesis using vis cl 3 by (intro that) simp_all
  qed
qed


lemma word_zero: "m < 2 ^ 64 \<Longrightarrow> (word_of_nat m :: u64) = 0 \<longleftrightarrow> m = 0"
  using unat_dec [of m] unat_eq_zero [of "word_of_nat m :: u64"] by simp

lemma zero_prefix:
  assumes T: "number_token inp o' t s i f x ys"
  shows "skip_zeros (\<lambda>c. c = ch_0 \<or> c = ch_dot) (in_src inp) (o' + length s) - (o' + length s) + significant t = length (i @ f)"
proof -
  note P = parts_text [OF T]
  have np: "num_parts t s i f x" using T by (simp add: number_token_def)
  have z: "\<not> zero_or_dot (head_byte (x @ ys))" by (rule head_exp_tail(3) [OF P(5) delim [OF T]])
  have "takeWhile zero_or_dot ((i @ f) @ x @ ys) = takeWhile zero_or_dot (i @ f)"
  proof (cases "list_all zero_or_dot (i @ f)")
    case True
    then have "takeWhile zero_or_dot (i @ f) = i @ f" by (simp only: takeWhile_eq_all_conv list_all_iff)
    then show ?thesis using takeWhile_parts [OF True z] by (simp only:)
  next
    case False
    then obtain c where c: "c \<in> set (i @ f)" "\<not> zero_or_dot c" by (auto simp: list_all_iff)
    show ?thesis using takeWhile_append1 [of c "i @ f" zero_or_dot "x @ ys"] c by simp
  qed
  moreover have "(\<lambda>c. c = ch_0 \<or> c = ch_dot) = zero_or_dot" by (simp add: zero_or_dot_def fun_eq_iff)
  moreover have "o' + length s \<le> length (in_src inp)" using end_le [OF T] P(1) by simp
  ultimately have "skip_zeros (\<lambda>c. c = ch_0 \<or> c = ch_dot) (in_src inp) (o' + length s) = o' + length s + length (takeWhile zero_or_dot (i @ f))"
    using drop_parts(1) [OF T] by (simp add: skip_zeros_eq)
  then show ?thesis unfolding significant_def mantissa_parts(1) [OF np]
    by (metis diff_add_inverse length_append takeWhile_dropWhile_id)
qed

lemma real_value:
  assumes T: "number_token inp o' t s i f x ys" and e: "exp_class e (exp_val x - int (length (tl f)))"
    and sig: "significant t \<le> 19" and small: "\<not> (308 < e \<and> dec_val (i @ tl f) \<noteq> 0)"
  shows "realValue t (word_of_nat (dec_val (i @ tl f))) e (s = [ch_minus]) = ParseFloat t"
proof -
  let ?m = "dec_val (i @ tl f)" and ?e = "exp_val x - int (length (tl f))"
  have np: "num_parts t s i f x" using T by (simp add: number_token_def)
  have "?m < 10 ^ significant t" by (rule significant_bound [OF np])
  also have "\<dots> \<le> 10 ^ 19" using sig by (intro power_increasing) auto
  finally have m: "?m < 10 ^ 19" .
  then have im: "int ?m < 10 ^ 19" by (metis of_nat_less_iff of_nat_numeral of_nat_power)
  have z: "(word_of_nat ?m :: u64) = 0 \<longleftrightarrow> ?m = 0"
    by (rule word_zero [OF less_trans [OF m dec_pows(5)]])
  note d = dec_text_parts [OF np]
  show ?thesis
  proof (cases "?m \<noteq> 0 \<and> - 342 \<le> e \<and> e \<le> 308")
    case True
    then show ?thesis using z by (simp add: realValue_def)
  next
    case False
    then have r: "realValue t (word_of_nat ?m) e (s = [ch_minus]) = (if s = [ch_minus] then push_bit 63 1 else 0)"
      using z by (auto simp: realValue_def)
    show ?thesis
    proof (cases "?m = 0")
      case True
      then show ?thesis unfolding r by (simp add: ParseFloat_def d)
    next
      case m0: False
      then have "e < - 342" using False small by auto
      then have e': "?e < - 342" using e by (auto simp: exp_class_def)
      then have "342 < nat (- ?e)" by simp
      then have "round64 (s = [ch_minus]) (int ?m) (10 ^ nat (- ?e)) = (if s = [ch_minus] then push_bit 63 1 else 0)"
        using m0 im by (intro round64_tiny) auto
      then show ?thesis unfolding r ParseFloat_def d prod.case using m0 e' by simp
    qed
  qed
qed

lemma visit_real_appended:
  assumes T: "number_token inp o' t s i f x ys" and a: "f \<noteq> [] \<or> x \<noteq> []"
    and w: "room 2 w" "sp w + length t + 1 \<le> length (str w)" "sp w < 2 ^ 32" "num_fits t (num_node t)"
  obtains w' ws as where "visitNumber inp o' w = Ok w'" "num_enc (sp w) t (num_node t) = (ws, as)" "appended w w' ws as"
proof -
  let ?m = "dec_val (i @ tl f)" and ?e = "exp_val x - int (length (tl f))"
  let ?s = "skip_zeros (\<lambda>c. c = ch_0 \<or> c = ch_dot) (in_src inp) (o' + length s)"
  have np: "num_parts t s i f x" using T by (simp add: number_token_def)
  have r1: "room 1 w" using w(1) by (auto simp: room_def)
  obtain e where v: "visitNumber inp o' w = real_number inp o' (o' + length s) (o' + length t) (length (i @ f)) (word_of_nat ?m) e (s = [ch_minus]) w"
      "exp_class e ?e"
    by (rule visit_real [OF T a])
  have sig: "19 < length (i @ f) \<and> 19 < int (length (i @ f)) - int (?s - (o' + length s)) \<longleftrightarrow> 19 < significant t"
    using zero_prefix [OF T] by linarith
  have nd: "num_node t = (if 19 < significant t \<or> (308 < ?e \<and> ?m \<noteq> 0) then NNum t else NDouble (ParseFloat t))"
  proof -
    have "\<not> integer_text t" using mantissa_parts(2) [OF np] a by blast
    then show ?thesis by (simp add: num_node_def dec_text_parts [OF np])
  qed
  have f: "length t \<le> maxSpan" using w(4) nd by (auto split: if_splits)
  have m0: "(word_of_nat ?m :: u64) = 0 \<longleftrightarrow> ?m = 0" if "significant t \<le> 19"
  proof -
    have "?m < 10 ^ significant t" by (rule significant_bound [OF np])
    also have "\<dots> \<le> 10 ^ 19" using that by (intro power_increasing) auto
    finally show ?thesis by (intro word_zero less_trans [OF _ dec_pows(5)])
  qed
  have e308: "308 < e \<longleftrightarrow> 308 < ?e" using v(2) by (auto simp: exp_class_def)
  show thesis
  proof (cases "19 < significant t \<or> (308 < ?e \<and> ?m \<noteq> 0)")
    case True
    obtain w' where w': "storeText inp tagNumRaw o' (o' + length t) w = Ok w'" "appended w w' [mk_word tagNumRaw (sp w) (length t)] (t @ [0])"
      by (rule store_raw [OF T r1 w(2,3) f])
    have "visitNumber inp o' w = Ok w'"
      unfolding v(1) real_number_def Let_def sig using True token_end(1) [OF T] m0 e308 w'(1) by (cases "19 < significant t") simp_all
    then show thesis using nd True w'(2) by (intro that) simp_all
  next
    case False
    obtain w1 where w1: "storeText inp tagDouble o' (o' + length t) w = Ok w1" "appended w w1 [mk_word tagDouble (sp w) (length t)] (t @ [0])"
      by (rule store_raw [OF T r1 w(2,3) f])
    have r: "room 1 w1" using appended_room [OF w1(2), of 1] w(1) by (simp add: numeral_2_eq_2)
    obtain w2 where w2: "put (ParseFloat t) w1 = Ok w2" "appended w1 w2 [ParseFloat t] []"
      by (rule put_appended [OF r appended_fields(4) [OF w1(2)]])
    have rv: "realValue t (word_of_nat ?m) e (s = [ch_minus]) = ParseFloat t"
      using real_value [OF T v(2)] False e308 by auto
    have "visitNumber inp o' w = Ok w2"
      unfolding v(1) real_number_def Let_def sig token_end(2) [OF T] rv using False token_end(1) [OF T] m0 e308 w1(1) w2(1) by auto
    then show thesis using nd False appended_trans [OF w1(2) w2(2)] by (intro that) simp_all
  qed
qed

lemma visitNumber_appended:
  assumes "drop o' (in_src inp) = t @ ys" "o' \<le> length (in_src inp)" "length (in_src inp) < 2 ^ 31" "is_number t" "\<not> IsNonDelim (head_byte ys)"
    and w: "room 2 w" "sp w + length t + 1 \<le> length (str w)" "sp w < 2 ^ 32" "num_fits t (num_node t)"
  obtains w' ws as where "visitNumber inp o' w = Ok w'" "num_enc (sp w) t (num_node t) = (ws, as)" "appended w w' ws as"
proof -
  obtain s i f x where "num_parts t s i f x" using assms(4) is_number_parts by blast
  then have T: "number_token inp o' t s i f x ys" using assms by (simp add: number_token_def)
  show thesis
  proof (cases "f = [] \<and> x = []")
    case True
    then show thesis using visit_integer_appended [OF T _ _ w] that by blast
  next
    case False
    then show thesis using visit_real_appended [OF T _ w] that by blast
  qed
qed

section \<open>A string on the tape\<close>

text \<open>A string is the offset of its body, its decoded bytes and whether it holds an escape.\<close>

type_synonym jstr = "nat \<times> bytes \<times> bool"

definition str_tag :: "bool \<Rightarrow> bool \<Rightarrow> byte" where
  "str_tag zc x = (if x then ch_quote else if zc then TagStrRaw else TagStrFree)"

definition str_enc :: "bool \<Rightarrow> nat \<Rightarrow> jstr \<Rightarrow> u64 list \<times> bytes" where
  "str_enc zc p j = (case j of (b, bs, x) \<Rightarrow>
     if zc \<and> \<not> x then ([mk_word (tag_word (str_tag zc x)) b (length bs)], [])
     else ([mk_word (tag_word (str_tag zc x)) p (length bs)], bs @ [ch_quote]))"

lemma str_tags: "tag_word (str_tag zc True) = tagString" "tag_word (str_tag False False) = tagStrFree" "tag_word (str_tag True False) = tagStrRaw"
  by (simp_all add: str_tag_def tagString_def tagStrFree_def tagStrRaw_def TagStrRaw_def TagStrFree_def)

lemma decode_plain_end:
  assumes "decode_from src b = (bs, e, x, True)" "b \<le> length src"
  shows "x \<longleftrightarrow> src ! QuoteOrEscape src b \<noteq> ch_quote" "QuoteOrEscape src b < length src"
    "\<not> x \<Longrightarrow> length bs = QuoteOrEscape src b - b"
proof -
  define j where "j = QuoteOrEscape src b"
  have u: "decode_from src b =
     (if length src \<le> j then (cut src b j, j, False, False)
      else if src ! j = ch_quote then (cut src b j, j, False, True)
      else case escape_at src j of
        None \<Rightarrow> (cut src b j, j, False, False)
      | Some (nxt, bs) \<Rightarrow> (case decode_from src nxt of (rest, e, _, ok) \<Rightarrow> (cut src b j @ bs @ rest, e, True, ok)))"
    unfolding j_def QuoteOrEscape_eq by (subst decode_from.simps) (simp only: Let_def)
  have l: "j < length src" using assms(1) u by (cases "length src \<le> j") simp_all
  have x: "x \<longleftrightarrow> src ! j \<noteq> ch_quote"
  proof (cases "src ! j = ch_quote")
    case False
    then obtain nxt es where "escape_at src j = Some (nxt, es)"
      using assms(1) u l by (cases "escape_at src j") auto
    moreover obtain r k y ok where "decode_from src nxt = (r, k, y, ok)" by (rule prod_cases4)
    ultimately show ?thesis using assms(1) u l False by simp
  qed (use assms(1) u l in simp)
  show "x \<longleftrightarrow> src ! QuoteOrEscape src b \<noteq> ch_quote" "QuoteOrEscape src b < length src" using x l by (simp_all add: j_def)
  show "length bs = QuoteOrEscape src b - b" if "\<not> x"
  proof -
    have "bs = cut src b j" using assms(1) u l x that by auto
    then show ?thesis using l by (simp add: j_def)
  qed
qed

lemma visitString_appended:
  assumes d: "decode_from (in_src inp) (o' + 1) = (bs, e, x, True)" and o': "o' < length (in_src inp)" and m: "length bs \<le> maxSpan"
    and w: "room 1 w" "sp w + (e - o') \<le> length (str w)"
  obtains w' ws as where "visitString inp o' w = Ok w'" "str_enc (in_zc inp) (sp w) (o' + 1, bs, x) = (ws, as)" "appended w w' ws as"
proof -
  let ?src = "in_src inp" and ?b = "o' + 1"
  have b: "?b \<le> length ?src" using o' by simp
  note B = decode_from_bounds [OF b d]
  note Q = decode_plain_end [OF d b]
  obtain T where t: "tape w = Some T" using w(1) by (auto simp: room_def)
  have sw: "sp w \<le> length (str w)" using w(2) by simp
  show thesis
  proof (cases "in_zc inp \<and> \<not> x")
    case True
    obtain w' where w': "put (mk_word tagStrRaw ?b (length bs)) w = Ok w'" "appended w w' [mk_word tagStrRaw ?b (length bs)] []"
      by (rule put_appended [OF w(1) sw])
    have "visitString inp o' w = Ok w'"
      using True Q t m w'(1) by (simp add: visitString_def Let_def mk_word_def)
    then show thesis using True w'(2) by (intro that) (simp_all add: str_enc_def str_tags)
  next
    case False
    let ?dst = "drop (sp w) (str w)"
    have r: "0 + (e - ?b) < length ?dst" using w(2) B by simp linarith
    obtain D where D: "DecodeString ?src ?b ?dst = Some (D, length bs, x, True)" "length D = length ?dst"
        "take (length bs) D = bs" "D ! length bs = ch_quote"
      using DecodeString_loop_spec [OF b d r, of False] unfolding DecodeString_def by auto
    define S where "S = take (sp w) (str w) @ D"
    have lb: "length bs < length D" using D(2) B r by simp
    have S: "length S = length (str w)" "take (sp w) S = take (sp w) (str w)" using sw D(2) by (simp_all add: S_def)
    have "take (length bs + 1) D = bs @ [ch_quote]" using D(3,4) lb by (simp add: take_Suc_conv_app_nth)
    then have S1: "take (sp w + length bs + 1) S = take (sp w) S @ (bs @ [ch_quote])"
      unfolding S(2) S_def using sw by (simp add: add.assoc)
    let ?w = "w\<lparr>str := S\<rparr>" and ?tag = "tag_word (str_tag (in_zc inp) x)"
    have rw: "room 1 ?w" using w(1) by (simp add: room_def)
    obtain w' where w': "put_text ?tag (length bs) ?w = Ok w'" "appended ?w w' [mk_word ?tag (sp ?w) (length bs)] (bs @ [ch_quote])"
      by (rule put_text_appended [OF rw, of "length bs" "bs @ [ch_quote]" ?tag]) (use S1 S lb D(2) sw in simp_all)
    have a: "appended w w' [mk_word ?tag (sp w) (length bs)] (bs @ [ch_quote])" using appended_str [OF w'(2) S] by simp
    have "visitString inp o' w = Ok w'"
    proof (cases "in_zc inp")
      case True
      then have "x" using False by simp
      then show ?thesis using True Q t m D(1) w'(1) sw by (simp add: visitString_def Let_def S_def str_tags)
    next
      case False
      then show ?thesis using t m D(1) w'(1) sw by (cases x) (simp_all add: visitString_def Let_def S_def str_tags)
    qed
    then show thesis using False a by (intro that) (auto simp: str_enc_def)
  qed
qed

end
