(* ===== verification/Json_Tree.thy ===== *)
theory Json_Tree
  imports Visit
begin

text \<open>
  The tree a JSON text denotes, and its layout on a DOM tape. \<open>tree_at\<close> is the grammar \<open>value_at\<close> with
  the tree it parses to. \<open>node_of\<close> is the node the tape keeps of a tree, \<open>enc\<close> the tape words and arena
  bytes that hold it from given positions on: the layout that \<^verbatim>\<open>BuildTape\<close> of \<^verbatim>\<open>internal/gdec/tape.go\<close>
  writes and the accessors of \<^verbatim>\<open>internal/valueabi\<close> read.
\<close>

section \<open>Trees\<close>

datatype jtree = JAtom byte | JNum bytes | JStr jstr | JArr "jtree list" | JObj "(jstr \<times> jtree) list"

inductive tree_at :: "bytes \<Rightarrow> nat \<Rightarrow> nat \<Rightarrow> jtree \<Rightarrow> bool"
  and elems_tree :: "bytes \<Rightarrow> nat \<Rightarrow> nat \<Rightarrow> jtree list \<Rightarrow> bool"
  and members_tree :: "bytes \<Rightarrow> nat \<Rightarrow> nat \<Rightarrow> (jstr \<times> jtree) list \<Rightarrow> bool" for src :: bytes where
  tstr: "o' < length src \<Longrightarrow> src ! o' = ch_quote \<Longrightarrow> decode_from src (o' + 1) = (bs, e, x, True) \<Longrightarrow>
    tree_at src o' (e + 1) (JStr (o' + 1, bs, x))"
| tnum: "o' \<le> e \<Longrightarrow> e \<le> length src \<Longrightarrow> is_number (cut src o' e) \<Longrightarrow> tree_at src o' e (JNum (cut src o' e))"
| tatom: "o' \<le> e \<Longrightarrow> e \<le> length src \<Longrightarrow> cut src o' e \<in> {lit ''true'', lit ''false'', lit ''null''} \<Longrightarrow>
    tree_at src o' e (JAtom (At src o'))"
| tarr0: "o' < length src \<Longrightarrow> src ! o' = ch_lbrack \<Longrightarrow> p = SkipWS src (o' + 1) \<Longrightarrow> p < length src \<Longrightarrow>
    src ! p = ch_rbrack \<Longrightarrow> tree_at src o' (p + 1) (JArr [])"
| tobj0: "o' < length src \<Longrightarrow> src ! o' = ch_lbrace \<Longrightarrow> p = SkipWS src (o' + 1) \<Longrightarrow> p < length src \<Longrightarrow>
    src ! p = ch_rbrace \<Longrightarrow> tree_at src o' (p + 1) (JObj [])"
| tarr: "o' < length src \<Longrightarrow> src ! o' = ch_lbrack \<Longrightarrow> elems_tree src (SkipWS src (o' + 1)) e ts \<Longrightarrow>
    p = SkipWS src e \<Longrightarrow> p < length src \<Longrightarrow> src ! p = ch_rbrack \<Longrightarrow> tree_at src o' (p + 1) (JArr ts)"
| tobj: "o' < length src \<Longrightarrow> src ! o' = ch_lbrace \<Longrightarrow> members_tree src (SkipWS src (o' + 1)) e ms \<Longrightarrow>
    p = SkipWS src e \<Longrightarrow> p < length src \<Longrightarrow> src ! p = ch_rbrace \<Longrightarrow> tree_at src o' (p + 1) (JObj ms)"
| telem: "tree_at src o' e t \<Longrightarrow> elems_tree src o' e [t]"
| telem_more: "tree_at src o' e t \<Longrightarrow> q = SkipWS src e \<Longrightarrow> q < length src \<Longrightarrow> src ! q = ch_comma \<Longrightarrow>
    elems_tree src (SkipWS src (q + 1)) e' ts \<Longrightarrow> elems_tree src o' e' (t # ts)"
| tmember: "o' < length src \<Longrightarrow> src ! o' = ch_quote \<Longrightarrow> decode_from src (o' + 1) = (bs, k, x, True) \<Longrightarrow>
    c = SkipWS src (k + 1) \<Longrightarrow> c < length src \<Longrightarrow> src ! c = ch_colon \<Longrightarrow>
    tree_at src (SkipWS src (c + 1)) e t \<Longrightarrow> members_tree src o' e [((o' + 1, bs, x), t)]"
| tmember_more: "o' < length src \<Longrightarrow> src ! o' = ch_quote \<Longrightarrow> decode_from src (o' + 1) = (bs, k, x, True) \<Longrightarrow>
    c = SkipWS src (k + 1) \<Longrightarrow> c < length src \<Longrightarrow> src ! c = ch_colon \<Longrightarrow>
    tree_at src (SkipWS src (c + 1)) e t \<Longrightarrow> q = SkipWS src e \<Longrightarrow> q < length src \<Longrightarrow> src ! q = ch_comma \<Longrightarrow>
    members_tree src (SkipWS src (q + 1)) e' ms \<Longrightarrow> members_tree src o' e' (((o' + 1, bs, x), t) # ms)"

text \<open>Nesting, counted in non-empty containers as the walker counts it.\<close>

fun tdepth :: "jtree \<Rightarrow> nat" and tdepth_elems :: "jtree list \<Rightarrow> nat" and tdepth_members :: "(jstr \<times> jtree) list \<Rightarrow> nat" where
  "tdepth (JArr []) = 0"
| "tdepth (JArr (t # ts)) = Suc (max (tdepth t) (tdepth_elems ts))"
| "tdepth (JObj []) = 0"
| "tdepth (JObj ((k, t) # ms)) = Suc (max (tdepth t) (tdepth_members ms))"
| "tdepth _ = 0"
| "tdepth_elems [] = 0"
| "tdepth_elems (t # ts) = max (tdepth t) (tdepth_elems ts)"
| "tdepth_members [] = 0"
| "tdepth_members ((k, t) # ms) = max (tdepth t) (tdepth_members ms)"

text \<open>Every payload fits the 24 bits of a length.\<close>

fun fits :: "jtree \<Rightarrow> bool" and fits_elems :: "jtree list \<Rightarrow> bool" and fits_members :: "(jstr \<times> jtree) list \<Rightarrow> bool" where
  "fits (JAtom c) \<longleftrightarrow> True"
| "fits (JNum t) \<longleftrightarrow> num_fits t (num_node t)"
| "fits (JStr (b, bs, x)) \<longleftrightarrow> length bs \<le> maxSpan"
| "fits (JArr ts) \<longleftrightarrow> fits_elems ts"
| "fits (JObj ms) \<longleftrightarrow> fits_members ms"
| "fits_elems [] \<longleftrightarrow> True"
| "fits_elems (t # ts) \<longleftrightarrow> fits t \<and> fits_elems ts"
| "fits_members [] \<longleftrightarrow> True"
| "fits_members (((b, bs, x), t) # ms) \<longleftrightarrow> length bs \<le> maxSpan \<and> fits t \<and> fits_members ms"

definition json_tree :: "bytes \<Rightarrow> jtree \<Rightarrow> bool" where
  "json_tree src t \<longleftrightarrow> (\<exists>e. tree_at src (SkipWS src 0) e t \<and> SkipWS src e = length src)"

section \<open>The node and the layout of a tree\<close>

definition atom_node :: "byte \<Rightarrow> node" where
  "atom_node c = (if c = ch_t then NBool True else if c = ch_f then NBool False else NNull)"

definition str_node :: "bool \<Rightarrow> jstr \<Rightarrow> node" where
  "str_node zc j = (case j of (b, bs, x) \<Rightarrow> NStr (str_tag zc x) bs)"

fun node_of :: "bool \<Rightarrow> jtree \<Rightarrow> node"
  and nodes_of :: "bool \<Rightarrow> jtree list \<Rightarrow> node list"
  and members_of :: "bool \<Rightarrow> (jstr \<times> jtree) list \<Rightarrow> (bytes \<times> node) list" where
  "node_of zc (JAtom c) = atom_node c"
| "node_of zc (JNum t) = num_node t"
| "node_of zc (JStr j) = str_node zc j"
| "node_of zc (JArr ts) = NArr (nodes_of zc ts)"
| "node_of zc (JObj ms) = NObj (members_of zc ms)"
| "nodes_of zc [] = []"
| "nodes_of zc (t # ts) = node_of zc t # nodes_of zc ts"
| "members_of zc [] = []"
| "members_of zc (((b, bs, x), t) # ms) = (bs, node_of zc t) # members_of zc ms"

definition begin_word :: "bool \<Rightarrow> nat \<Rightarrow> nat \<Rightarrow> u64" where
  "begin_word a e n = mk_word (if a then tagArrBeg else tagObjBeg) e (min n maxSpan)"

definition end_word :: "bool \<Rightarrow> nat \<Rightarrow> u64" where
  "end_word a s = (if a then tagArrEnd else tagObjEnd) OR word_of_nat s"

text \<open>The words from tape position \<open>p\<close> and the bytes from arena position \<open>a\<close> on.\<close>

fun enc :: "bool \<Rightarrow> nat \<Rightarrow> nat \<Rightarrow> jtree \<Rightarrow> u64 list \<times> bytes"
  and enc_elems :: "bool \<Rightarrow> nat \<Rightarrow> nat \<Rightarrow> jtree list \<Rightarrow> u64 list \<times> bytes"
  and enc_members :: "bool \<Rightarrow> nat \<Rightarrow> nat \<Rightarrow> (jstr \<times> jtree) list \<Rightarrow> u64 list \<times> bytes" where
  "enc zc p a (JAtom c) = ([tag_word c], [])"
| "enc zc p a (JNum t) = num_enc a t (num_node t)"
| "enc zc p a (JStr j) = str_enc zc a j"
| "enc zc p a (JArr ts) =
     (case enc_elems zc (p + 1) a ts of (ws, as) \<Rightarrow>
        (begin_word True (p + 1 + length ws) (length ts) # ws @ [end_word True p], as))"
| "enc zc p a (JObj ms) =
     (case enc_members zc (p + 1) a ms of (ws, as) \<Rightarrow>
        (begin_word False (p + 1 + length ws) (length ms) # ws @ [end_word False p], as))"
| "enc_elems zc p a [] = ([], [])"
| "enc_elems zc p a (t # ts) =
     (case enc zc p a t of (ws, as) \<Rightarrow>
        case enc_elems zc (p + length ws) (a + length as) ts of (vs, bs) \<Rightarrow> (ws @ vs, as @ bs))"
| "enc_members zc p a [] = ([], [])"
| "enc_members zc p a ((k, t) # ms) =
     (case str_enc zc a k of (us, cs) \<Rightarrow>
        case enc zc (p + length us) (a + length cs) t of (ws, as) \<Rightarrow>
          case enc_members zc (p + length us + length ws) (a + length cs + length as) ms of (vs, bs) \<Rightarrow>
            (us @ ws @ vs, cs @ as @ bs))"

section \<open>Every text of the grammar has a tree\<close>

lemma ScanString_decodes:
  assumes "ScanString src i = (e, True)" "i \<le> length src"
  obtains bs x where "decode_from src i = (bs, e, x, True)"
proof -
  obtain bs k x ok where d: "decode_from src i = (bs, k, x, ok)" by (rule prod_cases4)
  then show thesis using ScanString_eq [OF assms(2) d] assms(1) that by simp
qed

lemma value_tree:
  "value_at src d o' e \<Longrightarrow> \<exists>t. tree_at src o' e t \<and> tdepth t \<le> d"
  "elems_at src d o' e \<Longrightarrow> \<exists>ts. elems_tree src o' e ts \<and> ts \<noteq> [] \<and> tdepth_elems ts \<le> d"
  "members_at src d o' e \<Longrightarrow> \<exists>ms. members_tree src o' e ms \<and> ms \<noteq> [] \<and> tdepth_members ms \<le> d"
proof (induction rule: value_at_elems_at_members_at.inducts)
  case (string o' e d)
  then obtain bs x where "decode_from src (o' + 1) = (bs, e, x, True)" using ScanString_decodes [of src "o' + 1" e] by auto
  then show ?case using string tstr [of o' src bs e x] by (intro exI [of _ "JStr (o' + 1, bs, x)"]) simp
next
  case (arr o' d e p)
  then obtain ts where ts: "elems_tree src (SkipWS src (o' + 1)) e ts" "ts \<noteq> []" "tdepth_elems ts \<le> d" by blast
  then have "tdepth (JArr ts) \<le> Suc d" by (cases ts) simp_all
  then show ?case using tarr [OF arr(1,2) ts(1) arr(5,6,7)] by blast
next
  case (obj o' d e p)
  then obtain ms where ms: "members_tree src (SkipWS src (o' + 1)) e ms" "ms \<noteq> []" "tdepth_members ms \<le> d" by blast
  then have "tdepth (JObj ms) \<le> Suc d" by (cases ms) auto
  then show ?case using tobj [OF obj(1,2) ms(1) obj(5,6,7)] by blast
next
  case (elem d o' e)
  then obtain t where "tree_at src o' e t" "tdepth t \<le> d" by blast
  then show ?case by (intro exI [of _ "[t]"]) (simp add: telem)
next
  case (elem_more d o' e q e')
  then obtain t ts where "tree_at src o' e t" "tdepth t \<le> d" "elems_tree src (SkipWS src (q + 1)) e' ts" "tdepth_elems ts \<le> d" by blast
  then show ?case using telem_more [OF _ elem_more(3,4,5)] by (intro exI [of _ "t # ts"]) simp
next
  case (member o' k c d e)
  then obtain t where t: "tree_at src (SkipWS src (c + 1)) e t" "tdepth t \<le> d" by blast
  obtain bs x where "decode_from src (o' + 1) = (bs, k, x, True)" using ScanString_decodes [OF member(3)] member(1) by auto
  from tmember [OF member(1,2) this member(4,5,6) t(1)] t(2) show ?case by (intro exI [of _ "[((o' + 1, bs, x), t)]"]) simp
next
  case (member_more o' k c d e q e')
  then obtain t ms where t: "tree_at src (SkipWS src (c + 1)) e t" "tdepth t \<le> d"
      "members_tree src (SkipWS src (q + 1)) e' ms" "tdepth_members ms \<le> d" by blast
  obtain bs x where "decode_from src (o' + 1) = (bs, k, x, True)" using ScanString_decodes [OF member_more(3)] member_more(1) by auto
  from tmember_more [OF member_more(1,2) this member_more(4,5,6) t(1) member_more(9,10,11) t(3)] t(2,4)
  show ?case by (intro exI [of _ "((o' + 1, bs, x), t) # ms"]) simp
next
  case (number o' e d)
  then show ?case using tnum [of o' e src] by (intro exI [of _ "JNum (cut src o' e)"]) simp
next
  case (atom o' e d)
  then show ?case using tatom [of o' e src] by (intro exI [of _ "JAtom (At src o')"]) simp
next
  case (emptyArr o' p d)
  then show ?case using tarr0 [of o' src p] by (intro exI [of _ "JArr []"]) simp
next
  case (emptyObj o' p d)
  then show ?case using tobj0 [of o' src p] by (intro exI [of _ "JObj []"]) simp
qed

lemma json_text_tree: "json_text src d \<Longrightarrow> \<exists>t. json_tree src t \<and> tdepth t \<le> d"
  using value_tree(1) unfolding json_text_def json_tree_def by blast

end
