(* ===== verification/Build.thy ===== *)
theory Build
  imports Json_Tree
begin

text \<open>
  \<^verbatim>\<open>BuildTape\<close> of \<^verbatim>\<open>internal/gdec/tape.go\<close> writes the layout \<open>enc\<close> of the tree of its document. \<open>building\<close> is
  the invariant of the walker: like \<open>walking\<close> in \<^verbatim>\<open>Walk\<close> it relates the index position to a source
  offset and the counters to the open containers, and besides it bounds the tape words and arena
  bytes written so far by the tokens and source bytes consumed, so that neither buffer overflows.
\<close>

section \<open>The room the tokens need\<close>

text \<open>The tape words a token can take: two for a number or literal, one for a string or structural byte.\<close>

definition tok_words :: "bytes \<Rightarrow> nat \<Rightarrow> nat" where
  "tok_words src p = (if src ! p = ch_quote \<or> byteClass (src ! p) = 2 then 1 else 2)"

definition left_words :: "input \<Rightarrow> nat \<Rightarrow> nat" where
  "left_words inp k = sum_list (map (tok_words (in_src inp)) (drop k (token_starts (in_src inp) 0)))"

lemma next_token:
  assumes "cursor inp k pos" "SkipWS (in_src inp) pos < length (in_src inp)"
  shows "drop k (token_starts (in_src inp) 0) = SkipWS (in_src inp) pos # drop (k + 1) (token_starts (in_src inp) 0)"
proof -
  have c: "pos \<le> length (in_src inp)" "drop k (token_starts (in_src inp) 0) = token_starts (in_src inp) pos"
    using assms(1) by (simp_all add: cursor_def)
  then have n: "token_starts (in_src inp) pos \<noteq> []" "hd (token_starts (in_src inp) pos) = SkipWS (in_src inp) pos"
    using token_starts_hd [OF c(1)] assms(2) by auto
  then have k: "k < length (token_starts (in_src inp) 0)" by (metis c(2) drop_all not_le)
  then have d: "drop k (token_starts (in_src inp) 0) = token_starts (in_src inp) 0 ! k # drop (k + 1) (token_starts (in_src inp) 0)"
    by (simp add: Cons_nth_drop_Suc [symmetric])
  then have "token_starts (in_src inp) 0 ! k = SkipWS (in_src inp) pos" using n(2) c(2) by simp
  then show ?thesis using d by simp
qed

lemma left_words_step:
  "cursor inp k pos \<Longrightarrow> SkipWS (in_src inp) pos < length (in_src inp) \<Longrightarrow>
   left_words inp k = tok_words (in_src inp) (SkipWS (in_src inp) pos) + left_words inp (k + 1)"
  using next_token [of inp k pos] by (simp add: left_words_def)

section \<open>The invariant\<close>

text \<open>An open container: its kind, its member count and the tape index of its begin word.\<close>

type_synonym frame = "(bool \<times> nat) \<times> nat"

definition tids :: "walker \<Rightarrow> nat list \<Rightarrow> bool" where
  "tids w ss \<longleftrightarrow> (ss \<noteq> [] \<longrightarrow> curTidx w = word_of_nat (hd ss)) \<and>
     (\<forall>j < length ss - 1. tidx (stack w ! j) = word_of_nat (rev ss ! j)) \<and> (\<forall>s \<in> set ss. s < tp w)"

text \<open>
  At \<open>pos\<close> inside the containers \<open>gs\<close>, with \<open>j\<close> tape words to spare and at most \<open>k\<close> arena bytes more than
  source bytes behind it.
\<close>

definition building :: "input \<Rightarrow> nat \<Rightarrow> walker \<Rightarrow> nat \<Rightarrow> frame list \<Rightarrow> nat \<Rightarrow> nat \<Rightarrow> bool" where
  "building inp n w pos gs j k \<longleftrightarrow>
     idx_ok inp n \<and> cursor inp (ip w) pos \<and> ctl w (map fst gs) \<and> tids w (map snd gs) \<and>
     room (j + left_words inp (ip w)) w \<and> tp w + j \<le> 2 * ip w \<and> sp w \<le> pos + k \<and> length (in_src inp) < length (str w)"

lemma buildingD:
  assumes "building inp n w pos gs j k"
  shows "idx_ok inp n" "cursor inp (ip w) pos" "ctl w (map fst gs)" "tids w (map snd gs)" "pos \<le> length (in_src inp)"
    "peek inp w = At (in_src inp) (SkipWS (in_src inp) pos)" "off inp (ip w) = SkipWS (in_src inp) pos"
    "room (j + left_words inp (ip w)) w" "tp w + j \<le> 2 * ip w" "sp w \<le> pos + k" "length (in_src inp) < length (str w)"
    "length (in_src inp) < 2 ^ 31" "tape w \<noteq> None"
  using assms peek_cursor off_cursor by (auto simp: building_def cursor_def idx_ok_def room_def)

lemma adv_fields [simp]: "tp (adv w) = tp w" "sp (adv w) = sp w" "str (adv w) = str w" "stack (adv w) = stack w"
  "curTidx (adv w) = curTidx w" "curCnt (adv w) = curCnt w" "depth (adv w) = depth w"
  by (simp_all add: adv_def)

lemma bump_fields [simp]: "tp (bump w) = tp w" "sp (bump w) = sp w" "str (bump w) = str w" "stack (bump w) = stack w"
  "curTidx (bump w) = curTidx w" "depth (bump w) = depth w"
  by (simp_all add: bump_def)

lemma room_adv [simp]: "room k (adv w) = room k w" "room k (bump w) = room k w"
  by (simp_all add: room_def)

lemma tids_adv [simp]: "tids (adv w) ss = tids w ss" "tids (bump w) ss = tids w ss"
  by (simp_all add: tids_def)

lemma room_mono: "room k w \<Longrightarrow> j \<le> k \<Longrightarrow> room j w"
  by (auto simp: room_def)

lemma building_weaken: "building inp n w pos gs j k \<Longrightarrow> j' \<le> j \<Longrightarrow> k \<le> k' \<Longrightarrow> building inp n w pos gs j' k'"
  unfolding building_def by (auto intro: room_mono)

lemma SkipWS_ge_pos: "pos \<le> length src \<Longrightarrow> pos \<le> SkipWS src pos"
  using SkipWS_bounds [of pos src] by simp

lemma building_structural:
  assumes "building inp n w pos gs j k" "peek inp w = c" "byteClass c = 2" "k \<le> 1"
  shows "building inp n (adv w) (SkipWS (in_src inp) pos + 1) gs (j + 1) 0" "SkipWS (in_src inp) pos < length (in_src inp)"
proof -
  note B = buildingD [OF assms(1)]
  have at: "At (in_src inp) (SkipWS (in_src inp) pos) = c" using B(6) assms(2) by simp
  note C = cursor_structural [OF B(2) at assms(3)]
  show l: "SkipWS (in_src inp) pos < length (in_src inp)" by (rule C(2))
  have "tok_words (in_src inp) (SkipWS (in_src inp) pos) = 1" using at l assms(3) by (simp add: tok_words_def)
  then have lw: "left_words inp (ip w) = 1 + left_words inp (ip w + 1)" using left_words_step [OF B(2) l] by simp
  show "building inp n (adv w) (SkipWS (in_src inp) pos + 1) gs (j + 1) 0"
    unfolding building_def using B C(1) lw assms(4) SkipWS_ge_pos [OF B(5)] by (auto simp: ctl_adv)
qed

text \<open>A visit that consumes the token at \<open>pos\<close> and appends no more words than it has.\<close>

lemma building_appended:
  assumes "building inp n w pos gs j k" "same_ctl (adv w) w'" "appended w w' ws as" "cursor inp (ip w + 1) e"
    "SkipWS (in_src inp) pos < length (in_src inp)" "length ws \<le> tok_words (in_src inp) (SkipWS (in_src inp) pos)"
    "sp w + length as \<le> e + k'"
  shows "building inp n w' e gs j k'"
proof -
  note B = buildingD [OF assms(1)] and A = appended_fields [OF assms(3)]
  have i: "ip w' = ip w + 1" using assms(2) by (simp add: same_ctl_def)
  have lw: "left_words inp (ip w) = tok_words (in_src inp) (SkipWS (in_src inp) pos) + left_words inp (ip w + 1)"
    by (rule left_words_step [OF B(2) assms(5)])
  have "tok_words (in_src inp) (SkipWS (in_src inp) pos) \<le> 2" by (simp add: tok_words_def)
  then have t: "tp w' + j \<le> 2 * ip w'" using A(1) B(9) assms(6) i by simp
  have "room (length ws + (j + left_words inp (ip w + 1))) w" using B(8) lw assms(6) by (intro room_mono [OF B(8)]) simp
  then have r: "room (j + left_words inp (ip w')) w'" using appended_room [OF assms(3)] i by simp
  have c: "ctl w' (map fst gs)" using ctl_mono [OF B(3), of "ip w + 1" w'] assms(2) by (simp add: adv_def)
  have "tids w' (map snd gs)" using B(4) assms(2) A(1) by (auto simp: tids_def same_ctl_def)
  then show ?thesis unfolding building_def using B(1,11) assms(4,7) i t r c A(2,3) by simp
qed

section \<open>Tokens on the tape\<close>

lemma appended_adv [simp]: "appended (adv w) w' ws as = appended w w' ws as" "appended (bump w) w' ws as = appended w w' ws as"
  by (simp_all add: appended_def)

lemma visit_at:
  assumes "building inp n w pos gs j k" "At (in_src inp) (SkipWS (in_src inp) pos) \<noteq> 0x20"
  shows "SkipWS (in_src inp) pos < length (in_src inp)" "tok_words (in_src inp) (SkipWS (in_src inp) pos) \<le> j + left_words inp (ip w)"
    "room (tok_words (in_src inp) (SkipWS (in_src inp) pos)) (adv w)" "sp w \<le> SkipWS (in_src inp) pos + k"
    "k = 0 \<Longrightarrow> sp w < 2 ^ 32"
proof -
  note B = buildingD [OF assms(1)]
  show l: "SkipWS (in_src inp) pos < length (in_src inp)" by (rule At_neq_space [OF assms(2)])
  show m: "tok_words (in_src inp) (SkipWS (in_src inp) pos) \<le> j + left_words inp (ip w)" using left_words_step [OF B(2) l] by simp
  show "room (tok_words (in_src inp) (SkipWS (in_src inp) pos)) (adv w)" using room_mono [OF B(8) m] by simp
  show "sp w \<le> SkipWS (in_src inp) pos + k" using B(10) SkipWS_ge_pos [OF B(5)] by simp
  then show "k = 0 \<Longrightarrow> sp w < 2 ^ 32" using l B(12) by simp
qed

lemma str_enc_len: "str_enc zc p (b, bs, x) = (ws, as) \<Longrightarrow> length ws = 1 \<and> length as \<le> length bs + 1"
  by (auto simp: str_enc_def split: if_splits)

lemma num_enc_len: "num_enc p t v = (ws, as) \<Longrightarrow> length ws \<le> 2 \<and> length as \<le> length t + 1"
  by (cases v) auto

lemma string_built:
  assumes "building inp n w pos gs 0 0" "o' = SkipWS (in_src inp) pos" "src = in_src inp" "At src o' = ch_quote"
    "decode_from src (o' + 1) = (bs, e, x, True)" "length bs \<le> maxSpan"
  obtains w' ws as where "visitString inp o' (adv w) = Ok w'" "str_enc (in_zc inp) (sp w) (o' + 1, bs, x) = (ws, as)"
    "appended w w' ws as" "building inp n w' (e + 1) gs 0 0"
proof -
  note B = buildingD [OF assms(1)]
  have q: "At (in_src inp) (SkipWS (in_src inp) pos) = ch_quote" using assms(2,3,4) by simp
  then have ns: "At (in_src inp) (SkipWS (in_src inp) pos) \<noteq> 0x20" by simp
  note V = visit_at [OF assms(1) ns]
  have l: "o' < length (in_src inp)" using V(1) assms(2) by simp
  have d: "decode_from (in_src inp) (o' + 1) = (bs, e, x, True)" using assms(3,5) by simp
  have b: "o' + 1 \<le> length (in_src inp)" using l by simp
  note D = decode_from_bounds [OF b d]
  have tw: "tok_words (in_src inp) o' = 1" using q l assms(2) by (simp add: tok_words_def)
  have r: "room 1 (adv w)" using V(3) tw assms(2) by simp
  have s: "sp (adv w) + (e - o') \<le> length (str (adv w))" unfolding adv_fields using V(4) D B(11) assms(2) by linarith
  obtain w' ws as where w': "visitString inp o' (adv w) = Ok w'" "str_enc (in_zc inp) (sp (adv w)) (o' + 1, bs, x) = (ws, as)"
      "appended (adv w) w' ws as"
    by (rule visitString_appended [OF d l assms(6) r s])
  have sc: "ScanString (in_src inp) (SkipWS (in_src inp) pos + 1) = (e, True)" using ScanString_eq [OF b d] assms(2) by simp
  have c: "cursor inp (ip w + 1) (e + 1)" by (rule cursor_string(1) [OF B(2) q sc])
  have "building inp n w' (e + 1) gs 0 0"
  proof (rule building_appended [OF assms(1) visitString_ctl [OF w'(1)] _ c V(1)])
    show "appended w w' ws as" using w'(3) by simp
    show "length ws \<le> tok_words (in_src inp) (SkipWS (in_src inp) pos)" using str_enc_len [OF w'(2)] tw assms(2) by simp
    have "length as \<le> length bs + 1" using str_enc_len [OF w'(2)] by simp
    moreover have "sp w \<le> o'" using V(4) assms(2) by simp
    ultimately show "sp w + length as \<le> e + 1 + 0" using D by linarith
  qed
  then show thesis using w' by (intro that) simp_all
qed

lemma atom_at: "cut src o' e \<in> {lit ''true'', lit ''false'', lit ''null''} \<Longrightarrow> e \<le> length src \<Longrightarrow> \<not> IsNonDelim (At src e) \<Longrightarrow>
    o' < e \<and> At src o' \<in> {ch_t, ch_f, ch_n} \<and> snd (ValidAtom src o')"
  using literal_nonempty [of src o' e] literal_at_first [of o' e src] ValidAtom_iff [of src o' e] by (auto simp: snd_True_iff)

lemma first_class: "IsDigit c \<or> c = ch_minus \<or> c \<in> {ch_t, ch_f, ch_n} \<Longrightarrow> c \<noteq> ch_quote \<and> byteClass c \<noteq> 2 \<and> c \<noteq> 0x20 \<and> c \<noteq> ch_lbrace \<and> c \<noteq> ch_lbrack"
  by (auto simp: byteClass_def IsDigit_iff)

fun is_prim :: "jtree \<Rightarrow> bool" where
  "is_prim (JArr ts) \<longleftrightarrow> False"
| "is_prim (JObj ms) \<longleftrightarrow> False"
| "is_prim _ \<longleftrightarrow> True"

lemma prim_built:
  assumes "building inp n w pos gs 0 0" "o' = SkipWS (in_src inp) pos" "tree_at (in_src inp) o' e t" "is_prim t" "fits t"
    "\<not> IsNonDelim (At (in_src inp) e)"
  obtains w' ws as where "visitPrimitive inp w = Ok w'" "enc (in_zc inp) (tp w) (sp w) t = (ws, as)"
    "appended w w' ws as" "building inp n w' e gs 0 1" "At (in_src inp) o' \<noteq> ch_lbrace" "At (in_src inp) o' \<noteq> ch_lbrack"
proof -
  note B = buildingD [OF assms(1)]
  from assms(3) show thesis
  proof (cases rule: tree_at.cases)
    case (tstr bs e' x)
    have q: "At (in_src inp) o' = ch_quote" using tstr by simp
    have m: "length bs \<le> maxSpan" using assms(5) tstr by simp
    obtain w' ws as where w': "visitString inp o' (adv w) = Ok w'" "str_enc (in_zc inp) (sp w) (o' + 1, bs, x) = (ws, as)"
        "appended w w' ws as" "building inp n w' (e' + 1) gs 0 0"
      by (rule string_built [OF assms(1,2) refl q tstr(5) m])
    have "visitPrimitive inp w = Ok w'" using w'(1) B(7) q assms(2) by (simp add: visitPrimitive_def Let_def)
    then show thesis using w' tstr q building_weaken [OF w'(4), of 0 1] by (intro that) simp_all
  next
    case tnum
    have lt: "o' < e" by (rule number_nonempty [OF tnum(4)])
    have f: "At (in_src inp) o' = ch_minus \<or> IsDigit (At (in_src inp) o')" by (rule number_at_first [OF lt tnum(3,4)])
    note C = first_class [of "At (in_src inp) o'"]
    have ns: "At (in_src inp) (SkipWS (in_src inp) pos) \<noteq> 0x20" using C f assms(2) by auto
    note V = visit_at [OF assms(1) ns]
    let ?t = "cut (in_src inp) o' e"
    have lt': "length ?t = e - o'" using tnum(3) by simp
    have l: "o' < length (in_src inp)" using V(1) assms(2) by simp
    have tw: "tok_words (in_src inp) o' = 2" using C f l by (auto simp: tok_words_def)
    have d: "drop o' (in_src inp) = ?t @ drop e (in_src inp)"
      using append_take_drop_id [of "e - o'" "drop o' (in_src inp)"] lt by (simp add: cut_def)
    have h: "\<not> IsNonDelim (head_byte (drop e (in_src inp)))" using assms(6) by (simp add: At_head)
    have r: "room 2 (adv w)" using V(3) tw assms(2) by simp
    have s: "sp (adv w) + length ?t + 1 \<le> length (str (adv w))" unfolding adv_fields using V(4) B(11) tnum(3) lt lt' assms(2) by linarith
    have s2: "sp (adv w) < 2 ^ 32" using V(5) by simp
    have nf: "num_fits ?t (num_node ?t)" using assms(5) tnum by simp
    obtain w' ws as where w': "visitNumber inp o' (adv w) = Ok w'" "num_enc (sp (adv w)) ?t (num_node ?t) = (ws, as)" "appended (adv w) w' ws as"
      by (rule visitNumber_appended [OF d less_imp_le [OF l] B(12) tnum(4) h r s s2 nf])
    have vp: "visitPrimitive inp w = Ok w'" using w'(1) B(7,13) f C assms(2) by (auto simp: visitPrimitive_def Let_def)
    have c: "cursor inp (ip w + 1) e"
      by (rule cursor_scalar [OF B(2) assms(2) lt tnum(3) is_number_plain [OF tnum(4)] assms(6)])
    have "building inp n w' e gs 0 1"
    proof (rule building_appended [OF assms(1) visitPrimitive_ctl [OF vp] _ c V(1)])
      show "appended w w' ws as" using w'(3) by simp
      show "length ws \<le> tok_words (in_src inp) (SkipWS (in_src inp) pos)" using num_enc_len [OF w'(2)] tw assms(2) by simp
      show "sp w + length as \<le> e + 1" using num_enc_len [OF w'(2)] lt' lt V(4) assms(2) by linarith
    qed
    then show thesis using vp w' tnum C f by (intro that) auto
  next
    case tatom
    note A = atom_at [OF tatom(4,3) assms(6)]
    note C = first_class [of "At (in_src inp) o'"]
    have ns: "At (in_src inp) (SkipWS (in_src inp) pos) \<noteq> 0x20" using C A assms(2) by auto
    note V = visit_at [OF assms(1) ns]
    have l: "o' < length (in_src inp)" using V(1) assms(2) by simp
    have tw: "tok_words (in_src inp) o' = 2" using C A l by (auto simp: tok_words_def)
    have r: "room 1 (adv w)" using V(3) tw assms(2) by (auto intro: room_mono)
    have s: "sp (adv w) \<le> length (str (adv w))" using V(4) B(11) l assms(2) by simp
    obtain w' where w': "put (tag_word (At (in_src inp) o')) (adv w) = Ok w'" "appended (adv w) w' [tag_word (At (in_src inp) o')] []"
      by (rule put_appended [OF r s])
    have "\<not> IsDigit (At (in_src inp) o')" using A by (auto simp: IsDigit_iff)
    then have vp: "visitPrimitive inp w = Ok w'" using w'(1) B(7,13) A C assms(2) by (auto simp: visitPrimitive_def Let_def)
    have c: "cursor inp (ip w + 1) e"
      by (rule cursor_scalar [OF B(2) assms(2) _ tatom(3) literals_plain [OF tatom(4)] assms(6)]) (use A in simp)
    have "building inp n w' e gs 0 1"
    proof (rule building_appended [OF assms(1) visitPrimitive_ctl [OF vp] _ c V(1)])
      show "appended w w' [tag_word (At (in_src inp) o')] []" using w'(2) by simp
      show "length [tag_word (At (in_src inp) o')] \<le> tok_words (in_src inp) (SkipWS (in_src inp) pos)" using tw assms(2) by simp
      show "sp w + length [] \<le> e + 1" using A V(4) assms(2) by simp
    qed
    then show thesis using vp w' tatom C A by (intro that) auto
  qed (use assms(4) in auto)
qed

section \<open>Containers on the tape\<close>

lemma push_fields:
  assumes "push a w = Ok w'"
  shows "tape w' = tape w" "str w' = str w" "sp w' = sp w" "ip w' = ip w" "tp w' = (if tape w \<noteq> None then tp w + 1 else tp w)"
    "curTidx w' = word_of_nat (tp w)" "depth w' = depth w + 1"
    "stack w' = (if 0 \<le> depth w then (stack w)[nat (depth w) := \<lparr>tidx = curTidx w, count = curCnt w\<rparr>] else stack w)"
  using assms by (auto simp: push_def Let_def split: if_splits)

lemma begin_built:
  assumes "building inp n w pos gs 1 0" "length gs < maxDepth" "0 < ip w"
  obtains w' where "push a w = Ok w'" "building inp n (bump w') pos (((a, 1), tp w) # gs) 0 0"
    "tape w' = tape w" "tp w' = tp w + 1" "str w' = str w" "sp w' = sp w" "ip w' = ip w"
proof -
  note B = buildingD [OF assms(1)]
  have l: "length (map fst gs) < maxDepth" using assms(2) by simp
  obtain w' where p: "push a w = Ok w'" "ctl w' ((a, 0) # map fst gs)" "ip w' = ip w"
    using ctl_push [OF B(3) l, of a] by metis
  note F = push_fields [OF p(1)]
  have tp: "tp w' = tp w + 1" using F(5) B(13) by simp
  have c: "ctl (bump w') ((a, 1) # map fst gs)" using ctl_bump [OF p(2)] p(3) assms(3) by simp
  have d: "depth w = int (length gs) - 1" "length (stack w) = maxDepth" using B(3) by (simp_all add: ctl_def)
  have t: "tids (bump w') (tp w # map snd gs)"
    unfolding tids_adv
  proof -
    have "tidx (stack w' ! j) = word_of_nat (rev (map snd gs) ! j)" if "j < length gs" for j
    proof (cases "j = length gs - 1")
      case True
      then have g: "gs \<noteq> []" "nat (depth w) = j" "0 \<le> depth w" using that d by auto
      then have "rev (map snd gs) ! j = hd (map snd gs)" using True by (simp add: rev_nth hd_conv_nth)
      moreover have "stack w' ! j = \<lparr>tidx = curTidx w, count = curCnt w\<rparr>" using F(8) g d(2) that assms(2) by simp
      moreover have "curTidx w = word_of_nat (hd (map snd gs))" using B(4) g(1) by (simp add: tids_def)
      ultimately show ?thesis by simp
    next
      case False
      then have "stack w' ! j = stack w ! j" using F(8) d by (auto simp: nth_list_update)
      then show ?thesis using B(4) that False by (simp add: tids_def)
    qed
    then show "tids w' (tp w # map snd gs)" using F(6) tp B(4) by (auto simp: tids_def nth_append)
  qed
  have r: "room (0 + left_words inp (ip w')) w'" using B(8) F(1) p(3) tp by (auto simp: room_def)
  have "building inp n (bump w') pos (((a, 1), tp w) # gs) 0 0"
    unfolding building_def using B c t r tp F(2,3) p(3) by simp
  then show thesis using that p F tp by simp
qed

lemma count_word:
  assumes "m < 2 ^ 31"
  shows "ucast (min (cnt_word (a, m) AND 0x7FFFFFFF) (word_of_nat maxSpan)) = (word_of_nat (min m maxSpan) :: u64)"
proof -
  have u: "unat (word_of_nat m :: u32) = m" using assms by (simp add: unat_of_nat)
  have k: "(0x7FFFFFFF :: u32) = mask 31" by (simp add: mask_eq_exp_minus_1)
  have b: "\<not> bit (word_of_nat m :: u32) 31" using u assms bit_unsigned_iff [where 'a = nat, of "word_of_nat m :: u32" 31]
    by (simp add: bit_iff_odd)
  have s: "isArr_bit + word_of_nat m = isArr_bit OR (word_of_nat m :: u32)"
    using b by (intro disjunctive_add) (auto simp: bit_isArr)
  have t: "take_bit 31 (word_of_nat m :: u32) = word_of_nat m"
    by (rule unsigned_word_eqI [where 'a = nat]) (use assms u in \<open>simp add: unsigned_take_bit_eq take_bit_nat_eq_self\<close>)
  have "take_bit 31 isArr_bit = 0" by (rule bit_eqI) (auto simp: bit_take_bit_iff bit_isArr)
  then have "cnt_word (a, m) AND 0x7FFFFFFF = word_of_nat m"
    using s t unfolding k take_bit_eq_mask [symmetric] by (simp add: cnt_word_def)
  moreover have "unat (min (word_of_nat m) (word_of_nat maxSpan) :: u32) = min m maxSpan"
    using u by (auto simp: min_def word_le_nat_alt maxSpan_def)
  ultimately show ?thesis by (metis of_nat_unat)
qed

lemma frames_small:
  assumes "building inp n w pos (((a, m), s) # gs) j k"
  shows "m < 2 ^ 31" "s < tp w" "tp w + j < 2 ^ 32"
proof -
  note B = buildingD [OF assms]
  have i: "ip w \<le> length (in_src inp)"
    using B(2) length_idx_run [of False False True 0 "in_src inp"] idx_run_tokens [of 0 "in_src inp"] by (simp add: cursor_def)
  have "m \<le> ip w" using B(3) by (auto simp: ctl_def)
  then show "m < 2 ^ 31" using i B(12) by simp
  show "s < tp w" using B(4) by (simp add: tids_def)
  show "tp w + j < 2 ^ 32" using B(9,12) i by simp
qed

lemma pop_built:
  assumes "building inp n w pos (((a, m), s) # gs) 1 k" "tape w = Some T"
  obtains w' where "pop (if a then tagArrBeg else tagObjBeg) (if a then tagArrEnd else tagObjEnd) w = Ok w'"
    "building inp n w' pos gs 0 k" "tape w' = Some (T[s := begin_word a (tp w) m, tp w := end_word a s])"
    "tp w' = tp w + 1" "str w' = str w" "sp w' = sp w" "ip w' = ip w" "gs = [] \<Longrightarrow> curCnt w' = cnt_word (a, m)" "tp w < length T"
proof -
  note B = buildingD [OF assms(1)] and S = frames_small [OF assms(1)]
  let ?b = "if a then tagArrBeg else tagObjBeg" and ?e = "if a then tagArrEnd else tagObjEnd"
  have tl: "tp w < length T" using B(8) assms(2) by (auto simp: room_def)
  have cur: "curCnt w = cnt_word (a, m)" "curTidx w = word_of_nat s" using B(3,4) by (simp_all add: ctl_def tids_def)
  have us: "unat (word_of_nat s :: u32) = s" using S(2,3) by (simp add: unat_of_nat)
  have cs: "ucast (word_of_nat s :: u32) = (word_of_nat s :: u64)" using us by (metis of_nat_unat)
  have d: "depth w = int (length gs)" using B(3) by (simp add: ctl_def)
  let ?T = "T[s := begin_word a (tp w) m, tp w := end_word a s]"
  let ?w = "w\<lparr>tape := Some ?T, tp := tp w + 1, depth := depth w - 1\<rparr>"
  let ?w' = "if 0 \<le> depth w - 1 then ?w\<lparr>curTidx := tidx (stack ?w ! nat (depth w - 1)), curCnt := count (stack ?w ! nat (depth w - 1))\<rparr> else ?w"
  have bw: "?b OR word_of_nat (tp w) OR push_bit 32 (ucast (min (curCnt w AND 0x7FFFFFFF) (word_of_nat maxSpan))) = begin_word a (tp w) m"
    unfolding cur(1) count_word [OF S(1)] by (simp add: begin_word_def mk_word_def)
  have p: "pop ?b ?e w = Ok ?w'"
    unfolding pop_def Let_def bw using assms(2) tl S(2) cur(2) us cs by (simp add: put_def end_word_def)
  obtain v where v: "pop ?b ?e (w\<lparr>tape := None\<rparr>) = Ok v" "ctl v (map fst gs)" "gs = [] \<Longrightarrow> curCnt v = cnt_word (a, m)"
  proof -
    have "ctl (w\<lparr>tape := None\<rparr>) ((a, m) # map fst gs)" using B(3) by (simp add: ctl_def)
    from ctl_pop [OF this, of ?b ?e] show thesis using that by simp (metis (no_types))
  qed
  have vf: "depth v = depth ?w'" "stack v = stack ?w'" "ip v = ip ?w'" "curCnt v = curCnt ?w'"
    using v(1) by (auto simp: pop_def Let_def split: if_splits)
  have c: "ctl ?w' (map fst gs)" "gs = [] \<Longrightarrow> curCnt ?w' = cnt_word (a, m)" using v(2,3) unfolding ctl_def vf by auto
  have t: "tids ?w' (map snd gs)"
  proof (cases gs)
    case (Cons g gs')
    have dp: "nat (depth w - 1) = length gs'" "0 \<le> depth w - 1" using d Cons by auto
    have st: "tidx (stack w ! j) = word_of_nat (rev (s # map snd gs) ! j)" if "j < length gs" for j
      using B(4) that by (simp add: tids_def)
    have "tidx (stack w ! length gs') = word_of_nat (snd g)" using st [of "length gs'"] Cons by (simp add: nth_append)
    moreover have "tidx (stack w ! j) = word_of_nat (rev (map snd gs) ! j)" if "j < length gs'" for j
      using st [of j] that Cons by (simp add: nth_append)
    moreover have "\<forall>x \<in> set (map snd gs). x < tp w" using B(4) by (simp add: tids_def)
    ultimately show ?thesis using dp Cons by (auto simp: tids_def)
  qed (simp add: tids_def)
  have r: "room (0 + left_words inp (ip w)) ?w'" using B(8) assms(2) by (auto simp: room_def)
  have b: "building inp n ?w' pos gs 0 k"
    unfolding building_def using B c(1) t r by auto
  show thesis by (rule that [OF p b]) (use c(2) tl in auto)
qed

lemma container_appended:
  assumes "tape w1 = tape w0" "tp w1 = tp w0 + 1" "str w1 = str w0" "sp w1 = sp w0" "appended w1 w2 ws as" "tape w2 = Some T"
    "tape w3 = Some (T[tp w0 := b, tp w2 := en])" "tp w3 = tp w2 + 1" "str w3 = str w2" "sp w3 = sp w2" "tp w2 < length T"
  shows "appended w0 w3 (b # ws @ [en]) as"
proof -
  obtain T0 where T: "tape w0 = Some T0" "length T = length T0" "tp w2 = tp w0 + 1 + length ws" "take (tp w2) T = take (tp w0 + 1) T0 @ ws"
    using assms(1,2,5,6) by (auto simp: appended_def)
  have l: "tp w0 < length T0" using T assms(11) by simp
  have "take (tp w2) (T[tp w0 := b]) = (take (tp w0 + 1) T0 @ ws)[tp w0 := b]" using T(4) by (simp add: take_update_swap)
  also have "\<dots> = take (tp w0) T0 @ [b] @ ws" using l by (simp add: list_update_append take_Suc_conv_app_nth)
  finally have "take (tp w3) (T[tp w0 := b, tp w2 := en]) = take (tp w0) T0 @ b # ws @ [en]"
    using take_update [of "tp w2" "T[tp w0 := b]" en] assms(8,11) by simp
  then show ?thesis using assms T by (auto simp: appended_def)
qed

lemma building_spare:
  assumes "building inp n w pos gs (j + length ws) k" "same_ctl w w'" "appended w w' ws as" "sp w + length as \<le> pos + k'"
  shows "building inp n w' pos gs j k'"
proof -
  note B = buildingD [OF assms(1)] and A = appended_fields [OF assms(3)]
  have i: "ip w' = ip w" using assms(2) by (simp add: same_ctl_def)
  have "room (length ws + (j + left_words inp (ip w))) w" using B(8) by (simp add: ac_simps)
  then have r: "room (j + left_words inp (ip w')) w'" using appended_room [OF assms(3)] i by simp
  have c: "ctl w' (map fst gs)" using B(3) assms(2) by (auto simp: ctl_def same_ctl_def)
  have "tids w' (map snd gs)" using B(4) assms(2) A(1) by (auto simp: tids_def same_ctl_def)
  then show ?thesis unfolding building_def using B(1,2,9,11) assms(4) i r c A(1,2,3) by simp
qed

lemma put_two_ctl: "Tape.bind (put x w) (put y) = Ok w' \<Longrightarrow> same_ctl w w'"
  by (auto simp: bind_Ok dest!: put_ctl intro: same_ctl_trans)

lemma empty_built:
  assumes "building inp n w pos gs 0 0" "o' = SkipWS (in_src inp) pos" "At (in_src inp) o' = (if b then ch_lbrack else ch_lbrace)"
    "p = SkipWS (in_src inp) (o' + 1)" "At (in_src inp) p = closer b"
  obtains w' where "run_value inp cont w = Ok (cont, w')" "building inp n w' (p + 1) gs 0 1"
    "appended w w' [begin_word b (tp w + 1) 0, end_word b (tp w)] []"
proof -
  have pk0: "peek inp w = (if b then ch_lbrack else ch_lbrace)" using buildingD(6) [OF assms(1)] assms(2,3) by simp
  have w1: "building inp n (adv w) (o' + 1) gs 1 0"
    using building_structural(1) [OF assms(1) pk0] assms(2) by (auto simp: class_2)
  have pk: "peek inp (adv w) = closer b" using buildingD(6) [OF w1] assms(4,5) by simp
  have w2: "building inp n (adv (adv w)) (p + 1) gs 2 0"
    using building_structural(1) [OF w1 pk] assms(4) by (auto simp: closer_def class_2 numeral_2_eq_2)
  note B = buildingD [OF w2]
  have r: "room 2 (adv (adv w))" by (rule room_mono [OF B(8)]) simp
  have s: "sp (adv (adv w)) \<le> length (str (adv (adv w)))" using B(5,10,11) by simp
  let ?x = "begin_word b (tp w + 1) 0" and ?y = "end_word b (tp w)"
  obtain w' where w': "Tape.bind (put ?x (adv (adv w))) (put ?y) = Ok w'" "appended (adv (adv w)) w' [?x, ?y] []"
    by (rule put_put_appended [OF r s])
  have x: "?x = (if b then tagArrBeg else tagObjBeg) OR (word_of_nat (tp w) + 1)" "?y = (if b then tagArrEnd else tagObjEnd) OR word_of_nat (tp w)"
    by (simp_all add: begin_word_def mk_word_def end_word_def add.commute)
  obtain T where "tape w = Some T" using B(13) by auto
  then have em: "emitEmpty (if b then tagArrBeg else tagObjBeg) (if b then tagArrEnd else tagObjEnd) (adv (adv w)) = Ok w'"
    using w'(1) unfolding x by (simp add: emitEmpty_def Let_def)
  have rv: "run_value inp cont w = Ok (cont, w')" using pk0 pk em by (cases b) (simp_all add: run_value_def closer_def Let_def)
  have "building inp n w' (p + 1) gs 0 1"
    by (rule building_spare [OF _ put_two_ctl [OF w'(1)] w'(2)]) (use w2 B(10) in \<open>simp_all add: numeral_2_eq_2\<close>)
  then show thesis using rv w'(2) by (intro that) simp_all
qed

lemma open_built:
  assumes "building inp n w pos gs 0 0" "o' = SkipWS (in_src inp) pos" "At (in_src inp) o' = (if b then ch_lbrack else ch_lbrace)"
    "At (in_src inp) (SkipWS (in_src inp) (o' + 1)) \<noteq> closer b"
  shows "run_value inp cont w = Ok (if b then stArrBegin else stObjBegin, adv w)" "building inp n (adv w) (o' + 1) gs 1 0"
proof -
  have pk0: "peek inp w = (if b then ch_lbrack else ch_lbrace)" using buildingD(6) [OF assms(1)] assms(2,3) by simp
  show w1: "building inp n (adv w) (o' + 1) gs 1 0"
    using building_structural(1) [OF assms(1) pk0] assms(2) by (auto simp: class_2)
  show "run_value inp cont w = Ok (if b then stArrBegin else stObjBegin, adv w)"
    using buildingD(6) [OF w1] pk0 assms(4) by (cases b) (simp_all add: run_value_def closer_def)
qed

lemma close_built:
  assumes "building inp n w e (((a, m), s) # gs) 0 1" "At (in_src inp) (SkipWS (in_src inp) e) = closer a" "tape w = Some T"
  obtains w' where "run_loop inp n (cont_of a) w = run_loop inp n stScopeEnd w'" "building inp n w' (SkipWS (in_src inp) e + 1) gs 0 0"
    "tape w' = Some (T[s := begin_word a (tp w) m, tp w := end_word a s])" "tp w' = tp w + 1" "str w' = str w" "sp w' = sp w"
    "gs = [] \<Longrightarrow> curCnt w' = cnt_word (a, m)" "m < 2 ^ 31" "tp w < length T"
proof -
  have pk: "peek inp w = closer a" using buildingD(6) [OF assms(1)] assms(2) by simp
  have c2: "byteClass (closer a) = 2" by (auto simp: closer_def class_2)
  have w1: "building inp n (adv w) (SkipWS (in_src inp) e + 1) (((a, m), s) # gs) 1 0"
    using building_structural(1) [OF assms(1) pk c2] by simp
  have t: "tape (adv w) = Some T" using assms(3) by simp
  obtain w' where p: "pop (if a then tagArrBeg else tagObjBeg) (if a then tagArrEnd else tagObjEnd) (adv w) = Ok w'"
      "building inp n w' (SkipWS (in_src inp) e + 1) gs 0 0" "tape w' = Some (T[s := begin_word a (tp (adv w)) m, tp (adv w) := end_word a s])"
      "tp w' = tp (adv w) + 1" "str w' = str (adv w)" "sp w' = sp (adv w)" "gs = [] \<Longrightarrow> curCnt w' = cnt_word (a, m)" "tp (adv w) < length T"
    by (rule pop_built [OF w1 t]) blast
  have "step inp (cont_of a) w = Ok (stScopeEnd, w')" using pk p(1) by (cases a) (simp_all add: cont_of_def closer_def)
  then show thesis using run_loop_step [of "cont_of a" inp w stScopeEnd w' n] p frames_small(1) [OF w1] by (intro that) simp_all
qed

lemma scope_end_built:
  assumes "building inp n w pos (((a, m), s) # gs) j k"
  shows "run_loop inp n stScopeEnd w = run_loop inp n (cont_of a) w"
proof -
  have "curCnt w = cnt_word (a, m)" using buildingD(3) [OF assms] by (simp add: ctl_def)
  then have "curCnt w AND isArr_bit \<noteq> 0 \<longleftrightarrow> a" using cnt_word_flag frames_small(1) [OF assms] by simp
  then show ?thesis by (intro run_loop_step) (auto simp: cont_of_def)
qed

section \<open>Values, elements and members\<close>

definition builds :: "input \<Rightarrow> nat \<Rightarrow> nat \<Rightarrow> nat \<Rightarrow> jtree \<Rightarrow> bool" where
  "builds inp n o' e t \<longleftrightarrow> (\<forall>w pos a m s gs. building inp n w pos (((a, m), s) # gs) 0 0 \<longrightarrow> o' = SkipWS (in_src inp) pos \<longrightarrow>
     Suc (length gs) + tdepth t \<le> maxDepth \<longrightarrow> fits t \<longrightarrow> \<not> IsNonDelim (At (in_src inp) e) \<longrightarrow>
     (\<exists>w' ws as. enc (in_zc inp) (tp w) (sp w) t = (ws, as) \<and> run_loop inp n (val_of a) w = run_loop inp n (cont_of a) w' \<and>
        building inp n w' e (((a, m), s) # gs) 0 1 \<and> appended w w' ws as))"

definition builds_elems :: "input \<Rightarrow> nat \<Rightarrow> nat \<Rightarrow> nat \<Rightarrow> jtree list \<Rightarrow> bool" where
  "builds_elems inp n o' e ts \<longleftrightarrow> (\<forall>w pos m s gs. building inp n w pos (((True, m), s) # gs) 0 0 \<longrightarrow> o' = SkipWS (in_src inp) pos \<longrightarrow>
     Suc (length gs) + tdepth_elems ts \<le> maxDepth \<longrightarrow> fits_elems ts \<longrightarrow> \<not> IsNonDelim (At (in_src inp) e) \<longrightarrow>
     (\<exists>w' ws as. enc_elems (in_zc inp) (tp w) (sp w) ts = (ws, as) \<and> run_loop inp n stArrValue w = run_loop inp n stArrCont w' \<and>
        building inp n w' e (((True, m + length ts - 1), s) # gs) 0 1 \<and> appended w w' ws as))"

definition builds_members :: "input \<Rightarrow> nat \<Rightarrow> nat \<Rightarrow> nat \<Rightarrow> (jstr \<times> jtree) list \<Rightarrow> bool" where
  "builds_members inp n o' e ms \<longleftrightarrow> (\<forall>w pos m s gs. building inp n w pos (((False, m), s) # gs) 0 0 \<longrightarrow> o' = SkipWS (in_src inp) pos \<longrightarrow>
     Suc (length gs) + tdepth_members ms \<le> maxDepth \<longrightarrow> fits_members ms \<longrightarrow> \<not> IsNonDelim (At (in_src inp) e) \<longrightarrow>
     (\<exists>w1 w' ws as. enc_members (in_zc inp) (tp w) (sp w) ms = (ws, as) \<and> key inp w = Ok w1 \<and>
        run_loop inp n stObjField w1 = run_loop inp n stObjCont w' \<and>
        building inp n w' e (((False, m + length ms - 1), s) # gs) 0 1 \<and> appended w w' ws as))"

lemma builds_prim:
  assumes "tree_at (in_src inp) o' e t" "is_prim t"
  shows "builds inp n o' e t"
  unfolding builds_def
proof (intro allI impI)
  fix w pos a m s gs
  assume w: "building inp n w pos (((a, m), s) # gs) 0 0" "o' = SkipWS (in_src inp) pos" and f: "fits t" "\<not> IsNonDelim (At (in_src inp) e)"
  obtain w' ws as where v: "visitPrimitive inp w = Ok w'" "enc (in_zc inp) (tp w) (sp w) t = (ws, as)" "appended w w' ws as"
      "building inp n w' e (((a, m), s) # gs) 0 1" "At (in_src inp) o' \<noteq> ch_lbrace" "At (in_src inp) o' \<noteq> ch_lbrack"
    by (rule prim_built [OF w assms f])
  have "peek inp w = At (in_src inp) o'" using buildingD(6) [OF w(1)] w(2) by simp
  then have "step inp (val_of a) w = Ok (cont_of a, w')" using v(1,5,6) by (simp only: step_val) (simp add: run_value_def)
  then have "run_loop inp n (val_of a) w = run_loop inp n (cont_of a) w'" by (intro run_loop_step) auto
  then show "\<exists>w' ws as. enc (in_zc inp) (tp w) (sp w) t = (ws, as) \<and> run_loop inp n (val_of a) w = run_loop inp n (cont_of a) w' \<and>
      building inp n w' e (((a, m), s) # gs) 0 1 \<and> appended w w' ws as" using v by blast
qed

lemma builds_empty:
  assumes "At (in_src inp) o' = (if b then ch_lbrack else ch_lbrace)" "p = SkipWS (in_src inp) (o' + 1)" "At (in_src inp) p = closer b"
  shows "builds inp n o' (p + 1) (if b then JArr [] else JObj [])"
  unfolding builds_def
proof (intro allI impI)
  fix w pos a m s gs
  assume w: "building inp n w pos (((a, m), s) # gs) 0 0" "o' = SkipWS (in_src inp) pos"
  obtain w' where v: "run_value inp (cont_of a) w = Ok (cont_of a, w')" "building inp n w' (p + 1) (((a, m), s) # gs) 0 1"
      "appended w w' [begin_word b (tp w + 1) 0, end_word b (tp w)] []"
    by (rule empty_built [OF w assms])
  have "run_loop inp n (val_of a) w = run_loop inp n (cont_of a) w'"
    using v(1) by (intro run_loop_step) (simp_all add: step_val)
  then show "\<exists>w' ws as. enc (in_zc inp) (tp w) (sp w) (if b then JArr [] else JObj []) = (ws, as) \<and>
      run_loop inp n (val_of a) w = run_loop inp n (cont_of a) w' \<and> building inp n w' (p + 1) (((a, m), s) # gs) 0 1 \<and> appended w w' ws as"
    using v by (intro exI [of _ w'] exI [of _ "[begin_word b (tp w + 1) 0, end_word b (tp w)]"] exI [of _ "[]"]) simp
qed

lemma array_built:
  assumes b: "builds_elems inp n (SkipWS (in_src inp) pos) e ts" and e: "e \<le> length (in_src inp)" and ts: "ts \<noteq> []"
    and w: "building inp n w pos gs 1 0" "length gs + tdepth (JArr ts) \<le> maxDepth" "fits_elems ts" "0 < ip w"
    and close: "At (in_src inp) (SkipWS (in_src inp) e) = ch_rbrack"
  obtains w' ws as where "run_loop inp n stArrBegin w = run_loop inp n stScopeEnd w'"
    "building inp n w' (SkipWS (in_src inp) e + 1) gs 0 0" "enc (in_zc inp) (tp w) (sp w) (JArr ts) = (ws, as)" "appended w w' ws as"
    "gs = [] \<Longrightarrow> curCnt w' = cnt_word (True, length ts)" "length ts < 2 ^ 31"
proof -
  have dp: "tdepth (JArr ts) = Suc (tdepth_elems ts)" using ts by (cases ts) simp_all
  then have l: "length gs < maxDepth" using w(2) by simp
  obtain w1 where w1: "push True w = Ok w1" "building inp n (bump w1) pos (((True, 1), tp w) # gs) 0 0"
      "tape w1 = tape w" "tp w1 = tp w + 1" "str w1 = str w" "sp w1 = sp w" "ip w1 = ip w"
    by (rule begin_built [OF w(1) l w(4), of True])
  have dl: "\<not> IsNonDelim (At (in_src inp) e)" using delim_after [OF e refl] close delims by simp
  have "\<exists>w' ws as. enc_elems (in_zc inp) (tp (bump w1)) (sp (bump w1)) ts = (ws, as) \<and> run_loop inp n stArrValue (bump w1) = run_loop inp n stArrCont w' \<and>
        building inp n w' e (((True, 1 + length ts - 1), tp w) # gs) 0 1 \<and> appended (bump w1) w' ws as"
    by (rule b [unfolded builds_elems_def, rule_format, OF w1(2) refl _ w(3) dl]) (use w(2) dp in simp)
  then obtain w2 ws as where w2: "enc_elems (in_zc inp) (tp w + 1) (sp w) ts = (ws, as)" "run_loop inp n stArrValue (bump w1) = run_loop inp n stArrCont w2"
      "building inp n w2 e (((True, length ts), tp w) # gs) 0 1" "appended w1 w2 ws as"
    using w1(4,6) by auto
  obtain T where T: "tape w2 = Some T" using buildingD(13) [OF w2(3)] by auto
  have cl: "At (in_src inp) (SkipWS (in_src inp) e) = closer True" using close by (simp add: closer_def)
  obtain w3 where w3: "run_loop inp n (cont_of True) w2 = run_loop inp n stScopeEnd w3" "building inp n w3 (SkipWS (in_src inp) e + 1) gs 0 0"
      "tape w3 = Some (T[tp w := begin_word True (tp w2) (length ts), tp w2 := end_word True (tp w)])" "tp w3 = tp w2 + 1" "str w3 = str w2" "sp w3 = sp w2"
      "gs = [] \<Longrightarrow> curCnt w3 = cnt_word (True, length ts)" "length ts < 2 ^ 31" "tp w2 < length T"
    by (rule close_built [OF w2(3) cl T]) blast
  have "run_loop inp n stArrBegin w = run_loop inp n stArrValue (bump w1)" using w1(1) by (intro run_loop_step) auto
  then have r: "run_loop inp n stArrBegin w = run_loop inp n stScopeEnd w3" using w2(2) w3(1) by (simp add: cont_of_def)
  have tp2: "tp w2 = tp w + 1 + length ws" using appended_fields(1) [OF w2(4)] w1(4) by simp
  have en: "enc (in_zc inp) (tp w) (sp w) (JArr ts) = (begin_word True (tp w2) (length ts) # ws @ [end_word True (tp w)], as)"
    using w2(1) tp2 by simp
  have ap: "appended w w3 (begin_word True (tp w2) (length ts) # ws @ [end_word True (tp w)]) as"
    by (rule container_appended [OF w1(3,4,5,6) w2(4) T w3(3,4,5,6,9)])
  show thesis by (rule that [OF r w3(2) en ap w3(7,8)])
qed

lemma object_built:
  assumes b: "builds_members inp n (SkipWS (in_src inp) pos) e ms" and e: "e \<le> length (in_src inp)" and ms: "ms \<noteq> []"
    and w: "building inp n w pos gs 1 0" "length gs + tdepth (JObj ms) \<le> maxDepth" "fits_members ms" "0 < ip w"
    and close: "At (in_src inp) (SkipWS (in_src inp) e) = ch_rbrace"
  obtains w' ws as where "run_loop inp n stObjBegin w = run_loop inp n stScopeEnd w'"
    "building inp n w' (SkipWS (in_src inp) e + 1) gs 0 0" "enc (in_zc inp) (tp w) (sp w) (JObj ms) = (ws, as)" "appended w w' ws as"
    "gs = [] \<Longrightarrow> curCnt w' = cnt_word (False, length ms)" "length ms < 2 ^ 31"
proof -
  have dp: "tdepth (JObj ms) = Suc (tdepth_members ms)" using ms by (cases ms) auto
  then have l: "length gs < maxDepth" using w(2) by simp
  obtain w1 where w1: "push False w = Ok w1" "building inp n (bump w1) pos (((False, 1), tp w) # gs) 0 0"
      "tape w1 = tape w" "tp w1 = tp w + 1" "str w1 = str w" "sp w1 = sp w" "ip w1 = ip w"
    by (rule begin_built [OF w(1) l w(4), of False])
  have dl: "\<not> IsNonDelim (At (in_src inp) e)" using delim_after [OF e refl] close delims by simp
  have "\<exists>wk w' ws as. enc_members (in_zc inp) (tp (bump w1)) (sp (bump w1)) ms = (ws, as) \<and> key inp (bump w1) = Ok wk \<and>
        run_loop inp n stObjField wk = run_loop inp n stObjCont w' \<and>
        building inp n w' e (((False, 1 + length ms - 1), tp w) # gs) 0 1 \<and> appended (bump w1) w' ws as"
    by (rule b [unfolded builds_members_def, rule_format, OF w1(2) refl _ w(3) dl]) (use w(2) dp in simp)
  then obtain wk w2 ws as where w2: "enc_members (in_zc inp) (tp w + 1) (sp w) ms = (ws, as)" "key inp (bump w1) = Ok wk"
      "run_loop inp n stObjField wk = run_loop inp n stObjCont w2"
      "building inp n w2 e (((False, length ms), tp w) # gs) 0 1" "appended w1 w2 ws as"
    using w1(4,6) by auto
  obtain T where T: "tape w2 = Some T" using buildingD(13) [OF w2(4)] by auto
  have cl: "At (in_src inp) (SkipWS (in_src inp) e) = closer False" using close by (simp add: closer_def)
  obtain w3 where w3: "run_loop inp n (cont_of False) w2 = run_loop inp n stScopeEnd w3" "building inp n w3 (SkipWS (in_src inp) e + 1) gs 0 0"
      "tape w3 = Some (T[tp w := begin_word False (tp w2) (length ms), tp w2 := end_word False (tp w)])" "tp w3 = tp w2 + 1" "str w3 = str w2" "sp w3 = sp w2"
      "gs = [] \<Longrightarrow> curCnt w3 = cnt_word (False, length ms)" "length ms < 2 ^ 31" "tp w2 < length T"
    by (rule close_built [OF w2(4) cl T]) blast
  have "run_loop inp n stObjBegin w = run_loop inp n stObjField wk" using w1(1) w2(2) by (intro run_loop_step) auto
  then have r: "run_loop inp n stObjBegin w = run_loop inp n stScopeEnd w3" using w2(3) w3(1) by (simp add: cont_of_def)
  have tp2: "tp w2 = tp w + 1 + length ws" using appended_fields(1) [OF w2(5)] w1(4) by simp
  have en: "enc (in_zc inp) (tp w) (sp w) (JObj ms) = (begin_word False (tp w2) (length ms) # ws @ [end_word False (tp w)], as)"
    using w2(1) tp2 by simp
  have ap: "appended w w3 (begin_word False (tp w2) (length ms) # ws @ [end_word False (tp w)]) as"
    by (rule container_appended [OF w1(3,4,5,6) w2(5) T w3(3,4,5,6,9)])
  show thesis by (rule that [OF r w3(2) en ap w3(7,8)])
qed

lemma builds_arr:
  assumes "At (in_src inp) o' = ch_lbrack" "builds_elems inp n (SkipWS (in_src inp) (o' + 1)) e ts" "e \<le> length (in_src inp)" "ts \<noteq> []"
    "At (in_src inp) (SkipWS (in_src inp) (o' + 1)) \<noteq> ch_rbrack" "At (in_src inp) (SkipWS (in_src inp) e) = ch_rbrack"
  shows "builds inp n o' (SkipWS (in_src inp) e + 1) (JArr ts)"
  unfolding builds_def
proof (intro allI impI)
  fix w pos a m s gs
  assume w: "building inp n w pos (((a, m), s) # gs) 0 0" "o' = SkipWS (in_src inp) pos" "Suc (length gs) + tdepth (JArr ts) \<le> maxDepth" "fits (JArr ts)"
  have o1: "run_value inp (cont_of a) w = Ok (stArrBegin, adv w)" "building inp n (adv w) (o' + 1) (((a, m), s) # gs) 1 0"
    using open_built [OF w(1,2), of True] assms(1,5) by (simp_all add: closer_def)
  have l: "length (((a, m), s) # gs) + tdepth (JArr ts) \<le> maxDepth" using w(3) by simp
  have f: "fits_elems ts" "0 < ip (adv w)" using w(4) by simp_all
  obtain w' ws as where w': "run_loop inp n stArrBegin (adv w) = run_loop inp n stScopeEnd w'"
      "building inp n w' (SkipWS (in_src inp) e + 1) (((a, m), s) # gs) 0 0" "enc (in_zc inp) (tp (adv w)) (sp (adv w)) (JArr ts) = (ws, as)"
      "appended (adv w) w' ws as"
    by (rule array_built [OF assms(2,3,4) o1(2) l f assms(6)])
  have "run_loop inp n (val_of a) w = run_loop inp n stArrBegin (adv w)" using o1(1) by (intro run_loop_step) (simp_all add: step_val)
  then show "\<exists>w' ws as. enc (in_zc inp) (tp w) (sp w) (JArr ts) = (ws, as) \<and> run_loop inp n (val_of a) w = run_loop inp n (cont_of a) w' \<and>
      building inp n w' (SkipWS (in_src inp) e + 1) (((a, m), s) # gs) 0 1 \<and> appended w w' ws as"
    using w' scope_end_built [OF w'(2)] building_weaken [OF w'(2), of 0 1]
    by (intro exI [of _ w'] exI [of _ ws] exI [of _ as]) (simp del: enc.simps)
qed

lemma builds_obj:
  assumes "At (in_src inp) o' = ch_lbrace" "builds_members inp n (SkipWS (in_src inp) (o' + 1)) e ms" "e \<le> length (in_src inp)" "ms \<noteq> []"
    "At (in_src inp) (SkipWS (in_src inp) (o' + 1)) \<noteq> ch_rbrace" "At (in_src inp) (SkipWS (in_src inp) e) = ch_rbrace"
  shows "builds inp n o' (SkipWS (in_src inp) e + 1) (JObj ms)"
  unfolding builds_def
proof (intro allI impI)
  fix w pos a m s gs
  assume w: "building inp n w pos (((a, m), s) # gs) 0 0" "o' = SkipWS (in_src inp) pos" "Suc (length gs) + tdepth (JObj ms) \<le> maxDepth" "fits (JObj ms)"
  have o1: "run_value inp (cont_of a) w = Ok (stObjBegin, adv w)" "building inp n (adv w) (o' + 1) (((a, m), s) # gs) 1 0"
    using open_built [OF w(1,2), of False] assms(1,5) by (simp_all add: closer_def)
  have l: "length (((a, m), s) # gs) + tdepth (JObj ms) \<le> maxDepth" using w(3) by simp
  have f: "fits_members ms" "0 < ip (adv w)" using w(4) by simp_all
  obtain w' ws as where w': "run_loop inp n stObjBegin (adv w) = run_loop inp n stScopeEnd w'"
      "building inp n w' (SkipWS (in_src inp) e + 1) (((a, m), s) # gs) 0 0" "enc (in_zc inp) (tp (adv w)) (sp (adv w)) (JObj ms) = (ws, as)"
      "appended (adv w) w' ws as"
    by (rule object_built [OF assms(2,3,4) o1(2) l f assms(6)])
  have "run_loop inp n (val_of a) w = run_loop inp n stObjBegin (adv w)" using o1(1) by (intro run_loop_step) (simp_all add: step_val)
  then show "\<exists>w' ws as. enc (in_zc inp) (tp w) (sp w) (JObj ms) = (ws, as) \<and> run_loop inp n (val_of a) w = run_loop inp n (cont_of a) w' \<and>
      building inp n w' (SkipWS (in_src inp) e + 1) (((a, m), s) # gs) 0 1 \<and> appended w w' ws as"
    using w' scope_end_built [OF w'(2)] building_weaken [OF w'(2), of 0 1]
    by (intro exI [of _ w'] exI [of _ ws] exI [of _ as]) (simp del: enc.simps)
qed

lemma comma_built:
  assumes "building inp n w e (((a, m), s) # gs) 0 1" "At (in_src inp) (SkipWS (in_src inp) e) = ch_comma"
  shows "building inp n (bump (adv w)) (SkipWS (in_src inp) e + 1) (((a, m + 1), s) # gs) 0 0" "peek inp w = ch_comma"
proof -
  show pk: "peek inp w = ch_comma" using buildingD(6) [OF assms(1)] assms(2) by simp
  have w1: "building inp n (adv w) (SkipWS (in_src inp) e + 1) (((a, m), s) # gs) 0 0"
    using building_structural(1) [OF assms(1) pk class_2(5)] by (auto intro: building_weaken)
  moreover have "m \<le> ip w" using buildingD(3) [OF assms(1)] by (auto simp: ctl_def)
  ultimately show "building inp n (bump (adv w)) (SkipWS (in_src inp) e + 1) (((a, m + 1), s) # gs) 0 0"
    using ctl_bump [of "adv w" a m "map fst gs"] by (simp add: building_def)
qed

end
