(* ===== verification/Built.thy ===== *)
theory Built
  imports Build
begin

text \<open>
  The walk of a whole document: every value of the grammar writes its layout (by induction over
  \<open>tree_at\<close>), so does the root, and the counts of the scan bound the words a document needs.
\<close>

section \<open>Elements and members\<close>

lemma appended_adv' [simp]: "appended w (adv w') ws as = appended w w' ws as" "appended w (bump w') ws as = appended w w' ws as"
  by (simp_all add: appended_def)

lemma key_built:
  assumes "building inp n w pos gs 0 0" "o' = SkipWS (in_src inp) pos" "At (in_src inp) o' = ch_quote"
    "decode_from (in_src inp) (o' + 1) = (bs, k, x, True)" "length bs \<le> maxSpan" "c = SkipWS (in_src inp) (k + 1)"
    "At (in_src inp) c = ch_colon"
  obtains w' ws as where "key inp w = Ok w'" "str_enc (in_zc inp) (sp w) (o' + 1, bs, x) = (ws, as)"
    "appended w w' ws as" "building inp n w' (c + 1) gs 0 0"
proof -
  note B = buildingD [OF assms(1)]
  obtain w1 ws as where w1: "visitString inp o' (adv w) = Ok w1" "str_enc (in_zc inp) (sp w) (o' + 1, bs, x) = (ws, as)"
      "appended w w1 ws as" "building inp n w1 (k + 1) gs 0 0"
    by (rule string_built [OF assms(1,2) refl assms(3,4,5)])
  have pk: "peek inp w1 = ch_colon" using buildingD(6) [OF w1(4)] assms(6,7) by simp
  have w2: "building inp n (adv w1) (c + 1) gs 0 0"
    using building_structural(1) [OF w1(4) pk class_2(6)] assms(6) by (auto intro: building_weaken)
  have "key inp w = Ok (adv w1)" using w1(1) pk assms(2,3) B(7) by (simp add: key_def)
  moreover have "appended w (adv w1) ws as" using w1(3) by simp
  ultimately show thesis using that w1(2) w2 by blast
qed

lemma builds_elem: "builds inp n o' e t \<Longrightarrow> builds_elems inp n o' e [t]"
  unfolding builds_def builds_elems_def by (fastforce simp: val_of_def cont_of_def)

lemma builds_elem_more:
  assumes "builds inp n o' e t" "e \<le> length (in_src inp)" "At (in_src inp) (SkipWS (in_src inp) e) = ch_comma"
    "builds_elems inp n (SkipWS (in_src inp) (SkipWS (in_src inp) e + 1)) e' ts" "ts \<noteq> []"
  shows "builds_elems inp n o' e' (t # ts)"
  unfolding builds_elems_def
proof (intro allI impI)
  fix w pos m s gs
  assume w: "building inp n w pos (((True, m), s) # gs) 0 0" "o' = SkipWS (in_src inp) pos"
    "Suc (length gs) + tdepth_elems (t # ts) \<le> maxDepth" "fits_elems (t # ts)" "\<not> IsNonDelim (At (in_src inp) e')"
  have dl: "\<not> IsNonDelim (At (in_src inp) e)" using delim_after [OF assms(2) refl] assms(3) delims by simp
  have d: "Suc (length gs) + tdepth t \<le> maxDepth" "Suc (length gs) + tdepth_elems ts \<le> maxDepth" "fits t" "fits_elems ts" using w(3,4) by simp_all
  obtain w1 ws as where w1: "enc (in_zc inp) (tp w) (sp w) t = (ws, as)" "run_loop inp n stArrValue w = run_loop inp n stArrCont w1"
      "building inp n w1 e (((True, m), s) # gs) 0 1" "appended w w1 ws as"
    using assms(1) [unfolded builds_def, rule_format, OF w(1,2) d(1,3) dl] by (auto simp: val_of_def cont_of_def)
  note c = comma_built [OF w1(3) assms(3)] and A = appended_fields [OF w1(4)]
  obtain w2 vs bs where w2: "enc_elems (in_zc inp) (tp w + length ws) (sp w + length as) ts = (vs, bs)"
      "run_loop inp n stArrValue (bump (adv w1)) = run_loop inp n stArrCont w2"
      "building inp n w2 e' (((True, m + 1 + length ts - 1), s) # gs) 0 1" "appended (bump (adv w1)) w2 vs bs"
    using assms(4) [unfolded builds_elems_def, rule_format, OF c(1) refl d(2,4) w(5)] A(1,2) by auto
  have "run_loop inp n stArrCont w1 = run_loop inp n stArrValue (bump (adv w1))" using c(2) by (intro run_loop_step) auto
  moreover have "appended w w2 (ws @ vs) (as @ bs)" using appended_trans [OF w1(4)] w2(4) by simp
  ultimately show "\<exists>w' ws as. enc_elems (in_zc inp) (tp w) (sp w) (t # ts) = (ws, as) \<and> run_loop inp n stArrValue w = run_loop inp n stArrCont w' \<and>
        building inp n w' e' (((True, m + length (t # ts) - 1), s) # gs) 0 1 \<and> appended w w' ws as"
    using w1(1,2) w2 by (intro exI [of _ w2] exI [of _ "ws @ vs"] exI [of _ "as @ bs"]) simp
qed

lemma builds_member:
  assumes "At (in_src inp) o' = ch_quote" "decode_from (in_src inp) (o' + 1) = (bs, k, x, True)" "c = SkipWS (in_src inp) (k + 1)"
    "At (in_src inp) c = ch_colon" "builds inp n (SkipWS (in_src inp) (c + 1)) e t"
  shows "builds_members inp n o' e [((o' + 1, bs, x), t)]"
  unfolding builds_members_def
proof (intro allI impI)
  fix w pos m s gs
  assume w: "building inp n w pos (((False, m), s) # gs) 0 0" "o' = SkipWS (in_src inp) pos"
    "Suc (length gs) + tdepth_members [((o' + 1, bs, x), t)] \<le> maxDepth" "fits_members [((o' + 1, bs, x), t)]" "\<not> IsNonDelim (At (in_src inp) e)"
  have d: "Suc (length gs) + tdepth t \<le> maxDepth" "fits t" "length bs \<le> maxSpan" using w(3,4) by simp_all
  obtain w1 us cs where w1: "key inp w = Ok w1" "str_enc (in_zc inp) (sp w) (o' + 1, bs, x) = (us, cs)"
    "appended w w1 us cs" "building inp n w1 (c + 1) (((False, m), s) # gs) 0 0"
    by (rule key_built [OF w(1,2) assms(1,2) d(3) assms(3,4)])
  note A = appended_fields [OF w1(3)]
  obtain w2 ws as where w2: "enc (in_zc inp) (tp w + length us) (sp w + length cs) t = (ws, as)" "run_loop inp n stObjField w1 = run_loop inp n stObjCont w2"
      "building inp n w2 e (((False, m), s) # gs) 0 1" "appended w1 w2 ws as"
    using assms(5) [unfolded builds_def, rule_format, OF w1(4) refl d(1,2) w(5)] A(1,2) by (auto simp: val_of_def cont_of_def)
  show "\<exists>w1 w' ws as. enc_members (in_zc inp) (tp w) (sp w) [((o' + 1, bs, x), t)] = (ws, as) \<and> key inp w = Ok w1 \<and>
        run_loop inp n stObjField w1 = run_loop inp n stObjCont w' \<and>
        building inp n w' e (((False, m + length [((o' + 1, bs, x), t)] - 1), s) # gs) 0 1 \<and> appended w w' ws as"
    using w1 w2 appended_trans [OF w1(3) w2(4)]
    by (intro exI [of _ w1] exI [of _ w2] exI [of _ "us @ ws"] exI [of _ "cs @ as"]) simp
qed

lemma builds_member_more:
  assumes "builds_members inp n o' e [(j, t)]" "e \<le> length (in_src inp)" "At (in_src inp) (SkipWS (in_src inp) e) = ch_comma"
    "builds_members inp n (SkipWS (in_src inp) (SkipWS (in_src inp) e + 1)) e' ms" "ms \<noteq> []"
  shows "builds_members inp n o' e' ((j, t) # ms)"
  unfolding builds_members_def
proof (intro allI impI)
  fix w pos m s gs
  assume w: "building inp n w pos (((False, m), s) # gs) 0 0" "o' = SkipWS (in_src inp) pos"
    "Suc (length gs) + tdepth_members ((j, t) # ms) \<le> maxDepth" "fits_members ((j, t) # ms)" "\<not> IsNonDelim (At (in_src inp) e')"
  have dl: "\<not> IsNonDelim (At (in_src inp) e)" using delim_after [OF assms(2) refl] assms(3) delims by simp
  have d: "Suc (length gs) + tdepth_members [(j, t)] \<le> maxDepth" "fits_members [(j, t)]" "Suc (length gs) + tdepth_members ms \<le> maxDepth" "fits_members ms"
    using w(3,4) by (cases j; simp)+
  obtain wk w1 us cs where w1: "enc_members (in_zc inp) (tp w) (sp w) [(j, t)] = (us, cs)" "key inp w = Ok wk"
      "run_loop inp n stObjField wk = run_loop inp n stObjCont w1" "building inp n w1 e (((False, m), s) # gs) 0 1" "appended w w1 us cs"
    using assms(1) [unfolded builds_members_def, rule_format, OF w(1,2) d(1,2) dl] by auto
  note c = comma_built [OF w1(4) assms(3)] and A = appended_fields [OF w1(5)]
  obtain wk' w2 vs bs where w2: "enc_members (in_zc inp) (tp w + length us) (sp w + length cs) ms = (vs, bs)" "key inp (bump (adv w1)) = Ok wk'"
      "run_loop inp n stObjField wk' = run_loop inp n stObjCont w2"
      "building inp n w2 e' (((False, m + 1 + length ms - 1), s) # gs) 0 1" "appended (bump (adv w1)) w2 vs bs"
    using assms(4) [unfolded builds_members_def, rule_format, OF c(1) refl d(3,4) w(5)] A(1,2) by auto
  have r: "run_loop inp n stObjCont w1 = run_loop inp n stObjField wk'" using c(2) w2(2) by (intro run_loop_step) auto
  have "appended w w2 (us @ vs) (cs @ bs)" using appended_trans [OF w1(5)] w2(5) by simp
  moreover have "enc_members (in_zc inp) (tp w) (sp w) ((j, t) # ms) = (us @ vs, cs @ bs)"
    using w1(1) w2(1) by (auto simp: add.assoc split: prod.splits)
  ultimately show "\<exists>w1 w' ws as. enc_members (in_zc inp) (tp w) (sp w) ((j, t) # ms) = (ws, as) \<and> key inp w = Ok w1 \<and>
        run_loop inp n stObjField w1 = run_loop inp n stObjCont w' \<and>
        building inp n w' e' (((False, m + length ((j, t) # ms) - 1), s) # gs) 0 1 \<and> appended w w' ws as"
    using w1(2,3) w2(3,4) r by (intro exI [of _ wk] exI [of _ w2] exI [of _ "us @ vs"] exI [of _ "cs @ bs"]) simp
qed

section \<open>Values\<close>

lemma tree_at_bounds:
  "tree_at src o' e t \<Longrightarrow> e \<le> length src"
  "elems_tree src o' e ts \<Longrightarrow> e \<le> length src \<and> ts \<noteq> []"
  "members_tree src o' e ms \<Longrightarrow> e \<le> length src \<and> ms \<noteq> []"
proof (induction rule: tree_at_elems_tree_members_tree.inducts)
  case (tstr o' bs e x)
  then have "ScanString src (o' + 1) = (e, True)" using ScanString_eq [of "o' + 1" src bs e x True] by simp
  then have "StringEnd src (o' + 1) = (e, True)" by (rule ScanString_StringEnd)
  then show ?case using StringEnd_bounds [of "o' + 1" src e True] tstr(1) by auto
qed auto

lemma tree_first:
  assumes "tree_at src o' e t"
  shows "At src o' \<noteq> ch_rbrack \<and> At src o' \<noteq> 0x20"
  using assms
proof (cases rule: tree_at.cases)
  case tnum
  then show ?thesis using number_at_first [OF number_nonempty [OF tnum(4)] tnum(3,4)] by (auto simp: IsDigit_iff)
next
  case tatom
  then show ?thesis using literal_at_first [OF literal_nonempty [OF tatom(4)] tatom(3,4)] by auto
qed auto

lemma elems_tree_first: "elems_tree src o' e ts \<Longrightarrow> At src o' \<noteq> ch_rbrack"
  by (cases rule: elems_tree.cases) (auto dest: tree_first)

lemma members_tree_first: "members_tree src o' e ms \<Longrightarrow> At src o' = ch_quote"
  by (cases rule: members_tree.cases) auto

lemma builds_delim: "(\<not> IsNonDelim (At (in_src inp) e) \<Longrightarrow> builds inp n o' e t) \<Longrightarrow> builds inp n o' e t"
  unfolding builds_def by blast

lemma tree_builds:
  "tree_at (in_src inp) o' e t \<Longrightarrow> builds inp n o' e t"
  "elems_tree (in_src inp) o' e ts \<Longrightarrow> builds_elems inp n o' e ts"
  "members_tree (in_src inp) o' e ms \<Longrightarrow> builds_members inp n o' e ms"
proof (induction rule: tree_at_elems_tree_members_tree.inducts)
  case (tstr o' bs e x)
  then show ?case by (intro builds_prim tree_at_elems_tree_members_tree.tstr) simp_all
next
  case (tnum o' e)
  then show ?case by (intro builds_prim tree_at_elems_tree_members_tree.tnum) simp_all
next
  case (tatom o' e)
  then show ?case by (intro builds_prim tree_at_elems_tree_members_tree.tatom) simp_all
next
  case (tarr0 o' p)
  then show ?case using builds_empty [of inp o' True p] by (simp add: closer_def)
next
  case (tobj0 o' p)
  then show ?case using builds_empty [of inp o' False p] by (simp add: closer_def)
next
  case (tarr o' e ts p)
  then show ?case using elems_tree_first [OF tarr(3)] tree_at_bounds(2) [OF tarr(3)] builds_arr [of inp o' n e ts] by simp
next
  case (tobj o' e ms p)
  then show ?case using members_tree_first [OF tobj(3)] tree_at_bounds(3) [OF tobj(3)] builds_obj [of inp o' n e ms] by simp
next
  case (telem o' e t)
  then show ?case by (intro builds_elem)
next
  case (telem_more o' e t q e' ts)
  then show ?case using tree_at_bounds(1) [OF telem_more(1)] tree_at_bounds(2) [OF telem_more(6)]
    by (intro builds_elem_more [of inp n o' e t e']) auto
next
  case (tmember o' bs k x c e t)
  then show ?case by (intro builds_member [of inp o' bs k x c]) auto
next
  case (tmember_more o' bs k x c e t q e' ms)
  have "builds_members inp n o' e [((o' + 1, bs, x), t)]" using tmember_more by (intro builds_member [of inp o' bs k x c]) auto
  then show ?case using tmember_more tree_at_bounds(1) [OF tmember_more(7)] tree_at_bounds(3) [OF tmember_more(12)]
    by (intro builds_member_more [of inp n o' e _ t e']) auto
qed

section \<open>The root\<close>

lemma doc_end_built:
  assumes "building inp n w e [] 0 k" "SkipWS (in_src inp) e = length (in_src inp)"
  shows "run_loop inp n stDocEnd w = Ok w" "run_loop inp n stDocEnd (adv w) = Ok (adv w)" "peek inp w = 0x20"
proof -
  note B = buildingD [OF assms(1)]
  have "depth w = - 1" "ip w = n" using B(3) cursor_end [OF B(1,2)] assms(2) by (simp_all add: ctl_def)
  then show "run_loop inp n stDocEnd w = Ok w" "run_loop inp n stDocEnd (adv w) = Ok (adv w)"
    by (simp_all add: run_loop.simps)
  show "peek inp w = 0x20" using B(6) assms(2) by simp
qed

lemma root_closed_built:
  assumes "building inp n w e [] 0 0" "curCnt w = cnt_word (a, m)" "m < 2 ^ 31" "SkipWS (in_src inp) e = length (in_src inp)"
  shows "run_loop inp n stScopeEnd w = Ok (adv w)"
proof -
  note D = doc_end_built [OF assms(1,4)]
  have "run_loop inp n stScopeEnd w = run_loop inp n (cont_of a) w"
    using cnt_word_flag [OF assms(3)] assms(2) by (intro run_loop_step) (auto simp: cont_of_def)
  also have "\<dots> = run_loop inp n stDocEnd (adv w)"
    using D(3) by (intro run_loop_step) (cases a; simp add: cont_of_def)+
  finally show ?thesis using D(2) by simp
qed

lemma run_value_form:
  "run inp n (walker0 t s) = (if n = 0 then Fail else
     case run_value inp stDocEnd (walker0 t s) of
       Ok (st, w) \<Rightarrow> run_loop inp n st w
     | Fail \<Rightarrow> Fail
     | Panic \<Rightarrow> Panic)"
proof -
  have s: "run_loop inp n stRootScalar w =
      (case visitPrimitive inp w of Ok w \<Rightarrow> run_loop inp n stDocEnd w | Fail \<Rightarrow> Fail | Panic \<Rightarrow> Panic)" for w
    by (subst run_loop.simps) (cases "visitPrimitive inp w"; simp)
  show ?thesis
  proof (cases "visitPrimitive inp (walker0 t s)")
    case Panic
    then show ?thesis
      unfolding run_def walker0_init Let_def run_value_def s
      by (cases "emitEmpty tagObjBeg tagObjEnd (adv (adv (walker0 t s)))"; cases "emitEmpty tagArrBeg tagArrEnd (adv (adv (walker0 t s)))") simp_all
  next
    case Fail
    then show ?thesis
      unfolding run_def walker0_init Let_def run_value_def s
      by (cases "emitEmpty tagObjBeg tagObjEnd (adv (adv (walker0 t s)))"; cases "emitEmpty tagArrBeg tagArrEnd (adv (adv (walker0 t s)))") simp_all
  next
    case Ok
    then show ?thesis
      unfolding run_def walker0_init Let_def run_value_def s
      by (cases "emitEmpty tagObjBeg tagObjEnd (adv (adv (walker0 t s)))"; cases "emitEmpty tagArrBeg tagArrEnd (adv (adv (walker0 t s)))") simp_all
  qed
qed

definition root_builds :: "input \<Rightarrow> nat \<Rightarrow> walker \<Rightarrow> jtree \<Rightarrow> bool" where
  "root_builds inp n w t \<longleftrightarrow> (\<exists>st w1 r ws as. run_value inp stDocEnd w = Ok (st, w1) \<and> run_loop inp n st w1 = Ok r \<and>
     enc (in_zc inp) (tp w) (sp w) t = (ws, as) \<and> appended w r ws as)"

lemma root_buildsI:
  "run_value inp stDocEnd w = Ok (st, w1) \<Longrightarrow> run_loop inp n st w1 = Ok r \<Longrightarrow> enc (in_zc inp) (tp w) (sp w) t = (ws, as) \<Longrightarrow>
   appended w r ws as \<Longrightarrow> root_builds inp n w t"
  unfolding root_builds_def by blast

lemma root_built:
  assumes "building inp n w 0 [] 0 0" "tree_at (in_src inp) o' e t" "o' = SkipWS (in_src inp) 0" "tdepth t \<le> maxDepth" "fits t"
    "SkipWS (in_src inp) e = length (in_src inp)"
  shows "root_builds inp n w t"
proof -
  have dl: "\<not> IsNonDelim (At (in_src inp) e)" using delim_after [OF tree_at_bounds(1) [OF assms(2)] refl] assms(6) delims(4) by simp
  have emp: "root_builds inp n w (if b then JArr [] else JObj [])"
    if "e = p + 1" "At (in_src inp) o' = (if b then ch_lbrack else ch_lbrace)" "p = SkipWS (in_src inp) (o' + 1)" "At (in_src inp) p = closer b" for b p
  proof -
    note c = that
    obtain w' where w': "run_value inp stDocEnd w = Ok (stDocEnd, w')" "building inp n w' (p + 1) [] 0 1"
        "appended w w' [begin_word b (tp w + 1) 0, end_word b (tp w)] []"
      by (rule empty_built [OF assms(1,3) c(2,3,4)])
    from w'(2) have "building inp n w' e [] 0 1" using c(1) by simp
    note D = doc_end_built [OF this assms(6)]
    show ?thesis by (rule root_buildsI [OF w'(1) D(1) _ w'(3)]) simp
  qed
  show ?thesis
  proof (cases "is_prim t")
    case True
    obtain w' ws as where v: "visitPrimitive inp w = Ok w'" "enc (in_zc inp) (tp w) (sp w) t = (ws, as)" "appended w w' ws as"
        "building inp n w' e [] 0 1" "At (in_src inp) o' \<noteq> ch_lbrace" "At (in_src inp) o' \<noteq> ch_lbrack"
      by (rule prim_built [OF assms(1,3,2) True assms(5) dl])
    have "run_value inp stDocEnd w = Ok (stDocEnd, w')" using buildingD(6) [OF assms(1)] assms(3) v(1,5,6) by (simp add: run_value_def)
    from root_buildsI [OF this doc_end_built(1) [OF v(4) assms(6)] v(2,3)] show ?thesis .
  next
    case False
    from assms(2) show ?thesis
    proof (cases rule: tree_at.cases)
      case (tarr0 p)
      then show ?thesis using emp [of p True] by (simp add: closer_def)
    next
      case (tobj0 p)
      then show ?thesis using emp [of p False] by (simp add: closer_def)
    next
      case (tarr e' ts p)
      have o1: "run_value inp stDocEnd w = Ok (stArrBegin, adv w)" "building inp n (adv w) (o' + 1) [] 1 0"
        using open_built [OF assms(1,3), of True] elems_tree_first [OF tarr(5)] tarr(3,4) by (simp_all add: closer_def)
      have b: "e' \<le> length (in_src inp)" "ts \<noteq> []" using tree_at_bounds(2) [OF tarr(5)] by simp_all
      have c: "length ([] :: frame list) + tdepth (JArr ts) \<le> maxDepth" "fits_elems ts" "0 < ip (adv w)"
          "At (in_src inp) (SkipWS (in_src inp) e') = ch_rbrack" using assms(4,5) tarr by simp_all
      obtain w' ws as where w': "run_loop inp n stArrBegin (adv w) = run_loop inp n stScopeEnd w'"
        "building inp n w' (SkipWS (in_src inp) e' + 1) [] 0 0" "enc (in_zc inp) (tp (adv w)) (sp (adv w)) (JArr ts) = (ws, as)" "appended (adv w) w' ws as"
        "curCnt w' = cnt_word (True, length ts)" "length ts < 2 ^ 31"
        by (rule array_built [OF tree_builds(2) [OF tarr(5)] b o1(2) c]) blast
      have e: "SkipWS (in_src inp) (SkipWS (in_src inp) e' + 1) = length (in_src inp)" using assms(6) tarr by simp
      show ?thesis
        using root_buildsI [OF o1(1), of n "adv w'" t ws as] w'(1,3,4) root_closed_built [OF w'(2,5,6) e] tarr(1,2) by (simp del: enc.simps)
    next
      case (tobj e' ms p)
      have o1: "run_value inp stDocEnd w = Ok (stObjBegin, adv w)" "building inp n (adv w) (o' + 1) [] 1 0"
        using open_built [OF assms(1,3), of False] members_tree_first [OF tobj(5)] tobj(3,4) by (simp_all add: closer_def)
      have b: "e' \<le> length (in_src inp)" "ms \<noteq> []" using tree_at_bounds(3) [OF tobj(5)] by simp_all
      have c: "length ([] :: frame list) + tdepth (JObj ms) \<le> maxDepth" "fits_members ms" "0 < ip (adv w)"
          "At (in_src inp) (SkipWS (in_src inp) e') = ch_rbrace" using assms(4,5) tobj by simp_all
      obtain w' ws as where w': "run_loop inp n stObjBegin (adv w) = run_loop inp n stScopeEnd w'"
        "building inp n w' (SkipWS (in_src inp) e' + 1) [] 0 0" "enc (in_zc inp) (tp (adv w)) (sp (adv w)) (JObj ms) = (ws, as)" "appended (adv w) w' ws as"
        "curCnt w' = cnt_word (False, length ms)" "length ms < 2 ^ 31"
        by (rule object_built [OF tree_builds(3) [OF tobj(5)] b o1(2) c]) blast
      have e: "SkipWS (in_src inp) (SkipWS (in_src inp) e' + 1) = length (in_src inp)" using assms(6) tobj by simp
      show ?thesis
        using root_buildsI [OF o1(1), of n "adv w'" t ws as] w'(1,3,4) root_closed_built [OF w'(2,5,6) e] tobj(1,2) by (simp del: enc.simps)
    qed (use False in simp_all)
  qed
qed

section \<open>The room of a document\<close>

definition two_words :: "bytes \<Rightarrow> nat \<Rightarrow> bool" where
  "two_words src p \<longleftrightarrow> src ! p \<noteq> ch_quote \<and> byteClass (src ! p) \<noteq> 2"

lemma scan_loop_scalars:
  "cs = drop i src \<Longrightarrow>
   scalars s + length (filter (two_words src) (idx_run (inStr s) (esc s) (prevSW s) i cs)) \<le> scalars (scan_loop i cs s)"
proof (induction cs arbitrary: i s)
  case (Cons c cs)
  have l: "i < length src" using Cons.prems by (metis drop_all list.distinct(1) not_le)
  then have c: "c = src ! i" "cs = drop (i + 1) src" using Cons.prems by (simp_all add: Cons_nth_drop_Suc [symmetric])
  have IH: "scalars s' + length (filter (two_words src) (idx_run (inStr s') (esc s') (prevSW s') (i + 1) cs)) \<le> scalars (scan_loop (i + 1) cs s')" for s'
    by (rule Cons.IH [OF c(2)])
  have "two_words src i \<longleftrightarrow> c \<noteq> ch_quote \<and> byteClass c \<noteq> 2" using c(1) by (simp add: two_words_def)
  then show ?case using IH [of "scan_byte i c s"] by (auto simp: scan_byte_def record_idx_def Let_def split: if_splits)
qed simp

lemma sum_two_words: "sum_list (map (tok_words src) ps) = length ps + length (filter (two_words src) ps)"
  by (induction ps) (auto simp: tok_words_def two_words_def)

lemma scanned_words:
  assumes "Scan src o' mode = (idx, n, sc, True)" "length src < 2 ^ 31"
  shows "left_words (scanned src zc) 0 \<le> n + sc"
proof -
  have sc: "sc = scalars (scan_loop 0 src (scan_init o'))" using assms(1) by (auto simp: Scan_def Let_def split: if_splits)
  have "length (filter (two_words src) (token_starts src 0)) \<le> sc"
    using scan_loop_scalars [of src 0 src "scan_init o'"] idx_run_tokens [of 0 src] sc by (simp add: scan_init_def)
  moreover have "n = length (token_starts src 0)" by (rule Scan_scanned(2) [OF assms])
  ultimately show ?thesis by (simp add: left_words_def sum_two_words scanned_def)
qed

section \<open>The document\<close>

lemma building_start:
  assumes "Scan src o' mode = (idx, n, sc, True)" "length src < 2 ^ 31" "TapeNeed n sc \<le> length T" "length src < length S"
  shows "building (scanned src zc) n (walker0 (Some T) S) 0 [] 0 0"
proof -
  let ?inp = "scanned src zc" and ?w = "walker0 (Some T) S"
  have f: "tape ?w = Some T" "tp ?w = 0" "str ?w = S" "sp ?w = 0" "ip ?w = 0" by (simp_all add: walker0_def)
  have ok: "idx_ok ?inp n" using scanned_idx_ok [OF assms(2)] Scan_scanned(2) [OF assms(1,2)] by simp
  have c: "ctl ?w []" by (simp add: walker0_def ctl_def)
  have l: "left_words ?inp 0 \<le> length T" using scanned_words [OF assms(1,2), of zc] assms(3) unfolding TapeNeed_def by linarith
  then have r: "room (0 + left_words ?inp 0) ?w" by (simp add: room_def f)
  have s: "length (in_src ?inp) < length S" using assms(4) by (simp add: scanned_def)
  show ?thesis unfolding building_def using ok c cursor_start [of ?inp] r s by (simp add: f tids_def)
qed

theorem BuildTape_encodes:
  assumes "Scan src o' mode = (idx, n, sc, True)" "length src < 2 ^ 31" "json_tree src t" "tdepth t \<le> maxDepth" "fits t"
    "TapeNeed n sc \<le> length T" "length src < length S"
  obtains ws as T' S' where "BuildTape src idx n T S zc = Ok (length ws, length as, T', S')" "enc zc 0 0 t = (ws, as)"
    "take (length ws) T' = ws" "take (length as) S' = as" "length T' = length T" "length S' = length S"
    "length ws \<le> length T" "length as \<le> length S"
proof -
  let ?inp = "scanned src zc" and ?w = "walker0 (Some T) S"
  have s: "in_src ?inp = src" "in_zc ?inp = zc" by (simp_all add: scanned_def)
  have f: "tape ?w = Some T" "tp ?w = 0" "str ?w = S" "sp ?w = 0" by (simp_all add: walker0_def)
  have ok: "idx_ok ?inp n" using scanned_idx_ok [OF assms(2)] Scan_scanned(2) [OF assms(1,2)] by simp
  obtain e where e: "tree_at src (SkipWS src 0) e t" "SkipWS src e = length src" using assms(3) by (auto simp: json_tree_def)
  have b: "building ?inp n ?w 0 [] 0 0" by (rule building_start [OF assms(1,2,6,7)])
  have "root_builds ?inp n ?w t"
  proof (rule root_built [OF b _ refl assms(4,5)])
    show "tree_at (in_src ?inp) (SkipWS (in_src ?inp) 0) e t" "SkipWS (in_src ?inp) e = length (in_src ?inp)"
      using e by (simp_all only: s)
  qed
  then obtain st w1 r ws as where r: "run_value ?inp stDocEnd ?w = Ok (st, w1)" "run_loop ?inp n st w1 = Ok r"
      "enc zc 0 0 t = (ws, as)" "appended ?w r ws as"
    unfolding root_builds_def f s by blast
  have n: "n \<noteq> 0"
  proof
    assume "n = 0"
    then have "SkipWS src 0 = length src" using cursor_end [OF ok cursor_start] s by simp
    then show False using tree_first [OF e(1)] by simp
  qed
  have "run ?inp n ?w = Ok r" using r(1,2) n by (simp add: run_value_form)
  then have bt: "BuildTape src idx n T S zc = Ok (tp r, sp r, the (tape r), str r)"
    using Scan_scanned(1) [OF assms(1,2)] by (simp add: BuildTape_def)
  show thesis
  proof (rule that [of ws as "the (tape r)" "str r"])
    note a = r(4) [unfolded appended_def f]
    show "BuildTape src idx n T S zc = Ok (length ws, length as, the (tape r), str r)" using bt a by auto
    show "take (length ws) (the (tape r)) = ws" "take (length as) (str r) = as" "length (the (tape r)) = length T"
      "length (str r) = length S" "length ws \<le> length T" "length as \<le> length S" using a by auto
  qed (rule r(3))
qed

end
