(* ===== verification/Stored.thy ===== *)
theory Stored
  imports Built
begin

text \<open>
  The layout the walker writes is the layout the accessors read: a tape that holds \<open>enc\<close> of a tree from
  a position on stores the node of the tree there, whatever lies around it.
\<close>

section \<open>The fields of a tape word\<close>

lemma bit_word_nat: "bit (word_of_nat p :: u64) k \<longleftrightarrow> k < 64 \<and> bit p k"
  by transfer (simp add: bit_take_bit_iff bit_of_nat_iff_bit)

lemma bit_less: "(p :: nat) < 2 ^ m \<Longrightarrow> bit p k \<Longrightarrow> k < m"
  by (metis bit_take_bit_iff take_bit_nat_eq_self)

lemma mask_words: "(0xFFFFFFFF :: u64) = mask 32" "(0xFFFFFF :: u64) = mask 24" "PayloadMask = mask 56"
  by (simp_all add: mask_eq_exp_minus_1 PayloadMask_def)

lemma bit_mk_word:
  assumes "p < 2 ^ 32" "n < 2 ^ 24"
  shows "bit (mk_word (tag_word c) p n) k \<longleftrightarrow>
    (if k < 32 then bit p k else if k < 56 then bit n (k - 32) else k < 64 \<and> bit c (k - 56))"
proof -
  have p: "bit (word_of_nat p :: u64) k \<longleftrightarrow> k < 32 \<and> bit p k" for k
    using bit_less [OF assms(1), of k] by (auto simp: bit_word_nat)
  have n: "bit (word_of_nat n :: u64) k \<longleftrightarrow> k < 24 \<and> bit n k" for k
    using bit_less [OF assms(2), of k] by (auto simp: bit_word_nat)
  have c: "bit c j \<Longrightarrow> j < 8" for j using bit_imp_le_length [of c j] by simp
  show ?thesis unfolding mk_word_def tag_word_def
    by (auto simp: bit_or_iff bit_push_bit_iff p n bit_unsigned_iff dest: c)
qed

lemma nat_fields:
  assumes "p < 2 ^ 32" "n < 2 ^ 24"
  shows "unat (mk_word (tag_word c) p n AND 0xFFFFFFFF) = p"
    "unat (drop_bit 32 (mk_word (tag_word c) p n) AND 0xFFFFFF) = n"
    "unat ((mk_word (tag_word c) p n AND PayloadMask) AND 0xFFFFFFFF) = p"
    "unat (drop_bit 32 (mk_word (tag_word c) p n AND PayloadMask) AND 0xFFFFFF) = n"
    "ucast (drop_bit 56 (mk_word (tag_word c) p n)) = c"
proof -
  note p = bit_less [OF assms(1)] and n = bit_less [OF assms(2)]
  note B = bit_mk_word [OF assms]
  show "unat (mk_word (tag_word c) p n AND 0xFFFFFFFF) = p" "unat ((mk_word (tag_word c) p n AND PayloadMask) AND 0xFFFFFFFF) = p"
    unfolding mask_words by (rule bit_eqI, use p in \<open>fastforce simp: bit_unsigned_iff bit_and_iff bit_mask_iff B\<close>)+
  show "unat (drop_bit 32 (mk_word (tag_word c) p n) AND 0xFFFFFF) = n"
    "unat (drop_bit 32 (mk_word (tag_word c) p n AND PayloadMask) AND 0xFFFFFF) = n"
    unfolding mask_words by (rule bit_eqI, use n in \<open>fastforce simp: bit_unsigned_iff bit_and_iff bit_mask_iff bit_drop_bit_eq B\<close>)+
  show "ucast (drop_bit 56 (mk_word (tag_word c) p n)) = c"
    by (rule bit_word_eqI) (simp add: bit_unsigned_iff bit_drop_bit_eq B)
qed

lemma seam_bit: "IsSeam w \<longleftrightarrow> bit w 63"
  unfolding IsSeam_def by transfer (simp add: signed_take_bit_negative_iff)

lemma not_seam: "c < 0x80 \<Longrightarrow> p < 2 ^ 32 \<Longrightarrow> n < 2 ^ 24 \<Longrightarrow> \<not> IsSeam (mk_word (tag_word c) p n)"
proof -
  assume c: "c < 0x80" and a: "p < 2 ^ 32" "n < 2 ^ 24"
  have "unat c < 2 ^ 7" using c by (simp add: word_less_nat_alt)
  then have "\<not> bit (unat c) 7" using bit_less [of "unat c" 7 7] by blast
  then show ?thesis unfolding seam_bit using a by (simp add: bit_mk_word bit_unsigned_iff)
qed

section \<open>Words and bytes in place\<close>

definition holds :: "Descriptor \<Rightarrow> nat \<Rightarrow> u64 list \<Rightarrow> bool" where
  "holds d p ws \<longleftrightarrow> (\<forall>k < length ws. WordAt d (p + k) = Some (ws ! k))"

definition arena_holds :: "Descriptor \<Rightarrow> nat \<Rightarrow> bytes \<Rightarrow> bool" where
  "arena_holds d a as \<longleftrightarrow> (\<exists>c. dsc_doc d = Some c \<and> a + length as \<le> length (doc_arena c) \<and> cut (doc_arena c) a (a + length as) = as)"

text \<open>A descriptor that reads its tape in the plain view, over a source its spans may name.\<close>

definition plain_view :: "Descriptor \<Rightarrow> bool \<Rightarrow> bytes \<Rightarrow> bool" where
  "plain_view d zc src \<longleftrightarrow> dsc_mode d AND ModeCountAtClose = 0 \<and> length src < 2 ^ 32 \<and>
     (\<exists>c. dsc_doc d = Some c \<and> (zc \<longrightarrow> doc_src c = src) \<and> length (doc_arena c) < 2 ^ 32)"

definition seamless :: "Descriptor \<Rightarrow> nat \<Rightarrow> bool" where
  "seamless d p \<longleftrightarrow> (\<exists>w. WordAt d p = Some w \<and> \<not> IsSeam w)"

lemma holds_simps [simp]:
  "holds d p []"
  "holds d p (w # ws) \<longleftrightarrow> WordAt d p = Some w \<and> holds d (p + 1) ws"
proof -
  show "holds d p []" by (simp add: holds_def)
  show "holds d p (w # ws) \<longleftrightarrow> WordAt d p = Some w \<and> holds d (p + 1) ws"
    unfolding holds_def by (auto simp: nth_Cons' less_Suc_eq_0_disj) 
qed

lemma holds_append [simp]: "holds d p (xs @ ys) \<longleftrightarrow> holds d p xs \<and> holds d (p + length xs) ys"
  by (induction xs arbitrary: p) auto

lemma cut_prefix: "cut xs a (a + n) = take n (drop a xs)"
  by (simp add: cut_def)

lemma arena_holds_append: "arena_holds d a (xs @ ys) \<Longrightarrow> arena_holds d a xs \<and> arena_holds d (a + length xs) ys"
  unfolding arena_holds_def cut_prefix by (auto simp: take_add append_eq_append_conv drop_drop add.commute)

lemma SkipSeams_seamless: "seamless d p \<Longrightarrow> SkipSeams d p = Some p"
  by (subst SkipSeams.simps) (auto simp: seamless_def)

lemma word_fields:
  assumes "WordAt d p = Some (mk_word (tag_word c) q n)" "q < 2 ^ 32" "n < 2 ^ 24"
  shows "TagAt d p = Some c" "ContainerEnd d p = Some q" "span d p = Some (q, n)" "count24 (mk_word (tag_word c) q n) = n"
    "c < 0x80 \<Longrightarrow> seamless d p"
  using not_seam [OF _ assms(2,3), of c]
  by (simp_all only: TagAt_def ContainerEnd_def span_def PayloadAt_def count24_def seamless_def assms(1) nat_fields [OF assms(2,3)]
      option.map option.inject) auto

lemma tag_words: "tagInt64 = mk_word (tag_word TagInt64) 0 0" "tagUint64 = mk_word (tag_word TagUint64) 0 0"
  "tagNumRaw = tag_word TagNumRaw" "tagDouble = tag_word TagDouble" "tag_word c = mk_word (tag_word c) 0 0"
  "begin_word True e n = mk_word (tag_word ch_lbrack) e (min n maxSpan)" "begin_word False e n = mk_word (tag_word ch_lbrace) e (min n maxSpan)"
  "end_word True s = mk_word (tag_word ch_rbrack) s 0" "end_word False s = mk_word (tag_word ch_rbrace) s 0"
  by (simp_all add: mk_word_def begin_word_def end_word_def tagInt64_def tagUint64_def tagNumRaw_def tagDouble_def tagArrBeg_def tagObjBeg_def
      tagArrEnd_def tagObjEnd_def tag_defs)

section \<open>Scalars\<close>

lemma text_stored:
  assumes "WordAt d p = Some (mk_word (tag_word c) a (length bs))" "arena_holds d a (bs @ [z])" "plain_view d zc src" "length bs \<le> maxSpan"
  shows "StringAt d p = Some bs"
proof -
  obtain D where D: "dsc_doc d = Some D" "a + length (bs @ [z]) \<le> length (doc_arena D)" "cut (doc_arena D) a (a + length (bs @ [z])) = bs @ [z]"
    using assms(2) by (auto simp: arena_holds_def)
  have l: "a < 2 ^ 32" "length bs < 2 ^ 24" using assms(3,4) D by (auto simp: plain_view_def maxSpan_def)
  have "take (length bs) (take (length bs + 1) (drop a (doc_arena D))) = bs" using D(3) unfolding cut_prefix by simp
  then have "cut (doc_arena D) a (a + length bs) = bs" by (simp add: cut_prefix)
  then show ?thesis using word_fields(3) [OF assms(1) l] D by (simp add: StringAt_def arenaRange_def)
qed

definition span_in :: "bytes \<Rightarrow> jstr \<Rightarrow> bool" where
  "span_in src j \<longleftrightarrow> (case j of (b, bs, x) \<Rightarrow> \<not> x \<longrightarrow> b + length bs \<le> length src \<and> cut src b (b + length bs) = bs)"

lemma str_stored:
  assumes "str_enc zc a (b, bs, x) = (ws, as)" "holds d p ws" "arena_holds d a as" "plain_view d zc src" "length bs \<le> maxSpan" "span_in src (b, bs, x)"
  shows "length ws = 1" "TagAt d p = Some (str_tag zc x)" "ScalarStringAt d p = Some bs" "seamless d p"
proof -
  have n: "length bs < 2 ^ 24" using assms(5) by (simp add: maxSpan_def)
  have t: "str_tag zc x < 0x80" by (simp add: str_tag_def tag_defs)
  have "length ws = 1 \<and> TagAt d p = Some (str_tag zc x) \<and> ScalarStringAt d p = Some bs \<and> seamless d p"
  proof (cases "zc \<and> \<not> x")
    case True
    obtain D where D: "dsc_doc d = Some D" "doc_src D = src" "length src < 2 ^ 32" using assms(4) True by (auto simp: plain_view_def)
    have s: "b + length bs \<le> length src" "cut src b (b + length bs) = bs" using assms(6) True by (auto simp: span_in_def)
    then have b: "b < 2 ^ 32" using D(3) by simp
    have w: "WordAt d p = Some (mk_word (tag_word (str_tag zc x)) b (length bs))" "length ws = 1" using assms(1,2) True by (auto simp: str_enc_def)
    note F = word_fields [OF w(1) b n]
    show ?thesis using F(1,3,5) t w(2) D s True by (simp add: ScalarStringAt_def RawStringAt_def arenaRange_def str_tag_def)
  next
    case False
    then have w: "WordAt d p = Some (mk_word (tag_word (str_tag zc x)) a (length bs))" "length ws = 1" "as = bs @ [ch_quote]"
      using assms(1,2) by (auto simp: str_enc_def)
    have "a < 2 ^ 32" using assms(3,4) w(3) by (auto simp: arena_holds_def plain_view_def)
    note F = word_fields [OF w(1) this n]
    have "str_tag zc x \<noteq> TagStrRaw" using False by (auto simp: str_tag_def tag_defs)
    then show ?thesis using F(1,5) t w(2) text_stored [OF w(1) assms(3) [unfolded w(3)] assms(4,5)] by (simp add: ScalarStringAt_def)
  qed
  then show "length ws = 1" "TagAt d p = Some (str_tag zc x)" "ScalarStringAt d p = Some bs" "seamless d p" by simp_all
qed

lemma num_node_cases:
  obtains w where "num_node t = NInt w" | w where "num_node t = NUint w" | w where "num_node t = NDouble w" | "num_node t = NNum t"
  by (cases "num_node t") (auto simp: num_node_def int_node_def split: prod.splits if_splits)

text \<open>What a stored value gives its reader: the node, the end of its words and a first word that is no seam.\<close>

definition read_at :: "Descriptor \<Rightarrow> nat \<Rightarrow> node \<Rightarrow> nat \<Rightarrow> bool" where
  "read_at d p v e \<longleftrightarrow> stores d p v \<and> ValueEnd d p = Some e \<and> seamless d p"

lemma num_stored:
  assumes "num_enc a t (num_node t) = (ws, as)" "num_fits t (num_node t)" "holds d p ws" "arena_holds d a as" "plain_view d zc src"
  shows "read_at d p (num_node t) (p + length ws)"
proof -
  have a: "a < 2 ^ 32" if "as = t @ [0]" using assms(4,5) that by (auto simp: arena_holds_def plain_view_def)
  have z: "(0 :: nat) < 2 ^ 32" "(0 :: nat) < 2 ^ 24" by simp_all
  show ?thesis
  proof (cases t rule: num_node_cases)
    case (1 w)
    then have "WordAt d p = Some (mk_word (tag_word TagInt64) 0 0)" "WordAt d (p + 1) = Some w" "length ws = 2"
      using assms(1,3) by (auto simp: tag_words(1))
    with word_fields(1,5) [OF this(1) z] show ?thesis using 1 by (simp add: read_at_def ValueEnd_def tag_defs)
  next
    case (2 w)
    then have "WordAt d p = Some (mk_word (tag_word TagUint64) 0 0)" "WordAt d (p + 1) = Some w" "length ws = 2"
      using assms(1,3) by (auto simp: tag_words(2))
    with word_fields(1,5) [OF this(1) z] show ?thesis using 2 by (simp add: read_at_def ValueEnd_def tag_defs)
  next
    case (3 w)
    then have w: "WordAt d p = Some (mk_word (tag_word TagDouble) a (length t))" "WordAt d (p + 1) = Some w" "length ws = 2" "as = t @ [0]"
        "length t < 2 ^ 24"
      using assms(1,2,3) by (auto simp: tag_words(4) maxSpan_def)
    with word_fields(1,5) [OF w(1) a [OF w(4)] w(5)] show ?thesis using 3 by (simp add: read_at_def ValueEnd_def tag_defs)
  next
    case 4
    then have w: "WordAt d p = Some (mk_word (tag_word TagNumRaw) a (length t))" "length ws = 1" "as = t @ [0]" "length t < 2 ^ 24" "length t \<le> maxSpan"
      using assms(1,2,3) by (auto simp: tag_words(3) maxSpan_def)
    have "NumRawAt d p = Some t" unfolding NumRawAt_def by (rule text_stored [OF w(1) assms(4) [unfolded w(3)] assms(5) w(5)])
    with word_fields(1,5) [OF w(1) a [OF w(3)] w(4)] show ?thesis using 4 w(2) by (simp add: read_at_def ValueEnd_def tag_defs)
  qed
qed

lemma atom_stored:
  assumes "WordAt d p = Some (tag_word c)" "c \<in> {ch_t, ch_f, ch_n}"
  shows "read_at d p (atom_node c) (p + 1)"
proof -
  have w: "WordAt d p = Some (mk_word (tag_word c) 0 0)" using assms(1) tag_words(5) [of c] by simp
  have z: "(0 :: nat) < 2 ^ 32" "(0 :: nat) < 2 ^ 24" by simp_all
  from word_fields(1,5) [OF w z] assms(2) show ?thesis by (auto simp: read_at_def atom_node_def ValueEnd_def tag_defs)
qed

section \<open>Containers\<close>

text \<open>Every atom is a literal and every span of a string names its bytes in the source.\<close>

fun well :: "bytes \<Rightarrow> jtree \<Rightarrow> bool" and well_elems :: "bytes \<Rightarrow> jtree list \<Rightarrow> bool" and well_members :: "bytes \<Rightarrow> (jstr \<times> jtree) list \<Rightarrow> bool" where
  "well src (JAtom c) \<longleftrightarrow> c \<in> {ch_t, ch_f, ch_n}"
| "well src (JNum t) \<longleftrightarrow> True"
| "well src (JStr j) \<longleftrightarrow> span_in src j"
| "well src (JArr ts) \<longleftrightarrow> well_elems src ts"
| "well src (JObj ms) \<longleftrightarrow> well_members src ms"
| "well_elems src [] \<longleftrightarrow> True"
| "well_elems src (t # ts) \<longleftrightarrow> well src t \<and> well_elems src ts"
| "well_members src [] \<longleftrightarrow> True"
| "well_members src ((k, t) # ms) \<longleftrightarrow> span_in src k \<and> well src t \<and> well_members src ms"

lemma nodes_len: "length (nodes_of zc ts) = length ts" "length (members_of zc ms) = length ms"
  by (induction ts, simp_all) (induction ms, auto)

lemma container_stored:
  assumes "WordAt d p = Some (begin_word b (p + 1 + n) m)" "p + 1 + n < 2 ^ 32" "seamless d (p + 1)"
  shows "TagAt d p = Some (if b then ch_lbrack else ch_lbrace)" "ContainerEnd d p = Some (p + 1 + n)" "inside d p = Some (p + 1 + n, p + 1)"
    "dsc_mode d AND ModeCountAtClose = 0 \<Longrightarrow> ContainerCount d p = Some (min m 0xFFFFFF)" "ValueEnd d p = Some (p + (n + 2))" "seamless d p"
proof -
  let ?c = "if b then ch_lbrack else ch_lbrace"
  have w: "WordAt d p = Some (mk_word (tag_word ?c) (p + 1 + n) (min m maxSpan))"
    using assms(1) tag_words(6,7) by (cases b) simp_all
  have m: "min m maxSpan < 2 ^ 24" by (simp add: maxSpan_def)
  note F = word_fields [OF w assms(2) m]
  show c: "TagAt d p = Some ?c" "ContainerEnd d p = Some (p + 1 + n)" by (rule F)+
  show "seamless d p" using F(5) by (cases b) simp_all
  show "inside d p = Some (p + 1 + n, p + 1)" using c SkipSeams_seamless [OF assms(3)] by (simp add: inside_def)
  show "ValueEnd d p = Some (p + (n + 2))" using c by (cases b) (simp_all add: ValueEnd_def)
  show "ContainerCount d p = Some (min m 0xFFFFFF)" if "dsc_mode d AND ModeCountAtClose = 0"
    using that w F(4) by (simp add: ContainerCount_def maxSpan_def)
qed

lemma end_seamless:
  assumes "WordAt d p = Some (end_word b s)" "s < 2 ^ 32"
  shows "seamless d p"
proof -
  have "WordAt d p = Some (mk_word (tag_word (if b then ch_rbrack else ch_rbrace)) s 0)" using assms(1) tag_words(8,9) by (cases b) simp_all
  from word_fields(5) [OF this assms(2)] show ?thesis by (cases b) simp_all
qed

lemma read_next: "read_at d p v e \<Longrightarrow> seamless d e \<Longrightarrow> stores d p v \<and> Skip d p = Some e \<and> seamless d p"
  by (simp add: read_at_def Skip_def SkipSeams_seamless)

lemma enc_nonempty: "enc zc p a t = (ws, as) \<Longrightarrow> 0 < length ws"
proof (cases t)
  case (JNum x)
  then show "enc zc p a t = (ws, as) \<Longrightarrow> 0 < length ws" by (cases "num_node x") auto
qed (auto simp: str_enc_def split: prod.splits if_splits)

lemma enc_stored:
  "well src t \<Longrightarrow> fits t \<Longrightarrow> enc zc p a t = (ws, as) \<Longrightarrow> holds d p ws \<Longrightarrow> arena_holds d a as \<Longrightarrow> plain_view d zc src \<Longrightarrow>
   p + length ws < 2 ^ 32 \<Longrightarrow> read_at d p (node_of zc t) (p + length ws)"
  "well_elems src ts \<Longrightarrow> fits_elems ts \<Longrightarrow> enc_elems zc p a ts = (ws, as) \<Longrightarrow> holds d p ws \<Longrightarrow> arena_holds d a as \<Longrightarrow>
   plain_view d zc src \<Longrightarrow> p + length ws < 2 ^ 32 \<Longrightarrow> seamless d (p + length ws) \<Longrightarrow>
   stores_elems d (p + length ws) p (nodes_of zc ts) \<and> seamless d p"
  "well_members src ms \<Longrightarrow> fits_members ms \<Longrightarrow> enc_members zc p a ms = (ws, as) \<Longrightarrow> holds d p ws \<Longrightarrow> arena_holds d a as \<Longrightarrow>
   plain_view d zc src \<Longrightarrow> p + length ws < 2 ^ 32 \<Longrightarrow> seamless d (p + length ws) \<Longrightarrow>
   stores_members d (p + length ws) p (members_of zc ms) \<and> seamless d p"
proof (induction src t and src ts and src ms arbitrary: p a ws as and p a ws as and p a ws as rule: well_well_elems_well_members.induct)
  case (1 src c)
  then show ?case using atom_stored [of d p c] by auto
next
  case (2 src t)
  then show ?case using num_stored [of a t ws as d p zc src] by simp
next
  case (3 src j)
  obtain b bs x where j: "j = (b, bs, x)" by (rule prod_cases3)
  note S = str_stored [of zc a b bs x ws as d p src]
  have "str_enc zc a (b, bs, x) = (ws, as)" "length bs \<le> maxSpan" "span_in src (b, bs, x)" using 3 j by simp_all
  note F = S [OF this(1) 3(4,5,6) this(2,3)]
  have "IsStringTag (str_tag zc x)" by (simp add: str_tag_def IsStringTag_cases)
  moreover have "ValueEnd d p = Some (p + 1)" using F(2) by (simp add: ValueEnd_def str_tag_def tag_defs split: if_splits)
  ultimately show ?case using F j by (simp add: read_at_def str_node_def)
next
  case (4 src ts)
  obtain vs bs where e: "enc_elems zc (p + 1) a ts = (vs, bs)" by (cases "enc_elems zc (p + 1) a ts")
  then have ws: "ws = begin_word True (p + 1 + length vs) (length ts) # vs @ [end_word True p]" "as = bs" using 4(4) by simp_all
  then have h: "WordAt d p = Some (begin_word True (p + 1 + length vs) (length ts))" "holds d (p + 1) vs"
      "WordAt d (p + 1 + length vs) = Some (end_word True p)" using 4(5) by simp_all
  have l: "p + 1 + length vs < 2 ^ 32" "p < 2 ^ 32" using 4(8) ws by simp_all
  have E: "stores_elems d (p + 1 + length vs) (p + 1) (nodes_of zc ts) \<and> seamless d (p + 1)"
    using 4(2,3) by (intro 4(1) [OF _ _ e h(2) _ 4(7) l(1) end_seamless [OF h(3) l(2)]]) (use 4(6) ws in simp_all)
  note C = container_stored [OF h(1) l(1)]
  show ?case unfolding read_at_def using C [of] E 4(7) ws by (simp add: plain_view_def nodes_len)
next
  case (5 src ms)
  obtain vs bs where e: "enc_members zc (p + 1) a ms = (vs, bs)" by (cases "enc_members zc (p + 1) a ms")
  then have ws: "ws = begin_word False (p + 1 + length vs) (length ms) # vs @ [end_word False p]" "as = bs" using 5(4) by simp_all
  then have h: "WordAt d p = Some (begin_word False (p + 1 + length vs) (length ms))" "holds d (p + 1) vs"
      "WordAt d (p + 1 + length vs) = Some (end_word False p)" using 5(5) by simp_all
  have l: "p + 1 + length vs < 2 ^ 32" "p < 2 ^ 32" using 5(8) ws by simp_all
  have E: "stores_members d (p + 1 + length vs) (p + 1) (members_of zc ms) \<and> seamless d (p + 1)"
    using 5(2,3) by (intro 5(1) [OF _ _ e h(2) _ 5(7) l(1) end_seamless [OF h(3) l(2)]]) (use 5(6) ws in simp_all)
  note C = container_stored [OF h(1) l(1)]
  show ?case unfolding read_at_def using C [of] E 5(7) ws by (simp add: plain_view_def nodes_len)
next
  case (7 src t ts)
  obtain us cs where e: "enc zc p a t = (us, cs)" by (cases "enc zc p a t")
  obtain vs bs where f: "enc_elems zc (p + length us) (a + length cs) ts = (vs, bs)" by (cases "enc_elems zc (p + length us) (a + length cs) ts")
  have ws: "ws = us @ vs" "as = cs @ bs" using e f 7(5) by simp_all
  have h: "holds d p us" "holds d (p + length us) vs" "arena_holds d a cs" "arena_holds d (a + length cs) bs"
    using 7(6,7) ws arena_holds_append by auto
  have l: "p + length us < 2 ^ 32" "p + length us + length vs < 2 ^ 32" "seamless d (p + length us + length vs)" using 7(9,10) ws by (simp_all add: add.assoc)
  have E: "stores_elems d (p + length us + length vs) (p + length us) (nodes_of zc ts) \<and> seamless d (p + length us)"
    using 7(3,4) by (intro 7(2) [OF _ _ f h(2,4) 7(8) l(2,3)]) simp_all
  have R: "read_at d p (node_of zc t) (p + length us)" using 7(3,4) by (intro 7(1) [OF _ _ e h(1,3) 7(8) l(1)]) simp_all
  show ?case using read_next [OF R] E enc_nonempty [OF e] ws by (simp add: add.assoc)
next
  case (9 src k t ms)
  obtain b ks x where k: "k = (b, ks, x)" by (rule prod_cases3)
  obtain rs ds where g: "str_enc zc a k = (rs, ds)" by (cases "str_enc zc a k")
  obtain us cs where e: "enc zc (p + length rs) (a + length ds) t = (us, cs)" by (cases "enc zc (p + length rs) (a + length ds) t")
  obtain vs bs where f: "enc_members zc (p + length rs + length us) (a + length ds + length cs) ms = (vs, bs)"
    by (cases "enc_members zc (p + length rs + length us) (a + length ds + length cs) ms")
  have ws: "ws = rs @ us @ vs" "as = ds @ cs @ bs" using e f g 9(5) by simp_all
  have h: "holds d p rs" "holds d (p + length rs) us" "holds d (p + length rs + length us) vs" using 9(6) ws by (simp_all add: add.assoc)
  have a: "arena_holds d a ds" "arena_holds d (a + length ds) cs" "arena_holds d (a + length ds + length cs) bs"
    using 9(7) ws arena_holds_append by (auto simp: add.assoc dest!: arena_holds_append)
  have l: "p + length rs + length us < 2 ^ 32" "p + length rs + length us + length vs < 2 ^ 32"
      "seamless d (p + length rs + length us + length vs)" using 9(9,10) ws by (simp_all add: add.assoc)
  have S: "str_enc zc a (b, ks, x) = (rs, ds)" "length ks \<le> maxSpan" "span_in src (b, ks, x)" using g k 9(3,4) by simp_all
  note K = str_stored [OF S(1) h(1) a(1) 9(8) S(2,3)]
  have E: "stores_members d (p + length rs + length us + length vs) (p + length rs + length us) (members_of zc ms) \<and> seamless d (p + length rs + length us)"
    using 9(3,4) k by (intro 9(2) [OF _ _ f h(3) a(3) 9(8) l(2,3)]) simp_all
  have R: "read_at d (p + length rs) (node_of zc t) (p + length rs + length us)"
    using 9(3,4) k by (intro 9(1) [OF _ _ e h(2) a(2) 9(8) l(1)]) simp_all
  show ?case using read_next [OF R] E K k ws by (simp add: add.assoc)
qed simp_all

section \<open>Documents\<close>

lemma decode_span:
  assumes "decode_from src b = (bs, e, x, True)" "b \<le> length src"
  shows "span_in src (b, bs, x)"
proof -
  have "bs = cut src b (QuoteOrEscape src b)" if "\<not> x"
  proof -
    note P = decode_plain_end [OF assms]
    have q: "src ! QuoteOrEscape src b = ch_quote" using P(1) that by simp
    then show ?thesis using assms(1) P(2) by (subst (asm) decode_from.simps) (auto simp: QuoteOrEscape_eq Let_def)
  qed
  moreover have "b \<le> QuoteOrEscape src b" "QuoteOrEscape src b < length src" if "\<not> x"
    using decode_plain_end(2) [OF assms] QuoteOrEscape_ge by simp_all
  ultimately show ?thesis using decode_plain_end(3) [OF assms] by (auto simp: span_in_def)
qed

lemma tree_well:
  "tree_at src o' e t \<Longrightarrow> well src t"
  "elems_tree src o' e ts \<Longrightarrow> well_elems src ts"
  "members_tree src o' e ms \<Longrightarrow> well_members src ms"
proof (induction rule: tree_at_elems_tree_members_tree.inducts)
  case (tatom o' e)
  then show ?case using literal_at_first [OF literal_nonempty [OF tatom(3)] tatom(2,3)] by simp
qed (simp_all add: decode_span)

end
