(* ===== verification/Vopt.thy ===== *)
theory Vopt
  imports Prelude
begin

text \<open>
  The option sets of \<^verbatim>\<open>vopt/options.go\<close>: a presence mask, a value mask and the payloads of three
  options. \<open>Join\<close> merges a variadic list left to right. Integers of Go's \<^verbatim>\<open>int\<close> type are kept as \<open>int\<close>:
  they are only stored and returned.
\<close>

type_synonym Flag = u32

definition FlagAllowInvalidUTF8 :: Flag where "FlagAllowInvalidUTF8 = push_bit 0 1"
definition FlagEscapeHTML :: Flag where "FlagEscapeHTML = push_bit 1 1"
definition FlagEscapeLineTerms :: Flag where "FlagEscapeLineTerms = push_bit 2 1"
definition FlagFloatExpAuto :: Flag where "FlagFloatExpAuto = push_bit 3 1"
definition FlagUseNumber :: Flag where "FlagUseNumber = push_bit 4 1"
definition FlagRejectUnknownMembers :: Flag where "FlagRejectUnknownMembers = push_bit 5 1"
definition FlagZeroCopy :: Flag where "FlagZeroCopy = push_bit 6 1"
definition FlagSkipLenient :: Flag where "FlagSkipLenient = push_bit 7 1"
definition flagIndent :: Flag where "flagIndent = push_bit 8 1"
definition flagBufSize :: Flag where "flagBufSize = push_bit 9 1"
definition flagSlotBatchMax :: Flag where "flagSlotBatchMax = push_bit 10 1"

record Options =
  opt_set :: Flag
  opt_val :: Flag
  opt_bufSize :: int
  opt_indentPrefix :: bytes
  opt_indentStep :: bytes
  opt_slotBatchMax :: int

definition zeroOptions :: Options where
  "zeroOptions = \<lparr>opt_set = 0, opt_val = 0, opt_bufSize = 0, opt_indentPrefix = [], opt_indentStep = [], opt_slotBatchMax = 0\<rparr>"

definition boolOpt :: "Flag \<Rightarrow> bool \<Rightarrow> Options" where
  "boolOpt f v = (let o' = zeroOptions\<lparr>opt_set := f\<rparr> in if v then o'\<lparr>opt_val := f\<rparr> else o')"

definition AllowInvalidUTF8 :: "bool \<Rightarrow> Options" where "AllowInvalidUTF8 v = boolOpt FlagAllowInvalidUTF8 v"
definition EscapeHTML :: "bool \<Rightarrow> Options" where "EscapeHTML v = boolOpt FlagEscapeHTML v"
definition EscapeLineTerms :: "bool \<Rightarrow> Options" where "EscapeLineTerms v = boolOpt FlagEscapeLineTerms v"
definition FloatExpAuto :: "bool \<Rightarrow> Options" where "FloatExpAuto v = boolOpt FlagFloatExpAuto v"
definition UseNumber :: "bool \<Rightarrow> Options" where "UseNumber v = boolOpt FlagUseNumber v"
definition RejectUnknownMembers :: "bool \<Rightarrow> Options" where "RejectUnknownMembers v = boolOpt FlagRejectUnknownMembers v"
definition ZeroCopy :: "bool \<Rightarrow> Options" where "ZeroCopy v = boolOpt FlagZeroCopy v"
definition SkipLenient :: "bool \<Rightarrow> Options" where "SkipLenient v = boolOpt FlagSkipLenient v"

definition Indent :: "bytes \<Rightarrow> bytes \<Rightarrow> Options" where
  "Indent prefix step =
     zeroOptions\<lparr>opt_set := flagIndent, opt_val := flagIndent, opt_indentPrefix := prefix, opt_indentStep := step\<rparr>"

definition BufSize :: "int \<Rightarrow> Options" where
  "BufSize n = zeroOptions\<lparr>opt_set := flagBufSize, opt_val := flagBufSize, opt_bufSize := n\<rparr>"

definition SlotBatchMax :: "int \<Rightarrow> Options" where
  "SlotBatchMax n = zeroOptions\<lparr>opt_set := flagSlotBatchMax, opt_val := flagSlotBatchMax, opt_slotBatchMax := n\<rparr>"

text \<open>The body of the loop of \<open>Join\<close>; \<open>&^\<close> is and-not.\<close>

definition join1 :: "Options \<Rightarrow> Options \<Rightarrow> Options" where
  "join1 o' dst =
     (let dst = dst\<lparr>opt_set := opt_set dst OR opt_set o'\<rparr>;
          dst = dst\<lparr>opt_val := (opt_val dst AND NOT (opt_set o')) OR opt_val o'\<rparr>;
          dst = (if opt_set o' AND flagIndent \<noteq> 0
                 then dst\<lparr>opt_indentPrefix := opt_indentPrefix o', opt_indentStep := opt_indentStep o'\<rparr> else dst);
          dst = (if opt_set o' AND flagBufSize \<noteq> 0 then dst\<lparr>opt_bufSize := opt_bufSize o'\<rparr> else dst) in
      if opt_set o' AND flagSlotBatchMax \<noteq> 0 then dst\<lparr>opt_slotBatchMax := opt_slotBatchMax o'\<rparr> else dst)"

definition Join :: "Options list \<Rightarrow> Options" where
  "Join opts = fold join1 opts zeroOptions"

definition Has :: "Options \<Rightarrow> Flag \<Rightarrow> bool" where "Has o' f \<longleftrightarrow> opt_set o' AND f \<noteq> 0"
definition Enabled :: "Options \<Rightarrow> Flag \<Rightarrow> bool" where "Enabled o' f \<longleftrightarrow> opt_val o' AND f \<noteq> 0"

definition Get :: "Options \<Rightarrow> Flag \<Rightarrow> bool \<times> bool" where
  "Get o' f = (opt_val o' AND f \<noteq> 0, opt_set o' AND f \<noteq> 0)"

definition Options_Indent :: "Options \<Rightarrow> bytes \<times> bytes \<times> bool" where
  "Options_Indent o' = (opt_indentPrefix o', opt_indentStep o', opt_set o' AND flagIndent \<noteq> 0)"

definition Options_BufSize :: "Options \<Rightarrow> int" where "Options_BufSize o' = opt_bufSize o'"

definition Options_SlotBatchMax :: "Options \<Rightarrow> int \<times> bool" where
  "Options_SlotBatchMax o' = (opt_slotBatchMax o', opt_set o' AND flagSlotBatchMax \<noteq> 0)"

lemmas flag_defs = FlagAllowInvalidUTF8_def FlagEscapeHTML_def FlagEscapeLineTerms_def FlagFloatExpAuto_def FlagUseNumber_def
  FlagRejectUnknownMembers_def FlagZeroCopy_def FlagSkipLenient_def flagIndent_def flagBufSize_def flagSlotBatchMax_def

section \<open>The invariant of an option set\<close>

text \<open>Only named options have a value, and only named payloads differ from the zero value.\<close>

definition wf_options :: "Options \<Rightarrow> bool" where
  "wf_options o' \<longleftrightarrow> opt_val o' AND NOT (opt_set o') = 0 \<and>
     (opt_set o' AND flagIndent = 0 \<longrightarrow> opt_indentPrefix o' = [] \<and> opt_indentStep o' = []) \<and>
     (opt_set o' AND flagBufSize = 0 \<longrightarrow> opt_bufSize o' = 0) \<and>
     (opt_set o' AND flagSlotBatchMax = 0 \<longrightarrow> opt_slotBatchMax o' = 0)"

lemma and_bit: "w AND push_bit n 1 \<noteq> (0 :: u32) \<longleftrightarrow> bit w n"
proof
  assume "bit w n"
  then have "bit (w AND push_bit n 1) n" by (auto simp: bit_simps dest: bit_imp_le_length)
  then show "w AND push_bit n 1 \<noteq> 0" by auto
next
  assume "w AND push_bit n 1 \<noteq> 0"
  then obtain m where "bit (w AND push_bit n 1) m" using bit_eqI [of "w AND push_bit n 1" 0] by auto
  then show "bit w n" by (auto simp: bit_simps)
qed

lemma val_in_set: "v AND NOT s = 0 \<longleftrightarrow> (\<forall>n. bit v n \<longrightarrow> bit s n)" for v s :: u32
proof
  assume z: "v AND NOT s = 0"
  show "\<forall>n. bit v n \<longrightarrow> bit s n"
  proof (intro allI impI)
    fix n
    assume b: "bit v n"
    have "\<not> bit (v AND NOT s) n" using z by simp
    then show "bit s n" using b by (auto simp: bit_simps dest: bit_imp_le_length)
  qed
qed (auto intro!: bit_word_eqI simp: bit_simps)

lemma join1_masks:
  "opt_set (join1 o' dst) = opt_set dst OR opt_set o'"
  "opt_val (join1 o' dst) = (opt_val dst AND NOT (opt_set o')) OR opt_val o'"
  by (simp_all add: join1_def Let_def)

lemma join1_bits:
  "bit (opt_set (join1 o' dst)) n \<longleftrightarrow> bit (opt_set dst) n \<or> bit (opt_set o') n"
  "bit (opt_val (join1 o' dst)) n \<longleftrightarrow> (bit (opt_val dst) n \<and> \<not> bit (opt_set o') n) \<or> bit (opt_val o') n"
  unfolding join1_masks by (auto simp: bit_simps dest: bit_imp_le_length)

lemma join1_payloads:
  "opt_indentPrefix (join1 o' dst) = (if opt_set o' AND flagIndent \<noteq> 0 then opt_indentPrefix o' else opt_indentPrefix dst)"
  "opt_indentStep (join1 o' dst) = (if opt_set o' AND flagIndent \<noteq> 0 then opt_indentStep o' else opt_indentStep dst)"
  "opt_bufSize (join1 o' dst) = (if opt_set o' AND flagBufSize \<noteq> 0 then opt_bufSize o' else opt_bufSize dst)"
  "opt_slotBatchMax (join1 o' dst) = (if opt_set o' AND flagSlotBatchMax \<noteq> 0 then opt_slotBatchMax o' else opt_slotBatchMax dst)"
  by (simp_all add: join1_def Let_def)

lemma wf_bits:
  "wf_options o' \<longleftrightarrow> (\<forall>n. bit (opt_val o') n \<longrightarrow> bit (opt_set o') n) \<and>
     (\<not> bit (opt_set o') 8 \<longrightarrow> opt_indentPrefix o' = [] \<and> opt_indentStep o' = []) \<and>
     (\<not> bit (opt_set o') 9 \<longrightarrow> opt_bufSize o' = 0) \<and> (\<not> bit (opt_set o') 10 \<longrightarrow> opt_slotBatchMax o' = 0)"
  unfolding wf_options_def val_in_set flagIndent_def flagBufSize_def flagSlotBatchMax_def and_bit [symmetric] by blast

lemma wf_join1:
  assumes "wf_options o'" "wf_options dst"
  shows "wf_options (join1 o' dst)"
proof -
  have b: "opt_set o' AND flagIndent \<noteq> 0 \<longleftrightarrow> bit (opt_set o') 8" "opt_set o' AND flagBufSize \<noteq> 0 \<longleftrightarrow> bit (opt_set o') 9"
    "opt_set o' AND flagSlotBatchMax \<noteq> 0 \<longleftrightarrow> bit (opt_set o') 10"
    unfolding flagIndent_def flagBufSize_def flagSlotBatchMax_def by (rule and_bit)+
  show ?thesis using assms unfolding wf_bits join1_bits join1_payloads b by auto
qed

lemma wf_zero: "wf_options zeroOptions"
  by (simp add: wf_options_def zeroOptions_def)

lemma wf_fold: "\<forall>x \<in> set opts. wf_options x \<Longrightarrow> wf_options dst \<Longrightarrow> wf_options (fold join1 opts dst)"
  by (induction opts arbitrary: dst) (simp_all add: wf_join1)

lemma wf_constructors:
  "wf_options (boolOpt f v)" "wf_options (Indent prefix step)" "wf_options (BufSize k)" "wf_options (SlotBatchMax k)"
  by (auto simp: Let_def wf_options_def boolOpt_def Indent_def BufSize_def SlotBatchMax_def zeroOptions_def flagIndent_def flagBufSize_def flagSlotBatchMax_def)

lemma find_append: "find P (xs @ ys) = (case find P xs of None \<Rightarrow> find P ys | Some x \<Rightarrow> Some x)"
  by (induction xs) simp_all

text \<open>A flag is one bit.\<close>

definition single :: "Flag \<Rightarrow> bool" where
  "single f \<longleftrightarrow> (\<exists>n. f = push_bit n 1)"

lemma singles: "single FlagAllowInvalidUTF8" "single FlagZeroCopy" "single FlagUseNumber"
  unfolding single_def flag_defs by blast+

text \<open>The last option that names a flag decides it.\<close>

lemma fold_Get:
  assumes "single f" "\<forall>x \<in> set opts. wf_options x" "wf_options dst"
  shows "Get (fold join1 opts dst) f = (case find (\<lambda>x. Has x f) (rev opts) of None \<Rightarrow> Get dst f | Some x \<Rightarrow> Get x f)"
  using assms(2,3)
proof (induction opts arbitrary: dst)
  case (Cons x opts)
  have x: "wf_options x" "wf_options (join1 x dst)" using Cons.prems wf_join1 by simp_all
  have g: "Get (join1 x dst) f = (if Has x f then Get x f else Get dst f)"
  proof -
    obtain n where n: "f = push_bit n 1" using assms(1) by (auto simp: single_def)
    show ?thesis using x(1) unfolding Get_def Has_def n and_bit join1_bits wf_bits by auto
  qed
  show ?case using Cons.IH [OF _ x(2)] Cons.prems g by (simp add: find_append split: option.split)
qed simp

lemmas option_constructors = AllowInvalidUTF8_def EscapeHTML_def EscapeLineTerms_def FloatExpAuto_def UseNumber_def
  RejectUnknownMembers_def ZeroCopy_def SkipLenient_def

inductive built :: "Options \<Rightarrow> bool" where
  "built zeroOptions"
| "built (AllowInvalidUTF8 v)"
| "built (EscapeHTML v)"
| "built (EscapeLineTerms v)"
| "built (FloatExpAuto v)"
| "built (UseNumber v)"
| "built (RejectUnknownMembers v)"
| "built (ZeroCopy v)"
| "built (SkipLenient v)"
| "built (Indent prefix step)"
| "built (BufSize n)"
| "built (SlotBatchMax n)"
| "\<forall>x \<in> set opts. built x \<Longrightarrow> built (Join opts)"

lemma built_wf_all: "built o' \<Longrightarrow> wf_options o'"
  by (induction rule: built.induct)
    (auto simp: Join_def wf_constructors option_constructors intro: wf_fold wf_zero)

section \<open>Properties\<close>



text \<open>
  \<^verbatim>\<open>Join\<close> resolves a flag as the last option that names it says; a flag no option names is off
  and unnamed, which is not the same as one named false.
\<close>

theorem Join_last_named:
  assumes "single f" "\<forall>x \<in> set opts. built x"
  shows "Get (Join opts) f = (case find (\<lambda>x. Has x f) (rev opts) of None \<Rightarrow> (False, False) | Some x \<Rightarrow> Get x f)"
proof -
  have w: "\<forall>x \<in> set opts. wf_options x" using assms(2) built_wf_all by blast
  have z: "Get zeroOptions f = (False, False)" by (simp add: Get_def zeroOptions_def)
  show ?thesis using fold_Get [OF assms(1) w wf_zero] unfolding Join_def z .
qed

theorem Join_last_named_witness:
  "Get (Join [ZeroCopy True, UseNumber True, ZeroCopy False]) FlagZeroCopy = (False, True)"
proof -
  have "Get (Join [ZeroCopy True, UseNumber True, ZeroCopy False]) FlagZeroCopy =
      (case find (\<lambda>x. Has x FlagZeroCopy) (rev [ZeroCopy True, UseNumber True, ZeroCopy False]) of None \<Rightarrow> (False, False) | Some x \<Rightarrow> Get x FlagZeroCopy)"
    by (rule Join_last_named) (auto intro: built.intros singles)
  then show ?thesis by (simp add: Has_def Get_def option_constructors boolOpt_def zeroOptions_def flag_defs)
qed

end
