(* ===== verification/Dom.thy ===== *)
theory Dom
  imports Stored Valid Vopt
begin

text \<open>
  The DOM parser of \<^verbatim>\<open>decode/dom/parse.go\<close> over the pure-Go DOM entries of \<^verbatim>\<open>native/ndec/ndec_go.go\<close>. The
  parser owns two monotonic arenas: every parse carves its tape and its string bytes off their free
  ends, and the documents of earlier parses keep reading the same backings. A backing is a list of
  words or bytes; the parser state lists every backing it ever allocated, the current one last, and
  the position its arena slice starts at, whose capacity is its length throughout. A document is a
  reference into the backings.

  A Go panic is \<open>None\<close>. What a walk that fails has written into the free part of the arenas is the
  argument \<open>j\<close>: nothing reads those words before a later parse overwrites them, and the theorems hold
  for all of them. The pool that hands out parsers and the list of retained backings (garbage
  collector roots) have no part in the results and are left out.
\<close>

section \<open>The native context\<close>

record DOMContext =
  dc_src :: bytes
  dc_tape :: "u64 list"
  dc_str :: bytes
  dc_structural :: "u32 list"
  dc_strMode :: u32
  dc_tapeLen :: nat
  dc_strUsed :: nat
  dc_err :: int
  dc_nStructural :: u32
  dc_tapeNeed :: u32
  dc_scanStrict :: u32

definition DomTapeFull :: int where "DomTapeFull = 1"

type_synonym junk = "u64 list \<times> bytes"

text \<open>A buffer after something wrote \<open>js\<close> over its head.\<close>

definition scribble :: "'a list \<Rightarrow> 'a list \<Rightarrow> 'a list" where
  "scribble js xs = take (length xs) js @ drop (length js) xs"

definition goDOMBuild :: "junk \<Rightarrow> DOMContext \<Rightarrow> DOMContext option" where
  "goDOMBuild j c =
     (case BuildTape (dc_src c) (dc_structural c) (unat (dc_nStructural c)) (dc_tape c) (dc_str c) (dc_strMode c = 1) of
        Panic \<Rightarrow> None
      | Fail \<Rightarrow> Some (c\<lparr>dc_tape := scribble (fst j) (dc_tape c), dc_str := scribble (snd j) (dc_str c),
          dc_tapeLen := 0, dc_strUsed := 0, dc_err := - 1\<rparr>)
      | Ok (tlen, su, t, s) \<Rightarrow> Some (c\<lparr>dc_tape := t, dc_str := s, dc_tapeLen := tlen, dc_strUsed := su, dc_err := 0\<rparr>))"

definition goDOMParseCounted :: "junk \<Rightarrow> DOMContext \<Rightarrow> DOMContext option" where
  "goDOMParseCounted j c =
     (if length (dc_src c) = 0 then Some (c\<lparr>dc_err := - 1\<rparr>)
      else
        let mode = (if dc_scanStrict c \<noteq> 0 then ScanStrict else ScanLax) in
        case Scan (dc_src c) (dc_structural c) mode of (idx, n, nsc, ok) \<Rightarrow>
          let c = c\<lparr>dc_structural := idx\<rparr> in
          if \<not> ok then Some (c\<lparr>dc_err := - 1\<rparr>)
          else
            let c = c\<lparr>dc_nStructural := word_of_nat n, dc_tapeNeed := word_of_nat (TapeNeed n nsc)\<rparr> in
            if length (dc_tape c) < unat (dc_tapeNeed c) then Some (c\<lparr>dc_err := DomTapeFull\<rparr>)
            else goDOMBuild j c)"

section \<open>Padded sources\<close>

text \<open>A byte slice with the bytes its backing holds past its length.\<close>

type_synonym slice = "bytes \<times> bytes"

definition scanPad :: bytes where "scanPad = replicate ScanPadding 0x20"

text \<open>\<^verbatim>\<open>Pad\<close>: the padded slice, and the argument's backing after it.\<close>

definition Pad :: "slice \<Rightarrow> slice \<times> slice" where
  "Pad s = (case s of (data, spare) \<Rightarrow>
     if ScanPadding \<le> length spare then ((data, scanPad), (data, scanPad @ drop ScanPadding spare))
     else ((data, scanPad), (data, spare)))"

datatype dom_error = ErrEmptyInput | ErrZeroCopyUnsupported | ErrShortPad | ErrPadBytes | ErrInvalidJSON

definition checkPadded :: "slice \<Rightarrow> dom_error option" where
  "checkPadded s = (case s of (padded, spare) \<Rightarrow>
     if length spare < ScanPadding then Some ErrShortPad
     else
       let w = (\<lambda>k. load64 spare (8 * k)); sp = 0x2020202020202020; acc = w 0 XOR sp;
           acc = acc OR (w 1 XOR sp); acc = acc OR (w 2 XOR sp); acc = acc OR (w 3 XOR sp); acc = acc OR (w 4 XOR sp);
           acc = acc OR (w 5 XOR sp); acc = acc OR (w 6 XOR sp); acc = acc OR (w 7 XOR sp) in
       if acc \<noteq> 0 then Some ErrPadBytes else None)"

definition StrModeCopy :: u32 where "StrModeCopy = 0"
definition StrModeZeroCopy :: u32 where "StrModeZeroCopy = 1"

definition resolveOpts :: "Options list \<Rightarrow> u32 \<times> bool" where
  "resolveOpts opts =
     (let o' = Join opts; mode = (if Enabled o' FlagZeroCopy then StrModeZeroCopy else StrModeCopy) in
      case Get o' FlagAllowInvalidUTF8 of (allow, named) \<Rightarrow> (mode, named \<and> \<not> allow))"

section \<open>The parser\<close>

record Parser =
  p_tapes :: "u64 list list"
  p_tapePos :: nat
  p_strs :: "bytes list"
  p_strPos :: nat
  p_structural :: "u32 list"
  p_ctx :: DOMContext
  p_padded :: bytes

definition NewParser :: Parser where
  "NewParser = \<lparr>p_tapes = [], p_tapePos = 0, p_strs = [], p_strPos = 0, p_structural = [],
     p_ctx = \<lparr>dc_src = [], dc_tape = [], dc_str = [], dc_structural = [], dc_strMode = 0, dc_tapeLen = 0, dc_strUsed = 0, dc_err = 0,
       dc_nStructural = 0, dc_tapeNeed = 0, dc_scanStrict = 0\<rparr>, p_padded = []\<rparr>"

text \<open>The arena slice: the current backing from its position on.\<close>

definition arena :: "'a list list \<Rightarrow> nat \<Rightarrow> 'a list" where
  "arena bs pos = (if bs = [] then [] else drop pos (last bs))"

definition domAmortize :: nat where "domAmortize = 3"

text \<open>The growth of \<^verbatim>\<open>ensureTapeArena\<close> and \<^verbatim>\<open>ensureStrArena\<close>: a fresh zeroed backing when the arena is too small.\<close>

definition ensure :: "'a \<Rightarrow> nat \<Rightarrow> 'a list list \<Rightarrow> nat \<Rightarrow> 'a list list \<times> nat" where
  "ensure z need bs pos =
     (if need \<le> length (arena bs pos) then (bs, pos) else (bs @ [replicate (max (domAmortize * need) need) z], 0))"

definition ensureTapeArena :: "nat \<Rightarrow> Parser \<Rightarrow> Parser" where
  "ensureTapeArena need p =
     (case ensure 0 need (p_tapes p) (p_tapePos p) of (bs, pos) \<Rightarrow> p\<lparr>p_tapes := bs, p_tapePos := pos\<rparr>)"

definition ensureStrArena :: "nat \<Rightarrow> Parser \<Rightarrow> Parser" where
  "ensureStrArena need p =
     (case ensure 0 need (p_strs p) (p_strPos p) of (bs, pos) \<Rightarrow> p\<lparr>p_strs := bs, p_strPos := pos\<rparr>)"

definition ensureSrcBuf :: "nat \<Rightarrow> Parser \<Rightarrow> Parser" where
  "ensureSrcBuf need p = (if need \<le> length (p_padded p) then p else p\<lparr>p_padded := replicate need 0\<rparr>)"

text \<open>Writes through a view reach the backing it was cut from.\<close>

definition write_back :: "'a list list \<Rightarrow> nat \<Rightarrow> 'a list \<Rightarrow> 'a list list" where
  "write_back bs pos ys = butlast bs @ [take pos (last bs) @ ys @ drop (pos + length ys) (last bs)]"

definition keep_views :: "DOMContext \<Rightarrow> Parser \<Rightarrow> Parser" where
  "keep_views c p = p\<lparr>p_tapes := write_back (p_tapes p) (p_tapePos p) (dc_tape c),
     p_strs := write_back (p_strs p) (p_strPos p) (dc_str c),
     p_structural := dc_structural c @ drop (length (dc_structural c)) (p_structural p), p_ctx := c\<rparr>"

text \<open>A document names its tape and its arena bytes by backing, start and length.\<close>

type_synonym span_ref = "nat \<times> nat \<times> nat"

record DocRef =
  ref_tape :: span_ref
  ref_str :: span_ref
  ref_src :: bytes
  ref_zc :: bool

text \<open>
  The stages of \<^verbatim>\<open>parseTapePadded\<close>: the buffers it prepares, the context it installs, the retry after
  \<^verbatim>\<open>DomTapeFull\<close>, and the document it publishes. Reslicing an arena past its end panics.
\<close>

definition prepared :: "nat \<Rightarrow> Parser \<Rightarrow> Parser" where
  "prepared n p =
     (let p = ensureStrArena (n + 64) p;
          p = (if length (p_structural p) < n + 24 then p\<lparr>p_structural := replicate (n + 24) 0\<rparr> else p) in
      if length (arena (p_tapes p) (p_tapePos p)) = 0 then ensureTapeArena (n div 8 + 64) p else p)"

definition installed :: "bytes \<Rightarrow> u32 \<Rightarrow> bool \<Rightarrow> Parser \<Rightarrow> DOMContext" where
  "installed src mode strictScan p = (p_ctx p)\<lparr>dc_src := src, dc_str := take (length src + 64) (arena (p_strs p) (p_strPos p)),
     dc_structural := take (unat (word_of_nat (length src + 24) :: u32)) (p_structural p), dc_strMode := mode, dc_scanStrict := (if strictScan then 1 else 0),
     dc_tape := arena (p_tapes p) (p_tapePos p)\<rparr>"

definition published :: "bytes \<Rightarrow> u32 \<Rightarrow> DOMContext \<times> Parser \<Rightarrow> ((dom_error + DocRef) \<times> Parser) option" where
  "published src mode cp = (case cp of (c, p) \<Rightarrow>
     if dc_err c \<noteq> 0 then Some (Inl ErrInvalidJSON, p)
     else if length (arena (p_tapes p) (p_tapePos p)) < dc_tapeLen c \<or> length (arena (p_strs p) (p_strPos p)) < dc_strUsed c then None
     else Some (Inr \<lparr>ref_tape = (length (p_tapes p) - 1, p_tapePos p, dc_tapeLen c),
           ref_str = (length (p_strs p) - 1, p_strPos p, dc_strUsed c),
           ref_src = (if mode = StrModeZeroCopy then src else []), ref_zc = (mode = StrModeZeroCopy)\<rparr>,
         p\<lparr>p_tapePos := p_tapePos p + dc_tapeLen c, p_strPos := p_strPos p + dc_strUsed c\<rparr>))"

definition retried :: "junk \<Rightarrow> DOMContext \<Rightarrow> Parser \<Rightarrow> (DOMContext \<times> Parser) option" where
  "retried j c p =
     (if dc_err c = DomTapeFull then
        let p = ensureTapeArena (unat (dc_tapeNeed c)) p;
            c = c\<lparr>dc_tape := take (unat (dc_tapeNeed c)) (arena (p_tapes p) (p_tapePos p))\<rparr> in
        map_option (\<lambda>c. (c, keep_views c p)) (goDOMBuild j c)
      else Some (c, p))"

definition parseTapePadded :: "junk \<Rightarrow> slice \<Rightarrow> u32 \<Rightarrow> bool \<Rightarrow> Parser \<Rightarrow> ((dom_error + DocRef) \<times> Parser) option" where
  "parseTapePadded j paddedSrc mode strictScan p =
     (let src = fst paddedSrc; n = length src in
      if n = 0 then Some (Inl ErrEmptyInput, p)
      else do {
        let p = prepared n p;
        c \<leftarrow> goDOMParseCounted j (installed src mode strictScan p);
        cp \<leftarrow> retried j c (keep_views c p);
        published src mode cp
      })"

definition Parser_Parse :: "junk \<Rightarrow> bytes \<Rightarrow> Options list \<Rightarrow> Parser \<Rightarrow> ((dom_error + DocRef) \<times> Parser) option" where
  "Parser_Parse j src opts p =
     (let n = length src in
      if n = 0 then Some (Inl ErrEmptyInput, p)
      else case resolveOpts opts of (mode, strictScan) \<Rightarrow>
        if mode = StrModeZeroCopy then Some (Inl ErrZeroCopyUnsupported, p)
        else
          let srcNeed = n + ScanPadding;
              p = ensureSrcBuf srcNeed p;
              p = p\<lparr>p_padded := src @ scanPad @ drop srcNeed (p_padded p)\<rparr> in
          parseTapePadded j (take n (p_padded p), drop n (take srcNeed (p_padded p))) mode strictScan p)"

definition Parser_ParsePadded :: "junk \<Rightarrow> slice \<Rightarrow> Options list \<Rightarrow> Parser \<Rightarrow> ((dom_error + DocRef) \<times> Parser) option" where
  "Parser_ParsePadded j paddedSrc opts p =
     (case checkPadded paddedSrc of
        Some e \<Rightarrow> Some (Inl e, p)
      | None \<Rightarrow> case resolveOpts opts of (mode, strictScan) \<Rightarrow> parseTapePadded j paddedSrc mode strictScan p)"

section \<open>What a document reads\<close>

definition view :: "'a list list \<Rightarrow> span_ref \<Rightarrow> 'a list" where
  "view bs r = (case r of (b, k, n) \<Rightarrow> take n (drop k (bs ! b)))"

definition doc_of :: "Parser \<Rightarrow> DocRef \<Rightarrow> Doc" where
  "doc_of p r = \<lparr>doc_tape = view (p_tapes p) (ref_tape r), doc_arena = view (p_strs p) (ref_str r), doc_src = ref_src r, doc_zc = ref_zc r\<rparr>"

text \<open>The \<^verbatim>\<open>Value\<close> a parse returns: a descriptor of the whole document.\<close>

definition Value_of :: "Parser \<Rightarrow> DocRef \<Rightarrow> Descriptor" where
  "Value_of p r = \<lparr>dsc_doc = Some (doc_of p r), dsc_base = 0, dsc_tidx = 0, dsc_end = snd (snd (ref_tape r)), dsc_mode = 0\<rparr>"

section \<open>Earlier documents\<close>

definition wf_arena :: "'a list list \<Rightarrow> nat \<Rightarrow> bool" where
  "wf_arena bs pos \<longleftrightarrow> pos \<le> (if bs = [] then 0 else length (last bs))"

text \<open>The span lies in a retired backing, or in the current one before the arena's position.\<close>

definition before :: "'a list list \<Rightarrow> nat \<Rightarrow> span_ref \<Rightarrow> bool" where
  "before bs pos r \<longleftrightarrow> (case r of (b, k, n) \<Rightarrow> b < length bs \<and> k + n \<le> (if b = length bs - 1 then pos else length (bs ! b)))"

definition kept :: "'a list list \<Rightarrow> nat \<Rightarrow> 'a list list \<Rightarrow> nat \<Rightarrow> bool" where
  "kept bs pos bs' pos' \<longleftrightarrow> (wf_arena bs pos \<longrightarrow> wf_arena bs' pos' \<and>
     (\<forall>r. before bs pos r \<longrightarrow> before bs' pos' r \<and> view bs' r = view bs r))"

lemma kept_refl: "kept bs pos bs pos"
  by (simp add: kept_def)

lemma kept_trans: "kept bs pos bs' pos' \<Longrightarrow> kept bs' pos' bs'' pos'' \<Longrightarrow> kept bs pos bs'' pos''"
  unfolding kept_def by metis

lemma last_nth_last: "bs \<noteq> [] \<Longrightarrow> last bs = bs ! (length bs - 1)"
  by (rule last_conv_nth)

lemma kept_fresh: "kept bs pos (bs @ [xs]) 0"
  unfolding kept_def
proof (intro impI conjI allI)
  fix r
  assume w: "wf_arena bs pos" and b: "before bs pos r"
  obtain i k n where r: "r = (i, k, n)" by (rule prod_cases3)
  have i: "i < length bs" using b r by (simp add: before_def)
  have "k + n \<le> length (bs ! i)"
    using b w r i last_nth_last [of bs] by (cases "i = length bs - 1") (auto simp: before_def wf_arena_def split: if_splits)
  then show "before (bs @ [xs]) 0 r" "view (bs @ [xs]) r = view bs r"
    using r i by (auto simp: before_def view_def nth_append)
qed (simp add: wf_arena_def)

lemma kept_write_back: "bs \<noteq> [] \<Longrightarrow> kept bs pos (write_back bs pos ys) pos"
  unfolding kept_def
proof (intro impI conjI allI)
  assume ne: "bs \<noteq> []" and w: "wf_arena bs pos"
  have l: "length (write_back bs pos ys) = length bs" using ne by (simp add: write_back_def)
  show "wf_arena (write_back bs pos ys) pos" using ne w by (simp add: wf_arena_def write_back_def)
  fix r
  assume b: "before bs pos r"
  obtain i k n where r: "r = (i, k, n)" by (rule prod_cases3)
  have i: "i < length bs" using b r by (simp add: before_def)
  have o': "write_back bs pos ys ! i = bs ! i" if "i \<noteq> length bs - 1"
  proof -
    have "i < length bs - 1" using that i by simp
    then show ?thesis by (simp add: write_back_def nth_append nth_butlast)
  qed
  have c: "write_back bs pos ys ! i = take pos (last bs) @ ys @ drop (pos + length ys) (last bs)" if "i = length bs - 1"
    using that ne by (simp add: write_back_def nth_append)
  show "before (write_back bs pos ys) pos r" using b o' l r by (auto simp: before_def)
  show "view (write_back bs pos ys) r = view bs r"
  proof (cases "i = length bs - 1")
    case True
    have kn: "k + n \<le> pos" using b r True by (simp add: before_def)
    have p: "pos \<le> length (last bs)" using w ne by (simp add: wf_arena_def)
    have "take n (drop k (take pos (last bs) @ zs)) = take n (drop k (last bs))" for zs
    proof -
      have "take (n + k) (take pos (last bs) @ zs) = take (n + k) (last bs)" using kn p by (simp add: min_def)
      then show ?thesis by (simp only: take_drop)
    qed
    from this [of "ys @ drop (pos + length ys) (last bs)"]
    show ?thesis unfolding view_def r prod.case c [OF True] using last_nth_last [OF ne] True by (simp only:)
  qed (simp add: view_def r o')
qed

lemma kept_advance: "pos \<le> pos' \<Longrightarrow> bs \<noteq> [] \<Longrightarrow> pos' \<le> length (last bs) \<Longrightarrow> kept bs pos bs pos'"
  by (auto simp: kept_def wf_arena_def before_def)

lemma ensure_kept:
  assumes "ensure z need bs pos = (bs', pos')" "0 < need"
  shows "kept bs pos bs' pos'" "bs' \<noteq> []" "need \<le> length (arena bs' pos')"
  using assms kept_refl kept_fresh [of bs pos] kept_fresh [of "[]" pos] by (auto simp: ensure_def arena_def split: if_splits)

text \<open>The parser keeps the documents of \<open>p\<close> when it goes on to \<open>p'\<close>.\<close>

definition keeps :: "Parser \<Rightarrow> Parser \<Rightarrow> bool" where
  "keeps p p' \<longleftrightarrow> kept (p_tapes p) (p_tapePos p) (p_tapes p') (p_tapePos p') \<and> kept (p_strs p) (p_strPos p) (p_strs p') (p_strPos p')"

lemma keeps_refl: "keeps p p"
  by (simp add: keeps_def kept_refl)

lemma keeps_trans: "keeps p p' \<Longrightarrow> keeps p' p'' \<Longrightarrow> keeps p p''"
  unfolding keeps_def by (meson kept_trans)

lemma keeps_upd [simp]: "keeps p (p\<lparr>p_structural := xs\<rparr>)" "keeps p (p\<lparr>p_padded := ys\<rparr>)"
  by (simp_all add: keeps_def kept_refl)

lemma ensureTapeArena_keeps:
  assumes "0 < need" "p' = ensureTapeArena need p"
  shows "keeps p p'" "p_tapes p' \<noteq> []" "need \<le> length (arena (p_tapes p') (p_tapePos p'))" "p_strs p' = p_strs p" "p_strPos p' = p_strPos p"
    "p_structural p' = p_structural p" "p_ctx p' = p_ctx p"
proof -
  obtain bs pos where e: "ensure 0 need (p_tapes p) (p_tapePos p) = (bs, pos)" by (cases "ensure 0 need (p_tapes p) (p_tapePos p)")
  then have p': "p' = p\<lparr>p_tapes := bs, p_tapePos := pos\<rparr>" using assms(2) by (simp add: ensureTapeArena_def)
  show "keeps p p'" "p_tapes p' \<noteq> []" "need \<le> length (arena (p_tapes p') (p_tapePos p'))" "p_strs p' = p_strs p" "p_strPos p' = p_strPos p"
    "p_structural p' = p_structural p" "p_ctx p' = p_ctx p"
    using ensure_kept [OF e assms(1)] by (simp_all add: p' keeps_def kept_refl)
qed

lemma ensureStrArena_keeps:
  assumes "0 < need" "p' = ensureStrArena need p"
  shows "keeps p p'" "p_strs p' \<noteq> []" "need \<le> length (arena (p_strs p') (p_strPos p'))" "p_tapes p' = p_tapes p" "p_tapePos p' = p_tapePos p"
    "p_structural p' = p_structural p" "p_ctx p' = p_ctx p"
proof -
  obtain bs pos where e: "ensure 0 need (p_strs p) (p_strPos p) = (bs, pos)" by (cases "ensure 0 need (p_strs p) (p_strPos p)")
  then have p': "p' = p\<lparr>p_strs := bs, p_strPos := pos\<rparr>" using assms(2) by (simp add: ensureStrArena_def)
  show "keeps p p'" "p_strs p' \<noteq> []" "need \<le> length (arena (p_strs p') (p_strPos p'))" "p_tapes p' = p_tapes p" "p_tapePos p' = p_tapePos p"
    "p_structural p' = p_structural p" "p_ctx p' = p_ctx p"
    using ensure_kept [OF e assms(1)] by (simp_all add: p' keeps_def kept_refl)
qed

lemma keep_views_keeps: "p_tapes p \<noteq> [] \<Longrightarrow> p_strs p \<noteq> [] \<Longrightarrow> keeps p (keep_views c p)"
  by (simp add: keeps_def keep_views_def kept_write_back)

lemma keep_views_fields:
  "p_tapes p \<noteq> [] \<Longrightarrow> p_tapes (keep_views c p) \<noteq> []" "p_strs p \<noteq> [] \<Longrightarrow> p_strs (keep_views c p) \<noteq> []"
  by (simp_all add: keep_views_def write_back_def)

lemma goDOMBuild_err: "goDOMBuild j c = Some c' \<Longrightarrow> dc_err c' \<in> {0, - 1}"
  by (auto simp: goDOMBuild_def split: outcome.splits)

lemma tape_full:
  assumes "goDOMParseCounted j c = Some c'" "dc_err c' = DomTapeFull"
  shows "length (dc_tape c) < unat (dc_tapeNeed c')"
  using assms goDOMBuild_err [of j _ c']
  by (fastforce simp: goDOMParseCounted_def DomTapeFull_def Let_def split: if_splits prod.splits)

lemma parse_stages:
  assumes "src \<noteq> []"
  shows "parseTapePadded j (src, spare) mode strictScan p =
    (let p = prepared (length src) p in
     Option.bind (goDOMParseCounted j (installed src mode strictScan p)) (\<lambda>c.
       Option.bind (retried j c (keep_views c p)) (published src mode)))"
  using assms by (simp add: parseTapePadded_def Let_def)

lemma prepared_keeps:
  "keeps p (prepared n p)" "p_tapes (prepared n p) \<noteq> []" "p_strs (prepared n p) \<noteq> []"
  "n + 64 \<le> length (arena (p_strs (prepared n p)) (p_strPos (prepared n p)))" "n + 24 \<le> length (p_structural (prepared n p))"
proof -
  define p1 where "p1 = ensureStrArena (n + 64) p"
  define p2 where "p2 = (if length (p_structural p1) < n + 24 then p1\<lparr>p_structural := replicate (n + 24) 0\<rparr> else p1)"
  define p3 where "p3 = ensureTapeArena (n div 8 + 64) p2"
  have pos: "0 < n + 64" "0 < n div 8 + 64" by simp_all
  note S = ensureStrArena_keeps [OF pos(1) p1_def] and T = ensureTapeArena_keeps [OF pos(2) p3_def]
  have k2: "keeps p1 p2" "p_strs p2 = p_strs p1" "p_strPos p2 = p_strPos p1" "n + 24 \<le> length (p_structural p2)"
    by (simp_all add: p2_def keeps_refl)
  have q: "prepared n p = (if length (arena (p_tapes p2) (p_tapePos p2)) = 0 then p3 else p2)"
    unfolding prepared_def Let_def p1_def [symmetric] p2_def [symmetric] p3_def [symmetric] ..
  have k: "keeps p p2" by (rule keeps_trans [OF S(1) k2(1)])
  have "p_tapes p2 \<noteq> []" if "length (arena (p_tapes p2) (p_tapePos p2)) \<noteq> 0" using that by (auto simp: arena_def)
  then show "keeps p (prepared n p)" "p_tapes (prepared n p) \<noteq> []" "p_strs (prepared n p) \<noteq> []"
    "n + 64 \<le> length (arena (p_strs (prepared n p)) (p_strPos (prepared n p)))" "n + 24 \<le> length (p_structural (prepared n p))"
    unfolding q using k keeps_trans [OF k T(1)] T(2,4,5,6) S(2,3) k2 by auto
qed

lemma retried_keeps:
  assumes "goDOMParseCounted j c0 = Some c1" "retried j c1 p = Some (c, p')" "p_tapes p \<noteq> []" "p_strs p \<noteq> []"
  shows "keeps p p'" "p_tapes p' \<noteq> []" "p_strs p' \<noteq> []"
proof -
  have "keeps p p' \<and> p_tapes p' \<noteq> [] \<and> p_strs p' \<noteq> []"
  proof (cases "dc_err c1 = DomTapeFull")
    case True
    define q where "q = ensureTapeArena (unat (dc_tapeNeed c1)) p"
    have n: "0 < unat (dc_tapeNeed c1)" using tape_full [OF assms(1) True] by simp
    note E = ensureTapeArena_keeps [OF n q_def]
    have p': "p' = keep_views c q" using assms(2) True by (auto simp: retried_def Let_def q_def)
    have s: "p_strs q \<noteq> []" using E(4) assms(4) by simp
    show ?thesis
      using keeps_trans [OF E(1) keep_views_keeps [OF E(2) s]] keep_views_fields(1) [OF E(2)] keep_views_fields(2) [OF s] by (simp add: p')
  next
    case False
    then have "p' = p" using assms(2) by (simp add: retried_def)
    then show ?thesis using assms(3,4) by (simp add: keeps_refl)
  qed
  then show "keeps p p'" "p_tapes p' \<noteq> []" "p_strs p' \<noteq> []" by simp_all
qed

text \<open>The reference is one the parser has carved.\<close>

definition carved :: "Parser \<Rightarrow> DocRef \<Rightarrow> bool" where
  "carved p r \<longleftrightarrow> before (p_tapes p) (p_tapePos p) (ref_tape r) \<and> before (p_strs p) (p_strPos p) (ref_str r)"

definition wf_parser :: "Parser \<Rightarrow> bool" where
  "wf_parser p \<longleftrightarrow> wf_arena (p_tapes p) (p_tapePos p) \<and> wf_arena (p_strs p) (p_strPos p)"

lemma keeps_doc: "keeps p p' \<Longrightarrow> wf_parser p \<Longrightarrow> wf_parser p' \<and> (carved p r \<longrightarrow> carved p' r \<and> doc_of p' r = doc_of p r)"
  unfolding keeps_def kept_def wf_parser_def carved_def doc_of_def by (simp del: split_paired_All)

lemma arena_length: "bs \<noteq> [] \<Longrightarrow> length (arena bs pos) = length (last bs) - pos"
  by (simp add: arena_def)

lemma published_keeps:
  assumes "published src mode (c, p) = Some (res, p')" "p_tapes p \<noteq> []" "p_strs p \<noteq> []" "wf_parser p"
  shows "keeps p p'" "res = Inr r \<Longrightarrow> carved p' r"
proof -
  have w: "p_tapePos p \<le> length (last (p_tapes p))" "p_strPos p \<le> length (last (p_strs p))"
    using assms(2,3,4) by (simp_all add: wf_parser_def wf_arena_def)
  have "keeps p p' \<and> (res = Inr r \<longrightarrow> carved p' r)"
  proof (cases "dc_err c = 0")
    case True
    then have l: "p_tapePos p + dc_tapeLen c \<le> length (last (p_tapes p))" "p_strPos p + dc_strUsed c \<le> length (last (p_strs p))"
      using assms w by (auto simp: published_def arena_length split: if_splits)
    then show ?thesis using assms True kept_advance [OF _ assms(2) l(1)] kept_advance [OF _ assms(3) l(2)]
      by (auto simp: published_def keeps_def carved_def before_def split: if_splits)
  qed (use assms(1) in \<open>auto simp: published_def keeps_refl\<close>)
  then show "keeps p p'" "res = Inr r \<Longrightarrow> carved p' r" by simp_all
qed

lemma parseTapePadded_keeps:
  assumes "parseTapePadded j (src, spare) mode strictScan p = Some (res, p')" "wf_parser p"
  shows "keeps p p' \<and> (\<forall>r. res = Inr r \<longrightarrow> carved p' r)"
proof (cases "src = []")
  case True
  then show ?thesis using assms(1) by (auto simp: parseTapePadded_def keeps_refl)
next
  case False
  define q where "q = prepared (length src) p"
  note Q = prepared_keeps [where p = p and n = "length src", folded q_def]
  obtain c1 c p1 where c: "goDOMParseCounted j (installed src mode strictScan q) = Some c1" "retried j c1 (keep_views c1 q) = Some (c, p1)"
      "published src mode (c, p1) = Some (res, p')"
    using assms(1) unfolding parse_stages [OF False] Let_def q_def [symmetric] by (auto simp: Option.bind_eq_Some_conv)
  note V = keep_views_keeps [OF Q(2,3), of c1] keep_views_fields(1) [OF Q(2), of c1] keep_views_fields(2) [OF Q(3), of c1]
  note R = retried_keeps [OF c(1,2) V(2,3)]
  have k: "keeps p p1" by (rule keeps_trans [OF Q(1) keeps_trans [OF V(1) R(1)]])
  have w: "wf_parser p1" using keeps_doc [OF k assms(2)] by simp
  note P = published_keeps [OF c(3) R(2,3) w]
  show ?thesis using keeps_trans [OF k P(1)] P(2) by blast
qed

end
