(* ===== verification/Dom_Parse.thy ===== *)
theory Dom_Parse
  imports Dom
begin

text \<open>
  What the DOM parser does: a JSON text within its limits is parsed, and the value it returns reads the
  tree of the text; a parse of any input leaves the documents of earlier parses as they were.
\<close>

section \<open>A JSON text passes the lax scan\<close>

lemma StringEnd_Check_string: "j \<le> length src \<Longrightarrow> StringEnd src j = (e, True) \<Longrightarrow> Check_string src False j = Some (e + 1)"
proof (induction src j rule: StringEnd.induct)
  case (1 src j)
  let ?k = "QuoteOrEscape src j"
  show ?case
  proof (cases "length src \<le> ?k")
    case True
    then show ?thesis using 1(3) by (subst (asm) StringEnd.simps) (simp add: Let_def)
  next
    case False
    show ?thesis
    proof (cases "src ! ?k = ch_quote")
      case True
      then show ?thesis using 1(3) False by (subst (asm) StringEnd.simps, subst Check_string.simps) (simp add: Let_def)
    next
      case q: False
      then have s: "StringEnd src (?k + 2) = (e, True)" using 1(3) False by (subst (asm) StringEnd.simps) (simp add: Let_def)
      show ?thesis
      proof (cases "?k + 2 \<le> length src")
        case True
        then have "Check_string src False (?k + 2) = Some (e + 1)" using 1 False q s by simp
        then show ?thesis using False q True by (subst Check_string.simps) (simp add: Let_def)
      next
        case e: False
        then show ?thesis using s by (subst (asm) StringEnd.simps) (simp add: Let_def QuoteOrEscape_eq find_from_ge)
      qed
    qed
  qed
qed

definition closed_at :: "bytes \<Rightarrow> nat \<Rightarrow> bool" where
  "closed_at src i \<longleftrightarrow> \<not> fst (str_run False False (drop i src))"

lemma closed_plain:
  assumes "i \<le> e" "\<forall>c \<in> set (cut src i e). \<not> is_stop c"
  shows "closed_at src i = closed_at src e"
proof -
  have "drop i src = cut src i e @ drop e src"
    using append_take_drop_id [of "e - i" "drop i src"] assms(1) by (simp add: cut_def)
  then show ?thesis using str_run_plain [OF assms(2), of False "drop e src"] by (simp add: closed_at_def)
qed

lemma closed_byte: "i < length src \<Longrightarrow> src ! i = c \<Longrightarrow> \<not> is_stop c \<Longrightarrow> closed_at src i = closed_at src (i + 1)"
  by (rule closed_plain) (simp_all add: cut_Cons)

lemma closed_ws:
  assumes "i \<le> length src"
  shows "closed_at src (SkipWS src i) = closed_at src i"
proof (rule closed_plain [symmetric])
  show "\<forall>c \<in> set (cut src i (SkipWS src i)). \<not> is_stop c"
  proof
    fix c
    assume "c \<in> set (cut src i (SkipWS src i))"
    then obtain m where m: "m < length (cut src i (SkipWS src i))" "c = cut src i (SkipWS src i) ! m" by (auto simp: in_set_conv_nth)
    then have "i + m < SkipWS src i" "c = src ! (i + m)" using SkipWS_bounds [OF assms] by (auto simp: cut_def)
    then have "is_ws c" using find_from_before [of i "i + m" "\<lambda>c. \<not> is_ws c" src] SkipWS_eq [OF assms] by auto
    then show "\<not> is_stop c" by auto
  qed
qed (use SkipWS_bounds [OF assms] in simp)

lemma closed_text: "list_all plain_byte (cut src i e) \<Longrightarrow> i \<le> e \<Longrightarrow> closed_at src i = closed_at src e"
  by (rule closed_plain) (auto simp: list_all_iff plain_byte_def)

lemma closed_string:
  assumes "o' < length src" "src ! o' = ch_quote" "decode_from src (o' + 1) = (bs, e, x, True)"
  shows "closed_at src o' = closed_at src (e + 1)" "e + 1 \<le> length src"
proof -
  have l: "o' + 1 \<le> length src" using assms(1) by simp
  have "ScanString src (o' + 1) = (e, True)" using ScanString_eq [OF l assms(3)] by simp
  then have s: "StringEnd src (o' + 1) = (e, True)" by (rule ScanString_StringEnd)
  show "e + 1 \<le> length src" using StringEnd_bounds [OF l s] by simp
  have "closed_at src o' \<longleftrightarrow> \<not> fst (str_run True False (drop (o' + 1) src))"
    using str_run_quote [OF assms(1,2), of False] by (simp add: closed_at_def)
  also have "\<dots> \<longleftrightarrow> closed_at src (e + 1)"
    using Check_string_run [OF l, of False] StringEnd_Check_string [OF l s] by (simp add: closed_at_def)
  finally show "closed_at src o' = closed_at src (e + 1)" .
qed

lemma tree_closed:
  "tree_at src o' e t \<Longrightarrow> closed_at src o' = closed_at src e"
  "elems_tree src o' e ts \<Longrightarrow> closed_at src o' = closed_at src e"
  "members_tree src o' e ms \<Longrightarrow> closed_at src o' = closed_at src e"
proof (induction rule: tree_at_elems_tree_members_tree.inducts)
  case (tstr o' bs e x)
  then show ?case by (rule closed_string(1))
next
  case (tnum o' e)
  then show ?case by (intro closed_text is_number_plain)
next
  case (tatom o' e)
  then show ?case by (intro closed_text literals_plain)
next
  case (tarr0 o' p)
  then show ?case using closed_byte [of o' src ch_lbrack] closed_ws [of "o' + 1" src] closed_byte [of p src ch_rbrack] by simp
next
  case (tobj0 o' p)
  then show ?case using closed_byte [of o' src ch_lbrace] closed_ws [of "o' + 1" src] closed_byte [of p src ch_rbrace] by simp
next
  case (tarr o' e ts p)
  then show ?case using closed_byte [of o' src ch_lbrack] closed_ws [of "o' + 1" src] closed_ws [of e src] closed_byte [of p src ch_rbrack]
      tree_at_bounds(2) [OF tarr(3)] by simp
next
  case (tobj o' e ms p)
  then show ?case using closed_byte [of o' src ch_lbrace] closed_ws [of "o' + 1" src] closed_ws [of e src] closed_byte [of p src ch_rbrace]
      tree_at_bounds(3) [OF tobj(3)] by simp
next
  case (telem_more o' e t q e' ts)
  then show ?case using closed_ws [of e src] closed_byte [of q src ch_comma] closed_ws [of "q + 1" src] tree_at_bounds(1) [OF telem_more(1)] by simp
next
  case (tmember o' bs k x c e t)
  then show ?case using closed_string [OF tmember(1,2,3)] closed_ws [of "k + 1" src] closed_byte [of c src ch_colon] closed_ws [of "c + 1" src] by simp
next
  case (tmember_more o' bs k x c e t q e' ms)
  then show ?case using closed_string [OF tmember_more(1,2,3)] closed_ws [of "k + 1" src] closed_byte [of c src ch_colon] closed_ws [of "c + 1" src]
      closed_ws [of e src] closed_byte [of q src ch_comma] closed_ws [of "q + 1" src] tree_at_bounds(1) [OF tmember_more(7)] by simp
qed

lemma tree_Check: "json_tree src t \<Longrightarrow> Check src ScanLax"
proof -
  assume "json_tree src t"
  then obtain e where e: "tree_at src (SkipWS src 0) e t" "SkipWS src e = length src" by (auto simp: json_tree_def)
  have "closed_at src 0 = closed_at src (length src)"
    using closed_ws [of 0 src] tree_closed(1) [OF e(1)] closed_ws [of e src] e(2) tree_at_bounds(1) [OF e(1)] by simp
  then have "closed_at src 0" by (simp add: closed_at_def)
  then show ?thesis using Check_loop_run [of src False 0] by (simp add: Check_def closed_at_def)
qed

section \<open>Every document under 16 MiB fits\<close>

lemma num_fits_len: "length t \<le> maxSpan \<Longrightarrow> num_fits t v"
  by (cases v) simp_all

lemma decode_len:
  assumes "o' < length src" "decode_from src (o' + 1) = (bs, e, x, True)" "length src \<le> maxSpan"
  shows "length bs \<le> maxSpan"
proof -
  have "o' + 1 \<le> length src" using assms(1) by simp
  from decode_from_bounds [OF this assms(2)] assms(3) show ?thesis by linarith
qed

lemma tree_fits:
  "tree_at src o' e t \<Longrightarrow> length src \<le> maxSpan \<Longrightarrow> fits t"
  "elems_tree src o' e ts \<Longrightarrow> length src \<le> maxSpan \<Longrightarrow> fits_elems ts"
  "members_tree src o' e ms \<Longrightarrow> length src \<le> maxSpan \<Longrightarrow> fits_members ms"
  by (induction rule: tree_at_elems_tree_members_tree.inducts) (auto simp: num_fits_len intro: decode_len)

section \<open>The native entries on a JSON text\<close>

lemma scan_loop_counts: "scalars s \<le> cnt s \<Longrightarrow> scalars (scan_loop i cs s) \<le> cnt (scan_loop i cs s)"
proof (induction cs arbitrary: i s)
  case (Cons c cs)
  have "scalars (scan_byte i c s) \<le> cnt (scan_byte i c s)"
    using Cons.prems by (simp add: scan_byte_def record_idx_def Let_def)
  then show ?case using Cons.IH by simp
qed simp

lemma Scan_counts:
  assumes "Scan src o' mode = (idx, n, sc, True)" "length src < 2 ^ 31"
  shows "sc \<le> n" "n \<le> length src"
proof -
  show "sc \<le> n" using assms(1) scan_loop_counts [of "scan_init o'" 0 src]
    by (auto simp: Scan_def scan_init_def Let_def split: if_splits)
  show "n \<le> length src" using Scan_scanned(2) [OF assms] idx_run_tokens [of 0 src] length_idx_run [of False False True 0 src] by simp
qed

lemma goDOMBuild_tree:
  assumes "Scan src o' smode = (idx, n, sc, True)" "length src < 2 ^ 30" "json_tree src t" "tdepth t \<le> maxDepth" "fits t"
    "dc_src c = src" "dc_structural c = idx" "unat (dc_nStructural c) = n" "TapeNeed n sc \<le> length (dc_tape c)" "length src < length (dc_str c)"
  obtains ws as T' S' where
    "goDOMBuild j c = Some (c\<lparr>dc_tape := T', dc_str := S', dc_tapeLen := length ws, dc_strUsed := length as, dc_err := 0\<rparr>)"
    "enc (dc_strMode c = 1) 0 0 t = (ws, as)" "take (length ws) T' = ws" "take (length as) S' = as"
    "length T' = length (dc_tape c)" "length S' = length (dc_str c)" "length ws \<le> length T'" "length as \<le> length S'" "length ws < 2 ^ 32"
proof -
  let ?zc = "dc_strMode c = 1"
  have l: "length src < 2 ^ 31" using assms(2) by simp
  obtain ws as T' S' where b: "BuildTape src idx n (dc_tape c) (dc_str c) ?zc = Ok (length ws, length as, T', S')" "enc ?zc 0 0 t = (ws, as)"
      "take (length ws) T' = ws" "take (length as) S' = as" "length T' = length (dc_tape c)" "length S' = length (dc_str c)"
      "length ws \<le> length (dc_tape c)" "length as \<le> length (dc_str c)"
    by (rule BuildTape_encodes [OF assms(1) l assms(3,4,5,9,10)])
  have need: "TapeNeed n sc \<le> length (replicate (TapeNeed n sc) (0 :: u64))" by simp
  obtain vs bs T S where "BuildTape src idx n (replicate (TapeNeed n sc) 0) (dc_str c) ?zc = Ok (length vs, length bs, T, S)" "enc ?zc 0 0 t = (vs, bs)"
      "take (length vs) T = vs" "take (length bs) S = bs" "length T = length (replicate (TapeNeed n sc) (0 :: u64))" "length S = length (dc_str c)"
      "length vs \<le> length (replicate (TapeNeed n sc) (0 :: u64))" "length bs \<le> length (dc_str c)"
    by (rule BuildTape_encodes [OF assms(1) l assms(3,4,5) need assms(10)])
  then have "length ws \<le> TapeNeed n sc" using b(2) by simp
  also have "\<dots> < 2 ^ 32" using Scan_counts [OF assms(1) l] assms(2) by (simp add: TapeNeed_def)
  finally have w: "length ws < 2 ^ 32" .
  have g: "goDOMBuild j c = Some (c\<lparr>dc_tape := T', dc_str := S', dc_tapeLen := length ws, dc_strUsed := length as, dc_err := 0\<rparr>)"
    using b(1) by (simp add: goDOMBuild_def assms(6,7,8))
  show thesis by (rule that [OF g b(2,3,4,5,6) _ _ w]) (use b in simp_all)
qed

section \<open>The published document\<close>

lemma write_back_view:
  assumes "bs \<noteq> []" "pos \<le> length (last bs)" "n \<le> length ys"
  shows "view (write_back bs pos ys) (length (write_back bs pos ys) - 1, pos, n) = take n ys"
    "length ys \<le> length (arena (write_back bs pos ys) pos)"
  using assms by (simp_all add: view_def write_back_def arena_def nth_append min_def)

text \<open>The context and the parser after a build that has laid out \<open>t\<close>.\<close>

definition laid_out :: "bool \<Rightarrow> jtree \<Rightarrow> DOMContext \<Rightarrow> Parser \<Rightarrow> bool" where
  "laid_out zc t c p \<longleftrightarrow> dc_err c = 0 \<and> (\<exists>ws as. enc zc 0 0 t = (ws, as) \<and> length ws < 2 ^ 32 \<and> length as < 2 ^ 32 \<and>
     dc_tapeLen c = length ws \<and> dc_strUsed c = length as \<and>
     view (p_tapes p) (length (p_tapes p) - 1, p_tapePos p, length ws) = ws \<and> length ws \<le> length (arena (p_tapes p) (p_tapePos p)) \<and>
     view (p_strs p) (length (p_strs p) - 1, p_strPos p, length as) = as \<and> length as \<le> length (arena (p_strs p) (p_strPos p)))"

lemma keep_views_laid_out:
  assumes "goDOMBuild j c = Some (c\<lparr>dc_tape := T', dc_str := S', dc_tapeLen := length ws, dc_strUsed := length as, dc_err := 0\<rparr>)" (is "_ = Some ?c")
    "enc zc 0 0 t = (ws, as)" "take (length ws) T' = ws" "take (length as) S' = as" "length ws \<le> length T'" "length as \<le> length S'"
    "length ws < 2 ^ 32" "length S' < 2 ^ 32" "p_tapes p \<noteq> []" "p_strs p \<noteq> []" "wf_parser p"
  shows "laid_out zc t ?c (keep_views ?c p)"
proof -
  have w: "p_tapePos p \<le> length (last (p_tapes p))" "p_strPos p \<le> length (last (p_strs p))"
    using assms(9,10,11) by (simp_all add: wf_parser_def wf_arena_def)
  note t = write_back_view [OF assms(9) w(1) assms(5)] and s = write_back_view [OF assms(10) w(2) assms(6)]
  show ?thesis unfolding laid_out_def
    using t s assms(2-8) by (intro conjI exI [of _ ws] exI [of _ as]) (simp_all add: keep_views_def)
qed

lemma published_stores:
  assumes "laid_out (mode = StrModeZeroCopy) t c p" "json_tree src t" "fits t" "length src < 2 ^ 30"
  obtains r p' where "published src mode (c, p) = Some (Inr r, p')" "stores_value (Value_of p' r) (node_of (mode = StrModeZeroCopy) t)"
proof -
  let ?zc = "mode = StrModeZeroCopy"
  obtain ws as where e: "enc ?zc 0 0 t = (ws, as)" "length ws < 2 ^ 32" "length as < 2 ^ 32" "dc_tapeLen c = length ws" "dc_strUsed c = length as"
     "view (p_tapes p) (length (p_tapes p) - 1, p_tapePos p, length ws) = ws" "length ws \<le> length (arena (p_tapes p) (p_tapePos p))"
     "view (p_strs p) (length (p_strs p) - 1, p_strPos p, length as) = as" "length as \<le> length (arena (p_strs p) (p_strPos p))"
     "dc_err c = 0"
    using assms(1) by (auto simp: laid_out_def)
  define r where "r = \<lparr>ref_tape = (length (p_tapes p) - 1, p_tapePos p, length ws), ref_str = (length (p_strs p) - 1, p_strPos p, length as),
     ref_src = (if ?zc then src else []), ref_zc = ?zc\<rparr>"
  define p' where "p' = p\<lparr>p_tapePos := p_tapePos p + length ws, p_strPos := p_strPos p + length as\<rparr>"
  have pub: "published src mode (c, p) = Some (Inr r, p')" using e by (simp add: published_def r_def p'_def)
  let ?d = "Value_of p' r"
  have d: "dsc_doc ?d = Some \<lparr>doc_tape = ws, doc_arena = as, doc_src = (if ?zc then src else []), doc_zc = ?zc\<rparr>" "dsc_base ?d = 0" "dsc_mode ?d = 0" "dsc_tidx ?d = 0"
    using e(6,8) by (simp_all add: Value_of_def doc_of_def r_def p'_def)
  have h: "holds ?d 0 ws" using d by (simp add: holds_def WordAt_def)
  have a: "arena_holds ?d 0 as" using d by (simp add: arena_holds_def cut_def)
  have v: "plain_view ?d ?zc src" using d e(3) assms(4) by (simp add: plain_view_def)
  have wl: "well src t" using assms(2) tree_well(1) by (auto simp: json_tree_def)
  have len: "0 + length ws < 2 ^ 32" using e(2) by simp
  have "read_at ?d 0 (node_of ?zc t) (0 + length ws)" by (rule enc_stored(1) [OF wl assms(3) e(1) h a v len])
  then have st: "stores ?d (dsc_tidx ?d) (node_of ?zc t)" unfolding d(4) read_at_def by simp
  have "HasTape ?d" using d enc_nonempty [OF e(1)] by (simp add: HasTape_def)
  then show thesis using st by (intro that [OF pub] conjI)
qed

section \<open>The parse of a JSON text\<close>

lemma counted_tree:
  assumes "json_tree src t" "tdepth t \<le> maxDepth" "fits t" "length src < 2 ^ 30" "strictScan \<longrightarrow> Check src ScanStrict" "wf_parser p"
  shows "\<exists>c1 c p'. goDOMParseCounted j (installed src mode strictScan (prepared (length src) p)) = Some c1 \<and>
    retried j c1 (keep_views c1 (prepared (length src) p)) = Some (c, p') \<and> laid_out (mode = 1) t c p'"
proof -
  define q where "q = prepared (length src) p"
  note Q = prepared_keeps [where p = p and n = "length src", folded q_def]
  have wq: "wf_parser q" using keeps_doc [OF Q(1) assms(6)] by simp
  define c0 where "c0 = installed src mode strictScan q"
  have f: "dc_src c0 = src" "length (dc_structural c0) = length src + 24" "length (dc_str c0) = length src + 64" "dc_strMode c0 = mode"
    "dc_scanStrict c0 \<noteq> 0 \<longleftrightarrow> strictScan"
  proof -
    have "unat (word_of_nat (length src + 24) :: u32) = length src + 24" using assms(4) by (simp add: unat_of_nat del: of_nat_add)
    then show "dc_src c0 = src" "length (dc_structural c0) = length src + 24" "length (dc_str c0) = length src + 64" "dc_strMode c0 = mode"
      "dc_scanStrict c0 \<noteq> 0 \<longleftrightarrow> strictScan"
      using Q(4,5) by (simp_all add: c0_def installed_def del: of_nat_add)
  qed
  obtain idx n sc ok where sc: "Scan src (dc_structural c0) (if strictScan then ScanStrict else ScanLax) = (idx, n, sc, ok)" by (rule prod_cases4)
  have ok: "ok = True"
    using Scan_verdict [of src "dc_structural c0" "if strictScan then ScanStrict else ScanLax"] sc f(2) tree_Check [OF assms(1)] assms(5)
    by (cases strictScan) (simp_all add: ScanSlack_def)
  note sc = sc [unfolded ok]
  have l: "length src < 2 ^ 31" using assms(4) by simp
  note N = Scan_counts [OF sc l]
  have need: "unat (word_of_nat (TapeNeed n sc) :: u32) = TapeNeed n sc" "unat (word_of_nat n :: u32) = n"
  proof -
    have "TapeNeed n sc < 2 ^ 32" "n < 2 ^ 32" using N assms(4) by (simp_all add: TapeNeed_def)
    then show "unat (word_of_nat (TapeNeed n sc) :: u32) = TapeNeed n sc" "unat (word_of_nat n :: u32) = n"
      by (simp_all add: unat_of_nat del: of_nat_add)
  qed
  obtain e where e: "tree_at src (SkipWS src 0) e t" using assms(1) by (auto simp: json_tree_def)
  have ne: "length src \<noteq> 0" using tree_first [OF e] by auto
  define c1 where "c1 = c0\<lparr>dc_structural := idx, dc_nStructural := word_of_nat n, dc_tapeNeed := word_of_nat (TapeNeed n sc)\<rparr>"
  have pc: "goDOMParseCounted j c0 =
      (if length (dc_tape c0) < TapeNeed n sc then Some (c1\<lparr>dc_err := DomTapeFull\<rparr>) else goDOMBuild j c1)"
    unfolding goDOMParseCounted_def using ne f sc need by (cases strictScan) (simp_all add: c1_def)
  have strs: "length src < length (dc_str c0)" using f(3) by simp
  show ?thesis
  proof (cases "length (dc_tape c0) < TapeNeed n sc")
    case False
    have b: "dc_src c1 = src" "dc_structural c1 = idx" "unat (dc_nStructural c1) = n" "TapeNeed n sc \<le> length (dc_tape c1)" "length src < length (dc_str c1)"
      using f need(2) False strs by (simp_all add: c1_def)
    obtain ws as T' S' where B: "goDOMBuild j c1 = Some (c1\<lparr>dc_tape := T', dc_str := S', dc_tapeLen := length ws, dc_strUsed := length as, dc_err := 0\<rparr>)"
        (is "_ = Some ?c")
      "enc (dc_strMode c1 = 1) 0 0 t = (ws, as)" "take (length ws) T' = ws" "take (length as) S' = as" "length T' = length (dc_tape c1)"
      "length S' = length (dc_str c1)" "length ws \<le> length T'" "length as \<le> length S'" "length ws < 2 ^ 32"
      by (rule goDOMBuild_tree [OF sc assms(4,1,2,3) b])
    have m: "dc_strMode c1 = mode" "length S' < 2 ^ 32" using f(3,4) B(6) assms(4) by (simp_all add: c1_def)
    have "laid_out (mode = 1) t ?c (keep_views ?c q)"
      by (rule keep_views_laid_out [OF B(1) B(2) [unfolded m(1)] B(3,4,7,8,9) m(2) Q(2,3) wq])
    then show ?thesis unfolding q_def [symmetric] c0_def [symmetric] pc using False B(1) by (simp add: retried_def DomTapeFull_def)
  next
    case True
    define c1' where "c1' = c1\<lparr>dc_err := DomTapeFull\<rparr>"
    define q1 where "q1 = keep_views c1' q"
    define q2 where "q2 = ensureTapeArena (TapeNeed n sc) q1"
    have pos: "0 < TapeNeed n sc" by (simp add: TapeNeed_def)
    have k1: "keeps q q1" "p_tapes q1 \<noteq> []" "p_strs q1 \<noteq> []"
      unfolding q1_def by (rule keep_views_keeps [OF Q(2,3)] keep_views_fields(1) [OF Q(2)] keep_views_fields(2) [OF Q(3)])+
    note E = ensureTapeArena_keeps [OF pos q2_def]
    have w2: "wf_parser q2" using keeps_doc [OF keeps_trans [OF k1(1) E(1)] wq] by simp
    have s2: "p_strs q2 \<noteq> []" using E(4) k1(3) by simp
    define c2 where "c2 = c1'\<lparr>dc_tape := take (TapeNeed n sc) (arena (p_tapes q2) (p_tapePos q2))\<rparr>"
    have b: "dc_src c2 = src" "dc_structural c2 = idx" "unat (dc_nStructural c2) = n" "TapeNeed n sc \<le> length (dc_tape c2)" "length src < length (dc_str c2)"
      using f need(2) E(3) strs by (simp_all add: c1_def c1'_def c2_def)
    obtain ws as T' S' where B: "goDOMBuild j c2 = Some (c2\<lparr>dc_tape := T', dc_str := S', dc_tapeLen := length ws, dc_strUsed := length as, dc_err := 0\<rparr>)"
        (is "_ = Some ?c")
      "enc (dc_strMode c2 = 1) 0 0 t = (ws, as)" "take (length ws) T' = ws" "take (length as) S' = as" "length T' = length (dc_tape c2)"
      "length S' = length (dc_str c2)" "length ws \<le> length T'" "length as \<le> length S'" "length ws < 2 ^ 32"
      by (rule goDOMBuild_tree [OF sc assms(4,1,2,3) b])
    have m: "dc_strMode c2 = mode" "length S' < 2 ^ 32" using f(3,4) B(6) assms(4) by (simp_all add: c1_def c1'_def c2_def)
    have lo: "laid_out (mode = 1) t ?c (keep_views ?c q2)"
      by (rule keep_views_laid_out [OF B(1) B(2) [unfolded m(1)] B(3,4,7,8,9) m(2) E(2) s2 w2])
    have nd: "unat (dc_tapeNeed c1') = TapeNeed n sc" "dc_err c1' = DomTapeFull" using need(1) by (simp_all add: c1_def c1'_def)
    have "retried j c1' q1 = Some (?c, keep_views ?c q2)"
      unfolding retried_def Let_def nd q2_def [symmetric] c2_def [symmetric] B(1) by simp
    then show ?thesis unfolding q_def [symmetric] c0_def [symmetric] pc using True lo by (auto simp: c1'_def [symmetric] q1_def [symmetric])
  qed
qed

lemma parse_tree:
  assumes "json_tree src t" "tdepth t \<le> maxDepth" "fits t" "length src < 2 ^ 30" "strictScan \<longrightarrow> Check src ScanStrict" "wf_parser p"
  shows "\<exists>r p'. parseTapePadded j (src, spare) mode strictScan p = Some (Inr r, p') \<and>
    stores_value (Value_of p' r) (node_of (mode = StrModeZeroCopy) t)"
proof -
  obtain c1 c q where c: "goDOMParseCounted j (installed src mode strictScan (prepared (length src) p)) = Some c1"
      "retried j c1 (keep_views c1 (prepared (length src) p)) = Some (c, q)" "laid_out (mode = 1) t c q"
    using counted_tree [OF assms] by blast
  have lo: "laid_out (mode = StrModeZeroCopy) t c q" using c(3) by (simp add: StrModeZeroCopy_def)
  obtain r p' where "published src mode (c, q) = Some (Inr r, p')" "stores_value (Value_of p' r) (node_of (mode = StrModeZeroCopy) t)"
    by (rule published_stores [OF lo assms(1,3,4)])
  moreover have "src \<noteq> []"
  proof
    assume "src = []"
    then obtain e where "tree_at [] (SkipWS [] 0) e t" using assms(1) by (auto simp: json_tree_def)
    from tree_first [OF this] show False by simp
  qed
  ultimately show ?thesis using parse_stages [of src j spare mode strictScan p] c(1,2) by (auto simp: Let_def)
qed

section \<open>Histories of a parser\<close>

text \<open>
  A parser and the documents it has handed out, each with what it read when its parse returned, after
  any sequence of parses, failed ones included.
\<close>

inductive history :: "Parser \<Rightarrow> (DocRef \<times> Doc) list \<Rightarrow> bool" where
  start: "history NewParser []"
| parse: "history p ds \<Longrightarrow> Parser_Parse j src opts p = Some (Inr r, p') \<Longrightarrow> history p' ((r, doc_of p' r) # ds)"
| parse_err: "history p ds \<Longrightarrow> Parser_Parse j src opts p = Some (Inl e, p') \<Longrightarrow> history p' ds"
| padded: "history p ds \<Longrightarrow> Parser_ParsePadded j paddedSrc opts p = Some (Inr r, p') \<Longrightarrow> history p' ((r, doc_of p' r) # ds)"
| padded_err: "history p ds \<Longrightarrow> Parser_ParsePadded j paddedSrc opts p = Some (Inl e, p') \<Longrightarrow> history p' ds"

lemma Parse_keeps:
  assumes "Parser_Parse j src opts p = Some (res, p')" "wf_parser p"
  shows "keeps p p' \<and> (\<forall>r. res = Inr r \<longrightarrow> carved p' r)"
proof -
  obtain mode strict where o': "resolveOpts opts = (mode, strict)" by (cases "resolveOpts opts")
  define q where "q = ensureSrcBuf (length src + ScanPadding) p"
  define q' where "q' = q\<lparr>p_padded := src @ scanPad @ drop (length src + ScanPadding) (p_padded q)\<rparr>"
  have k: "keeps p q'" by (auto simp: q'_def q_def ensureSrcBuf_def keeps_def kept_refl)
  have "res = Inl ErrEmptyInput \<and> p' = p \<or> res = Inl ErrZeroCopyUnsupported \<and> p' = p \<or>
      parseTapePadded j (take (length src) (p_padded q'), drop (length src) (take (length src + ScanPadding) (p_padded q'))) mode strict q' = Some (res, p')"
    using assms(1) o' unfolding Parser_Parse_def Let_def q_def [symmetric] q'_def [symmetric] by (auto split: if_splits)
  then show ?thesis
    using parseTapePadded_keeps [where p = q'] keeps_doc [OF k assms(2)] keeps_trans [OF k] keeps_refl by blast
qed

lemma ParsePadded_keeps:
  assumes "Parser_ParsePadded j paddedSrc opts p = Some (res, p')" "wf_parser p"
  shows "keeps p p' \<and> (\<forall>r. res = Inr r \<longrightarrow> carved p' r)"
proof (cases "checkPadded paddedSrc")
  case None
  obtain mode strict where o': "resolveOpts opts = (mode, strict)" by (cases "resolveOpts opts")
  obtain src spare where s: "paddedSrc = (src, spare)" by (cases paddedSrc)
  have "parseTapePadded j (src, spare) mode strict p = Some (res, p')" using assms(1) None o' s by (simp add: Parser_ParsePadded_def)
  then show ?thesis by (rule parseTapePadded_keeps [OF _ assms(2)])
next
  case Some
  then show ?thesis using assms(1) by (auto simp: Parser_ParsePadded_def keeps_refl)
qed

lemma history_wf: "history p ds \<Longrightarrow> wf_parser p \<and> (\<forall>(r, d) \<in> set ds. carved p r \<and> doc_of p r = d)"
proof (induction rule: history.induct)
  case start
  then show ?case by (simp add: wf_parser_def wf_arena_def NewParser_def)
next
  case (parse p ds j src opts r p')
  then show ?case using Parse_keeps [OF parse(2)] keeps_doc [of p p'] by fastforce
next
  case (parse_err p ds j src opts e p')
  then show ?case using Parse_keeps [OF parse_err(2)] keeps_doc [of p p'] by fastforce
next
  case (padded p ds j paddedSrc opts r p')
  then show ?case using ParsePadded_keeps [OF padded(2)] keeps_doc [of p p'] by fastforce
next
  case (padded_err p ds j paddedSrc opts e p')
  then show ?case using ParsePadded_keeps [OF padded_err(2)] keeps_doc [of p p'] by fastforce
qed

lemma Parse_json_tree:
  assumes "json_tree src t" "tdepth t \<le> maxDepth" "length src \<le> maxSpan" "wf_parser p" "resolveOpts opts = (StrModeCopy, strictScan)"
    "strictScan \<longrightarrow> Check src ScanStrict"
  shows "\<exists>r p'. Parser_Parse j src opts p = Some (Inr r, p') \<and> stores_value (Value_of p' r) (node_of False t)"
proof -
  define q where "q = ensureSrcBuf (length src + ScanPadding) p"
  define q' where "q' = q\<lparr>p_padded := src @ scanPad @ drop (length src + ScanPadding) (p_padded q)\<rparr>"
  have k: "keeps p q'" by (auto simp: q'_def q_def ensureSrcBuf_def keeps_def kept_refl)
  have w: "wf_parser q'" using keeps_doc [OF k assms(4)] by simp
  have e: "take (length src) (p_padded q') = src" by (simp add: q'_def)
  have f: "fits t" using assms(1,3) tree_fits(1) by (auto simp: json_tree_def)
  have l: "length src < 2 ^ 30" using assms(3) by (simp add: maxSpan_def)
  have m: "StrModeCopy \<noteq> StrModeZeroCopy" by (simp add: StrModeCopy_def StrModeZeroCopy_def)
  obtain e where "tree_at src (SkipWS src 0) e t" using assms(1) by (auto simp: json_tree_def)
  then have ne: "src \<noteq> []" using tree_first [of src "SkipWS src 0" e t] by auto
  have "Parser_Parse j src opts p =
      parseTapePadded j (src, drop (length src) (take (length src + ScanPadding) (p_padded q'))) StrModeCopy strictScan q'"
    unfolding Parser_Parse_def Let_def q_def [symmetric] q'_def [symmetric] e assms(5) using ne m by simp
  then show ?thesis using parse_tree [OF assms(1,2) f l assms(6) w, of j _ StrModeCopy] m by simp
qed

lemma pad_words: "load64 scanPad (8 * k) = 0x2020202020202020" if "k < 8"
proof -
  have "take 8 (drop (8 * k) scanPad) = replicate 8 0x20" using that by (simp add: scanPad_def ScanPadding_def min_def)
  moreover have "le64 (replicate 8 0x20) = 0x2020202020202020" by code_simp
  ultimately show ?thesis by (simp add: load64_def)
qed

lemma Pad_passes: "checkPadded (fst (Pad (src, spare))) = None"
  using pad_words [of 0] pad_words [of 1] pad_words [of 2] pad_words [of 3] pad_words [of 4] pad_words [of 5] pad_words [of 6] pad_words [of 7]
  by (simp add: Pad_def checkPadded_def Let_def) (simp add: scanPad_def)

lemma Pad_keeps: "fst (fst (Pad (src, spare))) = src"
  by (simp add: Pad_def)

section \<open>Properties\<close>


text \<open>\<^verbatim>\<open>["a",true]\<close> and its tree.\<close>

definition sample :: bytes where "sample = [ch_lbrack, ch_quote, 0x61, ch_quote, ch_comma, ch_t, 0x72, 0x75, 0x65, ch_rbrack]"

definition sample_tree :: jtree where "sample_tree = JArr [JStr (2, [0x61], False), JAtom ch_t]"

lemma sample_facts: "length sample = 10" "SkipWS sample 0 = 0" "SkipWS sample 1 = 1" "SkipWS sample 4 = 4" "SkipWS sample 5 = 5"
  "SkipWS sample 9 = 9" "SkipWS sample 10 = 10" "decode_from sample 2 = ([0x61], 3, False, True)" "cut sample 5 9 = lit ''true''"
  "sample ! 0 = ch_lbrack" "sample ! 1 = ch_quote" "sample ! 4 = ch_comma" "sample ! 5 = ch_t" "sample ! 9 = ch_rbrack"
  by code_simp+

lemma sample_json: "json_tree sample sample_tree"
proof -
  note f = sample_facts
  have "tree_at sample 1 (3 + 1) (JStr (1 + 1, [0x61], False))"
    by (rule tree_at_elems_tree_members_tree.tstr) (use f in \<open>simp_all add: numeral_2_eq_2 [symmetric]\<close>)
  then have s: "tree_at sample 1 4 (JStr (2, [0x61], False))" by (simp add: numeral_2_eq_2)
  have "tree_at sample 5 9 (JAtom (At sample 5))"
    by (rule tree_at_elems_tree_members_tree.tatom) (use f in simp_all)
  then have "elems_tree sample 5 9 [JAtom ch_t]" using telem [of sample 5 9] f by simp
  then have "elems_tree sample (SkipWS sample (4 + 1)) 9 [JAtom ch_t]" using f by simp
  from telem_more [OF s _ _ _ this] f have "elems_tree sample 1 9 [JStr (2, [0x61], False), JAtom ch_t]" by simp
  then have "elems_tree sample (SkipWS sample (0 + 1)) 9 [JStr (2, [0x61], False), JAtom ch_t]" using f by simp
  from tarr [OF _ _ this, of 9] f have "tree_at sample 0 (9 + 1) sample_tree" by (simp add: sample_tree_def)
  then show ?thesis using f by (auto simp: json_tree_def intro!: exI [of _ 10])
qed

lemma sample_small: "tdepth sample_tree \<le> maxDepth" "fits sample_tree" "length sample \<le> maxSpan" "length sample < 2 ^ 31"
  by (simp_all add: sample_tree_def sample_facts maxDepth_def maxSpan_def)


text \<open>
  Claim C1. Whatever a parser has parsed before, \<^verbatim>\<open>Parse\<close> returns a value for every JSON text of at most 16 MiB that
  nests at most 256 non-empty containers deep and, where invalid UTF-8 is disallowed, passes the strict
  scan; the value reads the tree of the text.
\<close>

theorem Parse_reads_tree:
  assumes "history p ds" "json_tree src t" "tdepth t \<le> maxDepth" "length src \<le> maxSpan"
    "resolveOpts opts = (StrModeCopy, strictScan)" "strictScan \<longrightarrow> Check src ScanStrict"
  shows "\<exists>r p'. Parser_Parse j src opts p = Some (Inr r, p') \<and> stores_value (Value_of p' r) (node_of False t)"
  by (rule Parse_json_tree [OF assms(2,3,4) _ assms(5,6)]) (use history_wf [OF assms(1)] in simp)

theorem Parse_reads_tree_witness:
  "\<exists>r p'. Parser_Parse ([], []) sample [AllowInvalidUTF8 False] NewParser = Some (Inr r, p') \<and>
     Value_Len (Value_of p' r) = Some 2"
proof -
  have o': "resolveOpts [AllowInvalidUTF8 False] = (StrModeCopy, True)" by code_simp
  have "Check sample ScanStrict" by code_simp
  then have "\<exists>r p'. Parser_Parse ([], []) sample [AllowInvalidUTF8 False] NewParser = Some (Inr r, p') \<and>
     stores_value (Value_of p' r) (node_of False sample_tree)"
    by (intro Parse_reads_tree [OF history.start sample_json sample_small(1,3) o']) simp
  then show ?thesis using Len_stored by (fastforce simp: sample_tree_def)
qed



text \<open>
  Claim C2. Every document a parser has handed out keeps reading what it read when its parse returned, whatever
  is parsed after it, whether those parses succeed or fail and whatever a failed walk leaves in the arenas.
\<close>

theorem documents_stay:
  assumes "history p ds" "(r, d) \<in> set ds"
  shows "doc_of p r = d"
  using history_wf [OF assms(1)] assms(2) by auto

theorem documents_stay_witness:
  "\<exists>r p r' p'. Parser_Parse ([], []) sample [] NewParser = Some (Inr r, p) \<and> Parser_Parse ([], []) sample [] p = Some (Inr r', p') \<and>
     doc_of p' r = doc_of p r"
proof -
  have o': "resolveOpts [] = (StrModeCopy, False)" by code_simp
  have parses: "\<exists>r p'. Parser_Parse ([], []) sample [] p = Some (Inr r, p')" if "wf_parser p" for p
    using Parse_json_tree [OF sample_json sample_small(1,3) that o', of "([], [])"] by blast
  obtain r p where p: "Parser_Parse ([], []) sample [] NewParser = Some (Inr r, p)"
    using parses [of NewParser] history_wf [OF history.start] by blast
  note h = history.parse [OF history.start p]
  obtain r' p' where p': "Parser_Parse ([], []) sample [] p = Some (Inr r', p')" using parses [of p] history_wf [OF h] by blast
  have "doc_of p' r = doc_of p r" by (rule documents_stay [OF history.parse [OF h p']]) simp
  then show ?thesis using p p' by blast
qed

end
