(* ===== verification/Dom_Marshal.thy ===== *)
theory Dom_Marshal
  imports Serialize Dom_Parse
begin

text \<open>
  Parsing and marshalling composed: a document parsed by \<^verbatim>\<open>decode/dom\<close> under the strict scan marshals, by
  \<^verbatim>\<open>value/serialize.go\<close>, to a text that \<open>Raw.Valid\<close> accepts.
\<close>

section \<open>Strings of a checked document hold no control byte\<close>

definition clean_at :: "bytes \<Rightarrow> nat \<Rightarrow> bool" where
  "clean_at src i \<longleftrightarrow> run_ok True (str_run False False (drop i src))"

lemma clean_plain:
  assumes "i \<le> e" "\<forall>c \<in> set (cut src i e). \<not> is_stop c"
  shows "clean_at src i = clean_at src e"
proof -
  have "drop i src = cut src i e @ drop e src"
    using append_take_drop_id [of "e - i" "drop i src"] assms(1) by (simp add: cut_def)
  then show ?thesis using str_run_plain [OF assms(2), of False "drop e src"] by (simp add: clean_at_def)
qed

lemma clean_byte: "i < length src \<Longrightarrow> src ! i = c \<Longrightarrow> \<not> is_stop c \<Longrightarrow> clean_at src i = clean_at src (i + 1)"
  by (rule clean_plain) (simp_all add: cut_Cons)

lemma ws_plain:
  assumes "i \<le> length src"
  shows "\<forall>c \<in> set (cut src i (SkipWS src i)). \<not> is_stop c"
proof
  fix c
  assume "c \<in> set (cut src i (SkipWS src i))"
  then obtain m where m: "m < length (cut src i (SkipWS src i))" "c = cut src i (SkipWS src i) ! m" by (auto simp: in_set_conv_nth)
  then have "i + m < SkipWS src i" "c = src ! (i + m)" using SkipWS_bounds [OF assms] by (auto simp: cut_def)
  then have "is_ws c" using find_from_before [of i "i + m" "\<lambda>c. \<not> is_ws c" src] SkipWS_eq [OF assms] by auto
  then show "\<not> is_stop c" by auto
qed

lemma clean_ws: "i \<le> length src \<Longrightarrow> clean_at src (SkipWS src i) = clean_at src i"
  using SkipWS_bounds [of i src] by (intro clean_plain [symmetric] ws_plain) simp

lemma clean_text: "list_all plain_byte (cut src i e) \<Longrightarrow> i \<le> e \<Longrightarrow> clean_at src i = clean_at src e"
  by (rule clean_plain) (auto simp: list_all_iff plain_byte_def)

lemma Check_string_lax: "Check_string src True j = Some i \<Longrightarrow> Check_string src False j = Some i"
proof (induction src True j rule: Check_string.induct)
  case (1 src j)
  show ?case using "1.prems" "1.hyps" [OF refl]
    by (subst Check_string.simps, subst (asm) (2) Check_string.simps) (auto simp: Let_def split: if_splits)
qed

lemma clean_string:
  assumes "o' < length src" "src ! o' = ch_quote" "decode_from src (o' + 1) = (bs, e, x, True)" "clean_at src o'"
  shows "clean_at src (e + 1)" "\<not> x \<Longrightarrow> list_all (\<lambda>c. \<not> is_stop c \<and> \<not> c < 0x20) bs"
proof -
  have l: "o' + 1 \<le> length src" using assms(1) by simp
  have "ScanString src (o' + 1) = (e, True)" using ScanString_eq [OF l assms(3)] by simp
  then have s: "StringEnd src (o' + 1) = (e, True)" by (rule ScanString_StringEnd)
  have "run_ok True (str_run True False (drop (o' + 1) src))"
    using str_run_quote [OF assms(1,2), of False] assms(4) by (simp add: clean_at_def)
  then obtain i where i: "Check_string src True (o' + 1) = Some i" "clean_at src i"
    using Check_string_run [OF l, of True] by (auto simp: clean_at_def split: option.splits)
  then show "clean_at src (e + 1)" using Check_string_lax [OF i(1)] StringEnd_Check_string [OF l s] by simp
  show "list_all (\<lambda>c. \<not> is_stop c \<and> \<not> c < 0x20) bs" if "\<not> x"
  proof -
    let ?q = "QuoteOrEscape src (o' + 1)"
    note P = decode_plain_end [OF assms(3) l]
    have b: "bs = cut src (o' + 1) ?q"
      using decode_span [OF assms(3) l] P(3) that QuoteOrEscape_ge [of src "o' + 1"] P(2) l by (simp add: span_in_def)
    have c: "\<not> hasCtl (cut src (o' + 1) ?q)" using i(1) by (subst (asm) Check_string.simps) (simp add: Let_def split: if_splits)
    have "\<not> is_stop c" if m: "c \<in> set bs" for c
    proof -
      obtain k where k: "k < length bs" "c = bs ! k" using m by (auto simp: in_set_conv_nth)
      then have "o' + 1 + k < ?q" "c = src ! (o' + 1 + k)" using b P(2) by (auto simp: cut_def)
      then show ?thesis using find_from_before [of "o' + 1" "o' + 1 + k" is_stop src] by (simp add: QuoteOrEscape_eq)
    qed
    then show ?thesis using c b by (auto simp: hasCtl_def list_all_iff list_ex_iff)
  qed
qed

text \<open>The doubles of a node, which the formatter prints.\<close>

fun node_doubles :: "node \<Rightarrow> u64 list" and elems_doubles :: "node list \<Rightarrow> u64 list" and members_doubles :: "(bytes \<times> node) list \<Rightarrow> u64 list" where
  "node_doubles (NDouble w) = [w]"
| "node_doubles (NArr xs) = elems_doubles xs"
| "node_doubles (NObj ms) = members_doubles ms"
| "node_doubles _ = []"
| "elems_doubles [] = []"
| "elems_doubles (x # xs) = node_doubles x @ elems_doubles xs"
| "members_doubles [] = []"
| "members_doubles ((k, x) # ms) = node_doubles x @ members_doubles ms"

lemma num_printable: "is_number t \<Longrightarrow> \<forall>w \<in> set (node_doubles (num_node t)). is_number (ff w) \<Longrightarrow> printable ff (num_node t)"
  by (cases t rule: num_node_cases) simp_all

lemma tree_printable:
  "tree_at src o' e t \<Longrightarrow> clean_at src o' \<Longrightarrow>
   clean_at src e \<and> ((\<forall>w \<in> set (node_doubles (node_of False t)). is_number (ff w)) \<longrightarrow> printable ff (node_of False t))"
  "elems_tree src o' e ts \<Longrightarrow> clean_at src o' \<Longrightarrow>
   clean_at src e \<and> ((\<forall>w \<in> set (elems_doubles (nodes_of False ts)). is_number (ff w)) \<longrightarrow> printable_elems ff (nodes_of False ts))"
  "members_tree src o' e ms \<Longrightarrow> clean_at src o' \<Longrightarrow>
   clean_at src e \<and> ((\<forall>w \<in> set (members_doubles (members_of False ms)). is_number (ff w)) \<longrightarrow> printable_members ff (members_of False ms))"
proof (induction rule: tree_at_elems_tree_members_tree.inducts)
  case (tstr o' bs e x)
  then show ?case using clean_string [OF tstr(1,2,3)] by (cases x) (simp_all add: str_node_def str_tag_def)
next
  case (tnum o' e)
  then show ?case using clean_text [OF is_number_plain [OF tnum(3)] tnum(1)] num_printable [OF tnum(3), of ff] by simp
next
  case (tatom o' e)
  then show ?case using clean_text [OF literals_plain [OF tatom(3)] tatom(1)] by (simp add: atom_node_def)
next
  case (tarr0 o' p)
  then show ?case using clean_byte [of o' src ch_lbrack] clean_ws [of "o' + 1" src] clean_byte [of p src ch_rbrack] by simp
next
  case (tobj0 o' p)
  then show ?case using clean_byte [of o' src ch_lbrace] clean_ws [of "o' + 1" src] clean_byte [of p src ch_rbrace] by simp
next
  case (tarr o' e ts p)
  then show ?case using clean_byte [of o' src ch_lbrack] clean_ws [of "o' + 1" src] clean_ws [of e src] clean_byte [of p src ch_rbrack]
      tree_at_bounds(2) [OF tarr(3)] by simp
next
  case (tobj o' e ms p)
  then show ?case using clean_byte [of o' src ch_lbrace] clean_ws [of "o' + 1" src] clean_ws [of e src] clean_byte [of p src ch_rbrace]
      tree_at_bounds(3) [OF tobj(3)] by simp
next
  case (telem o' e t)
  then show ?case by simp
next
  case (telem_more o' e t q e' ts)
  then show ?case using clean_ws [of e src] clean_byte [of q src ch_comma] clean_ws [of "q + 1" src] tree_at_bounds(1) [OF telem_more(1)] by simp
next
  case (tmember o' bs k x c e t)
  then show ?case using clean_string(1) [OF tmember(1,2,3)] closed_string(2) [OF tmember(1,2,3)] clean_ws [of "k + 1" src]
      clean_byte [of c src ch_colon] clean_ws [of "c + 1" src] by simp
next
  case (tmember_more o' bs k x c e t q e' ms)
  then show ?case using clean_string(1) [OF tmember_more(1,2,3)] closed_string(2) [OF tmember_more(1,2,3)] clean_ws [of "k + 1" src]
      clean_byte [of c src ch_colon] clean_ws [of "c + 1" src]
      clean_ws [of e src] clean_byte [of q src ch_comma] clean_ws [of "q + 1" src] tree_at_bounds(1) [OF tmember_more(7)] by simp
qed

lemma json_tree_printable:
  assumes "json_tree src t" "Check src ScanStrict" "\<forall>w \<in> set (node_doubles (node_of False t)). is_number (ff w)"
  shows "printable ff (node_of False t)"
proof -
  obtain e where e: "tree_at src (SkipWS src 0) e t" using assms(1) by (auto simp: json_tree_def)
  have "clean_at src 0" using assms(2) Check_loop_run [of src True 0] by (simp add: Check_def clean_at_def)
  then have "clean_at src (SkipWS src 0)" using clean_ws [of 0 src] by simp
  then show ?thesis using tree_printable(1) [OF e, of ff] assms(3) by simp
qed

section \<open>Properties\<close>



end
