(* ===== verification/Numbers.thy ===== *)
theory Numbers
  imports Num_Node
begin

text \<open>
  The numeric accessors of \<^verbatim>\<open>value/value.go\<close> and \<^verbatim>\<open>value/raw.go\<close>: \<open>Int\<close>, \<open>Uint\<close> and \<open>Float\<close>. A \<^verbatim>\<open>float64\<close> is its 64
  bits, an \<^verbatim>\<open>int64\<close> or \<^verbatim>\<open>uint64\<close> its value. Go leaves the conversion of a float out of the range of the
  integer type to the implementation, so it is the parameter \<open>cv\<close>; the results hold for every choice.
  Of \<^verbatim>\<open>strconv\<close>'s parsers the accessors use the value when there is no error, so they return options;
  the texts they are given here are JSON numbers.
\<close>

section \<open>float64 and strconv\<close>

definition f_exp :: "u64 \<Rightarrow> int" where "f_exp w = uint (drop_bit 52 w AND 0x7FF)"
definition f_frac :: "u64 \<Rightarrow> int" where "f_frac w = uint (w AND 0xFFFFFFFFFFFFF)"
definition f_neg :: "u64 \<Rightarrow> bool" where "f_neg w \<longleftrightarrow> bit w 63"

definition f_nan :: "u64 \<Rightarrow> bool" where "f_nan w \<longleftrightarrow> f_exp w = 0x7FF \<and> f_frac w \<noteq> 0"
definition f_inf :: "u64 \<Rightarrow> bool" where "f_inf w \<longleftrightarrow> f_exp w = 0x7FF \<and> f_frac w = 0"
definition f_zero :: "u64 \<Rightarrow> bool" where "f_zero w \<longleftrightarrow> f_exp w = 0 \<and> f_frac w = 0"

definition f_eq :: "u64 \<Rightarrow> u64 \<Rightarrow> bool" where
  "f_eq a b \<longleftrightarrow> \<not> f_nan a \<and> \<not> f_nan b \<and> (a = b \<or> f_zero a \<and> f_zero b)"

definition f_less_zero :: "u64 \<Rightarrow> bool" where
  "f_less_zero w \<longleftrightarrow> f_neg w \<and> \<not> f_nan w \<and> \<not> f_zero w"

text \<open>The value cut towards zero, of a finite float.\<close>

definition f_trunc :: "u64 \<Rightarrow> int" where
  "f_trunc w =
     (let m = (if f_exp w = 0 then f_frac w else f_frac w + 2 ^ 52); e = max (f_exp w) 1 - 1075;
          v = (if 0 \<le> e then m * 2 ^ nat e else m div 2 ^ nat (- e)) in
      if f_neg w then - v else v)"

definition float_to :: "(u64 \<Rightarrow> int) \<Rightarrow> int \<Rightarrow> int \<Rightarrow> u64 \<Rightarrow> int" where
  "float_to cv lo hi w = (if f_exp w \<noteq> 0x7FF \<and> lo \<le> f_trunc w \<and> f_trunc w < hi then f_trunc w else cv w)"

definition int64_of :: "(u64 \<Rightarrow> int) \<Rightarrow> u64 \<Rightarrow> int" where "int64_of cv = float_to cv (- (2 ^ 63)) (2 ^ 63)"
definition uint64_of :: "(u64 \<Rightarrow> int) \<Rightarrow> u64 \<Rightarrow> int" where "uint64_of cv = float_to cv 0 (2 ^ 64)"

definition float_of :: "int \<Rightarrow> u64" where
  "float_of n = (if n = 0 then 0 else round64 (n < 0) \<bar>n\<bar> 1)"

definition digits_value :: "bytes \<Rightarrow> int option" where
  "digits_value ds = (if ds \<noteq> [] \<and> list_all IsDigit ds then Some (dec_int ds) else None)"

definition in_range :: "int \<Rightarrow> int \<Rightarrow> int option \<Rightarrow> int option" where
  "in_range lo hi v = (case v of None \<Rightarrow> None | Some n \<Rightarrow> if lo \<le> n \<and> n < hi then Some n else None)"

definition ParseInt :: "bytes \<Rightarrow> int option" where
  "ParseInt t =
     (let neg = (head_byte t = ch_minus); ds = (if neg \<or> head_byte t = ch_plus then tl t else t) in
      in_range (- (2 ^ 63)) (2 ^ 63) (map_option (\<lambda>n. if neg then - n else n) (digits_value ds)))"

definition ParseUint :: "bytes \<Rightarrow> int option" where
  "ParseUint t = in_range 0 (2 ^ 64) (digits_value t)"

definition ParseFloat_ok :: "bytes \<Rightarrow> u64 option" where
  "ParseFloat_ok t = (if f_inf (ParseFloat t) then None else Some (ParseFloat t))"

section \<open>Values on a tape\<close>

definition Value_Int :: "(u64 \<Rightarrow> int) \<Rightarrow> Descriptor \<Rightarrow> int option option" where
  "Value_Int cv v =
     (if \<not> HasTape v then Some None
      else do {
        let i = dsc_tidx v;
        t \<leftarrow> TagAt v i;
        if t = TagInt64 then map_option Some (Int64At v i)
        else if t = TagUint64 then map_option (\<lambda>u. if 2 ^ 63 - 1 < u then None else Some (uint u)) (Uint64At v i)
        else if t = TagDouble then
          map_option (\<lambda>f. if \<not> f_eq f (float_of (int64_of cv f)) then None else Some (int64_of cv f)) (DoubleAt v i)
        else if t = TagNumRaw then map_option ParseInt (NumRawAt v i)
        else Some None
      })"

definition Value_Uint :: "(u64 \<Rightarrow> int) \<Rightarrow> Descriptor \<Rightarrow> int option option" where
  "Value_Uint cv v =
     (if \<not> HasTape v then Some None
      else do {
        let i = dsc_tidx v;
        t \<leftarrow> TagAt v i;
        if t = TagUint64 then map_option (\<lambda>u. Some (uint u)) (Uint64At v i)
        else if t = TagInt64 then map_option (\<lambda>n. if n < 0 then None else Some n) (Int64At v i)
        else if t = TagDouble then
          map_option (\<lambda>f. if f_less_zero f \<or> \<not> f_eq f (float_of (uint64_of cv f)) then None else Some (uint64_of cv f)) (DoubleAt v i)
        else if t = TagNumRaw then map_option ParseUint (NumRawAt v i)
        else Some None
      })"

definition Value_Float :: "Descriptor \<Rightarrow> u64 option option" where
  "Value_Float v =
     (if \<not> HasTape v then Some None
      else do {
        let i = dsc_tidx v;
        t \<leftarrow> TagAt v i;
        if t = TagDouble then map_option Some (DoubleAt v i)
        else if t = TagInt64 then map_option (\<lambda>n. Some (float_of n)) (Int64At v i)
        else if t = TagUint64 then map_option (\<lambda>u. Some (float_of (uint u))) (Uint64At v i)
        else if t = TagNumRaw then map_option ParseFloat_ok (NumRawAt v i)
        else Some None
      })"

definition Value_GetInt :: "(u64 \<Rightarrow> int) \<Rightarrow> Descriptor \<Rightarrow> bytes list \<Rightarrow> int option option" where
  "Value_GetInt cv v keys = do { cur \<leftarrow> Value_Get v keys; Value_Int cv cur }"

definition Value_GetFloat :: "Descriptor \<Rightarrow> bytes list \<Rightarrow> u64 option option" where
  "Value_GetFloat v keys = do { cur \<leftarrow> Value_Get v keys; Value_Float cur }"

section \<open>Byte-backed values\<close>

definition raw_Int :: "(u64 \<Rightarrow> int) \<Rightarrow> bytes \<Rightarrow> int option" where
  "raw_Int cv r = do {
     s \<leftarrow> numberSpan r;
     (case ParseInt s of
        Some n \<Rightarrow> Some n
      | None \<Rightarrow> do {
          f \<leftarrow> ParseFloat_ok s;
          if \<not> f_eq f (float_of (int64_of cv f)) then None else Some (int64_of cv f)
        })
   }"

definition raw_Float :: "bytes \<Rightarrow> u64 option" where
  "raw_Float r = do { s \<leftarrow> numberSpan r; ParseFloat_ok s }"

definition raw_GetInt :: "(u64 \<Rightarrow> int) \<Rightarrow> bytes option \<Rightarrow> bytes list \<Rightarrow> int option" where
  "raw_GetInt cv r keys = raw_Int cv (raw_bytes (raw_Get r keys))"

definition raw_GetFloat :: "bytes option \<Rightarrow> bytes list \<Rightarrow> u64 option" where
  "raw_GetFloat r keys = raw_Float (raw_bytes (raw_Get r keys))"

section \<open>Integer texts\<close>

definition int_value :: "bytes \<Rightarrow> int" where
  "int_value t = (case dec_text t of (neg, m, _) \<Rightarrow> if neg then - m else m)"

lemma integer_parts:
  assumes "is_number t" "integer_text t"
  obtains s i where "num_parts t s i [] []" "t = s @ i" "s = [] \<or> s = [ch_minus]" "i \<noteq> []" "list_all IsDigit i" "IsDigit (hd i)"
    "int_value t = (if s = [ch_minus] then - dec_int i else dec_int i)"
proof -
  obtain s i f x where p: "num_parts t s i f x" using assms(1) is_number_parts by blast
  then have e: "f = []" "x = []" using mantissa_parts(2) [OF p] assms(2) by simp_all
  note q = p [unfolded e]
  have i: "i \<noteq> []" "list_all IsDigit i" "IsDigit (hd i)" using q int_part_head [of i] by (simp_all add: num_parts_def)
  have t: "t = s @ i" "s = [] \<or> s = [ch_minus]" using q by (simp_all add: num_parts_def)
  show thesis
    by (rule that [OF q t i]) (simp add: int_value_def dec_text_parts [OF q] dec_int_val)
qed

lemma num_node_integer: "is_number t \<Longrightarrow> integer_text t \<Longrightarrow> num_node t = int_node t (int_value t)"
  by (simp add: num_node_def int_value_def split: prod.split)

lemma no_sign: "IsDigit c \<Longrightarrow> c \<noteq> ch_minus \<and> c \<noteq> ch_plus"
  by (auto simp: IsDigit_iff)

lemma ParseInt_integer:
  assumes "is_number t" "integer_text t"
  shows "ParseInt t = in_range (- (2 ^ 63)) (2 ^ 63) (Some (int_value t))"
proof -
  obtain s i where t: "t = s @ i" "s = [] \<or> s = [ch_minus]" "i \<noteq> []" "list_all IsDigit i" "IsDigit (hd i)"
      "int_value t = (if s = [ch_minus] then - dec_int i else dec_int i)"
    by (rule integer_parts [OF assms]) blast
  have h: "head_byte i = hd i" using t(3) by (cases i) simp_all
  show ?thesis using t h no_sign [OF t(5)] by (auto simp: ParseInt_def digits_value_def Let_def)
qed

lemma ParseUint_integer:
  assumes "is_number t" "integer_text t" "\<not> (0 \<le> int_value t \<and> int_value t < 2 ^ 64)"
  shows "ParseUint t = None"
proof -
  obtain s i where t: "t = s @ i" "s = [] \<or> s = [ch_minus]" "i \<noteq> []" "list_all IsDigit i" "IsDigit (hd i)"
      "int_value t = (if s = [ch_minus] then - dec_int i else dec_int i)"
    by (rule integer_parts [OF assms(1,2)]) blast
  have "\<not> IsDigit ch_minus" by (simp add: IsDigit_iff)
  then show ?thesis using t assms(3) by (auto simp: ParseUint_def digits_value_def in_range_def)
qed

lemma stored_number:
  assumes "stores_value d (num_node t)"
  shows "num_node t = NInt w \<Longrightarrow> TagAt d (dsc_tidx d) = Some TagInt64 \<and> WordAt d (dsc_tidx d + 1) = Some w"
    "num_node t = NUint w \<Longrightarrow> TagAt d (dsc_tidx d) = Some TagUint64 \<and> WordAt d (dsc_tidx d + 1) = Some w"
    "num_node t = NNum t \<Longrightarrow> TagAt d (dsc_tidx d) = Some TagNumRaw \<and> NumRawAt d (dsc_tidx d) = Some t"
  using assms by auto

lemma integer_stored:
  assumes "is_number t" "integer_text t" "stores_value d (num_node t)"
  shows "Value_Int cv d = Some (in_range (- (2 ^ 63)) (2 ^ 63) (Some (int_value t)))"
    "Value_Uint cv d = Some (in_range 0 (2 ^ 64) (Some (int_value t)))"
    "- (2 ^ 63) \<le> int_value t \<Longrightarrow> int_value t < 2 ^ 64 \<Longrightarrow> Value_Float d = Some (Some (float_of (int_value t)))"
proof -
  let ?v = "int_value t"
  note n = num_node_integer [OF assms(1,2)] and S = stored_number [OF assms(3)]
  have T: "HasTape d" using assms(3) by simp
  have "Value_Int cv d = Some (in_range (- (2 ^ 63)) (2 ^ 63) (Some ?v)) \<and> Value_Uint cv d = Some (in_range 0 (2 ^ 64) (Some ?v)) \<and>
      (- (2 ^ 63) \<le> ?v \<and> ?v < 2 ^ 64 \<longrightarrow> Value_Float d = Some (Some (float_of ?v)))"
  proof (cases "- (2 ^ 63) \<le> ?v \<and> ?v < 2 ^ 63")
    case True
    then have w: "num_node t = NInt (word_of_int ?v)" using n by (simp add: int_node_def)
    have s: "sint (word_of_int ?v :: u64) = ?v" using True by (simp add: signed_of_int signed_take_bit_int_eq_self)
    show ?thesis using S(1) [OF w] T s True
      by (simp add: Value_Int_def Value_Uint_def Value_Float_def Int64At_def in_range_def tag_defs)
  next
    case f1: False
    show ?thesis
    proof (cases "0 \<le> ?v \<and> ?v < 2 ^ 64")
      case True
      then have w: "num_node t = NUint (word_of_int ?v)" using n f1 by (simp add: int_node_def)
      have u: "uint (word_of_int ?v :: u64) = ?v" using True by (simp add: uint_word_of_int)
      have "(2 ^ 63 - 1 :: u64) < word_of_int ?v" using f1 True u by (simp add: word_less_def)
      then show ?thesis using S(2) [OF w] T u f1 True
        by (auto simp: Value_Int_def Value_Uint_def Value_Float_def Uint64At_def in_range_def tag_defs)
    next
      case f2: False
      then have w: "num_node t = NNum t" using n f1 by (simp add: int_node_def)
      have "\<not> (- (2 ^ 63) \<le> ?v \<and> ?v < 2 ^ 64)" using f1 f2 by auto
      then show ?thesis using S(3) [OF w] T f1 f2 ParseInt_integer [OF assms(1,2)] ParseUint_integer [OF assms(1,2) f2]
        by (auto simp: Value_Int_def Value_Uint_def in_range_def tag_defs)
    qed
  qed
  then show "Value_Int cv d = Some (in_range (- (2 ^ 63)) (2 ^ 63) (Some ?v))" "Value_Uint cv d = Some (in_range 0 (2 ^ 64) (Some ?v))"
    "- (2 ^ 63) \<le> ?v \<Longrightarrow> ?v < 2 ^ 64 \<Longrightarrow> Value_Float d = Some (Some (float_of ?v))" by simp_all
qed

section \<open>Properties\<close>

text \<open>
  Claim C12. On a tape that holds an integer literal, \<open>Int\<close> and \<open>Uint\<close> return exactly its value when it is in the
  range of the type and no value otherwise, however long the literal is and whatever an out-of-range
  float conversion gives.
\<close>

theorem Int_of_integer:
  assumes "is_number t" "integer_text t" "stores_value d (num_node t)"
  shows "Value_Int cv d = Some (in_range (- (2 ^ 63)) (2 ^ 63) (Some (int_value t))) \<and>
    Value_Uint cv d = Some (in_range 0 (2 ^ 64) (Some (int_value t)))"
  using integer_stored [OF assms] by simp

definition big_doc :: Descriptor where
  "big_doc = \<lparr>dsc_doc = Some \<lparr>doc_tape = [0x7500000000000000, 0x8000000000000000], doc_arena = [], doc_src = [], doc_zc = False\<rparr>,
     dsc_base = 0, dsc_tidx = 0, dsc_end = 2, dsc_mode = 0\<rparr>"

theorem Int_of_integer_witness:
  "Value_Int (\<lambda>_. 0) big_doc = Some None \<and> Value_Uint (\<lambda>_. 0) big_doc = Some (Some (2 ^ 63))"
proof -
  let ?t = "lit ''9223372036854775808''"
  have "ValidNumber ?t 0 = (19, True)" by code_simp
  then have n: "is_number ?t" using ValidNumber_iff [of 0 ?t 19] by (simp add: cut_def lit_def)
  have i: "integer_text ?t" "int_value ?t = 2 ^ 63" by code_simp+
  have "num_node ?t = NUint 0x8000000000000000" by code_simp
  moreover have "stores_value big_doc (NUint 0x8000000000000000)" by code_simp
  ultimately have "stores_value big_doc (num_node ?t)" by simp
  from Int_of_integer [OF n i(1) this, of "\<lambda>_. 0"] show ?thesis by (simp add: i(2) in_range_def)
qed


end
