(* ===== verification/Skip.thy ===== *)
theory Skip
  imports Locate
begin

text \<open>
  Skipping a value in the pure-Go bind engine: the text loads of \<^verbatim>\<open>internal/gbind/text.go\<close>, the cursor of
  \<^verbatim>\<open>cursor.go\<close> and the skips of \<^verbatim>\<open>skip.go\<close>. Its record \<open>bind_state\<close> holds the fields these operations read
  and write; \<^verbatim>\<open>src\<close> and its unchecked view \<^verbatim>\<open>txt\<close> are one field, as the code sets both from one slice. An
  operation that returns an error returns an option, \<open>None\<close> being \<^verbatim>\<open>nil\<close>; the error itself is left in
  \<open>info\<close>, as in the code. Offsets an unchecked load is given are in range by the code's own tests.

  \<open>validValue\<close>, the skip that validates, is compared with the grammar \<open>value_at\<close>; the lenient skip, which
  counts brackets, with the validating one.
\<close>

section \<open>The text\<close>

definition isWS :: "byte \<Rightarrow> bool" where [byte_defs]:
  "isWS c \<longleftrightarrow> c \<in> set [ch_space, ch_lf, ch_tab, ch_cr]"

function text_skipWS :: "bytes \<Rightarrow> nat \<Rightarrow> nat" where
  "text_skipWS s i = (if i < length s \<and> isWS (s ! i) then text_skipWS s (i + 1) else i)"
  by pat_completeness auto
termination by (relation "measure (\<lambda>(s, i). length s - i)") auto

declare text_skipWS.simps [simp del]

definition text_skip :: "bytes \<Rightarrow> nat \<Rightarrow> nat" where
  "text_skip s k = (if k < length s \<and> ch_space < s ! k then k else text_skipWS s k)"

text \<open>\<^verbatim>\<open>binary.LittleEndian.Uint32\<close> of the four bytes at an offset.\<close>

definition word4 :: "bytes \<Rightarrow> nat \<Rightarrow> u32" where
  "word4 s i = word_of_int (le_int (take 4 (drop i s)))"

text \<open>\<^verbatim>\<open>a|b<<8|c<<16|d<<24\<close>, as the literals are compared.\<close>

definition word_of_lit :: "byte \<Rightarrow> byte \<Rightarrow> byte \<Rightarrow> byte \<Rightarrow> u32" where
  "word_of_lit a b c d = ucast a OR push_bit 8 (ucast b) OR push_bit 16 (ucast c) OR push_bit 24 (ucast d)"

definition atomEnd :: "bytes \<Rightarrow> nat \<Rightarrow> byte \<Rightarrow> nat \<times> bool" where
  "atomEnd s p ch =
     (if ch = ch_t then
        (if length s < p + 4 \<or> word4 s p \<noteq> word_of_lit ch_t ch_r ch_u ch_e then (p, False) else (p + 4, \<not> IsNonDelim (At s (p + 4))))
      else if ch = ch_n then
        (if length s < p + 4 \<or> word4 s p \<noteq> word_of_lit ch_n ch_u 0x6C 0x6C then (p, False) else (p + 4, \<not> IsNonDelim (At s (p + 4))))
      else if ch = ch_f then
        (if length s < p + 5 \<or> word4 s (p + 1) \<noteq> word_of_lit 0x61 0x6C 0x73 ch_e then (p, False)
         else (p + 5, \<not> IsNonDelim (At s (p + 5))))
      else (p, False))"

function text_quoteOrEscape :: "bytes \<Rightarrow> nat \<Rightarrow> nat" where
  "text_quoteOrEscape s i =
     (if i + 8 \<le> length s then
        let m = QuoteOrEscapeMask (load64 s i) in
        if m \<noteq> 0 then i + TrailingZeros64 m div 8 else text_quoteOrEscape s (i + 8)
      else find_from (\<lambda>c. c = ch_quote \<or> c = ch_bslash) s i)"
  by pat_completeness auto
termination by (relation "measure (\<lambda>(s, i). length s - i)") auto

declare text_quoteOrEscape.simps [simp del]

text \<open>The search is another instance of the contract \<open>QuoteOrEscape\<close> has.\<close>

interpretation text_search: word_search is_stop QuoteOrEscapeMask text_quoteOrEscape
  by unfold_locales (simp_all add: text_quoteOrEscape.simps)

lemma text_quoteOrEscape_eq: "text_quoteOrEscape s i = find_from is_stop s i"
  by (rule text_search.search_eq)

function text_stringEnd :: "bytes \<Rightarrow> nat \<Rightarrow> nat" where
  "text_stringEnd s i =
     (let i = text_quoteOrEscape s i in
      if length s \<le> i \<or> s ! i = ch_quote then min i (length s) else text_stringEnd s (i + 2))"
  by pat_completeness auto
termination
proof (relation "measure (\<lambda>(s, i). length s - i)", goal_cases)
  case (2 s i j)
  then show ?case using find_from_ge [of i s is_stop] by (cases "i \<le> length s") (auto simp: text_quoteOrEscape_eq)
qed simp

declare text_stringEnd.simps [simp del]

datatype skip_class = SkScalar | SkWS | SkQuote | SkOpen | SkClose | SkComma | SkEscape

definition skipClass :: "byte \<Rightarrow> skip_class" where
  "skipClass c =
     (if c \<in> set [ch_space, ch_lf, ch_tab, ch_cr] then SkWS
      else if c = ch_quote then SkQuote
      else if c \<in> set [ch_lbrace, ch_lbrack] then SkOpen
      else if c \<in> set [ch_rbrace, ch_rbrack] then SkClose
      else if c = ch_comma then SkComma
      else if c = ch_bslash then SkEscape
      else SkScalar)"

datatype skipStop = stopClosed | stopEOF | stopUnclosed | stopBody | stopComma

lemma text_skipWS_ge: "i \<le> text_skipWS s i"
proof (induction s i rule: text_skipWS.induct)
  case (1 s i)
  then show ?case by (subst text_skipWS.simps) auto
qed

lemma text_skip_ge: "i \<le> text_skip s i"
  using text_skipWS_ge by (simp add: text_skip_def)

lemma text_stringEnd_ge: "text_stringEnd s i < length s \<Longrightarrow> i \<le> text_stringEnd s i"
proof (induction s i rule: text_stringEnd.induct)
  case (1 s i)
  let ?k = "text_quoteOrEscape s i"
  note unf = text_stringEnd.simps [of s i, unfolded Let_def]
  have "?k \<noteq> length s" using "1.prems" by (subst (asm) unf) (auto split: if_splits)
  then have k: "?k < length s" unfolding text_quoteOrEscape_eq by (metis find_from_le le_neq_implies_less)
  have ik: "i \<le> ?k"
  proof (cases "i \<le> length s")
    case False
    then show ?thesis using k by (simp add: text_quoteOrEscape_eq)
  qed (simp add: text_quoteOrEscape_eq find_from_ge)
  show ?case
  proof (cases "s ! ?k = ch_quote")
    case False
    then have e: "text_stringEnd s i = text_stringEnd s (?k + 2)" using k by (subst unf) simp
    then have "?k + 2 \<le> text_stringEnd s (?k + 2)" using "1.prems" k False by (intro "1.IH") auto
    then show ?thesis using e ik by simp
  qed (use k ik in \<open>simp add: unf\<close>)
qed

text \<open>The loop of \<^verbatim>\<open>skipNested\<close> from its offset and depth.\<close>

function skip_loop :: "bytes \<Rightarrow> bool \<Rightarrow> bool \<Rightarrow> int \<Rightarrow> nat \<Rightarrow> nat \<times> skipStop" where
  "skip_loop s strict commas d i =
     (if i < length s then
        (case skipClass (s ! i) of
           SkScalar \<Rightarrow> skip_loop s strict commas d (i + 1)
         | SkWS \<Rightarrow> skip_loop s strict commas d (text_skipWS s i)
         | SkQuote \<Rightarrow>
             (let k = text_stringEnd s (i + 1) in
              if length s \<le> k then (length s, stopUnclosed)
              else if strict \<and> \<not> ValidateBody s (i + 1) k then (i, stopBody)
              else skip_loop s strict commas d (k + 1))
         | SkOpen \<Rightarrow> skip_loop s strict commas (d + 1) (i + 1)
         | SkClose \<Rightarrow> if d - 1 = 0 then (i + 1, stopClosed) else skip_loop s strict commas (d - 1) (i + 1)
         | SkComma \<Rightarrow>
             (let i = text_skip s (i + 1) in
              if commas \<and> i < length s \<and> (s ! i = ch_rbrack \<or> s ! i = ch_rbrace \<or> s ! i = ch_comma) then (i, stopComma)
              else skip_loop s strict commas d i)
         | SkEscape \<Rightarrow>
             skip_loop s strict commas d
               (if i + 1 < length s \<and> (s ! (i + 1) = ch_quote \<or> s ! (i + 1) = ch_bslash) then i + 2 else i + 1))
      else (length s, stopEOF))"
  by pat_completeness auto
termination
proof (relation "measure (\<lambda>(s, strict, commas, d, i). length s - i)", goal_cases)
  case (3 s strict commas d i)
  then have "text_skipWS s i = text_skipWS s (i + 1)"
    by (subst text_skipWS.simps) (auto simp: skipClass_def isWS_def split: if_splits)
  then show ?case using 3 text_skipWS_ge [of "i + 1" s] by simp
next
  case (4 s strict commas d i k)
  then show ?case using text_stringEnd_ge [of s "i + 1"] by auto
next
  case (7 s strict commas d i k)
  then show ?case using text_skip_ge [of "i + 1" s] by simp
qed auto

declare skip_loop.simps [simp del]

definition skipNested :: "bytes \<Rightarrow> nat \<Rightarrow> bool \<Rightarrow> bool \<Rightarrow> nat \<times> skipStop" where
  "skipNested s i strict commas = skip_loop s strict commas 1 i"

section \<open>The cursor\<close>

definition gbind_maxDepth :: int where "gbind_maxDepth = 255"

definition NoPos :: u64 where "NoPos = NOT 0"

definition BindErrSyntax :: u32 where "BindErrSyntax = 1"

definition BindErrEOF :: u32 where "BindErrEOF = 2"

definition BindErrDepth :: u32 where "BindErrDepth = 3"

definition BindOptSkipLenient :: u32 where "BindOptSkipLenient = push_bit 6 1"

datatype go_error = errAbort

text \<open>Of an error payload, the fields these operations set; the others stay zero.\<close>

record bind_error =
  e_Kind :: u32
  e_Pos :: u64
  e_TypeIdx :: int

record bind_state =
  b_src :: bytes
  b_p :: nat
  b_opt :: u32
  b_depth :: int
  b_descents :: int
  b_strict :: bool
  b_mismatch :: bool
  b_mismatchPos :: u64
  b_mismatchType :: u32
  b_rootType :: u32
  b_info :: bind_error

definition c_pos :: "bind_state \<Rightarrow> u64" where "c_pos c = word_of_nat (b_p c)"

definition byteAt :: "bind_state \<Rightarrow> nat \<Rightarrow> byte" where "byteAt c k = At (b_src c) k"

definition c_peek :: "bind_state \<Rightarrow> byte" where
  "c_peek c = (if b_p c < length (b_src c) then b_src c ! b_p c else ch_space)"

definition c_eof :: "bind_state \<Rightarrow> bool" where "c_eof c \<longleftrightarrow> length (b_src c) \<le> b_p c"

definition c_to :: "nat \<Rightarrow> bind_state \<Rightarrow> bind_state" where
  "c_to k c =
     (if k + 1 < length (b_src c) \<and> ch_space < b_src c ! k then c\<lparr>b_p := k\<rparr>
      else if k + 1 < length (b_src c) \<and> b_src c ! k = ch_space \<and> ch_space < b_src c ! (k + 1) then c\<lparr>b_p := k + 1\<rparr>
      else c\<lparr>b_p := SkipWS (b_src c) k\<rparr>)"

definition c_next :: "bind_state \<Rightarrow> bind_state" where "c_next c = c_to (b_p c + 1) c"

definition c_accept :: "byte \<Rightarrow> bind_state \<Rightarrow> bool \<times> bind_state" where
  "c_accept ch c = (if c_peek c = ch then (True, c_next c) else (False, c))"

definition bind_fail :: "u32 \<Rightarrow> u64 \<Rightarrow> bind_state \<Rightarrow> go_error option \<times> bind_state" where
  "bind_fail kind pos c = (Some errAbort, c\<lparr>b_info := \<lparr>e_Kind = kind, e_Pos = pos, e_TypeIdx = uint (b_rootType c)\<rparr>\<rparr>)"

definition failType :: "u32 \<Rightarrow> u64 \<Rightarrow> u32 \<Rightarrow> bind_state \<Rightarrow> go_error option \<times> bind_state" where
  "failType kind pos ti c = (Some errAbort, c\<lparr>b_info := \<lparr>e_Kind = kind, e_Pos = pos, e_TypeIdx = uint ti\<rparr>\<rparr>)"

definition failNoPos :: "u32 \<Rightarrow> bind_state \<Rightarrow> go_error option \<times> bind_state" where
  "failNoPos kind c = (Some errAbort, c\<lparr>b_info := \<lparr>e_Kind = kind, e_Pos = NoPos, e_TypeIdx = uint (b_rootType c)\<rparr>\<rparr>)"

definition failValueOrEOF :: "u32 \<Rightarrow> u32 \<Rightarrow> bind_state \<Rightarrow> go_error option \<times> bind_state" where
  "failValueOrEOF kind ti c = (if c_eof c then bind_fail BindErrEOF (c_pos c) c else failType kind (c_pos c) ti c)"

text \<open>\<^verbatim>\<open>record\<close> keeps the first mismatch.\<close>

definition c_record :: "u64 \<Rightarrow> u32 \<Rightarrow> bind_state \<Rightarrow> bind_state" where
  "c_record pos ti c =
     (if b_mismatch c then c else c\<lparr>b_mismatch := True, b_mismatchPos := pos, b_mismatchType := ti\<rparr>)"

definition c_push :: "bind_state \<Rightarrow> go_error option \<times> bind_state" where
  "c_push c =
     (let c = c\<lparr>b_descents := b_descents c + 1\<rparr> in
      if gbind_maxDepth < b_depth c + 1 then failNoPos BindErrDepth c else (None, c\<lparr>b_depth := b_depth c + 1\<rparr>))"

definition c_pop :: "bind_state \<Rightarrow> bind_state" where "c_pop c = c\<lparr>b_depth := b_depth c - 1\<rparr>"

definition skipToken :: "bind_state \<Rightarrow> go_error option \<times> bind_state" where
  "skipToken c =
     (case TokenEnd (b_src c) (b_p c) of (e, ok) \<Rightarrow>
        if \<not> ok then failNoPos BindErrSyntax c
        else if b_strict c \<and> b_p c < length (b_src c) \<and> b_src c ! b_p c = ch_quote \<and>
                \<not> ValidateBody (b_src c) (b_p c + 1) (e - 1) then failNoPos BindErrSyntax c
        else (None, c_to e c))"

definition colonErr :: "nat \<Rightarrow> bind_state \<Rightarrow> go_error option \<times> bind_state" where
  "colonErr p c =
     (let p = text_skip (b_src c) p in
      if length (b_src c) \<le> p then bind_fail BindErrEOF (word_of_nat p) c else bind_fail BindErrSyntax (word_of_nat p) c)"

definition expectColon :: "bind_state \<Rightarrow> go_error option \<times> bind_state" where
  "expectColon c = (if c_peek c \<noteq> ch_colon then colonErr (b_p c) c else (None, c_next c))"

text \<open>\<^verbatim>\<open>seek\<close> runs the closure \<open>f\<close> at an offset and restores the cursor.\<close>

definition seek :: "nat \<Rightarrow> (bind_state \<Rightarrow> go_error option \<times> bind_state) \<Rightarrow> bind_state \<Rightarrow> go_error option \<times> bind_state" where
  "seek k f c = (case f (c\<lparr>b_p := k\<rparr>) of (err, c') \<Rightarrow> (err, c'\<lparr>b_p := b_p c\<rparr>))"

definition closeErr :: "bind_state \<Rightarrow> go_error option \<times> bind_state" where
  "closeErr c =
     (if c_eof c then bind_fail BindErrEOF (c_pos c) c
      else case skipToken c of (Some err, c) \<Rightarrow> (Some err, c) | (None, c) \<Rightarrow> bind_fail BindErrSyntax (c_pos c) c)"

section \<open>The skips\<close>

text \<open>An offset, an error and the state: what the skips at an offset return.\<close>

definition at_err :: "nat \<Rightarrow> go_error option \<times> bind_state \<Rightarrow> nat \<times> go_error option \<times> bind_state" where
  "at_err p r = (p, r)"

definition nestedAt :: "nat \<Rightarrow> bool \<Rightarrow> bind_state \<Rightarrow> nat \<times> go_error option \<times> bind_state" where
  "nestedAt p commas c =
     (case skipNested (b_src c) p (b_strict c) commas of
        (en, stopUnclosed) \<Rightarrow> at_err en (failNoPos BindErrSyntax c)
      | (en, stopBody) \<Rightarrow> at_err en (failNoPos BindErrSyntax c)
      | (en, stopEOF) \<Rightarrow> at_err en (bind_fail BindErrEOF (word_of_nat en) c)
      | (en, stopComma) \<Rightarrow> at_err en (bind_fail BindErrSyntax (word_of_nat en) c)
      | (en, stopClosed) \<Rightarrow> (text_skip (b_src c) en, None, c))"

definition scalarAt :: "nat \<Rightarrow> bind_state \<Rightarrow> nat \<times> go_error option \<times> bind_state" where
  "scalarAt p c =
     (let s = b_src c; ch = s ! p in
      case (if ch = ch_quote then
              (case ScanString s (p + 1) of (en, ok) \<Rightarrow>
                 if ok \<and> b_strict c \<and> \<not> ValidateBody s (p + 1) en then Inl (failNoPos BindErrSyntax c) else Inr (en + 1, ok))
            else if ch = ch_t \<or> ch = ch_f \<or> ch = ch_n then Inr (atomEnd s p ch)
            else if ch = ch_minus \<or> IsDigit ch then Inr (ValidNumber s p)
            else Inr (p, False)) of
        Inl r \<Rightarrow> at_err p r
      | Inr (en, ok) \<Rightarrow> if \<not> ok then at_err p (bind_fail BindErrSyntax (word_of_nat p) c) else (text_skip s en, None, c))"

text \<open>The key of an object member in \<^verbatim>\<open>validValue\<close>, with its colon.\<close>

definition validKey :: "bind_state \<Rightarrow> go_error option \<times> bind_state" where
  "validKey c =
     (if c_eof c then bind_fail BindErrEOF (c_pos c) c
      else if c_peek c \<noteq> ch_quote then bind_fail BindErrSyntax (c_pos c) c
      else case ScanString (b_src c) (b_p c + 1) of (en, ok) \<Rightarrow>
        if \<not> ok then bind_fail BindErrSyntax (c_pos c) c
        else if b_strict c \<and> \<not> ValidateBody (b_src c) (b_p c + 1) en then failNoPos BindErrSyntax c
        else let c = c_to (en + 1) c in
          if c_peek c \<noteq> ch_colon then bind_fail BindErrSyntax (c_pos c) c else (None, c_next c))"

text \<open>\<open>validItems\<close> is the loop of \<^verbatim>\<open>validValue\<close>: the members or elements left of an open container.\<close>

function validValue :: "bind_state \<Rightarrow> go_error option \<times> bind_state"
  and validItems :: "byte \<Rightarrow> byte \<Rightarrow> bind_state \<Rightarrow> go_error option \<times> bind_state" where
  "validValue c =
     (if c_eof c then bind_fail BindErrEOF (c_pos c) c
      else let ch = c_peek c in
        if ch \<noteq> ch_lbrace \<and> ch \<noteq> ch_lbrack then (case scalarAt (b_p c) c of (p, err, c) \<Rightarrow> (err, c\<lparr>b_p := p\<rparr>))
        else case c_push c of
          (Some err, c) \<Rightarrow> (Some err, c)
        | (None, c) \<Rightarrow>
            (let cl = (if ch = ch_lbrace then ch_rbrace else ch_rbrack) in
             case c_accept cl (c_next c) of
               (True, c) \<Rightarrow> (None, c_pop c)
             | (False, c) \<Rightarrow> validItems ch cl c))"
| "validItems ch cl c =
     (case (if ch = ch_lbrace then validKey c else (None, c)) of
        (Some err, c) \<Rightarrow> (Some err, c)
      | (None, c) \<Rightarrow>
          (case validValue c of
             (Some err, c) \<Rightarrow> (Some err, c)
           | (None, c) \<Rightarrow>
               (if c_peek c = ch_comma then validItems ch cl (c_next c)
                else if c_peek c = cl then (None, c_pop (c_next c))
                else closeErr c)))"
  by pat_completeness auto

section \<open>Termination\<close>

text \<open>The byte loops and the fast paths of the cursor are the scanner's own whitespace skip.\<close>

lemma isWS_iff: "isWS c \<longleftrightarrow> is_ws c"
  by (auto simp: isWS_def)

lemma SkipWS_past: "length s \<le> k \<Longrightarrow> SkipWS s k = k"
  by (subst SkipWS.simps) simp

lemma text_skipWS_eq: "text_skipWS s i = SkipWS s i"
proof (induction s i rule: text_skipWS.induct)
  case (1 s i)
  show ?case
  proof (cases "i < length s \<and> isWS (s ! i)")
    case True
    then have "text_skipWS s i = SkipWS s (i + 1)" using 1 by (subst text_skipWS.simps) simp
    also have "\<dots> = SkipWS s i" using True by (simp add: SkipWS_eq isWS_iff find_from_miss)
    finally show ?thesis .
  next
    case False
    then show ?thesis
      by (cases "i < length s") (auto simp: text_skipWS.simps [of s i] isWS_iff SkipWS_past SkipWS_nonws)
  qed
qed

lemma text_skip_eq [simp]: "text_skip s k = SkipWS s k"
  using above_space_no_ws [of "s ! k"] by (auto simp: text_skip_def text_skipWS_eq SkipWS_nonws)

lemma c_to_eq [simp]: "c_to k c = c\<lparr>b_p := SkipWS (b_src c) k\<rparr>"
proof -
  let ?s = "b_src c"
  have 1: "SkipWS ?s k = k" if "k + 1 < length ?s" "ch_space < ?s ! k"
    using that above_space_no_ws by (intro SkipWS_nonws) auto
  have 2: "SkipWS ?s k = k + 1" if "k + 1 < length ?s" "?s ! k = ch_space" "ch_space < ?s ! (k + 1)"
    using that above_space_no_ws [OF that(3)] by (simp add: SkipWS_eq find_from_miss)
  show ?thesis
  proof (cases "k + 1 < length ?s \<and> ch_space < ?s ! k")
    case True
    then show ?thesis using 1 by (simp add: c_to_def)
  next
    case False
    then show ?thesis
      by (cases "k + 1 < length ?s \<and> ?s ! k = ch_space \<and> ch_space < ?s ! (k + 1)") (simp_all only: c_to_def if_False if_True 2 simp_thms)
  qed
qed

lemma text_stringEnd_eq: "text_stringEnd s i = fst (StringEnd s i)"
proof (induction s i rule: text_stringEnd.induct)
  case (1 s i)
  have q: "text_quoteOrEscape s i = find_from is_stop s i" "QuoteOrEscape s i = find_from is_stop s i"
    by (simp_all add: text_quoteOrEscape_eq QuoteOrEscape_eq)
  show ?case
    using 1 order_antisym [OF find_from_le [of is_stop s i]]
    by (subst text_stringEnd.simps, subst StringEnd.simps) (simp add: q Let_def)
qed

text \<open>A state later in the same text, with the containers it closed again closed.\<close>

definition advances :: "bind_state \<Rightarrow> bind_state \<Rightarrow> bool" where
  "advances c c' \<longleftrightarrow> b_src c' = b_src c \<and> b_p c \<le> b_p c'"

lemma c_push_ok: "c_push c = (None, c') \<Longrightarrow> c' = c\<lparr>b_descents := b_descents c + 1, b_depth := b_depth c + 1\<rparr> \<and> b_depth c + 1 \<le> gbind_maxDepth"
  by (auto simp: c_push_def failNoPos_def Let_def split: if_splits)

lemma never_ok [simp]: "bind_fail k q c \<noteq> (None, c')" "failNoPos k c \<noteq> (None, c')" "closeErr c \<noteq> (None, c')"
  by (auto simp: bind_fail_def failNoPos_def closeErr_def split: prod.splits option.splits)

lemma le_int_inj: "length xs = length ys \<Longrightarrow> le_int xs = le_int ys \<longleftrightarrow> xs = ys"
proof (induction xs ys rule: list_induct2)
  case (Cons x xs y ys)
  have d: "u + 256 * a = v + 256 * b \<longleftrightarrow> u = v \<and> a = b" if "0 \<le> u" "u < 256" "0 \<le> v" "v < 256" for u v a b :: int
  proof
    assume e: "u + 256 * a = v + 256 * b"
    have "u = v" using arg_cong [OF e, of "\<lambda>x. x mod 256"] that by simp
    then show "u = v \<and> a = b" using e by simp
  qed simp
  show ?case using Cons d [OF uint_byte_bound(2,1) uint_byte_bound(2,1), of x "le_int xs" y "le_int ys"]
    by (auto simp: word_uint_eq_iff)
qed simp

lemma word4_iff: "p + 4 \<le> length s \<Longrightarrow> length t = 4 \<Longrightarrow> word4 s p = word_of_int (le_int t) \<longleftrightarrow> cut s p (p + 4) = t"
proof -
  assume a: "p + 4 \<le> length s" "length t = 4"
  have "(word_of_int (le_int xs) :: u32) = word_of_int (le_int t) \<longleftrightarrow> xs = t" if "length xs = 4" for xs
    using that a(2) le_int_inj [of xs t] le_int_bound [of xs] le_int_bound [of t]
    by (simp add: word_uint_eq_iff uint_word_of_int_eq take_bit_int_eq_self)
  then show ?thesis using a by (simp add: word4_def cut_def)
qed

lemma cut_literal: "p < length s \<Longrightarrow> p + 5 \<le> length s \<Longrightarrow> cut s p (p + 5) = c # t \<longleftrightarrow> s ! p = c \<and> cut s (p + 1) (p + 1 + 4) = t"
  by (simp add: cut_Cons)

lemma word_lits:
  "p + 4 \<le> length s \<Longrightarrow> word4 s p = word_of_lit ch_t ch_r ch_u ch_e \<longleftrightarrow> cut s p (p + 4) = lit ''true''"
  "p + 4 \<le> length s \<Longrightarrow> word4 s p = word_of_lit ch_n ch_u 0x6C 0x6C \<longleftrightarrow> cut s p (p + 4) = lit ''null''"
  "p + 4 \<le> length s \<Longrightarrow> word4 s p = word_of_lit 0x61 0x6C 0x73 ch_e \<longleftrightarrow> cut s p (p + 4) = lit ''alse''"
proof -
  have w: "word_of_lit ch_t ch_r ch_u ch_e = word_of_int (le_int (lit ''true''))"
    "word_of_lit ch_n ch_u 0x6C 0x6C = word_of_int (le_int (lit ''null''))"
    "word_of_lit 0x61 0x6C 0x73 ch_e = word_of_int (le_int (lit ''alse''))" by code_simp+
  have l: "length (lit ''true'') = 4" "length (lit ''null'') = 4" "length (lit ''alse'') = 4" by (simp_all add: lit_def)
  show "p + 4 \<le> length s \<Longrightarrow> word4 s p = word_of_lit ch_t ch_r ch_u ch_e \<longleftrightarrow> cut s p (p + 4) = lit ''true''"
    "p + 4 \<le> length s \<Longrightarrow> word4 s p = word_of_lit ch_n ch_u 0x6C 0x6C \<longleftrightarrow> cut s p (p + 4) = lit ''null''"
    "p + 4 \<le> length s \<Longrightarrow> word4 s p = word_of_lit 0x61 0x6C 0x73 ch_e \<longleftrightarrow> cut s p (p + 4) = lit ''alse''"
    unfolding w using word4_iff [of p s] l by simp_all
qed

lemma cut_false: "p + 5 \<le> length s \<Longrightarrow> cut s p (p + 5) = lit ''false'' \<longleftrightarrow> s ! p = ch_f \<and> cut s (p + 1) (p + 1 + 4) = lit ''alse''"
  by (simp add: cut_Cons lit_def)

lemma atomEnd_eq:
  assumes "p < length s" "s ! p \<in> {ch_t, ch_f, ch_n}"
  shows "atomEnd s p (s ! p) = ValidAtom s p"
proof -
  have l: "literal_of ch_t = lit ''true''" "literal_of ch_n = lit ''null''" "literal_of ch_f = lit ''false''"
    "length (lit ''true'') = 4" "length (lit ''null'') = 4" "length (lit ''false'') = 5"
    by (simp_all add: lit_def literal_of_def)
  have at: "At s p = s ! p" using assms(1) by simp
  have d: "ch_n \<noteq> ch_t" "ch_f \<noteq> ch_t" "ch_f \<noteq> ch_n" by simp_all
  consider "s ! p = ch_t" | "s ! p = ch_n" | "s ! p = ch_f" using assms(2) by blast
  then show ?thesis
  proof cases
    case 1
    have "length s < p + 4 \<or> word4 s p \<noteq> word_of_lit ch_t ch_r ch_u ch_e \<longleftrightarrow> length s < p + 4 \<or> cut s p (p + 4) \<noteq> lit ''true''"
      using word_lits(1) [of p s] by auto
    then show ?thesis using d unfolding atomEnd_def ValidAtom_alt Let_def at 1 l by simp
  next
    case 2
    have "length s < p + 4 \<or> word4 s p \<noteq> word_of_lit ch_n ch_u 0x6C 0x6C \<longleftrightarrow> length s < p + 4 \<or> cut s p (p + 4) \<noteq> lit ''null''"
      using word_lits(2) [of p s] by auto
    then show ?thesis using d unfolding atomEnd_def ValidAtom_alt Let_def at 2 l by simp
  next
    case 3
    have "length s < p + 5 \<or> word4 s (p + 1) \<noteq> word_of_lit 0x61 0x6C 0x73 ch_e \<longleftrightarrow> length s < p + 5 \<or> cut s p (p + 5) \<noteq> lit ''false''"
      using word_lits(3) [of "p + 1" s] cut_false [of p s] 3 by auto
    then show ?thesis using d unfolding atomEnd_def ValidAtom_alt Let_def at 3 l by simp
  qed
qed

text \<open>A primitive value whose string body, if it is one, the strict scan lets pass.\<close>

definition prim_clean :: "bytes \<Rightarrow> bool \<Rightarrow> nat \<Rightarrow> nat \<Rightarrow> bool" where
  "prim_clean s strict p e \<longleftrightarrow> prim_at s p e \<and> (strict \<and> s ! p = ch_quote \<longrightarrow> ValidateBody s (p + 1) (e - 1))"

lemma scalarAt_iff:
  assumes "p < length (b_src c)"
  shows "scalarAt p c = (q, None, c') \<longleftrightarrow> c' = c \<and> (\<exists>e. prim_clean (b_src c) (b_strict c) p e \<and> q = SkipWS (b_src c) e)"
proof -
  let ?s = "b_src c"
  have at: "At ?s p = ?s ! p" using assms by simp
  consider "?s ! p = ch_quote" | "?s ! p \<in> {ch_t, ch_f, ch_n}" | "?s ! p = ch_minus \<or> IsDigit (?s ! p)"
    | "?s ! p \<noteq> ch_quote" "?s ! p \<notin> {ch_t, ch_f, ch_n}" "\<not> (?s ! p = ch_minus \<or> IsDigit (?s ! p))" by blast
  then show ?thesis
  proof cases
    case 1
    obtain en ok where k: "ScanString ?s (p + 1) = (en, ok)" by fastforce
    have "prim_at ?s p e \<longleftrightarrow> ok \<and> e = en + 1" for e
      using prim_at_string [of ?s p e] 1 at k by (cases e) auto
    then show ?thesis using 1 k by (simp add: scalarAt_def prim_clean_def Let_def at_err_def bind_fail_def failNoPos_def) blast
  next
    case 2
    then have n: "?s ! p \<noteq> ch_quote" "?s ! p = ch_t \<or> ?s ! p = ch_f \<or> ?s ! p = ch_n" by auto
    obtain en ok where k: "ValidAtom ?s p = (en, ok)" by fastforce
    have "prim_at ?s p e \<longleftrightarrow> ok \<and> e = en" for e
      using prim_at_atom [of ?s p e] 2 at k by auto
    then show ?thesis using n k atomEnd_eq [OF assms 2]
      by (simp add: scalarAt_def prim_clean_def Let_def at_err_def bind_fail_def) blast
  next
    case 3
    then have n: "?s ! p \<noteq> ch_quote" "\<not> (?s ! p = ch_t \<or> ?s ! p = ch_f \<or> ?s ! p = ch_n)" by (auto simp: IsDigit_iff)
    obtain en ok where k: "ValidNumber ?s p = (en, ok)" by fastforce
    have "p < e \<longleftrightarrow> p \<le> e" if "is_number (cut ?s p e)" for e using number_nonempty [OF that] by simp
    then have "prim_at ?s p e \<longleftrightarrow> ok \<and> e = en" for e
      using prim_at_number [of ?s p e] ValidNumber_iff [OF less_imp_le [OF assms], of e] 3 at k by auto
    then show ?thesis using 3 n k
      by (simp add: scalarAt_def prim_clean_def Let_def at_err_def bind_fail_def) blast
  next
    case 4
    then show ?thesis using prim_at_none [of ?s p] at
      by (auto simp: scalarAt_def prim_clean_def Let_def at_err_def bind_fail_def)
  qed
qed

text \<open>What \<open>validKey\<close> passes: a clean string, a colon and the space around it.\<close>

definition key_at :: "bytes \<Rightarrow> bool \<Rightarrow> nat \<Rightarrow> nat \<Rightarrow> nat \<Rightarrow> bool" where
  "key_at s strict p k d \<longleftrightarrow> p < length s \<and> s ! p = ch_quote \<and> ScanString s (p + 1) = (k, True) \<and> d = SkipWS s (k + 1) \<and>
     d < length s \<and> s ! d = ch_colon \<and> (strict \<longrightarrow> ValidateBody s (p + 1) k)"

lemma c_peek_At: "c_peek c = At (b_src c) (b_p c)"
  by (simp add: c_peek_def At_def)

lemma validKey_iff:
  "validKey c = (None, c') \<longleftrightarrow>
     (\<exists>k d. key_at (b_src c) (b_strict c) (b_p c) k d \<and> c' = c\<lparr>b_p := SkipWS (b_src c) (d + 1)\<rparr>)"
proof -
  have "At (b_src c) d = ch_colon \<longleftrightarrow> d < length (b_src c) \<and> b_src c ! d = ch_colon" for d
    by (simp add: At_def)
  then show ?thesis
    by (auto simp: validKey_def key_at_def c_eof_def c_peek_At c_next_def Let_def split: prod.splits if_splits)
qed

lemma key_at_ge: "key_at s strict p k d \<Longrightarrow> p < d"
  using ScanString_ge [of "p + 1" s k True] SkipWS_ge [of "k + 1" s] by (auto simp: key_at_def)

lemma prim_clean_ge: "prim_clean s strict p e \<Longrightarrow> p < e \<and> e \<le> length s"
  using ScanString_ge [of "p + 1" s "e - 1" True] At_neq_space [of s p] by (auto simp: prim_clean_def prim_at_def)

text \<open>When one level of the two functions succeeds, over what they call.\<close>

definition closer_of :: "byte \<Rightarrow> byte" where
  "closer_of ch = (if ch = ch_lbrace then ch_rbrace else ch_rbrack)"

definition entered :: "bind_state \<Rightarrow> bind_state" where
  "entered c = c\<lparr>b_descents := b_descents c + 1, b_depth := b_depth c + 1, b_p := SkipWS (b_src c) (b_p c + 1)\<rparr>"

definition value_ok :: "(byte \<Rightarrow> byte \<Rightarrow> bind_state \<Rightarrow> go_error option \<times> bind_state) \<Rightarrow> bind_state \<Rightarrow> bind_state \<Rightarrow> bool" where
  "value_ok f c c' \<longleftrightarrow> b_p c < length (b_src c) \<and> (let ch = b_src c ! b_p c; q = b_p (entered c) in
     if ch \<noteq> ch_lbrace \<and> ch \<noteq> ch_lbrack then \<exists>e. prim_clean (b_src c) (b_strict c) (b_p c) e \<and> c' = c\<lparr>b_p := SkipWS (b_src c) e\<rparr>
     else b_depth c + 1 \<le> gbind_maxDepth \<and>
       (if At (b_src c) q = closer_of ch then c' = c\<lparr>b_descents := b_descents c + 1, b_p := SkipWS (b_src c) (q + 1)\<rparr>
        else f ch (closer_of ch) (entered c) = (None, c')))"

definition items_ok :: "(bind_state \<Rightarrow> go_error option \<times> bind_state) \<Rightarrow> (bind_state \<Rightarrow> go_error option \<times> bind_state) \<Rightarrow>
    byte \<Rightarrow> byte \<Rightarrow> bind_state \<Rightarrow> bind_state \<Rightarrow> bool" where
  "items_ok f g ch cl c c' \<longleftrightarrow> (\<exists>c1 c2. (if ch = ch_lbrace then validKey c = (None, c1) else c1 = c) \<and> f c1 = (None, c2) \<and>
     (if c_peek c2 = ch_comma then g (c_next c2) = (None, c') else c_peek c2 = cl \<and> c' = c_pop (c_next c2)))"

lemma entered_p: "b_p c < length (b_src c) \<Longrightarrow> b_p c < b_p (entered c) \<and> b_p (entered c) \<le> length (b_src c)"
  using SkipWS_bounds [of "b_p c + 1" "b_src c"] by (simp add: entered_def)

lemma validValue_ok_dom:
  assumes "validValue_validItems_dom (Inl c)"
  shows "validValue c = (None, c') \<longleftrightarrow> value_ok validItems c c'"
proof (cases "b_p c < length (b_src c)")
  case False
  then show ?thesis by (simp add: validValue.psimps [OF assms] value_ok_def c_eof_def)
next
  case l: True
  show ?thesis
  proof (cases "b_src c ! b_p c \<noteq> ch_lbrace \<and> b_src c ! b_p c \<noteq> ch_lbrack")
    case True
    have "validValue c = (None, c') \<longleftrightarrow> (\<exists>q c1. scalarAt (b_p c) c = (q, None, c1) \<and> c' = c1\<lparr>b_p := q\<rparr>)"
      using l True by (auto simp: validValue.psimps [OF assms] c_eof_def c_peek_def Let_def split: prod.splits)
    then show ?thesis using l True scalarAt_iff [OF l] by (auto simp: value_ok_def Let_def)
  next
    case False
    have q: "c_peek c = b_src c ! b_p c" "\<not> c_eof c" using l by (simp_all add: c_peek_def c_eof_def)
    show ?thesis
    proof (cases "b_depth c + 1 \<le> gbind_maxDepth")
      case False
      then show ?thesis using l q \<open>\<not> (_ \<noteq> _ \<and> _ \<noteq> _)\<close>
        by (auto simp: validValue.psimps [OF assms] value_ok_def c_push_def failNoPos_def Let_def)
    next
      case True
      then have u: "c_push c = (None, c\<lparr>b_descents := b_descents c + 1, b_depth := b_depth c + 1\<rparr>)" by (simp add: c_push_def Let_def)
      have e: "c_next (c\<lparr>b_descents := b_descents c + 1, b_depth := b_depth c + 1\<rparr>) = entered c" by (simp add: c_next_def entered_def)
      have a: "c_accept cl (entered c) = (if At (b_src c) (b_p (entered c)) = cl then (True, c_next (entered c)) else (False, entered c))" for cl
        by (simp add: c_accept_def c_peek_At entered_def)
      have o': "c_pop (c_next (entered c)) = c\<lparr>b_descents := b_descents c + 1, b_p := SkipWS (b_src c) (b_p (entered c) + 1)\<rparr>"
        by (cases c) (simp add: c_pop_def c_next_def entered_def)
      show ?thesis using l q True \<open>\<not> (_ \<noteq> _ \<and> _ \<noteq> _)\<close>
        by (auto simp: validValue.psimps [OF assms] value_ok_def Let_def closer_of_def u e a o')
    qed
  qed
qed

lemma validItems_ok_dom:
  assumes "validValue_validItems_dom (Inr (ch, cl, c))"
  shows "validItems ch cl c = (None, c') \<longleftrightarrow> items_ok validValue (validItems ch cl) ch cl c c'"
proof -
  obtain e1 c1 where k: "(if ch = ch_lbrace then validKey c else (None, c)) = (e1, c1)" by fastforce
  obtain e2 c2 where v: "validValue c1 = (e2, c2)" by fastforce
  have "(if ch = ch_lbrace then validKey c = (None, d) else d = c) \<longleftrightarrow> e1 = None \<and> d = c1" for d
    using k by (auto split: if_splits)
  then show ?thesis unfolding validItems.psimps [OF assms] items_ok_def k
    using v by (cases e1; cases e2) auto
qed

text \<open>A later state of the walk that closed \<open>k\<close> containers more than it opened.\<close>

definition moved :: "int \<Rightarrow> bind_state \<Rightarrow> bind_state \<Rightarrow> bool" where
  "moved k c c' \<longleftrightarrow> b_p c \<le> b_p c' \<and> c' = c\<lparr>b_p := b_p c', b_descents := b_descents c', b_depth := b_depth c - k\<rparr>"

lemma moved_src: "moved k c c' \<Longrightarrow> b_src c' = b_src c \<and> b_strict c' = b_strict c \<and> b_p c \<le> b_p c' \<and> b_depth c' = b_depth c - k"
  by (cases c; cases c') (simp add: moved_def)

lemma moved_trans: "moved j c c1 \<Longrightarrow> moved k c1 c' \<Longrightarrow> moved (j + k) c c'"
  by (cases c; cases c1; cases c') (simp add: moved_def)

lemma moved_to: "b_p c \<le> q \<Longrightarrow> moved 0 c (c\<lparr>b_p := q\<rparr>)"
  by (cases c) (simp add: moved_def)

lemma moved_refl: "moved 0 c c"
  by (simp add: moved_def)

lemma moved_next: "moved 0 c (c_next c)"
  using SkipWS_ge [of "b_p c + 1" "b_src c"] by (simp add: c_next_def moved_to)

lemma moved_key: "validKey c = (None, c') \<Longrightarrow> moved 0 c c'"
proof -
  assume "validKey c = (None, c')"
  then obtain k d where d: "key_at (b_src c) (b_strict c) (b_p c) k d" "c' = c\<lparr>b_p := SkipWS (b_src c) (d + 1)\<rparr>"
    by (auto simp: validKey_iff)
  then show ?thesis using key_at_ge [OF d(1)] SkipWS_ge [of "d + 1" "b_src c"] by (simp add: moved_to)
qed

lemma moved_pop: "moved 1 c (c_pop c)"
  by (cases c) (simp add: moved_def c_pop_def)

lemma moved_entered: "moved k (entered c) c' \<Longrightarrow> b_p c < length (b_src c) \<Longrightarrow> moved (k - 1) c c'"
  using entered_p [of c] by (cases c; cases c') (simp add: moved_def entered_def)

text \<open>The step into a non-empty container, as the recursion meets it.\<close>

lemma entering:
  "\<not> c_eof c \<Longrightarrow> (None, y) = c_push c \<Longrightarrow> (False, z) = c_accept cl (c_next y) \<Longrightarrow>
   z = entered c \<and> b_p c < length (b_src c) \<and> b_src c ! b_p c = c_peek c"
  by (auto simp: c_eof_def c_peek_def c_push_def failNoPos_def Let_def c_accept_def c_next_def entered_def split: if_splits)

lemma enters:
  assumes "b_p c < length (b_src c)" "b_depth c + 1 \<le> gbind_maxDepth" "At (b_src c) (b_p (entered c)) \<noteq> cl"
  shows "\<not> c_eof c" "c_peek c = b_src c ! b_p c"
    "\<exists>y. (None, y) = c_push c \<and> (False, entered c) = c_accept cl (c_next y)"
  using assms by (auto simp: c_eof_def c_peek_def c_push_def Let_def c_accept_def c_next_def entered_def At_def)

lemma value_okE:
  assumes "value_ok f c c'"
  obtains (scalar) e where "b_p c < length (b_src c)" "b_src c ! b_p c \<noteq> ch_lbrace" "b_src c ! b_p c \<noteq> ch_lbrack"
      "prim_clean (b_src c) (b_strict c) (b_p c) e" "c' = c\<lparr>b_p := SkipWS (b_src c) e\<rparr>"
    | (empty) ch where "b_p c < length (b_src c)" "b_src c ! b_p c = ch" "ch = ch_lbrace \<or> ch = ch_lbrack" "b_depth c + 1 \<le> gbind_maxDepth"
      "At (b_src c) (b_p (entered c)) = closer_of ch" "c' = c\<lparr>b_descents := b_descents c + 1, b_p := SkipWS (b_src c) (b_p (entered c) + 1)\<rparr>"
    | (items) ch where "b_p c < length (b_src c)" "b_src c ! b_p c = ch" "ch = ch_lbrace \<or> ch = ch_lbrack" "b_depth c + 1 \<le> gbind_maxDepth"
      "At (b_src c) (b_p (entered c)) \<noteq> closer_of ch" "f ch (closer_of ch) (entered c) = (None, c')"
  using assms unfolding value_ok_def Let_def by (auto split: if_splits)

lemma items_okE:
  assumes "items_ok f g ch cl c c'"
  obtains c1 c2 where "moved 0 c c1" "f c1 = (None, c2)" "if ch = ch_lbrace then validKey c = (None, c1) else c1 = c"
    "c_peek c2 = ch_comma \<and> g (c_next c2) = (None, c') \<or> c_peek c2 = cl \<and> c' = c_pop (c_next c2)"
proof -
  obtain c1 c2 where s: "if ch = ch_lbrace then validKey c = (None, c1) else c1 = c" "f c1 = (None, c2)"
      "if c_peek c2 = ch_comma then g (c_next c2) = (None, c') else c_peek c2 = cl \<and> c' = c_pop (c_next c2)"
    using assms unfolding items_ok_def by blast
  have "moved 0 c c1" using s(1) moved_key moved_refl by (cases "ch = ch_lbrace") simp_all
  then show thesis using that s by (cases "c_peek c2 = ch_comma") simp_all
qed

lemma valid_dom_moved:
  "validValue_validItems_dom (Inl c) \<Longrightarrow> validValue c = (None, c') \<Longrightarrow> moved 0 c c'"
  "validValue_validItems_dom (Inr (ch, cl, c)) \<Longrightarrow> validItems ch cl c = (None, c') \<Longrightarrow> moved 1 c c'"
proof (induction arbitrary: c' and c' rule: validValue_validItems.pinduct)
  case (1 c)
  have "value_ok validItems c c'" using "1.prems" validValue_ok_dom [OF "1.hyps"] by blast
  then show ?case
  proof (cases rule: value_okE)
    case (scalar e)
    then show ?thesis using prim_clean_ge [OF scalar(4)] SkipWS_ge [of e "b_src c"] by (simp add: moved_to)
  next
    case (empty ch)
    then show ?thesis using entered_p [OF empty(1)] SkipWS_ge [of "b_p (entered c) + 1" "b_src c"] by (cases c) (simp add: moved_def)
  next
    case (items ch)
    obtain y where y: "(None, y) = c_push c" "(False, entered c) = c_accept (closer_of ch) (c_next y)"
      using enters(3) [OF items(1,4,5)] by blast
    have "moved 1 (entered c) c'"
      using "1.IH" [OF enters(1) [OF items(1,4,5)] refl _ y(1) refl _ y(2) refl] items(2,3,6) enters(2) [OF items(1,4,5)]
      by (auto simp: closer_of_def)
    then show ?thesis using moved_entered [OF _ items(1)] by fastforce
  qed
next
  case (2 ch cl c)
  have "items_ok validValue (validItems ch cl) ch cl c c'" using "2.prems" validItems_ok_dom [OF "2.hyps"] by blast
  then show ?case
  proof (cases rule: items_okE)
    case (1 c1 c2)
    have k: "(None, c1) = (if ch = ch_lbrace then validKey c else (None, c))" using 1(3) by (simp split: if_splits)
    have "moved 0 c1 c2" using "2.IH"(1) [OF k refl 1(2)] .
    then have n: "moved 0 c (c_next c2)" using moved_trans [OF moved_trans [OF 1(1)] moved_next] by fastforce
    show ?thesis
      using 1(4) "2.IH"(2) [OF k refl 1(2) [symmetric] refl] moved_trans [OF n] moved_trans [OF n moved_pop] by fastforce
  qed
qed

lemma valid_total: "All validValue_validItems_dom"
proof (relation "measure (\<lambda>x. case x of Inl c \<Rightarrow> 2 * (length (b_src c) - b_p c) | Inr (ch, cl, c) \<Rightarrow> 2 * (length (b_src c) - b_p c) + 1)", goal_cases)
  case 1
  then show ?case by simp
next
  case (2 c x xa y xaa xab ya)
  then show ?case using entering [of c y ya xaa] entered_p [of c] by (auto simp: entered_def)
next
  case (3 ch cl c x y)
  then have "moved 0 c y" using moved_key moved_refl by (auto split: if_splits)
  then show ?case using moved_src [of 0 c y] by (simp add: diff_le_mono2 less_Suc_eq_le)
next
  case (4 ch cl c x y xa ya)
  have m: "moved 0 c y" using 4 moved_key moved_refl by (auto split: if_splits)
  have v: "moved 0 y ya" using valid_dom_moved(1) [of y ya] 4 by simp
  have "c_peek ya = ch_comma" using 4 by simp
  then have p: "b_p ya < length (b_src ya)" by (auto simp: c_peek_def split: if_splits)
  have "b_p ya < b_p (c_next ya)" using SkipWS_ge [of "b_p ya + 1" "b_src ya"] by (simp add: c_next_def)
  then show ?case using moved_src [OF m] moved_src [OF v] p by (auto simp: c_next_def intro!: diff_less_mono2)
qed

termination validValue by (rule valid_total)

declare validValue.simps [simp del] validItems.simps [simp del]

lemma validValue_iff: "validValue c = (None, c') \<longleftrightarrow> value_ok validItems c c'"
  using validValue_ok_dom valid_total by blast

lemma validItems_iff: "validItems ch cl c = (None, c') \<longleftrightarrow> items_ok validValue (validItems ch cl) ch cl c c'"
  using validItems_ok_dom valid_total by blast

lemma valid_moved: "validValue c = (None, c') \<Longrightarrow> moved 0 c c'" "validItems ch cl c = (None, c') \<Longrightarrow> moved 1 c c'"
  using valid_dom_moved valid_total by blast+

section \<open>The entries\<close>

definition skipAt :: "nat \<Rightarrow> bind_state \<Rightarrow> nat \<times> go_error option \<times> bind_state" where
  "skipAt p c =
     (if length (b_src c) \<le> p then at_err p (bind_fail BindErrEOF (word_of_nat p) c)
      else if b_opt c AND BindOptSkipLenient = 0 then
        (case validValue (c\<lparr>b_p := p\<rparr>) of (err, c) \<Rightarrow> (b_p c, err, c))
      else if b_src c ! p = ch_lbrace \<or> b_src c ! p = ch_lbrack then nestedAt (p + 1) False c
      else (case skipToken (c\<lparr>b_p := p\<rparr>) of (err, c) \<Rightarrow> (b_p c, err, c)))"

definition skipValue :: "bind_state \<Rightarrow> go_error option \<times> bind_state" where
  "skipValue c = (case skipAt (b_p c) c of (p, err, c) \<Rightarrow> (err, c\<lparr>b_p := p\<rparr>))"

definition skipChecked :: "bool \<Rightarrow> bind_state \<Rightarrow> go_error option \<times> bind_state" where
  "skipChecked commas c =
     (let p = b_p c in
      case (if length (b_src c) \<le> p then at_err p (bind_fail BindErrEOF (word_of_nat p) c)
            else if b_src c ! p = ch_lbrace \<or> b_src c ! p = ch_lbrack then nestedAt (p + 1) commas c
            else if b_opt c AND BindOptSkipLenient \<noteq> 0 then
              (case skipToken (c\<lparr>b_p := p\<rparr>) of (err, c) \<Rightarrow> (b_p c, err, c))
            else scalarAt p c) of
        (p, err, c) \<Rightarrow> (err, c\<lparr>b_p := p\<rparr>))"

definition rootSkip :: "nat \<Rightarrow> bind_state \<Rightarrow> go_error option \<times> bind_state" where
  "rootSkip start c =
     (if b_opt c AND BindOptSkipLenient = 0 then validValue (c\<lparr>b_p := start\<rparr>)
      else if b_p c = start then skipChecked False c
      else (case nestedAt (b_p c) False c of (p, err, c) \<Rightarrow> (err, c\<lparr>b_p := p\<rparr>)))"

end
