(* ===== verification/Skipped.thy ===== *)
theory Skipped
  imports Skip
begin

text \<open>
  What the skips of \<^verbatim>\<open>internal/gbind/skip.go\<close> pass. The validating skip succeeds on the values of the
  grammar that nest within the bind depth; what it passes the lenient skip passes too, and both end at
  the same token.
\<close>

section \<open>One step of the bracket walk\<close>

lemma skip_scalar: "i < length s \<Longrightarrow> skipClass (s ! i) = SkScalar \<Longrightarrow> skip_loop s strict commas k i = skip_loop s strict commas k (i + 1)"
  by (subst skip_loop.simps) simp

lemma skip_ws: "skip_loop s strict commas k (SkipWS s i) = skip_loop s strict commas k i"
proof (cases "i < length s \<and> is_ws (s ! i)")
  case True
  then have "skipClass (s ! i) = SkWS" by (auto simp: skipClass_def)
  then show ?thesis using True by (simp add: skip_loop.simps [of s strict commas k i] text_skipWS_eq)
next
  case False
  then show ?thesis by (cases "i < length s") (simp_all add: SkipWS_nonws SkipWS_past)
qed

lemma skip_plain:
  assumes "i \<le> j" "j \<le> length s" "list_all plain_byte (cut s i j)"
  shows "skip_loop s strict commas k i = skip_loop s strict commas k j"
  using assms
proof (induction i rule: inc_induct)
  case (step i)
  have c: "cut s i j = s ! i # cut s (Suc i) j" using step.hyps step.prems by (simp add: cut_Cons)
  then have "skipClass (s ! i) = SkScalar" using step.prems by (auto simp: plain_byte_def byteClass_def skipClass_def)
  then show ?case using step c by (simp add: skip_scalar)
qed simp

lemma skip_string:
  assumes "i < length s" "s ! i = ch_quote" "ScanString s (i + 1) = (e, True)" "strict \<longrightarrow> ValidateBody s (i + 1) e"
  shows "skip_loop s strict commas k i = skip_loop s strict commas k (e + 1)"
proof -
  have "text_stringEnd s (i + 1) = e" using ScanString_StringEnd [OF assms(3)] by (simp add: text_stringEnd_eq)
  moreover have "e < length s" using ScanString_ge [OF _ assms(3)] assms(1) by simp
  ultimately show ?thesis using assms by (subst skip_loop.simps) (auto simp: skipClass_def Let_def)
qed

lemma skip_open: "i < length s \<Longrightarrow> s ! i = ch_lbrace \<or> s ! i = ch_lbrack \<Longrightarrow> skip_loop s strict commas k i = skip_loop s strict commas (k + 1) (i + 1)"
  by (subst skip_loop.simps) (auto simp: skipClass_def)

lemma skip_close:
  "i < length s \<Longrightarrow> s ! i = ch_rbrace \<or> s ! i = ch_rbrack \<Longrightarrow>
   skip_loop s strict commas k i = (if k - 1 = 0 then (i + 1, stopClosed) else skip_loop s strict commas (k - 1) (i + 1))"
  by (subst skip_loop.simps) (auto simp: skipClass_def)

lemma skip_comma:
  assumes "i < length s" "s ! i = ch_comma" "At s (SkipWS s (i + 1)) \<notin> {ch_rbrack, ch_rbrace, ch_comma}"
  shows "skip_loop s strict commas k i = skip_loop s strict commas k (SkipWS s (i + 1))"
  using assms by (subst skip_loop.simps) (auto simp: skipClass_def Let_def At_def)

text \<open>The bracket walk goes from one offset to another, at every depth it can be at.\<close>

definition steps_over :: "bytes \<Rightarrow> bool \<Rightarrow> nat \<Rightarrow> nat \<Rightarrow> bool" where
  "steps_over s strict i j \<longleftrightarrow> (\<forall>commas k. 1 \<le> k \<longrightarrow> skip_loop s strict commas k i = skip_loop s strict commas k j)"

lemma steps_trans: "steps_over s strict i j \<Longrightarrow> steps_over s strict j k \<Longrightarrow> steps_over s strict i k"
  by (simp add: steps_over_def)

lemma steps_ws: "steps_over s strict i j \<Longrightarrow> steps_over s strict i (SkipWS s j)"
  by (simp add: steps_over_def skip_ws)

lemma steps_comma:
  "steps_over s strict i j \<Longrightarrow> q = SkipWS s j \<Longrightarrow> q < length s \<Longrightarrow> s ! q = ch_comma \<Longrightarrow>
   At s (SkipWS s (q + 1)) \<notin> {ch_rbrack, ch_rbrace, ch_comma} \<Longrightarrow> steps_over s strict i (SkipWS s (q + 1))"
  using steps_ws [of s strict i j] skip_comma [of q s] by (simp add: steps_over_def)

lemma steps_prim:
  assumes "prim_clean s strict p e" "p < length s"
  shows "steps_over s strict p e"
proof (cases "s ! p = ch_quote")
  case True
  then have "0 < e \<and> ScanString s (p + 1) = (e - 1, True)" using assms prim_at_string [of s p e] by (simp add: prim_clean_def)
  then show ?thesis using skip_string [of p s "e - 1" strict] True assms by (simp add: steps_over_def prim_clean_def)
next
  case False
  then have c: "p < e" "e \<le> length s" "is_number (cut s p e) \<or> cut s p e \<in> {lit ''true'', lit ''false'', lit ''null''}"
    using assms by (auto simp: prim_clean_def prim_at_def)
  then have "list_all plain_byte (cut s p e)" using is_number_plain literals_plain by blast
  then show ?thesis using skip_plain [of p e s] c by (simp add: steps_over_def)
qed

lemma steps_key: "key_at s strict p k d \<Longrightarrow> steps_over s strict p (SkipWS s (d + 1))"
proof -
  assume a: "key_at s strict p k d"
  then have "steps_over s strict p d" using skip_string [of p s k strict] by (simp add: steps_over_def key_at_def skip_ws)
  moreover have "s ! d = ch_colon" "d < length s" using a by (auto simp: key_at_def)
  then have "d < length s" "skipClass (s ! d) = SkScalar" by (simp_all add: skipClass_def)
  then have "steps_over s strict d (d + 1)" by (simp add: steps_over_def skip_scalar)
  ultimately show ?thesis using steps_trans steps_ws by blast
qed

text \<open>A container whose inside the walk goes over is passed, and closed from its own depth.\<close>

definition closes_at :: "bytes \<Rightarrow> bool \<Rightarrow> nat \<Rightarrow> nat \<Rightarrow> bool" where
  "closes_at s strict p e \<longleftrightarrow> (\<forall>commas. skipNested s p strict commas = (e, stopClosed))"

lemma container_passed:
  assumes "p < length s" "s ! p = ch_lbrace \<or> s ! p = ch_lbrack" "steps_over s strict (SkipWS s (p + 1)) q" "q < length s"
    "s ! q = ch_rbrace \<or> s ! q = ch_rbrack"
  shows "steps_over s strict p (q + 1)" "closes_at s strict (p + 1) (q + 1)"
proof -
  have i: "skip_loop s strict commas k (p + 1) = skip_loop s strict commas k q" if "1 \<le> k" for commas k
    using assms(3) that by (simp add: steps_over_def skip_ws)
  show "closes_at s strict (p + 1) (q + 1)"
    using i [of 1] skip_close [OF assms(4,5)] by (simp add: closes_at_def skipNested_def)
  show "steps_over s strict p (q + 1)"
    unfolding steps_over_def
  proof (intro allI impI)
    fix commas and k :: int
    assume "1 \<le> k"
    then show "skip_loop s strict commas k p = skip_loop s strict commas k (q + 1)"
      using skip_open [OF assms(1,2), of strict commas k] i [of "k + 1" commas] skip_close [OF assms(4,5), of strict commas "k + 1"] by simp
  qed
qed

lemma value_start:
  assumes "value_at s d p e"
  shows "At s p \<notin> {ch_rbrack, ch_rbrace, ch_comma}"
  using assms
proof (cases rule: value_at.cases)
  case number
  then have "At s p = ch_minus \<or> IsDigit (At s p)" using number_at_first number_nonempty by blast
  then show ?thesis by (auto simp: IsDigit_iff)
next
  case atom
  then have "At s p \<in> {ch_t, ch_f, ch_n}" using literal_at_first literal_nonempty by blast
  then show ?thesis by auto
qed simp_all

section \<open>What the validating skip accepts\<close>

text \<open>The nesting left below a state.\<close>

definition room :: "bind_state \<Rightarrow> nat" where
  "room c = nat (gbind_maxDepth - b_depth c)"

lemma room_entered: "b_depth c + 1 \<le> gbind_maxDepth \<Longrightarrow> room c = Suc (room (entered c))"
  by (simp add: room_def entered_def)

definition passed_value :: "bind_state \<Rightarrow> bind_state \<Rightarrow> bool" where
  "passed_value c c' \<longleftrightarrow> (\<exists>e. value_at (b_src c) (room c) (b_p c) e \<and> b_p c' = SkipWS (b_src c) e \<and>
     steps_over (b_src c) (b_strict c) (b_p c) e \<and>
     (if b_src c ! b_p c = ch_lbrace \<or> b_src c ! b_p c = ch_lbrack then closes_at (b_src c) (b_strict c) (b_p c + 1) e
      else prim_clean (b_src c) (b_strict c) (b_p c) e))"

definition passed_items :: "byte \<Rightarrow> bind_state \<Rightarrow> bind_state \<Rightarrow> bool" where
  "passed_items ch c c' \<longleftrightarrow> (\<exists>m q. (if ch = ch_lbrace then members_at else elems_at) (b_src c) (room c) (b_p c) m \<and>
     q = SkipWS (b_src c) m \<and> q < length (b_src c) \<and> b_src c ! q = closer_of ch \<and> b_p c' = SkipWS (b_src c) (q + 1) \<and>
     steps_over (b_src c) (b_strict c) (b_p c) q)"

lemma items_start:
  assumes "passed_items ch c c'"
  shows "At (b_src c) (b_p c) \<notin> {ch_rbrack, ch_rbrace, ch_comma}"
proof -
  obtain m where "(if ch = ch_lbrace then members_at else elems_at) (b_src c) (room c) (b_p c) m"
    using assms by (auto simp: passed_items_def)
  then show ?thesis
  proof (cases "ch = ch_lbrace")
    case False
    assume "(if ch = ch_lbrace then members_at else elems_at) (b_src c) (room c) (b_p c) m"
    then have "elems_at (b_src c) (room c) (b_p c) m" using False by simp
    then show ?thesis by (cases rule: elems_at.cases) (use value_start in auto)
  qed (use members_first in auto)
qed

text \<open>The value after a key, or an element, then the next items or the end.\<close>

lemma item_passed:
  assumes "if ch = ch_lbrace then validKey c = (None, c1) else c1 = c" "passed_value c1 c2" "moved 0 c1 c2"
    "ch = ch_lbrace \<or> ch = ch_lbrack"
    "c_peek c2 = ch_comma \<and> passed_items ch (c_next c2) c' \<or> c_peek c2 = closer_of ch \<and> c' = c_pop (c_next c2)"
  shows "passed_items ch c c'"
proof -
  let ?s = "b_src c"
  let ?mk = "\<lambda>p. if ch = ch_lbrace then members_at ?s (room c) p else elems_at ?s (room c) p"
  have c1: "b_src c1 = ?s" "b_strict c1 = b_strict c" "room c1 = room c"
    using assms(1) moved_src [OF moved_key] by (auto simp: room_def split: if_splits)
  have c2: "b_src c2 = ?s" "b_strict c2 = b_strict c" "room c2 = room c" "b_src (c_next c2) = ?s" "room (c_next c2) = room c"
      "b_strict (c_next c2) = b_strict c"
    using moved_src [OF assms(3)] c1 by (simp_all add: c_next_def room_def)
  obtain e where e: "value_at ?s (room c) (b_p c1) e" "b_p c2 = SkipWS ?s e" "steps_over ?s (b_strict c) (b_p c1) e"
    using assms(2) c1 by (auto simp: passed_value_def)
  have o': "steps_over ?s (b_strict c) (b_p c) e"
  proof (cases "ch = ch_lbrace")
    case True
    then obtain k d where "key_at ?s (b_strict c) (b_p c) k d" "b_p c1 = SkipWS ?s (d + 1)" using assms(1) by (auto simp: validKey_iff)
    then show ?thesis using steps_trans [OF steps_key] e(3) by simp
  qed (use assms(1) e(3) in simp)
  have last: "?mk (b_p c) e"
  proof (cases "ch = ch_lbrace")
    case True
    then obtain k d where "key_at ?s (b_strict c) (b_p c) k d" "b_p c1 = SkipWS ?s (d + 1)" using assms(1) by (auto simp: validKey_iff)
    then show ?thesis using True e(1) value_at_elems_at_members_at.member by (auto simp: key_at_def)
  qed (use assms(1) e(1) value_at_elems_at_members_at.elem in auto)
  have more: "?mk (b_p c) m" if "b_p c2 < length ?s" "?s ! b_p c2 = ch_comma" "?mk (SkipWS ?s (b_p c2 + 1)) m" for m
  proof (cases "ch = ch_lbrace")
    case True
    then obtain k d where "key_at ?s (b_strict c) (b_p c) k d" "b_p c1 = SkipWS ?s (d + 1)" using assms(1) by (auto simp: validKey_iff)
    then show ?thesis using True e(1,2) that value_at_elems_at_members_at.member_more by (auto simp: key_at_def)
  qed (use assms(1) e(1,2) that value_at_elems_at_members_at.elem_more in auto)
  have peek: "c_peek c2 = At ?s (b_p c2)" using c2(1) by (simp add: c_peek_At)
  from assms(5) show ?thesis
  proof
    assume a: "c_peek c2 = ch_comma \<and> passed_items ch (c_next c2) c'"
    then have q: "b_p c2 < length ?s" "?s ! b_p c2 = ch_comma" using peek by (auto simp: At_def split: if_splits)
    have nx: "b_p (c_next c2) = SkipWS ?s (b_p c2 + 1)" using c2(1) by (simp add: c_next_def)
    have st: "steps_over ?s (b_strict c) (b_p c) (b_p (c_next c2))"
      using steps_comma [OF o' e(2) q] items_start [OF conjunct2 [OF a]] c2(4) nx by simp
    obtain m where m: "?mk (SkipWS ?s (b_p c2 + 1)) m" "SkipWS ?s m < length ?s" "?s ! SkipWS ?s m = closer_of ch"
        "b_p c' = SkipWS ?s (SkipWS ?s m + 1)" "steps_over ?s (b_strict c) (b_p (c_next c2)) (SkipWS ?s m)"
      using a c2 nx by (auto simp: passed_items_def split: if_splits)
    show ?thesis using more [OF q m(1)] m(2-4) steps_trans [OF st m(5)] by (auto simp: passed_items_def split: if_splits)
  next
    assume a: "c_peek c2 = closer_of ch \<and> c' = c_pop (c_next c2)"
    then have "b_p c2 < length ?s \<and> ?s ! b_p c2 = closer_of ch" using peek by (auto simp: At_def closer_of_def split: if_splits)
    moreover have "b_p c' = SkipWS ?s (b_p c2 + 1)" using a c2(1) by (simp add: c_pop_def c_next_def)
    ultimately show ?thesis using last steps_ws [OF o'] e(2) by (auto simp: passed_items_def split: if_splits)
  qed
qed

lemma passed_empty:
  assumes "b_p c < length (b_src c)" "b_src c ! b_p c = ch" "ch = ch_lbrace \<or> ch = ch_lbrack" "q = SkipWS (b_src c) (b_p c + 1)"
    "At (b_src c) q = closer_of ch" "b_p c' = SkipWS (b_src c) (q + 1)"
  shows "passed_value c c'"
proof -
  have q: "q < length (b_src c)" "b_src c ! q = closer_of ch" using assms(5) by (auto simp: At_def closer_of_def split: if_splits)
  have "value_at (b_src c) (room c) (b_p c) (q + 1)"
    using assms(1-4) q value_at_elems_at_members_at.emptyArr value_at_elems_at_members_at.emptyObj by (auto simp: closer_of_def split: if_splits)
  moreover have "steps_over (b_src c) (b_strict c) (SkipWS (b_src c) (b_p c + 1)) q" using assms(4) by (simp add: steps_over_def)
  from container_passed [OF assms(1) _ this q(1)] have "steps_over (b_src c) (b_strict c) (b_p c) (q + 1)"
      "closes_at (b_src c) (b_strict c) (b_p c + 1) (q + 1)"
    using q(2) assms(2,3) by (auto simp: closer_of_def split: if_splits)
  ultimately show ?thesis using assms(2,3,6) by (auto simp: passed_value_def)
qed

lemma passed_container:
  assumes "b_p c < length (b_src c)" "b_src c ! b_p c = ch" "ch = ch_lbrace \<or> ch = ch_lbrack" "b_depth c + 1 \<le> gbind_maxDepth"
    "passed_items ch (entered c) c'"
  shows "passed_value c c'"
proof -
  have n: "b_src (entered c) = b_src c" "b_strict (entered c) = b_strict c" "b_p (entered c) = SkipWS (b_src c) (b_p c + 1)"
    by (simp_all add: entered_def)
  obtain m q where m: "(if ch = ch_lbrace then members_at else elems_at) (b_src c) (room (entered c)) (SkipWS (b_src c) (b_p c + 1)) m"
      "q = SkipWS (b_src c) m" "q < length (b_src c)" "b_src c ! q = closer_of ch" "b_p c' = SkipWS (b_src c) (q + 1)"
      "steps_over (b_src c) (b_strict c) (SkipWS (b_src c) (b_p c + 1)) q"
    using assms(5) n by (auto simp: passed_items_def)
  have "value_at (b_src c) (room c) (b_p c) (q + 1)"
    unfolding room_entered [OF assms(4)]
    using assms(1-3) m(1-4) value_at_elems_at_members_at.arr value_at_elems_at_members_at.obj by (auto simp: closer_of_def split: if_splits)
  moreover have "steps_over (b_src c) (b_strict c) (b_p c) (q + 1)" "closes_at (b_src c) (b_strict c) (b_p c + 1) (q + 1)"
    using container_passed [OF assms(1) _ m(6,3)] m(4) assms(2,3) by (auto simp: closer_of_def split: if_splits)
  ultimately show ?thesis using assms(2,3) m(5) by (auto simp: passed_value_def)
qed

lemma valid_passed:
  "validValue c = (None, c') \<Longrightarrow> passed_value c c'"
  "validItems ch cl c = (None, c') \<Longrightarrow> ch = ch_lbrace \<or> ch = ch_lbrack \<Longrightarrow> cl = closer_of ch \<Longrightarrow> passed_items ch c c'"
proof (induction c and ch cl c arbitrary: c' and c' rule: validValue_validItems.induct)
  case (1 c)
  have "value_ok validItems c c'" using "1.prems" validValue_iff by blast
  then show ?case
  proof (cases rule: value_okE)
    case (scalar e)
    then have "value_at (b_src c) (room c) (b_p c) e" by (simp add: prim_clean_def prim_at_value)
    then show ?thesis using scalar steps_prim [OF scalar(4,1)] by (auto simp: passed_value_def)
  next
    case (empty ch)
    then show ?thesis by (intro passed_empty) (simp_all add: entered_def)
  next
    case (items ch)
    obtain y where y: "(None, y) = c_push c" "(False, entered c) = c_accept (closer_of ch) (c_next y)"
      using enters(3) [OF items(1,4,5)] by blast
    have "passed_items ch (entered c) c'"
      using "1.IH" [OF enters(1) [OF items(1,4,5)] refl _ y(1) refl _ y(2) refl] items(2,3,6) enters(2) [OF items(1,4,5)]
      by (auto simp: closer_of_def)
    then show ?thesis by (rule passed_container [OF items(1-4)])
  qed
next
  case (2 ch cl c)
  have "items_ok validValue (validItems ch cl) ch cl c c'" using "2.prems" validItems_iff by blast
  then show ?case
  proof (cases rule: items_okE)
    case (1 c1 c2)
    have k: "(None, c1) = (if ch = ch_lbrace then validKey c else (None, c))" using 1(3) by (simp split: if_splits)
    have "passed_value c1 c2" using "2.IH"(1) [OF k refl 1(2)] .
    moreover have "c_peek c2 = ch_comma \<and> passed_items ch (c_next c2) c' \<or> c_peek c2 = closer_of ch \<and> c' = c_pop (c_next c2)"
      using 1(4) "2.IH"(2) [OF k refl 1(2) [symmetric] refl] "2.prems" by blast
    ultimately show ?thesis using item_passed [OF 1(3) _ valid_moved(1) [OF 1(2)]] "2.prems"(2) by blast
  qed
qed

section \<open>What the validating skip is complete for\<close>

lemma value_scalar_ok:
  assumes "b_p c < length (b_src c)" "At (b_src c) (b_p c) \<noteq> ch_lbrace" "At (b_src c) (b_p c) \<noteq> ch_lbrack"
    "prim_at (b_src c) (b_p c) e" "\<not> b_strict c"
  shows "validValue c = (None, c\<lparr>b_p := SkipWS (b_src c) e\<rparr>)"
  using assms by (auto simp: validValue_iff value_ok_def Let_def prim_clean_def)

text \<open>The outcome of a completed walk: the cursor and the containers entered so far.\<close>

definition skips_to :: "int \<Rightarrow> nat \<Rightarrow> (bind_state \<Rightarrow> go_error option \<times> bind_state) \<Rightarrow> bind_state \<Rightarrow> bool" where
  "skips_to k q f c \<longleftrightarrow> (\<exists>n. f c = (None, c\<lparr>b_descents := n, b_depth := b_depth c - k, b_p := q\<rparr>))"

lemma skips_empty:
  assumes "b_p c < length (b_src c)" "b_src c ! b_p c = ch" "ch = ch_lbrace \<or> ch = ch_lbrack" "q = SkipWS (b_src c) (b_p c + 1)"
    "q < length (b_src c)" "b_src c ! q = closer_of ch" "b_depth c < gbind_maxDepth"
  shows "skips_to 0 (SkipWS (b_src c) (q + 1)) validValue c"
proof -
  have "validValue c = (None, c\<lparr>b_descents := b_descents c + 1, b_p := SkipWS (b_src c) (q + 1)\<rparr>)"
    using assms by (auto simp: validValue_iff value_ok_def Let_def entered_def)
  then show ?thesis unfolding skips_to_def by (intro exI [of _ "b_descents c + 1"]) simp
qed

lemma skips_container:
  assumes "b_p c < length (b_src c)" "b_src c ! b_p c = ch" "ch = ch_lbrace \<or> ch = ch_lbrack" "b_depth c < gbind_maxDepth"
    "At (b_src c) (b_p (entered c)) \<noteq> closer_of ch" "skips_to 1 q (validItems ch (closer_of ch)) (entered c)"
  shows "skips_to 0 q validValue c"
proof -
  obtain n where "validItems ch (closer_of ch) (entered c) = (None, (entered c)\<lparr>b_descents := n, b_depth := b_depth (entered c) - 1, b_p := q\<rparr>)"
    using assms(6) by (auto simp: skips_to_def)
  then have "validValue c = (None, (entered c)\<lparr>b_descents := n, b_depth := b_depth (entered c) - 1, b_p := q\<rparr>)"
    using assms(1-5) by (auto simp: validValue_iff value_ok_def Let_def)
  moreover have "(entered c)\<lparr>b_descents := n, b_depth := b_depth (entered c) - 1, b_p := q\<rparr> = c\<lparr>b_descents := n, b_depth := b_depth c - 0, b_p := q\<rparr>"
    by (cases c) (simp add: entered_def)
  ultimately show ?thesis unfolding skips_to_def by metis
qed

lemma skips_item:
  assumes "if ch = ch_lbrace then validKey c = (None, c1) else c1 = c" "skips_to 0 p validValue c1" "c1 = c\<lparr>b_p := r\<rparr>"
    "ch = ch_lbrace \<or> ch = ch_lbrack" "p < length (b_src c)"
  shows "b_src c ! p = closer_of ch \<Longrightarrow> skips_to 1 (SkipWS (b_src c) (p + 1)) (validItems ch (closer_of ch)) c"
    "b_src c ! p = ch_comma \<Longrightarrow> (\<And>d. d = c\<lparr>b_descents := b_descents d, b_p := SkipWS (b_src c) (p + 1)\<rparr> \<Longrightarrow> skips_to 1 q (validItems ch (closer_of ch)) d) \<Longrightarrow>
      skips_to 1 q (validItems ch (closer_of ch)) c"
proof -
  obtain n where n: "validValue c1 = (None, c\<lparr>b_descents := n, b_p := p\<rparr>)"
    using assms(2,3) by (cases c) (auto simp: skips_to_def)
  have pk: "c_peek (c\<lparr>b_descents := n, b_p := p\<rparr>) = b_src c ! p" using assms(5) by (simp add: c_peek_def)
  show "skips_to 1 (SkipWS (b_src c) (p + 1)) (validItems ch (closer_of ch)) c" if "b_src c ! p = closer_of ch"
  proof -
    have "items_ok validValue (validItems ch (closer_of ch)) ch (closer_of ch) c (c_pop (c_next (c\<lparr>b_descents := n, b_p := p\<rparr>)))"
      unfolding items_ok_def using assms(1,4) n pk that by (intro exI [of _ c1] exI [of _ "c\<lparr>b_descents := n, b_p := p\<rparr>"]) (auto simp: closer_of_def)
    then have "validItems ch (closer_of ch) c = (None, c_pop (c_next (c\<lparr>b_descents := n, b_p := p\<rparr>)))"
      by (rule validItems_iff [THEN iffD2])
    moreover have "c_pop (c_next (c\<lparr>b_descents := n, b_p := p\<rparr>)) = c\<lparr>b_descents := n, b_depth := b_depth c - 1, b_p := SkipWS (b_src c) (p + 1)\<rparr>"
      by (cases c) (simp add: c_pop_def c_next_def)
    ultimately show ?thesis unfolding skips_to_def by metis
  qed
  show "skips_to 1 q (validItems ch (closer_of ch)) c" if h: "b_src c ! p = ch_comma"
      "\<And>d. d = c\<lparr>b_descents := b_descents d, b_p := SkipWS (b_src c) (p + 1)\<rparr> \<Longrightarrow> skips_to 1 q (validItems ch (closer_of ch)) d"
  proof -
    let ?d = "c\<lparr>b_descents := n, b_p := SkipWS (b_src c) (p + 1)\<rparr>"
    have d: "c_next (c\<lparr>b_descents := n, b_p := p\<rparr>) = ?d" by (simp add: c_next_def)
    obtain m where m: "validItems ch (closer_of ch) ?d = (None, ?d\<lparr>b_descents := m, b_depth := b_depth ?d - 1, b_p := q\<rparr>)"
      using h(2) [of ?d] by (auto simp: skips_to_def)
    have "items_ok validValue (validItems ch (closer_of ch)) ch (closer_of ch) c (?d\<lparr>b_descents := m, b_depth := b_depth ?d - 1, b_p := q\<rparr>)"
      unfolding items_ok_def using assms(1) n pk h(1) m d by (intro exI [of _ c1] exI [of _ "c\<lparr>b_descents := n, b_p := p\<rparr>"]) auto
    then have "validItems ch (closer_of ch) c = (None, ?d\<lparr>b_descents := m, b_depth := b_depth ?d - 1, b_p := q\<rparr>)"
      by (rule validItems_iff [THEN iffD2])
    moreover have "?d\<lparr>b_descents := m, b_depth := b_depth ?d - 1, b_p := q\<rparr> = c\<lparr>b_descents := m, b_depth := b_depth c - 1, b_p := q\<rparr>"
      by (cases c) simp
    ultimately show ?thesis unfolding skips_to_def by metis
  qed
qed

lemma key_next:
  assumes "b_p c < length (b_src c)" "b_src c ! b_p c = ch_quote" "ScanString (b_src c) (b_p c + 1) = (k, True)"
    "d = SkipWS (b_src c) (k + 1)" "d < length (b_src c)" "b_src c ! d = ch_colon" "\<not> b_strict c"
  shows "validKey c = (None, c\<lparr>b_p := SkipWS (b_src c) (d + 1)\<rparr>)"
  unfolding validKey_iff by (intro exI [of _ k] exI [of _ d]) (use assms in \<open>simp add: key_at_def\<close>)

lemma value_skips:
  "value_at s d p e \<Longrightarrow> b_src c = s \<Longrightarrow> b_p c = p \<Longrightarrow> \<not> b_strict c \<Longrightarrow> int d + b_depth c < gbind_maxDepth \<Longrightarrow>
     \<not> IsNonDelim (At s e) \<Longrightarrow> skips_to 0 (SkipWS s e) validValue c"
  "elems_at s d p m \<Longrightarrow> b_src c = s \<Longrightarrow> b_p c = p \<Longrightarrow> \<not> b_strict c \<Longrightarrow> int d + b_depth c < gbind_maxDepth \<Longrightarrow>
     SkipWS s m < length s \<Longrightarrow> s ! SkipWS s m = ch_rbrack \<Longrightarrow>
     skips_to 1 (SkipWS s (SkipWS s m + 1)) (validItems ch_lbrack (closer_of ch_lbrack)) c"
  "members_at s d p m \<Longrightarrow> b_src c = s \<Longrightarrow> b_p c = p \<Longrightarrow> \<not> b_strict c \<Longrightarrow> int d + b_depth c < gbind_maxDepth \<Longrightarrow>
     SkipWS s m < length s \<Longrightarrow> s ! SkipWS s m = ch_rbrace \<Longrightarrow>
     skips_to 1 (SkipWS s (SkipWS s m + 1)) (validItems ch_lbrace (closer_of ch_lbrace)) c"
proof (induction arbitrary: c and c and c rule: value_at_elems_at_members_at.inducts)
  case (string o' e d)
  then have "prim_at s o' (e + 1)" using prim_at_string [of s o' "e + 1"] by simp
  then show ?case using value_scalar_ok [of c "e + 1"] string by (auto simp: skips_to_def intro!: exI [of _ "b_descents c"])
next
  case (number o' e d)
  then have l: "o' < e" using number_nonempty by blast
  have "At s o' = ch_minus \<or> IsDigit (At s o')" using number number_at_first l by blast
  then have "At s o' \<noteq> ch_lbrace" "At s o' \<noteq> ch_lbrack" by (auto simp: IsDigit_iff)
  moreover have "prim_at s o' e" using number l by (auto simp: prim_at_def)
  ultimately show ?case using value_scalar_ok [of c e] number l by (auto simp: skips_to_def intro!: exI [of _ "b_descents c"])
next
  case (atom o' e d)
  then have l: "o' < e" using literal_nonempty by blast
  then have "prim_at s o' e" "At s o' \<in> {ch_t, ch_f, ch_n}" using atom literal_at_first by (auto simp: prim_at_def)
  then show ?case using value_scalar_ok [of c e] atom l by (auto simp: skips_to_def intro!: exI [of _ "b_descents c"])
next
  case (emptyArr o' p d)
  then show ?case using skips_empty [of c ch_lbrack p] by (simp add: closer_of_def)
next
  case (emptyObj o' p d)
  then show ?case using skips_empty [of c ch_lbrace p] by (simp add: closer_of_def)
next
  case (arr o' d e p)
  have n: "b_src (entered c) = s" "b_p (entered c) = SkipWS s (o' + 1)" "\<not> b_strict (entered c)" "b_depth (entered c) = b_depth c + 1"
    using arr(8-11) by (simp_all add: entered_def)
  have "skips_to 1 (SkipWS s (p + 1)) (validItems ch_lbrack (closer_of ch_lbrack)) (entered c)"
    using arr(4) [OF n(1,2,3)] arr(5-7,11) n(4) by simp
  then show ?case using arr(1,2,8-11) skips_container [of c ch_lbrack] elems_first [OF arr(3)] n by (simp add: closer_of_def)
next
  case (obj o' d e p)
  have n: "b_src (entered c) = s" "b_p (entered c) = SkipWS s (o' + 1)" "\<not> b_strict (entered c)" "b_depth (entered c) = b_depth c + 1"
    using obj(8-11) by (simp_all add: entered_def)
  have "skips_to 1 (SkipWS s (p + 1)) (validItems ch_lbrace (closer_of ch_lbrace)) (entered c)"
    using obj(4) [OF n(1,2,3)] obj(5-7,11) n(4) by simp
  then show ?case using obj(1,2,8-11) skips_container [of c ch_lbrace] members_first [OF obj(3)] n by (simp add: closer_of_def)
next
  case (elem d o' e)
  have "skips_to 0 (SkipWS s e) validValue c"
    using elem(3-8) delim_before_closer [of s e] value_at_bounds(1) [OF elem(1)] by (intro elem(2)) simp_all
  then show ?case using skips_item(1) [of ch_lbrack c c "SkipWS s e" "b_p c"] elem(3-8) by (simp add: closer_of_def)
next
  case (elem_more d o' e q e')
  have v: "skips_to 0 q validValue c"
    using elem_more(2) [of c] elem_more(3-5,8-11) delim_before_closer [of s e] value_at_bounds(1) [OF elem_more(1)] by simp
  have "skips_to 1 (SkipWS s (SkipWS s e' + 1)) (validItems ch_lbrack (closer_of ch_lbrack)) d'"
    if "d' = c\<lparr>b_descents := b_descents d', b_p := SkipWS (b_src c) (q + 1)\<rparr>" for d'
    using elem_more(7) [of d'] elem_more(8-13) that by (cases c; cases d') simp
  then show ?case using skips_item(2) [of ch_lbrack c c q "b_p c"] v elem_more(3-5,8-11) by simp
next
  case (member o' k c' d e)
  have k: "validKey c = (None, c\<lparr>b_p := SkipWS s (c' + 1)\<rparr>)" using key_next [of c k c'] member(1-6,9-11) by simp
  have "skips_to 0 (SkipWS s e) validValue (c\<lparr>b_p := SkipWS s (c' + 1)\<rparr>)"
    using member(9-14) delim_before_closer [of s e] value_at_bounds(1) [OF member(7)] by (intro member(8)) simp_all
  then show ?case using skips_item(1) [of ch_lbrace c _ "SkipWS s e"] k member(9-14) by (simp add: closer_of_def)
next
  case (member_more o' k c' d e q e')
  have k: "validKey c = (None, c\<lparr>b_p := SkipWS s (c' + 1)\<rparr>)" using key_next [of c k c'] member_more(1-6,14-16) by simp
  have v: "skips_to 0 q validValue (c\<lparr>b_p := SkipWS s (c' + 1)\<rparr>)"
    using member_more(8) [of "c\<lparr>b_p := SkipWS s (c' + 1)\<rparr>"] member_more(9-11,14-17) delim_before_closer [of s e] value_at_bounds(1) [OF member_more(7)] by simp
  have "skips_to 1 (SkipWS s (SkipWS s e' + 1)) (validItems ch_lbrace (closer_of ch_lbrace)) d'"
    if "d' = c\<lparr>b_descents := b_descents d', b_p := SkipWS (b_src c) (q + 1)\<rparr>" for d'
    using member_more(13) [of d'] member_more(14-19) that by (cases c; cases d') simp
  then show ?case using skips_item(2) [of ch_lbrace c _ q] k v member_more(9-11,14-17) by simp
qed

section \<open>The lenient skip\<close>

lemma token_prim:
  assumes "prim_at s p e" "p < length s"
  shows "TokenEnd s p = (e, True)"
proof (cases "s ! p = ch_quote")
  case True
  then have "0 < e" "ScanString s (p + 1) = (e - 1, True)" using assms prim_at_string [of s p e] by simp_all
  then show ?thesis using True assms(2) ScanString_StringEnd by (simp add: TokenEnd_def byteClass_def)
next
  case False
  then have c: "p < e" "e \<le> length s" "is_number (cut s p e) \<or> cut s p e \<in> {lit ''true'', lit ''false'', lit ''null''}" "\<not> IsNonDelim (At s e)"
    using assms by (auto simp: prim_at_def)
  have "list_all plain_byte (cut s p e)" using c(3) is_number_plain literals_plain by blast
  then have b: "plain_byte (s ! k)" if "p \<le> k" "k < e" for k using cut_plain c(2) that by blast
  then have "scalarEnd s p = e" using c delim_class [OF c(4)] by (intro scalarEnd_plain) auto
  then show ?thesis using b [of p] c(1,2) by (simp add: TokenEnd_def plain_byte_def)
qed

lemma skipToken_prim:
  assumes "prim_clean (b_src c) (b_strict c) (b_p c) e" "b_p c < length (b_src c)"
  shows "skipToken c = (None, c\<lparr>b_p := SkipWS (b_src c) e\<rparr>)"
  using assms token_prim [of "b_src c" "b_p c" e] by (auto simp: skipToken_def prim_clean_def)

lemma nestedAt_closes: "closes_at (b_src c) (b_strict c) p e \<Longrightarrow> nestedAt p commas c = (SkipWS (b_src c) e, None, c)"
  by (simp add: closes_at_def nestedAt_def)

lemma lenient_on: "(w OR BindOptSkipLenient) AND BindOptSkipLenient \<noteq> 0"
proof
  assume "(w OR BindOptSkipLenient) AND BindOptSkipLenient = 0"
  then have "bit ((w OR BindOptSkipLenient) AND BindOptSkipLenient) 6 = bit (0 :: u32) 6" by simp
  then show False by (simp add: BindOptSkipLenient_def bit_simps)
qed

lemma lenient_skips:
  assumes "b_p c < length (b_src c)" "b_opt c AND BindOptSkipLenient \<noteq> 0"
    "if b_src c ! b_p c = ch_lbrace \<or> b_src c ! b_p c = ch_lbrack then closes_at (b_src c) (b_strict c) (b_p c + 1) e
     else prim_clean (b_src c) (b_strict c) (b_p c) e"
  shows "skipValue c = (None, c\<lparr>b_p := SkipWS (b_src c) e\<rparr>)" "skipChecked commas c = (None, c\<lparr>b_p := SkipWS (b_src c) e\<rparr>)"
  using assms nestedAt_closes [of c "b_p c + 1" e] skipToken_prim [of c e]
  by (auto simp: skipValue_def skipAt_def skipChecked_def Let_def split: if_splits)

lemma validValue_start: "validValue c = (None, c') \<Longrightarrow> b_p c < length (b_src c)"
  by (simp add: validValue_iff value_ok_def)

section \<open>Properties\<close>

text \<open>
  Claim C11. \<open>validValue\<close>, the default skip of the bind engine, succeeds only on a JSON value that nests within the
  255 containers the engine allows, at which it leaves the cursor on the next token and the depth as it was;
  and it succeeds on every JSON value that fits there when the strict scan is off.
\<close>

theorem validValue_grammar:
  "(\<forall>c'. validValue c = (None, c') \<longrightarrow>
      (\<exists>e. value_at (b_src c) (nat (gbind_maxDepth - b_depth c)) (b_p c) e \<and> b_p c' = SkipWS (b_src c) e \<and> b_depth c' = b_depth c)) \<and>
   (\<forall>d e. value_at (b_src c) d (b_p c) e \<longrightarrow> \<not> IsNonDelim (At (b_src c) e) \<longrightarrow> \<not> b_strict c \<longrightarrow> int d + b_depth c < gbind_maxDepth \<longrightarrow>
      (\<exists>n. validValue c = (None, c\<lparr>b_descents := n, b_p := SkipWS (b_src c) e\<rparr>)))"
proof (intro conjI allI impI)
  fix c' assume v: "validValue c = (None, c')"
  show "\<exists>e. value_at (b_src c) (nat (gbind_maxDepth - b_depth c)) (b_p c) e \<and> b_p c' = SkipWS (b_src c) e \<and> b_depth c' = b_depth c"
    using valid_passed(1) [OF v] moved_src [OF valid_moved(1) [OF v]] by (auto simp: passed_value_def room_def)
next
  fix d e
  assume "value_at (b_src c) d (b_p c) e" "\<not> IsNonDelim (At (b_src c) e)" "\<not> b_strict c" "int d + b_depth c < gbind_maxDepth"
  then have "skips_to 0 (SkipWS (b_src c) e) validValue c" by (intro value_skips(1)) simp_all
  then show "\<exists>n. validValue c = (None, c\<lparr>b_descents := n, b_p := SkipWS (b_src c) e\<rparr>)"
    by (simp add: skips_to_def)
qed

definition skip_sample :: bind_state where
  "skip_sample = \<lparr>b_src = lit ''[1,{}] 2'', b_p = 0, b_opt = 0, b_depth = 0, b_descents = 0, b_strict = True, b_mismatch = False,
     b_mismatchPos = 0, b_mismatchType = 0, b_rootType = 0, b_info = \<lparr>e_Kind = 0, e_Pos = 0, e_TypeIdx = 0\<rparr>\<rparr>"

lemma skip_sample_ok: "validValue skip_sample = (None, skip_sample\<lparr>b_descents := 2, b_p := 7\<rparr>)"
  by code_simp

theorem validValue_grammar_witness:
  "\<exists>e. value_at (lit ''[1,{}] 2'') 255 0 e \<and> SkipWS (lit ''[1,{}] 2'') e = 7"
proof -
  have "\<exists>e. value_at (b_src skip_sample) (nat (gbind_maxDepth - b_depth skip_sample)) (b_p skip_sample) e \<and>
      b_p (skip_sample\<lparr>b_descents := 2, b_p := 7\<rparr>) = SkipWS (b_src skip_sample) e \<and>
      b_depth (skip_sample\<lparr>b_descents := 2, b_p := 7\<rparr>) = b_depth skip_sample"
    using validValue_grammar [of skip_sample] skip_sample_ok by blast
  then show ?thesis by (auto simp: skip_sample_def gbind_maxDepth_def)
qed

text \<open>
  Claim C10. What the validating skip passes, under either scan policy, the lenient skip passes too, whether or not it
  checks commas, and both leave the cursor on the same token.
\<close>

theorem skips_agree:
  assumes "b_opt c AND BindOptSkipLenient = 0" "skipValue c = (None, c')"
  shows "let l = c\<lparr>b_opt := b_opt c OR BindOptSkipLenient\<rparr> in
    skipValue l = (None, l\<lparr>b_p := b_p c'\<rparr>) \<and> skipChecked commas l = (None, l\<lparr>b_p := b_p c'\<rparr>)"
proof -
  have "b_p c < length (b_src c)" using assms(2) by (auto simp: skipValue_def skipAt_def at_err_def bind_fail_def split: if_splits)
  then have v: "validValue c = (None, c')" using assms by (auto simp: skipValue_def skipAt_def split: prod.splits)
  obtain e where e: "b_p c' = SkipWS (b_src c) e"
      "if b_src c ! b_p c = ch_lbrace \<or> b_src c ! b_p c = ch_lbrack then closes_at (b_src c) (b_strict c) (b_p c + 1) e
       else prim_clean (b_src c) (b_strict c) (b_p c) e"
    using valid_passed(1) [OF v] by (auto simp: passed_value_def)
  let ?l = "c\<lparr>b_opt := b_opt c OR BindOptSkipLenient\<rparr>"
  show ?thesis
    using lenient_skips(1) [of ?l e] lenient_skips(2) [of ?l e commas] validValue_start [OF v] lenient_on [of "b_opt c"] e by (simp add: Let_def cong: if_cong)
qed

theorem skips_agree_witness:
  "skipValue (skip_sample\<lparr>b_opt := 0 OR BindOptSkipLenient\<rparr>) = (None, skip_sample\<lparr>b_opt := 0 OR BindOptSkipLenient, b_p := 7\<rparr>)"
proof -
  have "skipValue skip_sample = (None, skip_sample\<lparr>b_descents := 2, b_p := 7\<rparr>)" by code_simp
  from skips_agree [OF _ this, of True] show ?thesis by (simp add: skip_sample_def Let_def)
qed

end
